(* ===== verification/Prelude.thy ===== *)
theory Prelude
  imports Main "HOL-Library.Word" "HOL-Library.Sublist"
begin

unbundle bit_operations_syntax

text \<open>
  Shared vocabulary of the development. A byte of the program (\<^verbatim>\<open>char\<close>,
  \<^verbatim>\<open>unsigned char\<close>, \<^verbatim>\<open>uint8_t\<close>) is an \<^typ>\<open>8 word\<close>; a \<^verbatim>\<open>StringPiece\<close> or
  \<^verbatim>\<open>std::string\<close> is the list of its bytes; \<^verbatim>\<open>uint32_t\<close> and \<^verbatim>\<open>uint64_t\<close> are words of
  their width. A C++ exception is a value of \<open>error\<close> and a function that may throw
  returns \<open>error + 'a\<close>, the exception on the left. The program's errors keep
  the names of the exception classes of \<^verbatim>\<open>src/util/exception.hh\<close>,
  \<^verbatim>\<open>src/util/file_piece.hh\<close>, \<^verbatim>\<open>src/util/utf8.hh\<close>, \<^verbatim>\<open>src/util/probing_hash_table.hh\<close>,
  \<^verbatim>\<open>src/util/compress.hh\<close> and \<^verbatim>\<open>src/util/tokenize_piece.hh\<close>; the others are exceptions of the
  standard library, and \<open>OutOfBounds\<close> stands for an access outside the memory a pointer may
  address, which the language leaves undefined.
\<close>

type_synonym byte = "8 word"
type_synonym bytes = "8 word list"
type_synonym u16 = "16 word"
type_synonym u32 = "32 word"
type_synonym u64 = "64 word"

datatype error =
    Exception
  | EndOfFileException
  | ErrnoException
  | FDException
  | NotUTF8Exception
  | ParseNumberException
  | ProbingSizeException
  | OutOfTokens
  | LengthError
  | OutOfRange
  | CompressedException
  | GZException
  | BZException
  | XZException
  | BadAlloc
  | RuntimeError
  | OutOfBounds

type_synonym 'a result = "error + 'a"

named_theorems byte_simps \<open>rewriting bytes and words to arithmetic on \<open>nat\<close>\<close>
named_theorems scan_simps \<open>the library's searches over a list of bytes\<close>

abbreviation newline :: byte where "newline \<equiv> 10"
abbreviation carriage_return :: byte where "carriage_return \<equiv> 13"
abbreviation tab :: byte where "tab \<equiv> 9"
abbreviation space :: byte where "space \<equiv> 32"

text \<open>A C string literal as bytes.\<close>

definition lit :: "string \<Rightarrow> bytes" where
  "lit s = map of_char s"

subsection \<open>The C++ searches\<close>

text \<open>
  \<^verbatim>\<open>std::find(begin, end, c)\<close> returns the position of the first occurrence, or
  \<^verbatim>\<open>end\<close>: the index of it, or the length of the range. \<^verbatim>\<open>std::find_if\<close> generalises it.
\<close>

primrec find_if :: "('a \<Rightarrow> bool) \<Rightarrow> 'a list \<Rightarrow> nat" where
  "find_if p [] = 0"
| "find_if p (x # xs) = (if p x then 0 else Suc (find_if p xs))"

definition std_find :: "'a \<Rightarrow> 'a list \<Rightarrow> nat" where
  "std_find c xs = find_if (\<lambda>x. x = c) xs"

lemma find_if_le [simp]: "find_if p xs \<le> length xs"
  by (induction xs) auto

lemma find_if_less_iff [scan_simps]: "find_if p xs < length xs \<longleftrightarrow> (\<exists>x\<in>set xs. p x)"
  by (induction xs) auto

lemma find_if_eq_length_iff [scan_simps]: "find_if p xs = length xs \<longleftrightarrow> (\<forall>x\<in>set xs. \<not> p x)"
  by (induction xs) auto

lemma find_if_nth: "find_if p xs < length xs \<Longrightarrow> p (xs ! find_if p xs)"
  by (induction xs) auto

lemma find_if_before: "k < find_if p xs \<Longrightarrow> \<not> p (xs ! k)"
  by (induction xs arbitrary: k) (auto simp: nth_Cons split: nat.splits if_splits)

lemma take_find_if [simp]: "take (find_if p xs) xs = takeWhile (\<lambda>x. \<not> p x) xs"
  by (induction xs) auto

lemma drop_find_if [simp]: "drop (find_if p xs) xs = dropWhile (\<lambda>x. \<not> p x) xs"
  by (induction xs) auto

lemma find_if_append [scan_simps]:
  "find_if p (xs @ ys) =
     (if \<exists>x\<in>set xs. p x then find_if p xs else length xs + find_if p ys)"
  by (induction xs) auto

lemma std_find_le [simp]: "std_find c xs \<le> length xs"
  by (simp add: std_find_def)

lemma std_find_less_iff [scan_simps]: "std_find c xs < length xs \<longleftrightarrow> c \<in> set xs"
  by (simp add: std_find_def find_if_less_iff)

lemma std_find_eq_length_iff [scan_simps]: "std_find c xs = length xs \<longleftrightarrow> c \<notin> set xs"
  by (auto simp: std_find_def find_if_eq_length_iff)

lemma std_find_nth: "c \<in> set xs \<Longrightarrow> xs ! std_find c xs = c"
  using find_if_nth [of "\<lambda>x. x = c" xs] by (simp add: std_find_def scan_simps)

lemma take_std_find [simp]: "take (std_find c xs) xs = takeWhile (\<lambda>x. x \<noteq> c) xs"
  by (simp add: std_find_def)

lemma drop_std_find [simp]: "drop (std_find c xs) xs = dropWhile (\<lambda>x. x \<noteq> c) xs"
  by (simp add: std_find_def)

lemma std_find_Nil [simp]: "std_find c [] = 0"
  by (simp add: std_find_def)

lemma std_find_Cons [simp]: "std_find c (x # xs) = (if x = c then 0 else Suc (std_find c xs))"
  by (simp add: std_find_def)

subsection \<open>Bytes as numbers\<close>

lemma unat_byte_less [simp]: "unat (c :: byte) < 256"
  using unsigned_less [of c] by simp

subsection \<open>Results\<close>

lemma map_sum_eq_Inr [simp]: "map_sum f g r = Inr y \<longleftrightarrow> (\<exists>x. r = Inr x \<and> y = g x)"
  by (cases r) auto

lemma map_sum_eq_Inl [simp]: "map_sum f g r = Inl y \<longleftrightarrow> (\<exists>x. r = Inl x \<and> y = f x)"
  by (cases r) auto

subsection \<open>Decimal numerals\<close>

text \<open>The decimal numeral of a number and the number of a string of digits, as the C library has them.\<close>

definition isdigit :: "byte \<Rightarrow> bool" where
  "isdigit c \<longleftrightarrow> 48 \<le> c \<and> c \<le> 57"

definition digit_value :: "byte \<Rightarrow> nat" where
  "digit_value c = unat c - 48"

definition dec_value :: "bytes \<Rightarrow> nat" where
  "dec_value = foldl (\<lambda>n c. 10 * n + digit_value c) 0"

fun dec :: "nat \<Rightarrow> bytes" where
  "dec n = (if n < 10 then [of_nat (48 + n)] else dec (n div 10) @ [of_nat (48 + n mod 10)])"

declare dec.simps [simp del]

lemma isdigit_of_nat: "n < 10 \<Longrightarrow> isdigit (of_nat (48 + n))"
  by (simp add: isdigit_def word_le_nat_alt unat_of_nat del: of_nat_add)

lemma digit_value_of_nat: "n < 10 \<Longrightarrow> digit_value (of_nat (48 + n)) = n"
  by (simp add: digit_value_def unat_of_nat del: of_nat_add)

lemma dec_value_snoc [simp]: "dec_value (ds @ [d]) = 10 * dec_value ds + digit_value d"
  by (simp add: dec_value_def)

lemma dec_value_Nil [simp]: "dec_value [] = 0"
  by (simp add: dec_value_def)

lemma dec_value_dec [simp]: "dec_value (dec n) = n"
proof (induction n rule: dec.induct)
  case (1 n)
  show ?case
  proof (cases "n < 10")
    case True
    then show ?thesis
      using dec_value_snoc [of "[]"] by (simp add: dec.simps [of n] digit_value_of_nat del: of_nat_add)
  next
    case False
    then show ?thesis
      using 1 digit_value_of_nat [of "n mod 10"] by (simp add: dec.simps [of n] del: of_nat_add)
  qed
qed

lemma dec_digits: "c \<in> set (dec n) \<Longrightarrow> isdigit c"
proof (induction n rule: dec.induct)
  case (1 n)
  then show ?case
    using isdigit_of_nat [of n] isdigit_of_nat [of "n mod 10"]
    by (cases "n < 10") (auto simp: dec.simps [of n] simp del: of_nat_add)
qed

lemma dec_not_Nil [simp]: "dec n \<noteq> []"
  by (subst dec.simps) simp

subsection \<open>Lists\<close>

lemma takeWhile_append_stop [simp]:
  "\<forall>x\<in>set xs. P x \<Longrightarrow> ys = [] \<or> \<not> P (hd ys) \<Longrightarrow> takeWhile P (xs @ ys) = xs"
  by (cases ys) (auto simp: takeWhile_append takeWhile_eq_Nil_iff)

text \<open>A list cut at the elements that satisfy a predicate: always at least one part.\<close>

function split_if :: "('a \<Rightarrow> bool) \<Rightarrow> 'a list \<Rightarrow> 'a list list" where
  "split_if p s =
     (if \<exists>c\<in>set s. p c then takeWhile (\<lambda>c. \<not> p c) s # split_if p (tl (dropWhile (\<lambda>c. \<not> p c) s)) else [s])"
  by pat_completeness auto
termination
proof (relation "measure (length \<circ> snd)")
  fix p and s :: "'a list"
  assume "\<exists>c\<in>set s. p c"
  then have "length (tl (dropWhile (\<lambda>c. \<not> p c) s)) < length s"
    using length_dropWhile_le [of "\<lambda>c. \<not> p c" s] by (cases s) (auto simp: less_Suc_eq_le)
  then show "((p, tl (dropWhile (\<lambda>c. \<not> p c) s)), p, s) \<in> measure (length \<circ> snd)" by simp
qed simp

declare split_if.simps [simp del]

abbreviation split_on :: "'a \<Rightarrow> 'a list \<Rightarrow> 'a list list" where
  "split_on d \<equiv> split_if (\<lambda>c. c = d)"

lemma split_if_not_Nil: "split_if p s \<noteq> []"
  by (subst split_if.simps) simp

lemma split_if_Nil [simp]: "split_if p [] = [[]]"
  by (subst split_if.simps) simp

lemma split_if_find:
  "split_if p s =
     (if find_if p s < length s then take (find_if p s) s # split_if p (drop (find_if p s + 1) s) else [s])"
proof -
  have "tl (dropWhile (\<lambda>c. \<not> p c) s) = drop (find_if p s + 1) s"
    by (metis Suc_eq_plus1 drop_Suc drop_find_if tl_drop)
  then show ?thesis
    by (subst split_if.simps) (simp add: scan_simps)
qed

end
