(* ===== verification/Base64.thy ===== *)
theory Base64
  imports Prelude
begin

text \<open>
  \<^verbatim>\<open>src/preprocess/base64.cc\<close>: the document codec that \<^verbatim>\<open>b64filter\<close>, \<^verbatim>\<open>docenc\<close> and the
  \<^verbatim>\<open>*_base64\<close> tools share. The accumulator \<^verbatim>\<open>val\<close> is an \<^verbatim>\<open>int\<close>, modelled as a \<^typ>\<open>32 word\<close>
  whose left shift wraps and whose right shift is arithmetic; \<^verbatim>\<open>valb\<close> is an \<^typ>\<open>int\<close>.
  The reference is RFC 4648, three bytes at a time.
\<close>

subsection \<open>Tables\<close>

definition TABLE :: bytes where
  "TABLE = lit ''ABCDEFGHIJKLMNOPQRSTUVWXYZabcdefghijklmnopqrstuvwxyz0123456789+/''"

text \<open>
  The initializer list as the compiler reads it. The eighth row of the source ends
  without a comma, so its last \<^verbatim>\<open>-1\<close> and the first \<^verbatim>\<open>-1\<close> of the ninth row form the one
  expression \<^verbatim>\<open>-1 - 1\<close>: entry 127 is \<open>-2\<close>, every later row moves down by one, and
  entry 255 has no initializer and is 0.
\<close>

definition INV_TABLE :: "int list" where
  "INV_TABLE = [
    -1, -1, -1, -1, -1, -1, -1, -1, -1, -1, -1, -1, -1, -1, -1, -1,
    -1, -1, -1, -1, -1, -1, -1, -1, -1, -1, -1, -1, -1, -1, -1, -1,
    -1, -1, -1, -1, -1, -1, -1, -1, -1, -1, -1, 62, -1, -1, -1, 63,
    52, 53, 54, 55, 56, 57, 58, 59, 60, 61, -1, -1, -1, -1, -1, -1,
    -1,  0,  1,  2,  3,  4,  5,  6,  7,  8,  9, 10, 11, 12, 13, 14,
    15, 16, 17, 18, 19, 20, 21, 22, 23, 24, 25, -1, -1, -1, -1, -1,
    -1, 26, 27, 28, 29, 30, 31, 32, 33, 34, 35, 36, 37, 38, 39, 40,
    41, 42, 43, 44, 45, 46, 47, 48, 49, 50, 51, -1, -1, -1, -1, -1
    -1, -1, -1, -1, -1, -1, -1, -1, -1, -1, -1, -1, -1, -1, -1, -1,
    -1, -1, -1, -1, -1, -1, -1, -1, -1, -1, -1, -1, -1, -1, -1, -1,
    -1, -1, -1, -1, -1, -1, -1, -1, -1, -1, -1, -1, -1, -1, -1, -1,
    -1, -1, -1, -1, -1, -1, -1, -1, -1, -1, -1, -1, -1, -1, -1, -1,
    -1, -1, -1, -1, -1, -1, -1, -1, -1, -1, -1, -1, -1, -1, -1, -1,
    -1, -1, -1, -1, -1, -1, -1, -1, -1, -1, -1, -1, -1, -1, -1, -1,
    -1, -1, -1, -1, -1, -1, -1, -1, -1, -1, -1, -1, -1, -1, -1, -1,
    -1, -1, -1, -1, -1, -1, -1, -1, -1, -1, -1, -1, -1, -1, -1, -1] @ [0]"

abbreviation equals_sign :: byte where "equals_sign \<equiv> 61"

subsection \<open>Decoding\<close>

text \<open>
  \<^verbatim>\<open>count_padding\<close>: the loop over \<^verbatim>\<open>i\<close> from 1 to \<^verbatim>\<open>in.size()\<close>. The counter is an \<^verbatim>\<open>int32_t\<close>, which is
  compared as a \<^verbatim>\<open>size_t\<close>. Its overflow has no defined result. Where it wraps to \<open>- 2 ^ 31\<close> it is as a
  \<^verbatim>\<open>size_t\<close> more than any size, and the loop ends; this is what the definition does, and the
  statements about the result are for inputs on which it does not overflow.
\<close>

function count_padding_from :: "bytes \<Rightarrow> int \<Rightarrow> nat" where
  "count_padding_from xs i =
     (if i \<le> int (length xs)
      then (if xs ! (length xs - nat i) \<noteq> equals_sign then nat (i - 1)
            else if i = 2147483647 then length xs
            else count_padding_from xs (i + 1))
      else length xs)"
  by pat_completeness auto
termination
  by (relation "measure (\<lambda>(xs, i). nat (int (length xs) + 1 - i))") auto

definition count_padding :: "bytes \<Rightarrow> nat" where
  "count_padding xs = count_padding_from xs 1"

text \<open>
  \<^verbatim>\<open>std::string::reserve\<close> throws \<^verbatim>\<open>std::length_error\<close> above \<^verbatim>\<open>max_size()\<close>, which in
  libstdc++ on a 64-bit target is \<open>2 ^ 63 - 2\<close>. The amount is computed in \<^verbatim>\<open>size_t\<close>.
\<close>

definition string_max_size :: u64 where
  "string_max_size = 0x7ffffffffffffffe"

definition reserve :: "u64 \<Rightarrow> unit result" where
  "reserve n = (if n > string_max_size then Inl LengthError else Inr ())"

definition decode_reserve :: "bytes \<Rightarrow> u64" where
  "decode_reserve xs = of_nat (length xs) * 3 div 4 - of_nat (count_padding xs)"

fun decode_loop :: "bytes \<Rightarrow> u32 \<Rightarrow> int \<Rightarrow> bytes \<Rightarrow> bytes result" where
  "decode_loop [] val valb out = Inr out"
| "decode_loop (c # cs) val valb out =
     (if c = equals_sign then Inr out
      else if INV_TABLE ! unat c = -1 then Inl Exception
      else
        let val = push_bit 6 val + word_of_int (INV_TABLE ! unat c);
            valb = valb + 6
        in if valb \<ge> 0
           then decode_loop cs val (valb - 8)
                  (out @ [ucast (signed_drop_bit (nat valb) val AND 0xFF)])
           else decode_loop cs val valb out)"

definition base64_decode :: "bytes \<Rightarrow> bytes result" where
  "base64_decode xs =
     (case reserve (decode_reserve xs) of
        Inl e \<Rightarrow> Inl e
      | Inr _ \<Rightarrow> decode_loop xs 0 (-8) [])"

subsection \<open>Encoding\<close>

text \<open>The inner \<^verbatim>\<open>while (valb >= 0)\<close>.\<close>

function encode_emit :: "u32 \<Rightarrow> int \<Rightarrow> bytes \<Rightarrow> bytes \<times> int" where
  "encode_emit val valb out =
     (if valb \<ge> 0
      then encode_emit val (valb - 6) (out @ [TABLE ! unat (signed_drop_bit (nat valb) val AND 0x3F)])
      else (out, valb))"
  by pat_completeness auto
termination
  by (relation "measure (\<lambda>(val, valb, out). nat (valb + 6))") auto

fun encode_loop :: "bytes \<Rightarrow> u32 \<Rightarrow> int \<Rightarrow> bytes \<Rightarrow> u32 \<times> int \<times> bytes" where
  "encode_loop [] val valb out = (val, valb, out)"
| "encode_loop (c # cs) val valb out =
     (let val = push_bit 8 val + ucast c;
          (out, valb) = encode_emit val (valb + 8) out
      in encode_loop cs val valb out)"

text \<open>The final \<^verbatim>\<open>while (out.size() % 4)\<close>.\<close>

function encode_pad :: "bytes \<Rightarrow> bytes" where
  "encode_pad out = (if length out mod 4 \<noteq> 0 then encode_pad (out @ [equals_sign]) else out)"
  by pat_completeness auto
termination
proof (relation "measure (\<lambda>out. 3 * length out mod 4)")
  fix out :: bytes
  assume "length out mod 4 \<noteq> 0"
  then have "3 * Suc (length out) mod 4 < 3 * length out mod 4"
    by presburger
  then show "(out @ [equals_sign], out) \<in> measure (\<lambda>out. 3 * length out mod 4)"
    by simp
qed simp

definition base64_encode :: "bytes \<Rightarrow> bytes" where
  "base64_encode xs =
     (let (val, valb, out) = encode_loop xs 0 (-6) [];
          out = (if valb > -6
                 then out @ [TABLE ! unat (signed_drop_bit (nat (valb + 8)) (push_bit 8 val) AND 0x3F)]
                 else out)
      in encode_pad out)"

declare count_padding_from.simps [simp del]
declare encode_emit.simps [simp del]
declare encode_pad.simps [simp del]

subsection \<open>RFC 4648, the reference\<close>

fun rfc4648_encode :: "bytes \<Rightarrow> bytes" where
  "rfc4648_encode [] = []"
| "rfc4648_encode [a] =
     [TABLE ! (unat a div 4), TABLE ! (unat a mod 4 * 16), equals_sign, equals_sign]"
| "rfc4648_encode [a, b] =
     [TABLE ! (unat a div 4), TABLE ! (unat a mod 4 * 16 + unat b div 16),
      TABLE ! (unat b mod 16 * 4), equals_sign]"
| "rfc4648_encode (a # b # c # xs) =
     TABLE ! (unat a div 4) # TABLE ! (unat a mod 4 * 16 + unat b div 16) #
     TABLE ! (unat b mod 16 * 4 + unat c div 64) # TABLE ! (unat c mod 64) #
     rfc4648_encode xs"

subsection \<open>The accumulator as a natural number\<close>

text \<open>
  A field of at most \<open>32 - n\<close> bits at bit \<open>n\<close> of the accumulator does not see the
  overflow or the sign: it is the field of the natural number that was shifted in.
\<close>

lemma unat_field_of_nat:
  assumes "n + k \<le> 32"
  shows "unat (signed_drop_bit n (of_nat x :: u32) AND mask k) = x div 2 ^ n mod 2 ^ k"
proof -
  have "signed_drop_bit n (of_nat x :: u32) AND mask k = of_nat (take_bit k (drop_bit n x))"
    by (rule bit_word_eqI) (use assms in \<open>auto simp: bit_simps bit_of_nat_iff_bit\<close>)
  moreover have "take_bit k (drop_bit n x) < 2 ^ 32"
    using order.strict_trans2 [OF take_bit_nat_less_exp, of k "2 ^ 32"] assms
    by (simp add: power_increasing [of k 32 "2 :: nat", simplified])
  ultimately show ?thesis
    by (simp add: unat_of_nat take_bit_eq_mod drop_bit_eq_div)
qed

lemma unat_sextet: "n \<le> 26 \<Longrightarrow> unat (signed_drop_bit n (of_nat x :: u32) AND 0x3F) = x div 2 ^ n mod 64"
  using unat_field_of_nat [of n 6 x] by (simp add: mask_eq_exp_minus_1)

lemma octet_eq:
  assumes "n \<le> 24"
  shows "ucast (signed_drop_bit n (of_nat x :: u32) AND 0xFF) = (of_nat (x div 2 ^ n) :: byte)"
proof -
  have "unat (signed_drop_bit n (of_nat x :: u32) AND 0xFF) = x div 2 ^ n mod 256"
    using unat_field_of_nat [of n 8 x] assms by (simp add: mask_eq_exp_minus_1)
  then have "unat (ucast (signed_drop_bit n (of_nat x :: u32) AND 0xFF) :: byte) = x div 2 ^ n mod 256"
    by (simp add: unsigned_ucast_eq take_bit_eq_mod)
  then show ?thesis
    by (simp add: word_unat_eq_iff unat_of_nat)
qed

lemma val_shift8: "push_bit 8 (of_nat x) + ucast (c :: byte) = (of_nat (x * 256 + unat c) :: u32)"
  by (simp add: push_bit_eq_mult)

lemma val_shift6: "push_bit 6 (of_nat x) + word_of_int (int i) = (of_nat (x * 64 + i) :: u32)"
  by (simp add: push_bit_eq_mult)

lemma mod_mult_split: "s < d \<Longrightarrow> (y * d + s) mod (m * d) = y mod m * d + (s :: nat)"
  using mod_mult2_eq [of "y * d + s" d m] by (simp add: mult.commute)

lemma div_mult_split: "0 < d \<Longrightarrow> (y * (q * d) + b) div d = y * q + b div (d :: nat)"
  by (simp add: mult.assoc [symmetric])

subsection \<open>The encoder is RFC 4648\<close>

lemma encode_emit_neg: "valb < 0 \<Longrightarrow> encode_emit val valb out = (out, valb)"
  by (simp add: encode_emit.simps)

lemma encode_emit_nonneg:
  assumes "0 \<le> valb" and "valb \<le> 26"
  shows "encode_emit (of_nat x) valb out =
           encode_emit (of_nat x) (valb - 6) (out @ [TABLE ! (x div 2 ^ nat valb mod 64)])"
  using assms unat_sextet [of "nat valb" x] by (subst encode_emit.simps) simp

lemmas encode_emits = encode_emit_neg encode_emit_nonneg

lemma encode_pad_aligned: "length out mod 4 = 0 \<Longrightarrow> encode_pad out = out"
  by (simp add: encode_pad.simps)

lemma encode_pad_unaligned:
  "length out mod 4 \<noteq> 0 \<Longrightarrow> encode_pad out = encode_pad (out @ [equals_sign])"
  by (subst encode_pad.simps) simp

lemma encode_pad_3:
  assumes "length out mod 4 = 0"
  shows "encode_pad (out @ [p, q, r]) = out @ [p, q, r, equals_sign]"
proof -
  have "length (out @ [p, q, r]) mod 4 \<noteq> 0" and "length (out @ [p, q, r, equals_sign]) mod 4 = 0"
    using assms by (simp_all only: length_append list.size) presburger+
  then show ?thesis
    by (simp add: encode_pad_unaligned encode_pad_aligned)
qed

lemma encode_pad_2:
  assumes "length out mod 4 = 0"
  shows "encode_pad (out @ [p, q]) = out @ [p, q, equals_sign, equals_sign]"
proof -
  have "length (out @ [p, q]) mod 4 \<noteq> 0"
    using assms by (simp only: length_append list.size) presburger
  then show ?thesis
    using encode_pad_3 [OF assms, of p q equals_sign] by (simp add: encode_pad_unaligned)
qed

lemmas encode_pads = encode_pad_aligned encode_pad_2 encode_pad_3

lemma encode_loop_step:
  "encode_loop (c # cs) (of_nat x) valb out =
     (case encode_emit (of_nat (x * 256 + unat c)) (valb + 8) out of
        (out, valb) \<Rightarrow> encode_loop cs (of_nat (x * 256 + unat c)) valb out)"
  by (simp only: encode_loop.simps Let_def val_shift8)

lemma unat_sextet_shifted:
  "n \<le> 26 \<Longrightarrow> unat (signed_drop_bit n (push_bit 8 (of_nat x :: u32)) AND 0x3F) = x * 256 div 2 ^ n mod 64"
  using unat_sextet [of n "x * 256"] by (simp add: push_bit_eq_mult)

definition encode_finish :: "u32 \<times> int \<times> bytes \<Rightarrow> bytes" where
  "encode_finish = (\<lambda>(val, valb, out).
     encode_pad (if valb > -6
                 then out @ [TABLE ! unat (signed_drop_bit (nat (valb + 8)) (push_bit 8 val) AND 0x3F)]
                 else out))"

text \<open>
  One step of the loop in each of its three phases: \<open>valb\<close> is \<open>-6\<close>, \<open>-4\<close>, \<open>-2\<close> and
  back to \<open>-6\<close>, and what is emitted depends on the last one or two bytes only.
\<close>

lemma encode_phase1:
  "encode_loop (a # cs) (of_nat x) (-6) out =
     encode_loop cs (of_nat (x * 256 + unat a)) (-4) (out @ [TABLE ! (unat a div 4)])"
proof -
  have "(x * 256 + unat a) div 4 = x * 64 + unat a div 4"
    using div_mult_split [of 4 x 64 "unat a"] by simp
  moreover have "unat a div 4 < 64"
    using unat_byte_less [of a] by linarith
  ultimately have "(x * 256 + unat a) div 4 mod 64 = unat a div 4"
    by simp
  then show ?thesis
    by (simp add: encode_loop_step encode_emits del: of_nat_add of_nat_mult encode_loop.simps(2))
qed

lemma encode_phase2:
  "encode_loop (b # cs) (of_nat x) (-4) out =
     encode_loop cs (of_nat (x * 256 + unat b)) (-2) (out @ [TABLE ! (x mod 4 * 16 + unat b div 16)])"
proof -
  have "(x * 256 + unat b) div 16 = x * 16 + unat b div 16"
    using div_mult_split [of 16 x 16 "unat b"] by simp
  moreover have "unat b div 16 < 16"
    using unat_byte_less [of b] by linarith
  ultimately have "(x * 256 + unat b) div 16 mod 64 = x mod 4 * 16 + unat b div 16"
    using mod_mult_split [of "unat b div 16" 16 x 4] by simp
  then show ?thesis
    by (simp add: encode_loop_step encode_emits del: of_nat_add of_nat_mult encode_loop.simps(2))
qed

lemma encode_phase3:
  "encode_loop (c # cs) (of_nat x) (-2) out =
     encode_loop cs (of_nat (x * 256 + unat c)) (-6)
       (out @ [TABLE ! (x mod 16 * 4 + unat c div 64), TABLE ! (unat c mod 64)])"
proof -
  have "(x * 256 + unat c) div 64 = x * 4 + unat c div 64"
    using div_mult_split [of 64 x 4 "unat c"] by simp
  moreover have "unat c div 64 < 4"
    using unat_byte_less [of c] by linarith
  ultimately have "(x * 256 + unat c) div 64 mod 64 = x mod 16 * 4 + unat c div 64"
    using mod_mult_split [of "unat c div 64" 4 x 16] by simp
  moreover have "(x * 256 + unat c) mod 64 = unat c mod 64"
    by (simp add: mod_add_eq [symmetric])
  ultimately show ?thesis
    by (simp add: encode_loop_step encode_emits del: of_nat_add of_nat_mult encode_loop.simps(2))
qed

lemma mod_last_byte:
  "(x * 256 + unat (a :: byte)) mod 4 = unat a mod 4"
  "(x * 256 + unat (a :: byte)) mod 16 = unat a mod 16"
  by (simp_all add: mod_add_eq [symmetric])

lemmas encode_phases = encode_phase1 encode_phase2 encode_phase3 mod_last_byte

lemma encode_finish_phase2:
  assumes "length out mod 4 = 0"
  shows "encode_finish (of_nat x, -4, out @ [p]) =
           out @ [p, TABLE ! (x mod 4 * 16), equals_sign, equals_sign]"
proof -
  have "x * 256 div 16 mod 64 = x mod 4 * 16"
    using mod_mult_split [of 0 16 x 4] by (simp add: mult.commute)
  then show ?thesis
    using assms by (simp add: encode_finish_def unat_sextet_shifted encode_pads)
qed

lemma encode_finish_phase3:
  assumes "length out mod 4 = 0"
  shows "encode_finish (of_nat x, -2, out @ [p, q]) = out @ [p, q, TABLE ! (x mod 16 * 4), equals_sign]"
proof -
  have "x * 256 div 64 mod 64 = x mod 16 * 4"
    using mod_mult_split [of 0 4 x 16] by (simp add: mult.commute)
  then show ?thesis
    using assms by (simp add: encode_finish_def unat_sextet_shifted encode_pads)
qed

lemma encode_finish_encode_loop:
  "length out mod 4 = 0 \<Longrightarrow> encode_finish (encode_loop xs (of_nat x) (-6) out) = out @ rfc4648_encode xs"
proof (induction xs arbitrary: x out rule: rfc4648_encode.induct)
  case 1
  then show ?case by (simp add: encode_finish_def encode_pads)
next
  case (2 a)
  then show ?case
    unfolding encode_phases encode_loop.simps(1) by (simp only: encode_finish_phase2 mod_last_byte rfc4648_encode.simps)
next
  case (3 a b)
  then show ?case
    unfolding encode_phases encode_loop.simps(1) append_assoc append.simps
    by (simp only: encode_finish_phase3 mod_last_byte rfc4648_encode.simps)
next
  case (4 a b c xs)
  let ?q = "[TABLE ! (unat a div 4), TABLE ! (unat a mod 4 * 16 + unat b div 16),
             TABLE ! (unat b mod 16 * 4 + unat c div 64), TABLE ! (unat c mod 64)]"
  have "length (out @ ?q) mod 4 = 0"
    using "4.prems" by simp
  then show ?case
    unfolding encode_phases append_assoc append.simps
    by (simp only: "4.IH" append_assoc append.simps rfc4648_encode.simps)
qed

lemma base64_encode_eq: "base64_encode xs = rfc4648_encode xs"
  using encode_finish_encode_loop [of "[]" xs 0]
  by (simp add: base64_encode_def encode_finish_def split_beta Let_def)

text \<open>
  C31. The encoder's bit accumulator computes RFC 4648: on every input the output of
  \<^verbatim>\<open>base64_encode\<close> is the concatenation of the four-character groups of the standard,
  with its padding. The overflow of the 32-bit accumulator never shows.
\<close>

theorem base64_encode_rfc4648: "base64_encode xs = rfc4648_encode xs"
  by (rule base64_encode_eq)

subsection \<open>The tables are inverse to each other\<close>

lemma TABLE_eq:
  "TABLE = [65, 66, 67, 68, 69, 70, 71, 72, 73, 74, 75, 76, 77, 78, 79, 80, 81, 82, 83, 84, 85, 86,
     87, 88, 89, 90, 97, 98, 99, 100, 101, 102, 103, 104, 105, 106, 107, 108, 109, 110, 111, 112,
     113, 114, 115, 116, 117, 118, 119, 120, 121, 122, 48, 49, 50, 51, 52, 53, 54, 55, 56, 57, 43, 47]"
  by (simp add: TABLE_def lit_def)

lemma INV_TABLE_TABLE_all:
  "list_all2 (\<lambda>t i. INV_TABLE ! unat t = i \<and> t \<noteq> equals_sign) TABLE [0..63]"
  unfolding TABLE_eq INV_TABLE_def by (simp add: upto_rec1)

lemma length_TABLE: "length TABLE = 64"
  by (simp add: TABLE_eq)

lemma INV_TABLE_TABLE [simp]:
  assumes "i < 64"
  shows "INV_TABLE ! unat (TABLE ! i) = int i" and "TABLE ! i \<noteq> equals_sign"
  using assms list_all2_nthD [OF INV_TABLE_TABLE_all, of i] by (simp_all add: length_TABLE)

text \<open>Which bytes the decoder takes: the 64 of the alphabet and, by the missing comma, two more.\<close>

lemma slice_all:
  assumes "list_all P (take k (drop l xs))" and "l \<le> n" and "n < l + k" and "n < length xs"
  shows "P (xs ! n)"
proof -
  have "take k (drop l xs) ! (n - l) = xs ! n"
    using assms by simp
  moreover have "n - l < length (take k (drop l xs))"
    using assms by auto
  ultimately show ?thesis
    using assms(1) by (metis list_all_length)
qed

lemma INV_TABLE_refused:
  "list_all (\<lambda>x. x = -1) (take 43 (drop 0 INV_TABLE))"
  "list_all (\<lambda>x. x = -1) (take 3 (drop 44 INV_TABLE))"
  "list_all (\<lambda>x. x = -1) (take 7 (drop 58 INV_TABLE))"
  "list_all (\<lambda>x. x = -1) (take 6 (drop 91 INV_TABLE))"
  "list_all (\<lambda>x. x = -1) (take 4 (drop 123 INV_TABLE))"
  "list_all (\<lambda>x. x = -1) (take 127 (drop 128 INV_TABLE))"
  by (simp_all add: INV_TABLE_def)

lemma INV_TABLE_taken:
  "list_all (\<lambda>x. x \<noteq> -1) (take 1 (drop 43 INV_TABLE))"
  "list_all (\<lambda>x. x \<noteq> -1) (take 11 (drop 47 INV_TABLE))"
  "list_all (\<lambda>x. x \<noteq> -1) (take 26 (drop 65 INV_TABLE))"
  "list_all (\<lambda>x. x \<noteq> -1) (take 26 (drop 97 INV_TABLE))"
  "list_all (\<lambda>x. x \<noteq> -1) (take 1 (drop 127 INV_TABLE))"
  "list_all (\<lambda>x. x \<noteq> -1) (take 1 (drop 255 INV_TABLE))"
  by (simp_all add: INV_TABLE_def)

lemma length_INV_TABLE: "length INV_TABLE = 256"
  by (simp add: INV_TABLE_def)

lemma INV_TABLE_accepts_nat:
  assumes "n < 256"
  shows "INV_TABLE ! n \<noteq> -1 \<longleftrightarrow>
     n = 43 \<or> n \<in> {47..<58} \<or> n \<in> {65..<91} \<or> n \<in> {97..<123} \<or> n = 127 \<or> n = 255"
proof -
  note taken = INV_TABLE_taken [THEN slice_all, of n, unfolded length_INV_TABLE]
    and refused = INV_TABLE_refused [THEN slice_all, of n, unfolded length_INV_TABLE]
  consider "n < 43" | "n = 43" | "44 \<le> n" "n < 47" | "47 \<le> n" "n < 58" | "58 \<le> n" "n < 65"
    | "65 \<le> n" "n < 91" | "91 \<le> n" "n < 97" | "97 \<le> n" "n < 123" | "123 \<le> n" "n < 127" | "n = 127"
    | "128 \<le> n" "n < 255" | "n = 255"
    using assms by linarith
  then show ?thesis
  proof cases
    case 1 with refused(1) assms show ?thesis by force
  next
    case 2 with taken(1) assms show ?thesis by force
  next
    case 3 with refused(2) assms show ?thesis by force
  next
    case 4 with taken(2) assms show ?thesis by force
  next
    case 5 with refused(3) assms show ?thesis by force
  next
    case 6 with taken(3) assms show ?thesis by force
  next
    case 7 with refused(4) assms show ?thesis by force
  next
    case 8 with taken(4) assms show ?thesis by force
  next
    case 9 with refused(5) assms show ?thesis by force
  next
    case 10 with taken(5) assms show ?thesis by force
  next
    case 11 with refused(6) assms show ?thesis by force
  next
    case 12 with taken(6) assms show ?thesis by force
  qed
qed

lemma set_TABLE_nat:
  "unat ` set TABLE = {43} \<union> {47..<58} \<union> {65..<91} \<union> {97..<123}"
proof -
  have "map unat TABLE = [65..<91] @ [97..<123] @ [48..<58] @ [43, 47]"
    by (simp add: TABLE_eq)
  then have "set (map unat TABLE) = set ([65..<91] @ [97..<123] @ [48..<58] @ [43, 47])"
    by (rule arg_cong)
  moreover have "{48..<58} \<union> {43, 47} = {43} \<union> {47..<58 :: nat}"
    by auto
  ultimately show ?thesis
    unfolding set_map set_append set_upt list.set by blast
qed

lemma INV_TABLE_accepts:
  "INV_TABLE ! unat c \<noteq> -1 \<longleftrightarrow> c \<in> set TABLE \<or> c = 127 \<or> c = 255"
proof -
  have "INV_TABLE ! unat c \<noteq> -1 \<longleftrightarrow> unat c \<in> unat ` set TABLE \<or> unat c = 127 \<or> unat c = 255"
    unfolding INV_TABLE_accepts_nat [OF unat_byte_less] set_TABLE_nat by blast
  also have "unat c \<in> unat ` set TABLE \<longleftrightarrow> c \<in> set TABLE"
    by (rule inj_image_mem_iff) (simp add: inj_def word_unat_eq_iff)
  also have "unat c = 127 \<longleftrightarrow> c = 127"
    by (simp add: word_unat_eq_iff)
  also have "unat c = 255 \<longleftrightarrow> c = 255"
    by (simp add: word_unat_eq_iff)
  finally show ?thesis .
qed

subsection \<open>The decoder inverts the encoder\<close>

lemma decode_loop_step:
  assumes "i < 64"
  shows "decode_loop (TABLE ! i # cs) (of_nat x) valb out =
           (if valb + 6 \<ge> 0
            then decode_loop cs (of_nat (x * 64 + i)) (valb - 2)
                   (out @ [ucast (signed_drop_bit (nat (valb + 6)) (of_nat (x * 64 + i) :: u32) AND 0xFF)])
            else decode_loop cs (of_nat (x * 64 + i)) (valb + 6) out)"
  using assms val_shift6 [of x i] by (simp add: Let_def del: of_nat_add of_nat_mult of_int_of_nat_eq)

lemma decode_phase1:
  "i < 64 \<Longrightarrow> decode_loop (TABLE ! i # cs) (of_nat x) (-8) out = decode_loop cs (of_nat (x * 64 + i)) (-2) out"
  by (simp add: decode_loop_step del: of_nat_add of_nat_mult decode_loop.simps)

lemma decode_phase2:
  assumes "j < 64"
  shows "decode_loop (TABLE ! j # cs) (of_nat x) (-2) out =
     decode_loop cs (of_nat (x * 64 + j)) (-4) (out @ [of_nat (x * 4 + j div 16)])"
proof -
  have "(x * 64 + j) div 16 = x * 4 + j div 16"
    using div_mult_split [of 16 x 4 j] by simp
  with assms show ?thesis
    by (simp add: decode_loop_step octet_eq del: of_nat_add of_nat_mult decode_loop.simps)
qed

lemma decode_phase3:
  assumes "k < 64"
  shows "decode_loop (TABLE ! k # cs) (of_nat x) (-4) out =
     decode_loop cs (of_nat (x * 64 + k)) (-6) (out @ [of_nat (x * 16 + k div 4)])"
proof -
  have "(x * 64 + k) div 4 = x * 16 + k div 4"
    using div_mult_split [of 4 x 16 k] by simp
  with assms show ?thesis
    by (simp add: decode_loop_step octet_eq del: of_nat_add of_nat_mult decode_loop.simps)
qed

lemma decode_phase4:
  assumes "l < 64"
  shows "decode_loop (TABLE ! l # cs) (of_nat x) (-6) out =
     decode_loop cs (of_nat (x * 64 + l)) (-8) (out @ [of_nat (x * 64 + l)])"
  using assms octet_eq [of 0 "x * 64 + l"]
  by (simp add: decode_loop_step del: of_nat_add of_nat_mult decode_loop.simps)

lemmas decode_phases = decode_phase1 decode_phase2 decode_phase3 decode_phase4

lemma of_nat_byte_eqI:
  assumes "n = m * 256 + unat c"
  shows "(of_nat n :: byte) = c"
proof -
  have "unat (of_nat n :: byte) = n mod 256"
    by (simp add: unat_of_nat)
  then show ?thesis
    by (simp add: word_unat_eq_iff assms del: of_nat_add of_nat_mult)
qed

lemma decode_loop_padding: "decode_loop (equals_sign # cs) val valb out = Inr out"
  by simp

lemma decoded_bytes:
  fixes a b c :: byte
  shows "(of_nat ((x * 64 + unat a div 4) * 4 + (unat a mod 4 * 16 + unat b div 16) div 16) :: byte) = a"
    and "(of_nat (((x * 64 + unat a div 4) * 64 + (unat a mod 4 * 16 + unat b div 16)) * 16
            + (unat b mod 16 * 4 + unat c div 64) div 4) :: byte) = b"
    and "(of_nat ((((x * 64 + unat a div 4) * 64 + (unat a mod 4 * 16 + unat b div 16)) * 64
            + (unat b mod 16 * 4 + unat c div 64)) * 64 + unat c mod 64) :: byte) = c"
proof -
  have b16: "unat b div 16 < 16" and c64: "unat c div 64 < 4"
    using unat_byte_less [of b] unat_byte_less [of c] by linarith+
  have "unat a = unat a div 4 * 4 + unat a mod 4"
    by simp
  then have "(x * 64 + unat a div 4) * 4 + (unat a mod 4 * 16 + unat b div 16) div 16 = x * 256 + unat a"
    using b16 by simp
  then show "(of_nat ((x * 64 + unat a div 4) * 4 + (unat a mod 4 * 16 + unat b div 16) div 16) :: byte) = a"
    by (rule of_nat_byte_eqI)
  let ?p = "x * 64 + unat a div 4"
  have "(unat b mod 16 * 4 + unat c div 64) div 4 = unat b mod 16"
    using c64 by simp
  moreover have "(p * 64 + (a0 * 16 + b1)) * 16 + b0 = (p * 4 + a0) * 256 + (b1 * 16 + b0)" for p a0 b1 b0 :: nat
    by simp
  ultimately have "(?p * 64 + (unat a mod 4 * 16 + unat b div 16)) * 16 + (unat b mod 16 * 4 + unat c div 64) div 4
          = (?p * 4 + unat a mod 4) * 256 + unat b"
    by (simp only: div_mult_mod_eq)
  then show "(of_nat ((?p * 64 + (unat a mod 4 * 16 + unat b div 16)) * 16
            + (unat b mod 16 * 4 + unat c div 64) div 4) :: byte) = b"
    by (rule of_nat_byte_eqI)
  let ?q = "?p * 64 + (unat a mod 4 * 16 + unat b div 16)"
  have "(q * 64 + (b0 * 4 + c1)) * 64 + c0 = (q * 16 + b0) * 256 + (c1 * 64 + c0)" for q b0 c1 c0 :: nat
    by simp
  then have "(?q * 64 + (unat b mod 16 * 4 + unat c div 64)) * 64 + unat c mod 64
          = (?q * 16 + unat b mod 16) * 256 + unat c"
    by (simp only: div_mult_mod_eq)
  then show "(of_nat ((?q * 64 + (unat b mod 16 * 4 + unat c div 64)) * 64 + unat c mod 64) :: byte) = c"
    by (rule of_nat_byte_eqI)
qed

lemma quad_bounds [simp]:
  fixes a b c :: byte
  shows "unat a div 4 < 64" and "unat a mod 4 * 16 + unat b div 16 < 64" and "unat a mod 4 * 16 < 64"
    and "unat b mod 16 * 4 + unat c div 64 < 64" and "unat b mod 16 * 4 < 64" and "unat c mod 64 < 64"
  using unat_byte_less [of a] unat_byte_less [of b] unat_byte_less [of c] by linarith+

lemma decode_loop_rfc4648:
  "decode_loop (rfc4648_encode xs) (of_nat x) (-8) out = Inr (out @ xs)"
proof (induction xs arbitrary: x out rule: rfc4648_encode.induct)
  case 1
  then show ?case by simp
next
  case (2 a)
  show ?case
    using decoded_bytes(1) [of x a 0]
    by (simp add: decode_phases decode_loop_padding del: of_nat_add of_nat_mult decode_loop.simps)
next
  case (3 a b)
  show ?case
    using decoded_bytes(1) [of x a b] decoded_bytes(2) [of x a b 0]
    by (simp only: rfc4648_encode.simps decode_phases quad_bounds decode_loop_padding unat_0 div_0 add_0_right
        append_assoc append.simps)
next
  case (4 a b c xs)
  show ?case
    unfolding rfc4648_encode.simps
    by (simp only: decode_phases quad_bounds decoded_bytes "4.IH" append_assoc append.simps)
qed

text \<open>The number of \<^verbatim>\<open>=\<close> at the end, which the loop counts as long as \<^verbatim>\<open>i\<close> does not overflow.\<close>

definition trailing_padding :: "bytes \<Rightarrow> nat" where
  "trailing_padding xs = length (takeWhile (\<lambda>c. c = equals_sign) (rev xs))"

lemma count_padding_from_eq:
  "i \<le> length xs \<Longrightarrow> i + length (takeWhile (\<lambda>c. c = equals_sign) (drop i (rev xs))) < 2147483647 \<Longrightarrow>
     count_padding_from xs (int i + 1) = i + length (takeWhile (\<lambda>c. c = equals_sign) (drop i (rev xs)))"
proof (induction "length xs - i" arbitrary: i)
  case 0
  then show ?case by (simp add: count_padding_from.simps)
next
  case (Suc k)
  then have i: "i < length xs" by simp
  then have d: "drop i (rev xs) = xs ! (length xs - Suc i) # drop (Suc i) (rev xs)"
    by (simp add: Cons_nth_drop_Suc [symmetric] rev_nth)
  have at: "nat (int i + 1) = Suc i" "nat (1 + int i) = Suc i" by simp_all
  show ?case
  proof (cases "xs ! (length xs - Suc i) = equals_sign")
    case True
    have "count_padding_from xs (int (Suc i) + 1) = Suc i + length (takeWhile (\<lambda>c. c = equals_sign) (drop (Suc i) (rev xs)))"
      by (rule Suc.hyps(1)) (use Suc.hyps(2) Suc.prems(2) i True d in simp_all)
    moreover have "i \<noteq> 2147483646" using Suc.prems(2) True d by auto
    ultimately show ?thesis
      using i True d by (subst count_padding_from.simps) (simp add: at add.commute)
  next
    case False
    then show ?thesis
      using i d by (subst count_padding_from.simps) (simp add: at)
  qed
qed

lemma count_padding_eq:
  "trailing_padding xs < 2 ^ 31 - 1 \<Longrightarrow> count_padding xs = trailing_padding xs"
  using count_padding_from_eq [of 0 xs] by (simp add: count_padding_def trailing_padding_def)

lemma trailing_padding_append:
  "d \<noteq> equals_sign \<Longrightarrow> trailing_padding (xs @ d # ys) = trailing_padding (d # ys)"
  by (simp add: trailing_padding_def takeWhile_append)

lemma rfc4648_encode_ends:
  "xs \<noteq> [] \<Longrightarrow> \<exists>ys i. i < 64 \<and> rfc4648_encode xs = ys @ TABLE ! i # replicate ((3 - length xs mod 3) mod 3) equals_sign"
proof (induction xs rule: rfc4648_encode.induct)
  case 1
  then show ?case by simp
next
  case (2 a)
  show ?case
    by (rule exI [of _ "[TABLE ! (unat a div 4)]"], rule exI [of _ "unat a mod 4 * 16"]) (simp add: numeral_2_eq_2)
next
  case (3 a b)
  show ?case
    by (rule exI [of _ "[TABLE ! (unat a div 4), TABLE ! (unat a mod 4 * 16 + unat b div 16)]"],
        rule exI [of _ "unat b mod 16 * 4"]) simp
next
  case (4 a b c xs)
  let ?q = "[TABLE ! (unat a div 4), TABLE ! (unat a mod 4 * 16 + unat b div 16),
             TABLE ! (unat b mod 16 * 4 + unat c div 64)]"
  show ?case
  proof (cases "xs = []")
    case True
    then show ?thesis
      by (intro exI [of _ ?q] exI [of _ "unat c mod 64"]) simp
  next
    case False
    with "4.IH" obtain ys i where "i < 64"
      and eq: "rfc4648_encode xs = ys @ TABLE ! i # replicate ((3 - length xs mod 3) mod 3) equals_sign"
      by blast
    moreover have "length (a # b # c # xs) mod 3 = length xs mod 3"
      by simp
    ultimately show ?thesis
      by (intro exI [of _ "?q @ TABLE ! (unat c mod 64) # ys"] exI [of _ i]) simp
  qed
qed

lemma length_rfc4648_encode: "length (rfc4648_encode xs) = 4 * ((length xs + 2) div 3)"
  by (induction xs rule: rfc4648_encode.induct) (simp_all, presburger)

lemma count_padding_rfc4648: "count_padding (rfc4648_encode xs) = (3 - length xs mod 3) mod 3"
proof (cases "xs = []")
  case True
  then show ?thesis by (simp add: count_padding_eq trailing_padding_def)
next
  case False
  then obtain ys i where "i < 64"
    and "rfc4648_encode xs = ys @ TABLE ! i # replicate ((3 - length xs mod 3) mod 3) equals_sign"
    using rfc4648_encode_ends by blast
  then have p: "trailing_padding (rfc4648_encode xs) = (3 - length xs mod 3) mod 3"
    by (simp add: trailing_padding_def takeWhile_append)
  then have "trailing_padding (rfc4648_encode xs) < 3" by simp
  then show ?thesis using p count_padding_eq [of "rfc4648_encode xs"] by simp
qed

lemma decode_reserve_eq:
  assumes "length xs < 2 ^ 60" and "count_padding xs \<le> length xs * 3 div 4"
  shows "decode_reserve xs = of_nat (length xs * 3 div 4 - count_padding xs)"
proof -
  have "length xs * 3 < 2 ^ 64"
    using assms(1) by simp
  then have "(of_nat (length xs) * 3 :: u64) div 4 = of_nat (length xs * 3 div 4)"
    by (simp add: word_unat_eq_iff unat_div_distrib unat_word_ariths unat_of_nat)
  then show ?thesis
    using assms(2) by (simp add: decode_reserve_def of_nat_diff)
qed

lemma reserve_of_nat:
  assumes "n < 2 ^ 63 - 1"
  shows "reserve (of_nat n) = Inr ()"
  using assms by (simp add: reserve_def string_max_size_def word_less_nat_alt unat_of_nat)

lemma padded_length:
  fixes n :: nat
  shows "3 * ((n + 2) div 3) = n + (3 - n mod 3) mod 3"
proof -
  define q r where "q = n div 3" and "r = n mod 3"
  then have n: "n = 3 * q + r" and r: "r < 3"
    by simp_all
  from r consider "r = 0" | "r = 1" | "r = 2" by linarith
  moreover have "n mod 3 = r"
    by (simp add: r_def)
  ultimately show ?thesis
    by cases (simp_all add: n)
qed

lemma reserve_encoded:
  assumes "length xs < 2 ^ 59"
  shows "decode_reserve (rfc4648_encode xs) = of_nat (length xs)"
proof -
  have "length (rfc4648_encode xs) < 2 ^ 60"
    using assms by (simp add: length_rfc4648_encode)
  moreover have "length (rfc4648_encode xs) * 3 div 4 = 3 * ((length xs + 2) div 3)"
    by (simp add: length_rfc4648_encode)
  ultimately show ?thesis
    using decode_reserve_eq [of "rfc4648_encode xs"] padded_length [of "length xs"]
    by (simp add: count_padding_rfc4648 del: of_nat_diff)
qed

text \<open>
  C3. Decoding what the encoder wrote gives the document back, and the \<^verbatim>\<open>reserve\<close> of the
  decoder asks for exactly the document's length. The hypothesis keeps \<^verbatim>\<open>in.size() * 3\<close>
  inside \<^verbatim>\<open>size_t\<close>.
\<close>

theorem base64_roundtrip:
  assumes "length xs < 2 ^ 59"
  shows "base64_decode (base64_encode xs) = Inr xs \<and>
         decode_reserve (base64_encode xs) = of_nat (length xs)"
  using assms decode_loop_rfc4648 [of xs 0 "[]"]
  by (simp add: base64_encode_eq base64_decode_def reserve_encoded reserve_of_nat)

theorem base64_roundtrip_witness:
  "base64_encode (lit ''light wo'') = lit ''bGlnaHQgd28='' \<and>
   base64_decode (lit ''bGlnaHQgd28='') = Inr (lit ''light wo'')"
proof -
  have "base64_encode (lit ''light wo'') = lit ''bGlnaHQgd28=''"
    by (simp add: base64_encode_eq lit_def TABLE_eq)
  then show ?thesis
    using base64_roundtrip [of "lit ''light wo''"] by (simp add: lit_def)
qed

subsection \<open>What the decoder refuses\<close>

lemma decode_loop_error:
  "decode_loop cs val valb out = Inl e \<longleftrightarrow>
     e = Exception \<and> (\<exists>c\<in>set (takeWhile (\<lambda>c. c \<noteq> equals_sign) cs). INV_TABLE ! unat c = -1)"
proof (induction cs arbitrary: val valb out)
  case Nil
  then show ?case by simp
next
  case (Cons c cs)
  show ?case
  proof (cases "c = equals_sign \<or> INV_TABLE ! unat c = -1")
    case True
    then show ?thesis by auto
  next
    case False
    then show ?thesis by (simp add: Let_def Cons.IH)
  qed
qed

lemma unat_decode_reserve_wrap:
  assumes "length xs < 2 ^ 60" and "length xs * 3 div 4 < count_padding xs" and pad: "count_padding xs \<le> length xs"
  shows "reserve (decode_reserve xs) = Inl LengthError"
proof -
  have "length xs * 3 < 2 ^ 64"
    using assms(1) by simp
  then have q: "(of_nat (length xs) * 3 :: u64) div 4 = of_nat (length xs * 3 div 4)"
    by (simp add: word_unat_eq_iff unat_div_distrib unat_word_ariths unat_of_nat)
  let ?k = "count_padding xs - length xs * 3 div 4"
  have k: "0 < ?k" "?k < 2 ^ 60"
    using assms pad by simp_all
  have "decode_reserve xs = - of_nat ?k"
    using assms(2) by (simp add: decode_reserve_def q of_nat_diff)
  also have "\<dots> = of_nat (2 ^ 64 - ?k)"
    using k(2) by (subst of_nat_diff) simp_all
  finally show ?thesis
    using k by (simp add: reserve_def string_max_size_def word_less_nat_alt unat_of_nat del: of_nat_diff)
qed

text \<open>
  C37. The error behaviour of \<^verbatim>\<open>base64_decode\<close> on every input of less than \<open>2 ^ 60\<close> bytes on which the
  counter of \<^verbatim>\<open>count_padding\<close> does not overflow, that is, with fewer than \<open>2 ^ 31 - 1\<close> trailing \<^verbatim>\<open>=\<close>: it throws
  \<^verbatim>\<open>std::length_error\<close> exactly when there are more trailing \<^verbatim>\<open>=\<close> than three quarters of the
  input (the amount to reserve wraps around), otherwise \<^verbatim>\<open>util::Exception\<close> exactly when
  a byte before the first \<^verbatim>\<open>=\<close> is neither of the alphabet nor one of the two bytes
  0x7f and 0xff that the shifted table lets through, and otherwise it returns.
\<close>

theorem base64_decode_errors:
  assumes "length xs < 2 ^ 60" and "trailing_padding xs < 2 ^ 31 - 1"
  shows "base64_decode xs = Inl e \<longleftrightarrow>
     (if length xs * 3 div 4 < trailing_padding xs then e = LengthError
      else e = Exception \<and>
        (\<exists>c\<in>set (takeWhile (\<lambda>c. c \<noteq> equals_sign) xs). c \<notin> set TABLE \<union> {127, 255}))"
proof (cases "length xs * 3 div 4 < trailing_padding xs")
  case True
  have "count_padding xs = trailing_padding xs" "trailing_padding xs \<le> length xs"
    using count_padding_eq [OF assms(2)] length_takeWhile_le [of _ "rev xs"] by (simp_all add: trailing_padding_def)
  with assms(1) True show ?thesis
    by (auto simp: base64_decode_def unat_decode_reserve_wrap)
next
  case False
  with assms(1) count_padding_eq [OF assms(2)] have "reserve (decode_reserve xs) = Inr ()"
    using decode_reserve_eq [of xs] reserve_of_nat [of "length xs * 3 div 4 - count_padding xs"]
    by (simp del: of_nat_diff)
  moreover have "INV_TABLE ! unat c = -1 \<longleftrightarrow> c \<notin> set TABLE \<union> {127, 255}" for c
    using INV_TABLE_accepts [of c] by auto
  ultimately show ?thesis
    using False by (simp add: base64_decode_def decode_loop_error)
qed

theorem base64_decode_errors_witness:
  "base64_decode (lit ''A*'') = Inl Exception \<and> base64_decode (lit ''='') = Inl LengthError \<and>
   (\<forall>e. base64_decode [255, 127] \<noteq> Inl e)"
proof -
  have "base64_decode (lit ''A*'') = Inl Exception"
    using base64_decode_errors [of "lit ''A*''" Exception] by (simp add: lit_def TABLE_eq trailing_padding_def)
  moreover have "base64_decode (lit ''='') = Inl LengthError"
    using base64_decode_errors [of "lit ''=''" LengthError] by (simp add: lit_def trailing_padding_def)
  moreover have "base64_decode [255, 127] \<noteq> Inl e" for e
    using base64_decode_errors [of "[255, 127]" e] by (simp add: trailing_padding_def)
  ultimately show ?thesis by blast
qed

end
