(* ===== verification/Utf8.thy ===== *)
theory Utf8
  imports Prelude "HOL-Library.While_Combinator"
begin

text \<open>
  \<^verbatim>\<open>src/util/utf8.hh\<close> and \<^verbatim>\<open>src/util/utf8.cc\<close>: the decoder of one code point, the iterator
  and range over a string, and \<^verbatim>\<open>IsUTF8\<close>, the filter of \<^verbatim>\<open>remove_invalid_utf8\<close>,
  \<^verbatim>\<open>commoncrawl_dedupe\<close> and others. The reference is the encoding form of the Unicode
  standard, \<open>utf8_encode\<close>, over the scalar values.
\<close>

subsection \<open>One code point\<close>

definition IsTrailByte :: "byte \<Rightarrow> bool" where
  "IsTrailByte x \<longleftrightarrow> sint x < - 0x40"

definition IsValidCodepoint :: "u32 \<Rightarrow> bool" where
  "IsValidCodepoint c \<longleftrightarrow> c < 0xD800 \<or> c \<ge> 0xE000 \<and> c \<le> 0x10FFFF"

definition kUnicodeError :: u32 where
  "kUnicodeError = 0xFFFD"

text \<open>
  A \<^verbatim>\<open>char\<close> operand of \<^verbatim>\<open>&\<close> is promoted to \<^verbatim>\<open>int\<close> with its sign, which is what
  \<open>scast\<close> to 32 bits does. The result is the code point and \<^verbatim>\<open>*mblen\<close>. The function
  presumes \<^verbatim>\<open>end > begin\<close>; on the empty range it would read past the end.
\<close>

abbreviation promote :: "byte \<Rightarrow> u32" where
  "promote b \<equiv> scast b"

definition DecodeUTF8 :: "bytes \<Rightarrow> (u32 \<times> nat) result" where
  "DecodeUTF8 s =
     (let len = length s in
      if len = 0 then Inl OutOfRange
      else if s ! 0 < 0x80 then Inr (ucast (s ! 0), 1)
      else if len \<ge> 2 \<and> promote (s ! 0) AND 0xE0 = 0xC0 then
        let cp = push_bit 6 (promote (s ! 0) AND 0x1F) OR (promote (s ! 1) AND 0x3F) in
        if IsTrailByte (s ! 1) \<and> cp \<ge> 0x0080 \<and> IsValidCodepoint cp then Inr (cp, 2)
        else Inl NotUTF8Exception
      else if len \<ge> 3 \<and> promote (s ! 0) AND 0xF0 = 0xE0 then
        let cp = push_bit 12 (promote (s ! 0) AND 0x0F) OR push_bit 6 (promote (s ! 1) AND 0x3F) OR
                 (promote (s ! 2) AND 0x3F) in
        if IsTrailByte (s ! 1) \<and> IsTrailByte (s ! 2) \<and> cp \<ge> 0x0800 \<and> IsValidCodepoint cp then Inr (cp, 3)
        else Inl NotUTF8Exception
      else if len \<ge> 4 \<and> promote (s ! 0) AND 0xF8 = 0xF0 then
        let cp = push_bit 18 (promote (s ! 0) AND 0x07) OR push_bit 12 (promote (s ! 1) AND 0x3F) OR
                 push_bit 6 (promote (s ! 2) AND 0x3F) OR (promote (s ! 3) AND 0x3F) in
        if IsTrailByte (s ! 1) \<and> IsTrailByte (s ! 2) \<and> IsTrailByte (s ! 3) \<and> cp \<ge> 0x10000 \<and>
           IsValidCodepoint cp then Inr (cp, 4)
        else Inl NotUTF8Exception
      else Inl NotUTF8Exception)"

subsection \<open>The iterator, the range, \<open>IsUTF8\<close>\<close>

record DecodeUTF8Iterator =
  it_remaining :: bytes
  it_current :: bytes
  it_codepoint :: u32

definition iterator_next :: "DecodeUTF8Iterator \<Rightarrow> DecodeUTF8Iterator result" where
  "iterator_next it =
     (let r = drop (length (it_current it)) (it_remaining it) in
      if r \<noteq> [] then
        (case DecodeUTF8 r of
           Inl e \<Rightarrow> Inl e
         | Inr (cp, len) \<Rightarrow> Inr \<lparr>it_remaining = r, it_current = take len r, it_codepoint = cp\<rparr>)
      else Inr (it\<lparr>it_remaining := r, it_codepoint := kUnicodeError\<rparr>))"

definition iterator_begin :: "bytes \<Rightarrow> DecodeUTF8Iterator result" where
  "iterator_begin s = iterator_next \<lparr>it_remaining = s, it_current = [], it_codepoint = kUnicodeError\<rparr>"

text \<open>
  \<^verbatim>\<open>for (char32_t c : DecodeUTF8Range(str))\<close>. The class has \<^verbatim>\<open>operator==\<close> and a
  conversion to \<^verbatim>\<open>bool\<close> but no \<^verbatim>\<open>operator!=\<close>; either reading of the loop's
  \<^verbatim>\<open>it != end\<close> says that \<^verbatim>\<open>remaining_\<close> is not empty. The state is the iterator and the
  code points seen so far, or the exception that left the loop.
\<close>

definition range_running :: "(DecodeUTF8Iterator \<times> u32 list) result \<Rightarrow> bool" where
  "range_running s = (case s of Inl _ \<Rightarrow> False | Inr (it, _) \<Rightarrow> it_remaining it \<noteq> [])"

definition range_step :: "(DecodeUTF8Iterator \<times> u32 list) result \<Rightarrow> (DecodeUTF8Iterator \<times> u32 list) result" where
  "range_step s =
     (case s of
        Inl e \<Rightarrow> Inl e
      | Inr (it, seen) \<Rightarrow>
          (case iterator_next it of
             Inl e \<Rightarrow> Inl e
           | Inr it' \<Rightarrow> Inr (it', seen @ [it_codepoint it])))"

definition DecodeUTF8Range :: "bytes \<Rightarrow> u32 list result" where
  "DecodeUTF8Range s =
     (case iterator_begin s of
        Inl e \<Rightarrow> Inl e
      | Inr it \<Rightarrow> map_sum id snd (while range_running range_step (Inr (it, []))))"

definition IsUTF8 :: "bytes \<Rightarrow> bool" where
  "IsUTF8 s = (case DecodeUTF8Range s of Inl _ \<Rightarrow> False | Inr _ \<Rightarrow> True)"

subsection \<open>The Unicode encoding form\<close>

definition scalar_value :: "nat \<Rightarrow> bool" where
  "scalar_value n \<longleftrightarrow> n < 0xD800 \<or> 0xE000 \<le> n \<and> n \<le> 0x10FFFF"

definition utf8_encode :: "nat \<Rightarrow> bytes" where
  "utf8_encode n =
     (if n < 0x80 then [of_nat n]
      else if n < 0x800 then [of_nat (0xC0 + n div 64), of_nat (0x80 + n mod 64)]
      else if n < 0x10000 then
        [of_nat (0xE0 + n div 4096), of_nat (0x80 + n div 64 mod 64), of_nat (0x80 + n mod 64)]
      else
        [of_nat (0xF0 + n div 262144), of_nat (0x80 + n div 4096 mod 64), of_nat (0x80 + n div 64 mod 64),
         of_nat (0x80 + n mod 64)])"

subsection \<open>Bits of a byte as arithmetic\<close>

lemma promote_low:
  assumes "k \<le> 8"
  shows "promote b AND mask k = of_nat (unat b mod 2 ^ k)"
proof -
  have "promote b AND mask k = of_nat (take_bit k (unat b))"
    by (rule bit_word_eqI) (use assms in \<open>auto simp: bit_simps bit_of_nat_iff_bit bit_unsigned_iff\<close>)
  then show ?thesis by (simp add: take_bit_eq_mod)
qed

lemma promote_high:
  assumes "k \<le> 8"
  shows "promote b AND push_bit k (mask (8 - k)) = of_nat (unat b div 2 ^ k * 2 ^ k)"
proof -
  have "promote b AND push_bit k (mask (8 - k)) = of_nat (push_bit k (drop_bit k (unat b)))"
  proof (rule bit_word_eqI)
    fix n :: nat
    assume "n < LENGTH(32)"
    show "bit (promote b AND push_bit k (mask (8 - k))) n \<longleftrightarrow>
            bit (of_nat (push_bit k (drop_bit k (unat b))) :: u32) n"
    proof (cases "n < 8")
      case True
      then have "min 7 n = n" by simp
      with True assms show ?thesis
        by (auto simp: bit_simps bit_of_nat_iff_bit bit_unsigned_iff)
    next
      case False
      with assms show ?thesis
        by (auto simp: bit_simps bit_of_nat_iff_bit bit_unsigned_iff dest: bit_imp_le_length)
    qed
  qed
  then show ?thesis by (simp add: push_bit_eq_mult drop_bit_eq_div)
qed

lemma or_shifted:
  assumes "y < 2 ^ k"
  shows "push_bit k (of_nat x) OR of_nat y = (of_nat (x * 2 ^ k + y) :: u32)"
proof -
  have "bit y n \<Longrightarrow> n < k" for n
    using assms by (metis bit_take_bit_iff take_bit_nat_eq_self)
  then have "push_bit k x AND y = 0"
    by (force simp: bit_eq_iff bit_simps)
  then have "push_bit k x OR y = x * 2 ^ k + y"
    by (simp add: disjunctive_add_eq_or [symmetric] push_bit_eq_mult)
  then show ?thesis
    by (metis of_nat_or_eq of_nat_push_bit)
qed

lemma IsTrailByte_iff: "IsTrailByte x \<longleftrightarrow> 128 \<le> unat x \<and> unat x < 192"
proof -
  have "sint x = (if unat x < 128 then int (unat x) else int (unat x) - 256)"
  proof -
    have "unat x div 128 = of_bool (128 \<le> unat x)"
      using unat_byte_less [of x] by (simp add: div_nat_eqI)
    then have "bit (unat x) 7 \<longleftrightarrow> 128 \<le> unat x"
      by (simp add: bit_iff_odd)
    then have "bit (uint x) 7 \<longleftrightarrow> 128 \<le> unat x"
      by (simp add: bit_simps)
    moreover have "take_bit 8 (uint x) = uint x"
      using uint_lt2p [of x] by (simp add: take_bit_int_eq_self)
    ultimately show ?thesis
      by (simp add: sint_uint signed_take_bit_eq_take_bit_minus)
  qed
  then show ?thesis
    using unat_byte_less [of x] by (auto simp: IsTrailByte_def simp del: of_nat_unat)
qed

lemma byte_mod_masks:
  "promote b AND 0x07 = of_nat (unat b mod 8)"
  "promote b AND 0x0F = of_nat (unat b mod 16)"
  "promote b AND 0x1F = of_nat (unat b mod 32)"
  "promote b AND 0x3F = of_nat (unat b mod 64)"
  using promote_low [of 3 b] promote_low [of 4 b] promote_low [of 5 b] promote_low [of 6 b]
  by (simp_all add: mask_eq_exp_minus_1)

lemma of_nat_u32_eq_iff:
  "n < 2 ^ 32 \<Longrightarrow> m < 2 ^ 32 \<Longrightarrow> (of_nat n :: u32) = of_nat m \<longleftrightarrow> n = m"
  by (simp add: word_unat_eq_iff unat_of_nat)

lemma lead_byte_masks:
  "promote b AND 0xE0 = 0xC0 \<longleftrightarrow> unat b div 32 = 6"
  "promote b AND 0xF0 = 0xE0 \<longleftrightarrow> unat b div 16 = 14"
  "promote b AND 0xF8 = 0xF0 \<longleftrightarrow> unat b div 8 = 30"
proof -
  have eq: "of_nat (unat b div m * m) = (of_nat (k * m) :: u32) \<longleftrightarrow> unat b div m = k"
    if "0 < m" and "k * m < 256" for k m
  proof -
    have "unat b div m * m < 2 ^ 32" and "k * m < 2 ^ 32"
      using order.strict_trans1 [OF div_times_less_eq_dividend unat_byte_less, of b m] that by simp_all
    then show ?thesis
      using that by (simp only: of_nat_u32_eq_iff) simp
  qed
  show "promote b AND 0xE0 = 0xC0 \<longleftrightarrow> unat b div 32 = 6"
    using promote_high [of 5 b] eq [of 32 6] by (simp add: mask_eq_exp_minus_1 push_bit_eq_mult del: of_nat_mult)
  show "promote b AND 0xF0 = 0xE0 \<longleftrightarrow> unat b div 16 = 14"
    using promote_high [of 4 b] eq [of 16 14] by (simp add: mask_eq_exp_minus_1 push_bit_eq_mult del: of_nat_mult)
  show "promote b AND 0xF8 = 0xF0 \<longleftrightarrow> unat b div 8 = 30"
    using promote_high [of 3 b] eq [of 8 30] by (simp add: mask_eq_exp_minus_1 push_bit_eq_mult del: of_nat_mult)
qed

text \<open>The code points the three multi-byte branches assemble.\<close>

lemma or_sextet: "push_bit 6 (of_nat x) OR of_nat (y mod 64) = (of_nat (x * 64 + y mod 64) :: u32)"
  using or_shifted [of "y mod 64" 6 x] by simp

lemma codepoint_2:
  "push_bit 6 (promote b0 AND 0x1F) OR (promote b1 AND 0x3F) = of_nat (unat b0 mod 32 * 64 + unat b1 mod 64)"
  by (simp only: byte_mod_masks or_sextet)

lemma codepoint_3:
  "push_bit 12 (promote b0 AND 0x0F) OR push_bit 6 (promote b1 AND 0x3F) OR (promote b2 AND 0x3F) =
     of_nat ((unat b0 mod 16 * 64 + unat b1 mod 64) * 64 + unat b2 mod 64)"
proof -
  have "push_bit 12 x OR push_bit 6 y OR z = push_bit 6 (push_bit 6 x OR y) OR z" for x y z :: u32
    by (simp add: push_bit_or or.assoc)
  then show ?thesis
    unfolding byte_mod_masks by (simp only:) (simp only: or_sextet)
qed

lemma codepoint_4:
  "push_bit 18 (promote b0 AND 0x07) OR push_bit 12 (promote b1 AND 0x3F) OR
   push_bit 6 (promote b2 AND 0x3F) OR (promote b3 AND 0x3F) =
     of_nat (((unat b0 mod 8 * 64 + unat b1 mod 64) * 64 + unat b2 mod 64) * 64 + unat b3 mod 64)"
proof -
  have "push_bit 18 x OR push_bit 12 y OR push_bit 6 z OR w = push_bit 6 (push_bit 6 (push_bit 6 x OR y) OR z) OR w"
    for x y z w :: u32
    by (simp add: push_bit_or or.assoc)
  then show ?thesis
    unfolding byte_mod_masks by (simp only:) (simp only: or_sextet)
qed

lemma IsValidCodepoint_of_nat: "n < 2 ^ 32 \<Longrightarrow> IsValidCodepoint (of_nat n) \<longleftrightarrow> scalar_value n"
  by (simp add: IsValidCodepoint_def scalar_value_def word_less_nat_alt word_le_nat_alt unat_of_nat)

lemma numeral_le_of_nat:
  "n < 2 ^ 32 \<Longrightarrow> (numeral k :: u32) \<le> of_nat n \<longleftrightarrow> unat (numeral k :: u32) \<le> n"
  by (simp add: word_le_nat_alt unat_of_nat)

lemma codepoint_bounds:
  "x mod 32 * 64 + y mod 64 < (2 :: nat) ^ 32"
  "(x mod 16 * 64 + y mod 64) * 64 + z mod 64 < (2 :: nat) ^ 32"
  "((x mod 8 * 64 + y mod 64) * 64 + z mod 64) * 64 + v mod 64 < (2 :: nat) ^ 32"
proof -
  have "a < 32 \<Longrightarrow> b < 64 \<Longrightarrow> a * 64 + b < (2 :: nat) ^ 32" for a b
    by simp
  then show "x mod 32 * 64 + y mod 64 < (2 :: nat) ^ 32"
    by simp
  have "a < 16 \<Longrightarrow> b < 64 \<Longrightarrow> c < 64 \<Longrightarrow> (a * 64 + b) * 64 + c < (2 :: nat) ^ 32" for a b c
    by simp
  then show "(x mod 16 * 64 + y mod 64) * 64 + z mod 64 < (2 :: nat) ^ 32"
    by (meson mod_less_divisor zero_less_numeral)
  have "a < 8 \<Longrightarrow> b < 64 \<Longrightarrow> c < 64 \<Longrightarrow> d < 64 \<Longrightarrow> ((a * 64 + b) * 64 + c) * 64 + d < (2 :: nat) ^ 32" for a b c d
    by simp
  then show "((x mod 8 * 64 + y mod 64) * 64 + z mod 64) * 64 + v mod 64 < (2 :: nat) ^ 32"
    by (meson mod_less_divisor zero_less_numeral)
qed

subsection \<open>The decoder by the class of the lead byte\<close>

lemmas DecodeUTF8_arith = DecodeUTF8_def
  [unfolded Let_def codepoint_2 codepoint_3 codepoint_4 lead_byte_masks IsTrailByte_iff]

lemma nths:
  "(a # s) ! 0 = a" "(a # b # s) ! 1 = b" "(a # b # c # s) ! 2 = c" "(a # b # c # d # s) ! 3 = d"
  "(length (a # s) = 0) = False" "(2 \<le> length (a # b # s)) = True" "(3 \<le> length (a # b # c # s)) = True"
  "(4 \<le> length (a # b # c # d # s)) = True"
  by simp_all

lemma length_ge_cases:
  "2 \<le> length t \<Longrightarrow> \<exists>a b u. t = a # b # u"
  "3 \<le> length t \<Longrightarrow> \<exists>a b c u. t = a # b # c # u"
  by (cases t; cases "tl t"; auto; fail) (cases t; cases "tl t"; cases "tl (tl t)"; auto)

lemma decode_lead1: "unat b < 128 \<Longrightarrow> DecodeUTF8 (b # s) = Inr (of_nat (unat b), 1)"
  by (simp add: DecodeUTF8_def word_less_nat_alt)

lemma decode_lead2:
  assumes "unat b0 div 32 = 6"
  shows "DecodeUTF8 (b0 # b1 # s) =
    (let m = unat b0 mod 32 * 64 + unat b1 mod 64 in
     if 128 \<le> unat b1 \<and> unat b1 < 192 \<and> 0x80 \<le> m \<and> scalar_value m then Inr (of_nat m, 2)
     else Inl NotUTF8Exception)"
proof -
  have "\<not> unat b0 < 128"
    using assms by linarith
  with assms codepoint_bounds(1) [of "unat b0" "unat b1"] show ?thesis
    by (simp add: DecodeUTF8_arith nths IsValidCodepoint_of_nat numeral_le_of_nat word_less_nat_alt Let_def
        del: of_nat_add of_nat_mult)
qed

lemma decode_lead3:
  assumes "unat b0 div 16 = 14"
  shows "DecodeUTF8 (b0 # b1 # b2 # s) =
    (let m = (unat b0 mod 16 * 64 + unat b1 mod 64) * 64 + unat b2 mod 64 in
     if 128 \<le> unat b1 \<and> unat b1 < 192 \<and> 128 \<le> unat b2 \<and> unat b2 < 192 \<and> 0x800 \<le> m \<and> scalar_value m
     then Inr (of_nat m, 3) else Inl NotUTF8Exception)"
proof -
  define m where "m = (unat b0 mod 16 * 64 + unat b1 mod 64) * 64 + unat b2 mod 64"
  have m: "m < 2 ^ 32"
    unfolding m_def by (rule codepoint_bounds)
  have n: "(unat b0 div 32 = 6) = False" "(b0 < 0x80) = False"
    using assms by (auto simp: word_less_nat_alt)
  have c: "((0x800 :: u32) \<le> of_nat m) = (0x800 \<le> m)" "IsValidCodepoint (of_nat m) = scalar_value m"
    using m by (simp_all add: numeral_le_of_nat IsValidCodepoint_of_nat)
  show ?thesis
    unfolding DecodeUTF8_arith nths m_def [symmetric] Let_def n c assms by simp
qed

lemma decode_lead4:
  assumes "unat b0 div 8 = 30"
  shows "DecodeUTF8 (b0 # b1 # b2 # b3 # s) =
    (let m = ((unat b0 mod 8 * 64 + unat b1 mod 64) * 64 + unat b2 mod 64) * 64 + unat b3 mod 64 in
     if 128 \<le> unat b1 \<and> unat b1 < 192 \<and> 128 \<le> unat b2 \<and> unat b2 < 192 \<and> 128 \<le> unat b3 \<and> unat b3 < 192 \<and>
        0x10000 \<le> m \<and> scalar_value m
     then Inr (of_nat m, 4) else Inl NotUTF8Exception)"
proof -
  define m where "m = ((unat b0 mod 8 * 64 + unat b1 mod 64) * 64 + unat b2 mod 64) * 64 + unat b3 mod 64"
  have m: "m < 2 ^ 32"
    unfolding m_def by (rule codepoint_bounds)
  have n: "(unat b0 div 32 = 6) = False" "(unat b0 div 16 = 14) = False" "(b0 < 0x80) = False"
    using assms by (auto simp: word_less_nat_alt)
  have c: "((0x10000 :: u32) \<le> of_nat m) = (0x10000 \<le> m)" "IsValidCodepoint (of_nat m) = scalar_value m"
    using m by (simp_all add: numeral_le_of_nat IsValidCodepoint_of_nat)
  show ?thesis
    unfolding DecodeUTF8_arith nths m_def [symmetric] Let_def n c assms by simp
qed

lemma decode_no_lead:
  assumes "\<not> unat b0 < 128" and "unat b0 div 32 = 6 \<Longrightarrow> s = []"
    and "unat b0 div 16 = 14 \<Longrightarrow> length s < 2" and "unat b0 div 8 = 30 \<Longrightarrow> length s < 3"
  shows "DecodeUTF8 (b0 # s) = Inl NotUTF8Exception"
proof -
  have "\<not> (2 \<le> length (b0 # s) \<and> unat b0 div 32 = 6)" and "\<not> (3 \<le> length (b0 # s) \<and> unat b0 div 16 = 14)"
    and "\<not> (4 \<le> length (b0 # s) \<and> unat b0 div 8 = 30)"
    using assms(2-4) by auto
  with assms(1) show ?thesis
    by (simp only: DecodeUTF8_arith nth_Cons_0 word_less_nat_alt if_False) simp
qed

subsection \<open>The decoder against the encoding form\<close>

lemma unat_of_nat_byte: "n < 256 \<Longrightarrow> unat (of_nat n :: byte) = n"
  by (simp add: unat_of_nat)

lemma of_nat_unat_byte: "n = unat b \<Longrightarrow> (of_nat n :: byte) = b"
  by simp

lemma lead_trail_mods:
  fixes q :: nat
  shows "q < 64 \<Longrightarrow> (128 + q) mod 64 = q" and "q < 32 \<Longrightarrow> (192 + q) mod 32 = q"
    and "q < 16 \<Longrightarrow> (224 + q) mod 16 = q" and "q < 8 \<Longrightarrow> (240 + q) mod 8 = q"
    and "q < 32 \<Longrightarrow> (192 + q) div 32 = 6" and "q < 16 \<Longrightarrow> (224 + q) div 16 = 14" and "q < 8 \<Longrightarrow> (240 + q) div 8 = 30"
  using mod_mult_self3 [of 2 64 q] mod_mult_self3 [of 6 32 q] mod_mult_self3 [of 14 16 q] mod_mult_self3 [of 30 8 q]
  by simp_all

lemma decode_encode:
  assumes "scalar_value m"
  shows "DecodeUTF8 (utf8_encode m @ rest) = Inr (of_nat m, length (utf8_encode m))"
proof -
  have m: "m < 0x110000"
    using assms by (auto simp: scalar_value_def)
  consider "m < 0x80" | "0x80 \<le> m" "m < 0x800" | "0x800 \<le> m" "m < 0x10000" | "0x10000 \<le> m"
    by linarith
  then show ?thesis
  proof cases
    case 1
    then show ?thesis
      by (simp add: utf8_encode_def decode_lead1 unat_of_nat_byte)
  next
    case 2
    define q r where "q = m div 64" and "r = m mod 64"
    have qr: "m = q * 64 + r" "r < 64" "q < 32"
      using 2 by (simp_all add: q_def r_def)
    have "utf8_encode m = [of_nat (0xC0 + q), of_nat (0x80 + r)]"
      using 2 by (simp add: utf8_encode_def q_def r_def)
    then show ?thesis
      using assms 2 qr by (simp add: lead_trail_mods decode_lead2 unat_of_nat_byte Let_def del: of_nat_add)
  next
    case 3
    define p q r where "p = m div 4096" and "q = m div 64 mod 64" and "r = m mod 64"
    have "m div 4096 = m div 64 div 64"
      by (simp add: div_mult2_eq [symmetric])
    then have pqr: "m = (p * 64 + q) * 64 + r" "r < 64" "q < 64" "p < 16"
      using 3 by (simp_all add: p_def q_def r_def)
    have "utf8_encode m = [of_nat (0xE0 + p), of_nat (0x80 + q), of_nat (0x80 + r)]"
      using 3 by (simp add: utf8_encode_def p_def q_def r_def)
    then show ?thesis
      using assms 3 pqr by (simp add: lead_trail_mods decode_lead3 unat_of_nat_byte Let_def del: of_nat_add)
  next
    case 4
    define p q r v where "p = m div 262144" and "q = m div 4096 mod 64" and "r = m div 64 mod 64" and "v = m mod 64"
    have "m div 262144 = m div 4096 div 64" and "m div 4096 = m div 64 div 64"
      by (simp_all add: div_mult2_eq [symmetric])
    then have "m = ((p * 64 + q) * 64 + r) * 64 + v" and "v < 64" "r < 64" "q < 64"
      by (simp_all add: p_def q_def r_def v_def)
    moreover have "p < 8"
      using m by (simp add: p_def less_mult_imp_div_less)
    ultimately have pqrv: "m = ((p * 64 + q) * 64 + r) * 64 + v" "v < 64" "r < 64" "q < 64" "p < 8"
      by blast+
    have "utf8_encode m = [of_nat (0xF0 + p), of_nat (0x80 + q), of_nat (0x80 + r), of_nat (0x80 + v)]"
      using 4 by (simp add: utf8_encode_def p_def q_def r_def v_def)
    then show ?thesis
      using assms 4 pqrv by (simp add: lead_trail_mods decode_lead4 unat_of_nat_byte Let_def del: of_nat_add)
  qed
qed

lemma trail_split: "128 \<le> x \<Longrightarrow> x < 192 \<Longrightarrow> (x :: nat) = 0x80 + x mod 64"
proof -
  assume "128 \<le> x" and "x < 192"
  then have "x div 64 = 2"
    by (intro div_nat_eqI) simp_all
  then show ?thesis
    using div_mult_mod_eq [of x 64] by simp
qed

lemma lead_split: "(x :: nat) div d = k \<Longrightarrow> x = k * d + x mod d"
  using div_mult_mod_eq [of x d] by simp

lemma sextet_divmod: "v < 64 \<Longrightarrow> (x * 64 + v) div 64 = x" "v < 64 \<Longrightarrow> (x * 64 + v) mod 64 = (v :: nat)"
  by simp_all

lemma encode_2:
  assumes "unat b0 div 32 = 6" and "128 \<le> unat b1" "unat b1 < 192" and "0x80 \<le> unat b0 mod 32 * 64 + unat b1 mod 64"
  shows "utf8_encode (unat b0 mod 32 * 64 + unat b1 mod 64) = [b0, b1]"
proof -
  let ?q = "unat b0 mod 32" and ?r = "unat b1 mod 64"
  have "(?q * 64 + ?r) div 64 = ?q" and "(?q * 64 + ?r) mod 64 = ?r" and "?q < 32" and "?r < 64"
    by simp_all
  moreover have "unat b0 = 0xC0 + ?q" and "unat b1 = 0x80 + ?r"
    using lead_split [OF assms(1)] trail_split [OF assms(2,3)] by simp_all
  moreover have "?q * 64 + ?r < 0x800"
    using \<open>?q < 32\<close> \<open>?r < 64\<close> by linarith
  ultimately show ?thesis
    using assms(4) by (simp add: utf8_encode_def of_nat_unat_byte del: of_nat_add)
qed

lemma encode_3:
  assumes "unat b0 div 16 = 14" and "128 \<le> unat b1" "unat b1 < 192" and "128 \<le> unat b2" "unat b2 < 192"
    and "0x800 \<le> (unat b0 mod 16 * 64 + unat b1 mod 64) * 64 + unat b2 mod 64"
  shows "utf8_encode ((unat b0 mod 16 * 64 + unat b1 mod 64) * 64 + unat b2 mod 64) = [b0, b1, b2]"
proof -
  define p q r m where "p = unat b0 mod 16" and "q = unat b1 mod 64" and "r = unat b2 mod 64" and "m = (p * 64 + q) * 64 + r"
  then have b: "p < 16" "q < 64" "r < 64"
    by simp_all
  have "m div 64 = p * 64 + q" and "m mod 64 = r"
    unfolding m_def using b by (simp_all only: sextet_divmod)
  then have "m div 64 mod 64 = q" and "m div 4096 = p"
    using b div_mult2_eq [of m 64 64] by (simp_all add: sextet_divmod)
  moreover have "unat b0 = 0xE0 + p" and "unat b1 = 0x80 + q" and "unat b2 = 0x80 + r"
    unfolding p_def q_def r_def
    using lead_split [OF assms(1)] trail_split [OF assms(2,3)] trail_split [OF assms(4,5)] by simp_all
  moreover have "m < 0x10000" and "0x800 \<le> m"
    using b assms(6) by (simp_all add: m_def p_def q_def r_def)
  ultimately have "utf8_encode m = [b0, b1, b2]"
    using \<open>m mod 64 = r\<close> by (simp add: utf8_encode_def of_nat_unat_byte del: of_nat_add)
  then show ?thesis
    by (simp add: m_def p_def q_def r_def)
qed

lemma encode_4:
  assumes "unat b0 div 8 = 30" and "128 \<le> unat b1" "unat b1 < 192" and "128 \<le> unat b2" "unat b2 < 192"
    and "128 \<le> unat b3" "unat b3 < 192"
    and "0x10000 \<le> ((unat b0 mod 8 * 64 + unat b1 mod 64) * 64 + unat b2 mod 64) * 64 + unat b3 mod 64"
  shows "utf8_encode (((unat b0 mod 8 * 64 + unat b1 mod 64) * 64 + unat b2 mod 64) * 64 + unat b3 mod 64) =
           [b0, b1, b2, b3]"
proof -
  define p q r v m where "p = unat b0 mod 8" and "q = unat b1 mod 64" and "r = unat b2 mod 64" and "v = unat b3 mod 64"
    and "m = ((p * 64 + q) * 64 + r) * 64 + v"
  then have b: "p < 8" "q < 64" "r < 64" "v < 64"
    by simp_all
  have "m div 64 = (p * 64 + q) * 64 + r" and "m mod 64 = v"
    unfolding m_def using b by (simp_all only: sextet_divmod)
  then have "m div 64 mod 64 = r" and "m div 4096 = p * 64 + q"
    using b div_mult2_eq [of m 64 64] by (simp_all only: sextet_divmod numeral_times_numeral semiring_norm)
  then have "m div 4096 mod 64 = q" and "m div 262144 = p"
    using b div_mult2_eq [of m 4096 64] by (simp_all add: sextet_divmod)
  moreover have "unat b0 = 0xF0 + p" and "unat b1 = 0x80 + q" and "unat b2 = 0x80 + r" and "unat b3 = 0x80 + v"
    unfolding p_def q_def r_def v_def
    using lead_split [OF assms(1)] trail_split [OF assms(2,3)] trail_split [OF assms(4,5)]
      trail_split [OF assms(6,7)] by simp_all
  moreover have "0x10000 \<le> m"
    using assms(8) by (simp add: m_def p_def q_def r_def v_def)
  ultimately have "utf8_encode m = [b0, b1, b2, b3]"
    using \<open>m mod 64 = v\<close> \<open>m div 64 mod 64 = r\<close> by (simp add: utf8_encode_def of_nat_unat_byte del: of_nat_add)
  then show ?thesis
    by (simp add: m_def p_def q_def r_def v_def)
qed

lemma encode_1: "unat b < 128 \<Longrightarrow> utf8_encode (unat b) = [b]"
  by (simp add: utf8_encode_def)

lemma decode_sound:
  assumes "DecodeUTF8 s = Inr (cp, n)"
  shows "\<exists>m. scalar_value m \<and> cp = of_nat m \<and> n = length (utf8_encode m) \<and> take n s = utf8_encode m"
proof (cases s)
  case Nil
  with assms show ?thesis by (simp add: DecodeUTF8_def)
next
  case (Cons b0 t)
  consider (one) "unat b0 < 128"
    | (two) "unat b0 div 32 = 6" "t \<noteq> []"
    | (three) "unat b0 div 16 = 14" "2 \<le> length t"
    | (four) "unat b0 div 8 = 30" "3 \<le> length t"
    | (no) "\<not> unat b0 < 128" "unat b0 div 32 = 6 \<Longrightarrow> t = []" "unat b0 div 16 = 14 \<Longrightarrow> length t < 2"
        "unat b0 div 8 = 30 \<Longrightarrow> length t < 3"
    by (meson not_less)
  then show ?thesis
  proof cases
    case one
    then show ?thesis
      using assms Cons by (intro exI [of _ "unat b0"]) (auto simp: decode_lead1 encode_1 scalar_value_def)
  next
    case two
    then obtain b1 u where "t = b1 # u"
      by (cases t) auto
    with two assms Cons have "case_sum (\<lambda>_. False) (\<lambda>p. p = (cp, n)) (DecodeUTF8 (b0 # b1 # u))"
      by simp
    then show ?thesis
      unfolding decode_lead2 [OF two(1)] Let_def
      using encode_2 [of b0 b1] two(1) \<open>t = b1 # u\<close> Cons by (intro exI [of _ "unat b0 mod 32 * 64 + unat b1 mod 64"]) (auto split: if_splits)
  next
    case three
    then obtain b1 b2 u where "t = b1 # b2 # u"
      using length_ge_cases(1) by blast
    with three assms Cons have "case_sum (\<lambda>_. False) (\<lambda>p. p = (cp, n)) (DecodeUTF8 (b0 # b1 # b2 # u))"
      by simp
    then show ?thesis
      unfolding decode_lead3 [OF three(1)] Let_def
      using encode_3 [of b0 b1 b2] three(1) \<open>t = b1 # b2 # u\<close> Cons by (intro exI [of _ "(unat b0 mod 16 * 64 + unat b1 mod 64) * 64 + unat b2 mod 64"]) (auto split: if_splits)
  next
    case four
    then obtain b1 b2 b3 u where "t = b1 # b2 # b3 # u"
      using length_ge_cases(2) by blast
    with four assms Cons have "case_sum (\<lambda>_. False) (\<lambda>p. p = (cp, n)) (DecodeUTF8 (b0 # b1 # b2 # b3 # u))"
      by simp
    then show ?thesis
      unfolding decode_lead4 [OF four(1)] Let_def
      using encode_4 [of b0 b1 b2 b3] four(1) \<open>t = b1 # b2 # b3 # u\<close> Cons by (intro exI [of _ "((unat b0 mod 8 * 64 + unat b1 mod 64) * 64 + unat b2 mod 64) * 64 + unat b3 mod 64"]) (auto split: if_splits)
  next
    case no
    then show ?thesis
      using assms Cons by (simp add: decode_no_lead)
  qed
qed

lemma length_utf8_encode: "1 \<le> length (utf8_encode m)" "length (utf8_encode m) \<le> 4"
  by (simp_all add: utf8_encode_def)

lemma DecodeUTF8_iff:
  "DecodeUTF8 s = Inr (cp, n) \<longleftrightarrow>
     (\<exists>m. scalar_value m \<and> cp = of_nat m \<and> n = length (utf8_encode m) \<and> prefix (utf8_encode m) s)"
proof
  assume "DecodeUTF8 s = Inr (cp, n)"
  then show "\<exists>m. scalar_value m \<and> cp = of_nat m \<and> n = length (utf8_encode m) \<and> prefix (utf8_encode m) s"
    using decode_sound take_is_prefix by metis
next
  assume "\<exists>m. scalar_value m \<and> cp = of_nat m \<and> n = length (utf8_encode m) \<and> prefix (utf8_encode m) s"
  then show "DecodeUTF8 s = Inr (cp, n)"
    using decode_encode by (auto elim!: prefixE)
qed

text \<open>
  C5. \<^verbatim>\<open>DecodeUTF8\<close> accepts exactly the well-formed sequences of the Unicode standard: it
  returns a code point and a length if and only if the range begins with the encoding
  form of that scalar value, which has that length. Overlong forms, surrogates, values
  above U+10FFFF, stray trail bytes and truncated sequences all throw.
\<close>

theorem DecodeUTF8_correct:
  "DecodeUTF8 s = Inr (cp, n) \<longleftrightarrow>
     (\<exists>m. scalar_value m \<and> cp = of_nat m \<and> n = length (utf8_encode m) \<and> prefix (utf8_encode m) s)"
  by (rule DecodeUTF8_iff)

subsection \<open>The loop over a string\<close>

lemma DecodeUTF8_length:
  assumes "DecodeUTF8 s = Inr (cp, n)"
  shows "1 \<le> n" and "n \<le> length s"
  using assms length_utf8_encode prefix_length_le unfolding DecodeUTF8_iff by metis+

function decode_all :: "bytes \<Rightarrow> u32 list result" where
  "decode_all s =
     (if s = [] then Inr []
      else case DecodeUTF8 s of
             Inl e \<Rightarrow> Inl e
           | Inr (cp, n) \<Rightarrow> map_sum id ((#) cp) (decode_all (drop n s)))"
  by pat_completeness auto
termination
  by (relation "measure length") (auto dest: DecodeUTF8_length(1))

declare decode_all.simps [simp del]

lemma decode_all_Nil [simp]: "decode_all [] = Inr []"
  by (simp add: decode_all.simps)

lemma decode_all_step: "s \<noteq> [] \<Longrightarrow> DecodeUTF8 s = Inr (cp, n) \<Longrightarrow>
   decode_all s = map_sum id ((#) cp) (decode_all (drop n s))"
  by (subst decode_all.simps) simp

lemma decode_all_error: "s \<noteq> [] \<Longrightarrow> DecodeUTF8 s = Inl e \<Longrightarrow> decode_all s = Inl e"
  by (subst decode_all.simps) simp

lemma iterator_next_mid:
  assumes "n \<le> length r"
  shows "iterator_next \<lparr>it_remaining = r, it_current = take n r, it_codepoint = cp\<rparr> =
    (if drop n r \<noteq> [] then
       (case DecodeUTF8 (drop n r) of
          Inl e \<Rightarrow> Inl e
        | Inr (cp', n') \<Rightarrow> Inr \<lparr>it_remaining = drop n r, it_current = take n' (drop n r), it_codepoint = cp'\<rparr>)
     else Inr \<lparr>it_remaining = [], it_current = take n r, it_codepoint = kUnicodeError\<rparr>)"
  using assms by (simp add: iterator_next_def min_absorb2 Let_def)

lemma range_loop_stop:
  "it_remaining it = [] \<Longrightarrow> while range_running range_step (Inr (it, seen)) = Inr (it, seen)"
  by (subst while_unfold) (simp add: range_running_def)

lemma range_loop_throw: "while range_running range_step (Inl e) = Inl e"
  by (subst while_unfold) (simp add: range_running_def)

lemma range_loop_go:
  assumes "it_remaining it \<noteq> []"
  shows "while range_running range_step (Inr (it, seen)) =
         while range_running range_step
           (case iterator_next it of Inl e \<Rightarrow> Inl e | Inr it' \<Rightarrow> Inr (it', seen @ [it_codepoint it]))"
  using assms by (subst while_unfold) (simp add: range_running_def range_step_def)

lemma range_loop:
  assumes "r \<noteq> []" and "DecodeUTF8 r = Inr (cp, n)"
  shows "map_sum id snd (while range_running range_step
            (Inr (\<lparr>it_remaining = r, it_current = take n r, it_codepoint = cp\<rparr>, seen))) =
         map_sum id ((@) seen) (decode_all r)"
  using assms
proof (induction "length r" arbitrary: r cp n seen rule: less_induct)
  case less
  note n = DecodeUTF8_length [OF less.prems(2)]
  let ?next = "drop n r"
  show ?case
  proof (cases "?next = []")
    case True
    with n have "n = length r" by simp
    then show ?thesis
      using less.prems
      by (simp add: range_loop_go decode_all_step iterator_next_def range_loop_stop)
  next
    case False
    show ?thesis
    proof (cases "DecodeUTF8 ?next")
      case (Inl e)
      with False show ?thesis
        using less.prems n
        by (simp add: range_loop_go iterator_next_mid decode_all_step decode_all_error range_loop_throw)
    next
      case (Inr p)
      obtain cp' n' where p: "p = (cp', n')" by fastforce
      have "length ?next < length r"
        using n less.prems(1) by simp
      then have IH: "map_sum id snd (while range_running range_step
           (Inr (\<lparr>it_remaining = ?next, it_current = take n' ?next, it_codepoint = cp'\<rparr>, seen @ [cp]))) =
         map_sum id ((@) (seen @ [cp])) (decode_all ?next)"
        using less.hyps False Inr p by blast
      have "while range_running range_step
              (Inr (\<lparr>it_remaining = r, it_current = take n r, it_codepoint = cp\<rparr>, seen)) =
            while range_running range_step
              (Inr (\<lparr>it_remaining = ?next, it_current = take n' ?next, it_codepoint = cp'\<rparr>, seen @ [cp]))"
        using less.prems n False Inr p by (subst range_loop_go) (simp_all add: iterator_next_mid)
      moreover have "map_sum id ((@) (seen @ [cp])) (decode_all ?next) = map_sum id ((@) seen) (decode_all r)"
        unfolding decode_all_step [OF less.prems] by (cases "decode_all ?next") simp_all
      ultimately show ?thesis using IH by simp
    qed
  qed
qed

lemma DecodeUTF8Range_eq: "DecodeUTF8Range s = decode_all s"
proof (cases "s = []")
  case True
  then show ?thesis
    by (simp add: DecodeUTF8Range_def iterator_begin_def iterator_next_def range_loop_stop)
next
  case False
  show ?thesis
  proof (cases "DecodeUTF8 s")
    case (Inl e)
    with False show ?thesis
      by (simp add: DecodeUTF8Range_def iterator_begin_def iterator_next_def decode_all_error)
  next
    case (Inr p)
    obtain cp n where "p = (cp, n)" by fastforce
    with False Inr show ?thesis
      using range_loop [of s cp n "[]"]
      by (cases "decode_all s") (simp_all add: DecodeUTF8Range_def iterator_begin_def iterator_next_def)
  qed
qed

definition utf8_string :: "u32 list \<Rightarrow> bytes" where
  "utf8_string cps = concat (map (\<lambda>c. utf8_encode (unat c)) cps)"

lemma decode_all_utf8_string:
  "\<forall>c\<in>set cps. scalar_value (unat c) \<Longrightarrow> decode_all (utf8_string cps) = Inr cps"
proof (induction cps)
  case (Cons c cps)
  let ?e = "utf8_encode (unat c)"
  have "DecodeUTF8 (?e @ utf8_string cps) = Inr (c, length ?e)"
    using Cons.prems unfolding DecodeUTF8_iff by (intro exI [of _ "unat c"]) simp
  moreover have "?e \<noteq> []"
    using length_utf8_encode(1) [of "unat c"] by auto
  ultimately show ?case
    using Cons by (simp add: utf8_string_def decode_all_step)
qed (simp add: utf8_string_def)

lemma decode_all_sound:
  "decode_all s = Inr cps \<Longrightarrow> (\<forall>c\<in>set cps. scalar_value (unat c)) \<and> s = utf8_string cps"
proof (induction s arbitrary: cps rule: decode_all.induct)
  case (1 s)
  show ?case
  proof (cases "s = []")
    case True
    then show ?thesis using "1.prems" by (simp add: utf8_string_def)
  next
    case False
    then obtain cp n cps' where d: "DecodeUTF8 s = Inr (cp, n)"
      and r: "decode_all (drop n s) = Inr cps'" and cps: "cps = cp # cps'"
      using "1.prems" decode_all.simps [of s] by (auto split: sum.splits prod.splits)
    obtain m where m: "scalar_value m" "cp = of_nat m" "n = length (utf8_encode m)" "prefix (utf8_encode m) s"
      using d unfolding DecodeUTF8_iff by blast
    have u: "unat cp = m"
      using m(1,2) by (auto simp: scalar_value_def unat_of_nat)
    have "take n s = utf8_encode m"
      using m(3,4) by (auto elim: prefixE)
    then show ?thesis
      using "1.IH" [OF False d refl r] m(1) u cps append_take_drop_id [of n s]
      by (simp add: utf8_string_def)
  qed
qed

lemma DecodeUTF8Range_iff:
  "DecodeUTF8Range s = Inr cps \<longleftrightarrow> (\<forall>c\<in>set cps. scalar_value (unat c)) \<and> s = utf8_string cps"
  using decode_all_utf8_string decode_all_sound DecodeUTF8Range_eq by metis

text \<open>
  Running through a \<^verbatim>\<open>DecodeUTF8Range\<close> to its end yields the code points whose
  encoding forms, one after the other, are the string; it does so exactly for the strings
  that are such a concatenation, and throws for every other.
\<close>

lemma DecodeUTF8Range_correct:
  "DecodeUTF8Range s = Inr cps \<longleftrightarrow> (\<forall>c\<in>set cps. scalar_value (unat c)) \<and> s = utf8_string cps"
  by (rule DecodeUTF8Range_iff)

lemma utf8_string_append: "utf8_string (cs @ ds) = utf8_string cs @ utf8_string ds"
  by (simp add: utf8_string_def)

lemma IsUTF8_iff:
  "IsUTF8 s \<longleftrightarrow> (\<exists>cps. (\<forall>c\<in>set cps. scalar_value (unat c)) \<and> s = utf8_string cps)"
proof -
  have "IsUTF8 s \<longleftrightarrow> (\<exists>cps. DecodeUTF8Range s = Inr cps)"
    by (auto simp: IsUTF8_def split: sum.splits)
  then show ?thesis unfolding DecodeUTF8Range_iff .
qed

lemma utf8_string_cancel:
  assumes "\<forall>c\<in>set cs. scalar_value (unat c)" and "\<forall>c\<in>set ds. scalar_value (unat c)"
    and "utf8_string ds = utf8_string cs @ t"
  shows "\<exists>es. ds = cs @ es"
  using assms
proof (induction cs arbitrary: ds)
  case (Cons c cs)
  let ?e = "utf8_encode (unat c)"
  have e: "?e \<noteq> []" using length_utf8_encode(1) [of "unat c"] by auto
  have s: "utf8_string ds = ?e @ utf8_string cs @ t"
    using Cons.prems(3) by (simp add: utf8_string_def)
  with e obtain d ds' where ds: "ds = d # ds'"
    by (cases ds) (auto simp: utf8_string_def)
  have "DecodeUTF8 (utf8_string ds) = Inr (c, length ?e)"
    using Cons.prems(1) unfolding s DecodeUTF8_iff by (intro exI [of _ "unat c"]) simp
  moreover have "DecodeUTF8 (utf8_string ds) = Inr (d, length (utf8_encode (unat d)))"
    using Cons.prems(2) unfolding DecodeUTF8_iff ds
    by (intro exI [of _ "unat d"]) (simp add: utf8_string_def)
  ultimately have "d = c" by simp
  with s ds have "utf8_string ds' = utf8_string cs @ t"
    by (simp add: utf8_string_def)
  then show ?case
    using Cons.IH [of ds'] Cons.prems(1,2) ds \<open>d = c\<close> by auto
qed simp

text \<open>
  \<^verbatim>\<open>IsUTF8\<close> is stable under concatenation and a valid prefix can be cut off: once the
  first part is valid, the whole is valid exactly when the rest is. A line can therefore be
  validated field by field.
\<close>

lemma IsUTF8_append:
  assumes "IsUTF8 s"
  shows "IsUTF8 (s @ t) \<longleftrightarrow> IsUTF8 t"
proof -
  obtain cs where cs: "\<forall>c\<in>set cs. scalar_value (unat c)" "s = utf8_string cs"
    using assms unfolding IsUTF8_iff by blast
  show ?thesis
  proof
    assume "IsUTF8 (s @ t)"
    then obtain ds where ds: "\<forall>c\<in>set ds. scalar_value (unat c)" "utf8_string ds = s @ t"
      unfolding IsUTF8_iff by metis
    then obtain es where "ds = cs @ es"
      using utf8_string_cancel cs by metis
    with ds cs show "IsUTF8 t"
      unfolding IsUTF8_iff by (intro exI [of _ es]) (simp add: utf8_string_append)
  next
    assume "IsUTF8 t"
    then obtain es where "\<forall>c\<in>set es. scalar_value (unat c)" "t = utf8_string es"
      unfolding IsUTF8_iff by blast
    with cs show "IsUTF8 (s @ t)"
      unfolding IsUTF8_iff by (intro exI [of _ "cs @ es"]) (auto simp: utf8_string_append)
  qed
qed

lemma IsUTF8_ASCII: "\<forall>b\<in>set s. b < 0x80 \<Longrightarrow> IsUTF8 s"
proof -
  assume a: "\<forall>b\<in>set s. b < 0x80"
  have "utf8_string (map ucast s) = s"
    using a by (induction s)
      (auto simp: utf8_string_def utf8_encode_def word_less_nat_alt unsigned_ucast_eq take_bit_eq_mod)
  moreover have "\<forall>c\<in>set (map ucast s :: u32 list). scalar_value (unat c)"
    using a by (auto simp: scalar_value_def word_less_nat_alt unsigned_ucast_eq take_bit_eq_mod)
  ultimately show ?thesis unfolding IsUTF8_iff by metis
qed

end
