(* ===== verification/MurmurHash.thy ===== *)
theory MurmurHash
  imports Prelude
begin

text \<open>
  \<^verbatim>\<open>src/util/murmur_hash.cc\<close>: the 64-bit hash every deduplicating, sharding and caching tool
  of the repository keys on. The two versions are modelled on a little-endian machine, the
  reads of \<^verbatim>\<open>uint64_t\<close> and \<^verbatim>\<open>unsigned int\<close> values from memory being \<open>load_le\<close>. Their rounds
  are instances of one interface, a mixer that is injective both in the state and in the
  block, from which the absence of collisions between keys that differ in one block follows.
\<close>

subsection \<open>The code\<close>

primrec load_le :: "bytes \<Rightarrow> 'a::len word" where
  "load_le [] = 0"
| "load_le (b # bs) = ucast b OR push_bit 8 (load_le bs)"

abbreviation m64 :: u64 where "m64 \<equiv> 0xc6a4a7935bd1e995"
abbreviation m32 :: u32 where "m32 \<equiv> 0x5bd1e995"

definition murmur64a_mix :: "u64 \<Rightarrow> u64" where
  "murmur64a_mix k =
     (let k = k * m64;
          k = k XOR drop_bit 47 k
      in k * m64)"

definition murmur64a_round :: "u64 \<Rightarrow> u64 \<Rightarrow> u64" where
  "murmur64a_round h k = (h XOR murmur64a_mix k) * m64"

text \<open>The loop \<^verbatim>\<open>while (data != end)\<close>, over the number of blocks left.\<close>

primrec murmur64a_loop :: "nat \<Rightarrow> u64 \<Rightarrow> bytes \<Rightarrow> u64 \<times> bytes" where
  "murmur64a_loop 0 h data = (h, data)"
| "murmur64a_loop (Suc n) h data =
     murmur64a_loop n (murmur64a_round h (load_le (take 8 data))) (drop 8 data)"

text \<open>The \<^verbatim>\<open>switch\<close> on \<^verbatim>\<open>len & 7\<close>, whose cases fall through.\<close>

definition murmur64a_tail :: "nat \<Rightarrow> u64 \<Rightarrow> bytes \<Rightarrow> u64" where
  "murmur64a_tail n h data2 =
     (let h = (if n \<ge> 7 then h XOR push_bit 48 (ucast (data2 ! 6)) else h);
          h = (if n \<ge> 6 then h XOR push_bit 40 (ucast (data2 ! 5)) else h);
          h = (if n \<ge> 5 then h XOR push_bit 32 (ucast (data2 ! 4)) else h);
          h = (if n \<ge> 4 then h XOR push_bit 24 (ucast (data2 ! 3)) else h);
          h = (if n \<ge> 3 then h XOR push_bit 16 (ucast (data2 ! 2)) else h);
          h = (if n \<ge> 2 then h XOR push_bit 8 (ucast (data2 ! 1)) else h)
      in if n \<ge> 1 then (h XOR ucast (data2 ! 0)) * m64 else h)"

definition murmur64a_final :: "u64 \<Rightarrow> u64" where
  "murmur64a_final h =
     (let h = h XOR drop_bit 47 h;
          h = h * m64
      in h XOR drop_bit 47 h)"

definition MurmurHash64A :: "bytes \<Rightarrow> u64 \<Rightarrow> u64" where
  "MurmurHash64A key seed =
     (let len = length key;
          h = seed XOR (of_nat len * m64);
          (h, data2) = murmur64a_loop (len div 8) h key
      in murmur64a_final (murmur64a_tail (len mod 8) h data2))"

definition murmur64b_mix :: "u32 \<Rightarrow> u32" where
  "murmur64b_mix k =
     (let k = k * m32;
          k = k XOR drop_bit 24 k
      in k * m32)"

definition murmur64b_round :: "u32 \<Rightarrow> u32 \<Rightarrow> u32" where
  "murmur64b_round h k = (h * m32) XOR murmur64b_mix k"

text \<open>The loop \<^verbatim>\<open>while (len >= 8)\<close>: eight bytes a turn, four for each half of the state.\<close>

fun murmur64b_loop :: "u32 \<times> u32 \<Rightarrow> bytes \<Rightarrow> (u32 \<times> u32) \<times> bytes" where
  "murmur64b_loop (h1, h2) (a # b # c # d # e # f # g # h # data) =
     murmur64b_loop (murmur64b_round h1 (load_le [a, b, c, d]), murmur64b_round h2 (load_le [e, f, g, h])) data"
| "murmur64b_loop (h1, h2) data = ((h1, h2), data)"

text \<open>
  In the \<^verbatim>\<open>switch\<close> of this version the byte is shifted as an \<^verbatim>\<open>int\<close>, which 16 bits do not
  overflow.
\<close>

definition murmur64b_tail :: "u32 \<Rightarrow> bytes \<Rightarrow> u32" where
  "murmur64b_tail h2 data =
     (let n = length data;
          h2 = (if n \<ge> 3 then h2 XOR push_bit 16 (ucast (data ! 2)) else h2);
          h2 = (if n \<ge> 2 then h2 XOR push_bit 8 (ucast (data ! 1)) else h2)
      in if n \<ge> 1 then (h2 XOR ucast (data ! 0)) * m32 else h2)"

definition murmur64b_final :: "u32 \<times> u32 \<Rightarrow> u64" where
  "murmur64b_final hs =
     (let (h1, h2) = hs;
          h1 = (h1 XOR drop_bit 18 h2) * m32;
          h2 = (h2 XOR drop_bit 22 h1) * m32;
          h1 = (h1 XOR drop_bit 17 h2) * m32;
          h2 = (h2 XOR drop_bit 19 h1) * m32
      in push_bit 32 (ucast h1) OR ucast h2)"

definition MurmurHash64B :: "bytes \<Rightarrow> u64 \<Rightarrow> u64" where
  "MurmurHash64B key seed =
     (let h1 = ucast (seed XOR of_nat (length key));
          ((h1, h2), data) = murmur64b_loop (h1, 0) key;
          (h1, data) = (if length data \<ge> 4 then (murmur64b_round h1 (load_le (take 4 data)), drop 4 data)
                        else (h1, data));
          h2 = murmur64b_tail h2 data
      in murmur64b_final (h1, h2))"

text \<open>\<^verbatim>\<open>MurmurHashNative\<close> picks the version by \<^verbatim>\<open>sizeof(void*)\<close>.\<close>

definition MurmurHashNativeBackend :: "nat \<Rightarrow> bytes \<Rightarrow> u64 \<Rightarrow> u64" where
  "MurmurHashNativeBackend L key seed = (if L = 4 then MurmurHash64B key seed else MurmurHash64A key seed)"

definition MurmurHashNative :: "bytes \<Rightarrow> u64 \<Rightarrow> u64" where
  "MurmurHashNative key seed = MurmurHashNativeBackend 8 key seed"

subsection \<open>Mixers\<close>

text \<open>
  What both versions promise of a round: neither the state nor the block is lost. The state
  after all blocks then determines any one block, and the initial state, given the rest.
\<close>

locale block_mixer =
  fixes mix_round :: "'s \<Rightarrow> 'b \<Rightarrow> 's"
  assumes round_state: "mix_round h k = mix_round h' k \<Longrightarrow> h = h'"
    and round_block: "mix_round h k = mix_round h k' \<Longrightarrow> k = k'"
begin

lemma fold_state: "foldl mix_round h ks = foldl mix_round h' ks \<longleftrightarrow> h = h'"
  using round_state by (induction ks arbitrary: h h') auto

lemma fold_block: "foldl mix_round h (ks @ k # ls) = foldl mix_round h (ks @ k' # ls) \<longleftrightarrow> k = k'"
  using round_block by (auto simp: fold_state)

end

lemma mult_cancel_unit:
  fixes a b m :: "'a::comm_monoid_mult"
  assumes "m * m' = 1"
  shows "a * m = b * m \<longleftrightarrow> a = b"
  by (metis assms mult.assoc mult.right_neutral)

lemma m64_cancel: "a * m64 = b * m64 \<longleftrightarrow> a = b"
  by (rule mult_cancel_unit [where m' = "0x5f7a0ea7e59b19bd"]) simp

lemma m32_cancel: "a * m32 = b * m32 \<longleftrightarrow> a = b"
  by (rule mult_cancel_unit [where m' = "0xe59b19bd"]) simp

lemma xorshift_twice:
  fixes k :: "'a::len word"
  assumes "LENGTH('a) \<le> 2 * r"
  shows "(k XOR drop_bit r k) XOR drop_bit r (k XOR drop_bit r k) = k"
  by (rule bit_word_eqI) (use assms in \<open>auto simp: bit_simps dest: bit_imp_le_length\<close>)

lemma xorshift_cancel:
  fixes k l :: "'a::len word"
  assumes "LENGTH('a) \<le> 2 * r"
  shows "k XOR drop_bit r k = l XOR drop_bit r l \<longleftrightarrow> k = l"
  using xorshift_twice [OF assms] by metis

lemma xor_right_cancel: "(a :: 'a::len word) XOR c = b XOR c \<longleftrightarrow> a = b"
  by (metis xor.assoc xor.right_neutral xor_self_eq)

lemma xor_left_cancel: "(c :: 'a::len word) XOR a = c XOR b \<longleftrightarrow> a = b"
  using xor_right_cancel [of a c b] by (simp add: xor.commute)

lemma murmur64a_mix_cancel: "murmur64a_mix k = murmur64a_mix l \<longleftrightarrow> k = l"
  by (simp add: Let_def murmur64a_mix_def m64_cancel xorshift_cancel)

lemma murmur64b_mix_cancel: "murmur64b_mix k = murmur64b_mix l \<longleftrightarrow> k = l"
  by (simp add: Let_def murmur64b_mix_def m32_cancel xorshift_cancel)

interpretation mixer_a: block_mixer murmur64a_round
  by unfold_locales
    (simp_all add: murmur64a_round_def m64_cancel xor_right_cancel xor_left_cancel murmur64a_mix_cancel)

interpretation mixer_b: block_mixer murmur64b_round
  by unfold_locales
    (simp_all add: murmur64b_round_def m32_cancel xor_right_cancel xor_left_cancel murmur64b_mix_cancel)

lemma murmur64a_final_cancel: "murmur64a_final h = murmur64a_final h' \<longleftrightarrow> h = h'"
  by (simp add: Let_def murmur64a_final_def m64_cancel xorshift_cancel)

lemma murmur64b_final_cancel: "murmur64b_final hs = murmur64b_final hs' \<longleftrightarrow> hs = hs'"
proof -
  have pack: "push_bit 32 (ucast a) OR ucast b = (push_bit 32 (ucast a') OR ucast b' :: u64) \<longleftrightarrow> a = a' \<and> b = b'"
    for a b a' b' :: u32
  proof -
    have high: "drop_bit 32 (push_bit 32 (ucast a) OR ucast b :: u64) = ucast a"
      and low: "ucast (push_bit 32 (ucast a) OR ucast b :: u64) = b" for a b :: u32
      by (rule bit_word_eqI; auto simp: bit_simps dest: bit_imp_le_length)+
    have inj: "(ucast a :: u64) = ucast a' \<longleftrightarrow> a = a'"
      by (metis low or.left_neutral push_bit_of_0 unsigned_0)
    show ?thesis using high low inj by metis
  qed
  show ?thesis
    by (cases hs; cases hs') (auto simp: murmur64b_final_def Let_def pack m32_cancel xor_right_cancel)
qed

subsection \<open>Bytes in a word\<close>

lemma load_le_Cons: "(load_le (b # bs) :: 'a::len word) = ucast b XOR push_bit 8 (load_le bs)"
  by (rule bit_word_eqI) (auto simp: bit_simps dest: bit_imp_le_length)

lemma bit_load_le:
  "bit (load_le bs :: 'a::len word) i \<longleftrightarrow> i < LENGTH('a) \<and> i div 8 < length bs \<and> bit (bs ! (i div 8)) (i mod 8)"
proof (induction bs arbitrary: i)
  case (Cons b bs)
  show ?case
  proof (cases "i < 8")
    case True
    then show ?thesis by (auto simp: bit_simps)
  next
    case False
    then have "i div 8 = Suc ((i - 8) div 8)" "i mod 8 = (i - 8) mod 8"
      by (simp_all add: le_div_geq le_mod_geq)
    with False show ?thesis
      using Cons.IH [of "i - 8"] by (auto simp: bit_simps dest: bit_imp_le_length)
  qed
qed simp

lemma load_le_inject:
  assumes "length as = length bs" and "8 * length as \<le> LENGTH('a::len)"
  shows "(load_le as :: 'a word) = load_le bs \<longleftrightarrow> as = bs"
proof
  assume eq: "(load_le as :: 'a word) = load_le bs"
  show "as = bs"
  proof (rule nth_equalityI)
    fix i assume i: "i < length as"
    show "as ! i = bs ! i"
    proof (rule bit_word_eqI)
      fix n assume n: "n < LENGTH(8)"
      then have b: "8 * i + n < LENGTH('a)" "(8 * i + n) div 8 = i" "(8 * i + n) mod 8 = n"
        using i assms(2) by auto
      have "bit (load_le as :: 'a word) (8 * i + n) \<longleftrightarrow> bit (load_le bs :: 'a word) (8 * i + n)"
        by (simp add: eq)
      then show "bit (as ! i) n \<longleftrightarrow> bit (bs ! i) n"
        using b i assms(1) by (simp add: bit_load_le)
    qed
  qed (rule assms(1))
qed simp

lemma length_cases_8:
  assumes "length d < 8"
  obtains "d = []" | a where "d = [a]" | a b where "d = [a, b]" | a b c where "d = [a, b, c]"
    | a b c e where "d = [a, b, c, e]" | a b c e f where "d = [a, b, c, e, f]"
    | a b c e f g where "d = [a, b, c, e, f, g]" | a b c e f g h where "d = [a, b, c, e, f, g, h]"
proof -
  have "length d = 0 \<or> length d = 1 \<or> length d = 2 \<or> length d = 3 \<or> length d = 4 \<or> length d = 5 \<or> length d = 6 \<or> length d = 7"
    using assms by linarith
  then show ?thesis
    by (elim disjE) (use that in \<open>auto simp: numeral_eq_Suc length_Suc_conv\<close>)
qed

lemma murmur64a_tail_eq:
  assumes "length d < 8"
  shows "murmur64a_tail (length d) h d = (if d = [] then h else (h XOR load_le d) * m64)"
  using assms
  by (cases rule: length_cases_8)
    (simp_all add: murmur64a_tail_def load_le_Cons push_bit_xor xor.assoc xor.commute xor.left_commute
      del: load_le.simps(2))

subsection \<open>Keys as lists of blocks\<close>

primrec blocks64 :: "nat \<Rightarrow> bytes \<Rightarrow> u64 list" where
  "blocks64 0 d = []"
| "blocks64 (Suc n) d = load_le (take 8 d) # blocks64 n (drop 8 d)"

lemma murmur64a_loop_eq: "murmur64a_loop n h d = (foldl murmur64a_round h (blocks64 n d), drop (8 * n) d)"
  by (induction n arbitrary: h d) (simp_all add: add.commute)

lemma blocks64_append:
  "length p = 8 * n \<Longrightarrow> blocks64 (n + k) (p @ d) = blocks64 n p @ blocks64 k d"
  by (induction n arbitrary: p) auto

lemma MurmurHash64A_blocks:
  "MurmurHash64A key seed =
     (let d = drop (8 * (length key div 8)) key;
          h = foldl murmur64a_round (seed XOR (of_nat (length key) * m64)) (blocks64 (length key div 8) key)
      in murmur64a_final (if d = [] then h else (h XOR load_le d) * m64))"
proof -
  let ?d = "drop (8 * (length key div 8)) key"
  have d: "length ?d = length key mod 8" by (simp add: minus_mult_div_eq_mod)
  then have "length ?d < 8" by simp
  from murmur64a_tail_eq [OF this] d show ?thesis
    by (simp add: MurmurHash64A_def murmur64a_loop_eq Let_def)
qed

lemma MurmurHash64A_full_block:
  assumes "8 dvd length p" and "length a = 8" and "length b = 8"
  shows "MurmurHash64A (p @ a @ s) seed = MurmurHash64A (p @ b @ s) seed \<longleftrightarrow> a = b"
proof -
  obtain n where n: "length p = 8 * n" using assms(1) by (elim dvdE)
  define k where "k = length s div 8"
  have len: "length (p @ x @ s) div 8 = n + Suc k" if "length x = 8" for x :: bytes
    using n that by (simp add: k_def)
  have bl: "blocks64 (n + Suc k) (p @ x @ s) = blocks64 n p @ load_le x # blocks64 k s"
    if "length x = 8" for x
    using n that by (simp only: blocks64_append) simp
  have dr: "drop (8 * (n + Suc k)) (p @ x @ s) = drop (8 * k) s" if "length x = 8" for x
    using n that by simp
  have "MurmurHash64A (p @ a @ s) seed = MurmurHash64A (p @ b @ s) seed \<longleftrightarrow>
        (load_le a :: u64) = load_le b"
    unfolding MurmurHash64A_blocks len [OF assms(2)] len [OF assms(3)] bl [OF assms(2)] bl [OF assms(3)]
      dr [OF assms(2)] dr [OF assms(3)]
    using assms(2,3)
    by (simp add: Let_def murmur64a_final_cancel m64_cancel xor_right_cancel mixer_a.fold_block del: foldl_append)
  then show ?thesis
    using assms(2,3) by (simp add: load_le_inject)
qed

lemma MurmurHash64A_tail_block:
  assumes "8 dvd length p" and "length a = length b" and "length a < 8"
  shows "MurmurHash64A (p @ a) seed = MurmurHash64A (p @ b) seed \<longleftrightarrow> a = b"
proof -
  obtain n where n: "length p = 8 * n" using assms(1) by (elim dvdE)
  have len: "length (p @ x) div 8 = n" and bl: "blocks64 n (p @ x) = blocks64 n p"
    and dr: "drop (8 * n) (p @ x) = x" if "length x < 8" for x
    using n that blocks64_append [of p n 0 x] by simp_all
  have b: "length b < 8" using assms(2,3) by simp
  show ?thesis
  proof (cases "a = []")
    case False
    moreover have "b \<noteq> []" using False assms(2) by auto
    ultimately show ?thesis
      unfolding MurmurHash64A_blocks len [OF assms(3)] len [OF b] bl [OF assms(3)] bl [OF b] dr [OF assms(3)] dr [OF b]
      using assms(2,3)
      by (simp add: Let_def murmur64a_final_cancel m64_cancel xor_left_cancel load_le_inject)
  qed (use assms(2) in simp)
qed

text \<open>
  \<^verbatim>\<open>MurmurHash64A\<close> never collides on two keys of the same length that differ inside one
  aligned 8-byte block, or inside the last, shorter, one: all of the mixing is invertible. In
  particular distinct keys of at most eight bytes and of one length have distinct hashes.
\<close>

lemma MurmurHash64A_one_block:
  assumes "8 dvd length p" and "length a = length b" and "length a = 8 \<or> length a < 8 \<and> s = []"
  shows "MurmurHash64A (p @ a @ s) seed = MurmurHash64A (p @ b @ s) seed \<longleftrightarrow> a = b"
  using assms MurmurHash64A_full_block MurmurHash64A_tail_block by auto

text \<open>
  The seed is never lost either: two runs over one key with different seeds give
  different hashes. \<^verbatim>\<open>FieldsHash\<close> and \<^verbatim>\<open>HashCallback\<close> chain the fields of a line through the seed,
  so a difference in an early field survives every later, equal field.
\<close>

lemma MurmurHashNative_seed: "MurmurHashNative key s = MurmurHashNative key s' \<longleftrightarrow> s = s'"
  by (auto simp: MurmurHashNative_def MurmurHashNativeBackend_def MurmurHash64A_blocks Let_def
      murmur64a_final_cancel m64_cancel xor_right_cancel mixer_a.fold_state)

subsection \<open>The version for 32-bit platforms\<close>

definition murmur64b_pair :: "u32 \<times> u32 \<Rightarrow> u32 \<times> u32 \<Rightarrow> u32 \<times> u32" where
  "murmur64b_pair h k = (murmur64b_round (fst h) (fst k), murmur64b_round (snd h) (snd k))"

interpretation mixer_pair: block_mixer murmur64b_pair
  by unfold_locales
    (auto simp: murmur64b_pair_def prod_eq_iff dest: mixer_b.round_state mixer_b.round_block)

primrec blocks32 :: "nat \<Rightarrow> bytes \<Rightarrow> (u32 \<times> u32) list" where
  "blocks32 0 d = []"
| "blocks32 (Suc n) d = (load_le (take 4 d), load_le (take 4 (drop 4 d))) # blocks32 n (drop 8 d)"

lemma murmur64b_loop_short: "length d < 8 \<Longrightarrow> murmur64b_loop hs d = (hs, d)"
  by (cases hs) (cases rule: length_cases_8 [of d]; simp)

lemma murmur64b_loop_block:
  assumes "length a = 8"
  shows "murmur64b_loop hs (a @ d) = murmur64b_loop (murmur64b_pair hs (load_le (take 4 a), load_le (drop 4 a))) d"
proof -
  obtain c0 c1 c2 c3 c4 c5 c6 c7 where "a = [c0, c1, c2, c3, c4, c5, c6, c7]"
    using assms by (auto simp: numeral_eq_Suc length_Suc_conv)
  then show ?thesis
    by (cases hs) (simp add: murmur64b_pair_def)
qed

lemma murmur64b_loop_append:
  assumes "length p = 8 * n"
  shows "murmur64b_loop hs (p @ d) = murmur64b_loop (foldl murmur64b_pair hs (blocks32 n p)) d"
  using assms
proof (induction n arbitrary: hs p)
  case (Suc n)
  define a q where "a = take 8 p" and "q = drop 8 p"
  have p: "p = a @ q" "length a = 8" "length q = 8 * n"
    using Suc.prems by (simp_all add: a_def q_def)
  have "take 4 (a @ q) = take 4 a" "take 4 (drop 4 (a @ q)) = drop 4 a" "drop 8 (a @ q) = q"
    using p(2) by simp_all
  then show ?case
    using Suc.IH [OF p(3)] murmur64b_loop_block [OF p(2)] p(2) by (simp add: p(1))
qed simp

lemma murmur64b_loop_cancel:
  "snd (murmur64b_loop hs d) = snd (murmur64b_loop hs' d)"
  "fst (murmur64b_loop hs d) = fst (murmur64b_loop hs' d) \<longleftrightarrow> hs = hs'"
proof -
  define n where "n = length d div 8"
  have t: "d = take (8 * n) d @ drop (8 * n) d" and p: "length (take (8 * n) d) = 8 * n"
    and s: "length (drop (8 * n) d) < 8"
    by (simp_all add: n_def minus_mult_div_eq_mod)
  have "murmur64b_loop hs d = (foldl murmur64b_pair hs (blocks32 n (take (8 * n) d)), drop (8 * n) d)" for hs
    using murmur64b_loop_append [OF p, of hs "drop (8 * n) d"] murmur64b_loop_short [OF s] t by simp
  then show "snd (murmur64b_loop hs d) = snd (murmur64b_loop hs' d)"
    and "fst (murmur64b_loop hs d) = fst (murmur64b_loop hs' d) \<longleftrightarrow> hs = hs'"
    by (simp_all add: mixer_pair.fold_state)
qed

lemma murmur64b_tail_eq:
  assumes "length d < 4"
  shows "murmur64b_tail h d = (if d = [] then h else (h XOR load_le d) * m32)"
proof -
  have "length d < 8" using assms by simp
  then show ?thesis
    using assms
    by (cases rule: length_cases_8)
      (simp_all add: murmur64b_tail_def load_le_Cons push_bit_xor xor.assoc xor.commute xor.left_commute
        del: load_le.simps(2))
qed

definition murmur64b_rest :: "u32 \<times> u32 \<Rightarrow> bytes \<Rightarrow> u32 \<times> u32" where
  "murmur64b_rest h d =
     (if length d \<ge> 4 then (murmur64b_round (fst h) (load_le (take 4 d)), murmur64b_tail (snd h) (drop 4 d))
      else (fst h, murmur64b_tail (snd h) d))"

lemma MurmurHash64B_rest:
  "MurmurHash64B key seed =
     (let r = murmur64b_loop (ucast (seed XOR of_nat (length key)), 0) key
      in murmur64b_final (murmur64b_rest (fst r) (snd r)))"
  by (simp add: MurmurHash64B_def murmur64b_rest_def Let_def case_prod_beta)

lemma snd_murmur64b_loop: "length (snd (murmur64b_loop hs d)) < 8"
  by (induction hs d rule: murmur64b_loop.induct) auto

lemma murmur64b_tail_cancel:
  "length d < 4 \<Longrightarrow> murmur64b_tail h d = murmur64b_tail h' d \<longleftrightarrow> h = h'"
  "length d < 4 \<Longrightarrow> length e = length d \<Longrightarrow> murmur64b_tail h d = murmur64b_tail h e \<longleftrightarrow> d = e"
  by (auto simp: murmur64b_tail_eq m32_cancel xor_right_cancel xor_left_cancel load_le_inject)

lemma murmur64b_rest_state:
  assumes "length d < 8"
  shows "murmur64b_rest h d = murmur64b_rest h' d \<longleftrightarrow> h = h'"
  using assms
  by (cases h; cases h')
    (auto simp: murmur64b_rest_def murmur64b_tail_cancel dest: mixer_b.round_state)

lemma murmur64b_rest_block:
  assumes "length d < 8" and "length e = length d"
  shows "murmur64b_rest h d = murmur64b_rest h e \<longleftrightarrow> d = e"
proof -
  have "take 4 d = take 4 e \<and> drop 4 d = drop 4 e \<longleftrightarrow> d = e"
    by (metis append_take_drop_id)
  then show ?thesis
    using assms
    by (auto simp: murmur64b_rest_def murmur64b_tail_cancel load_le_inject dest: mixer_b.round_block)
qed

lemma MurmurHash64B_full_block:
  assumes "8 dvd length p" and "length a = 8" and "length b = 8"
  shows "MurmurHash64B (p @ a @ s) seed = MurmurHash64B (p @ b @ s) seed \<longleftrightarrow> a = b"
proof -
  obtain n where n: "length p = 8 * n" using assms(1) by (elim dvdE)
  define h where "h = foldl murmur64b_pair (ucast (seed XOR of_nat (length p + 8 + length s)), 0) (blocks32 n p)"
  have l: "murmur64b_loop (ucast (seed XOR of_nat (length (p @ x @ s))), 0) (p @ x @ s) =
           murmur64b_loop (murmur64b_pair h (load_le (take 4 x), load_le (drop 4 x))) s" if "length x = 8" for x
    using that n by (simp add: murmur64b_loop_append murmur64b_loop_block h_def add.assoc)
  have "MurmurHash64B (p @ a @ s) seed = MurmurHash64B (p @ b @ s) seed \<longleftrightarrow>
        murmur64b_pair h (load_le (take 4 a), load_le (drop 4 a)) = murmur64b_pair h (load_le (take 4 b), load_le (drop 4 b))"
    unfolding MurmurHash64B_rest l [OF assms(2)] l [OF assms(3)] Let_def murmur64b_final_cancel
    by (metis murmur64b_loop_cancel murmur64b_rest_state snd_murmur64b_loop)
  also have "\<dots> \<longleftrightarrow> take 4 a = take 4 b \<and> drop 4 a = drop 4 b"
    using assms(2,3) by (auto simp: load_le_inject dest!: mixer_pair.round_block)
  also have "\<dots> \<longleftrightarrow> a = b"
    by (metis append_take_drop_id)
  finally show ?thesis .
qed

text \<open>
  The version for 32-bit platforms keeps the same promise: two keys of one length that
  differ inside one aligned 8-byte block, or inside the last one, have different hashes, the
  final exchange between the two halves of the state being invertible too.
\<close>

lemma MurmurHash64B_one_block:
  assumes "8 dvd length p" and "length a = length b" and "length a = 8 \<or> length a < 8 \<and> s = []"
  shows "MurmurHash64B (p @ a @ s) seed = MurmurHash64B (p @ b @ s) seed \<longleftrightarrow> a = b"
proof (cases "length a = 8")
  case True
  then show ?thesis using assms MurmurHash64B_full_block by metis
next
  case False
  then have s: "s = []" and a: "length a < 8" and b: "length b < 8" using assms by auto
  obtain n where n: "length p = 8 * n" using assms(1) by (elim dvdE)
  show ?thesis
    unfolding s MurmurHash64B_rest Let_def append_Nil2 murmur64b_loop_append [OF n]
    using a b assms(2) by (simp add: murmur64b_loop_short murmur64b_final_cancel murmur64b_rest_block)
qed

end
