(* ===== verification/FieldSelection.thy ===== *)
theory FieldSelection
  imports Prelude MurmurHash
begin

text \<open>
  \<^verbatim>\<open>src/preprocess/fields.cc\<close> and \<^verbatim>\<open>src/preprocess/fields.hh\<close>: the \<^verbatim>\<open>cut\<close>-style selection of the
  columns of a line, which \<^verbatim>\<open>cache\<close>, \<^verbatim>\<open>shard\<close> and \<^verbatim>\<open>b64filter\<close>'s relatives use as a key. The
  parser of a specification such as \<^verbatim>\<open>1-3,9,12-\<close>, the sorting and merging of its ranges, the
  two walks over the selected fields and the hash of a key.
\<close>

subsection \<open>Ranges\<close>

record FieldRange =
  fr_begin :: u32
  fr_end :: u32

definition kInfiniteEnd :: u32 where
  "kInfiniteEnd = - 1"

text \<open>The C library: \<^verbatim>\<open>isspace\<close> in the C locale and \<^verbatim>\<open>strtoul(arg, &end, 10)\<close>.\<close>

definition isspace :: "byte \<Rightarrow> bool" where
  "isspace c \<longleftrightarrow> c = 32 \<or> 9 \<le> c \<and> c \<le> 13"

definition strtoul :: "bytes \<Rightarrow> u64 \<times> bytes" where
  "strtoul arg =
     (let s = dropWhile isspace arg;
          neg = (s \<noteq> [] \<and> hd s = 45);
          s = (if s \<noteq> [] \<and> (hd s = 45 \<or> hd s = 43) then tl s else s);
          ds = takeWhile isdigit s
      in if ds = [] then (0, arg)
         else (if dec_value ds \<ge> 2 ^ 64 then - 1
               else if neg then - of_nat (dec_value ds) else of_nat (dec_value ds),
               dropWhile isdigit s))"

text \<open>A C string is the list of its bytes, \<^verbatim>\<open>*arg\<close> being 0 at its end.\<close>

definition deref :: "bytes \<Rightarrow> byte" where
  "deref arg = (case arg of [] \<Rightarrow> 0 | c # _ \<Rightarrow> c)"

definition ConsumeInt :: "bytes \<Rightarrow> (u32 \<times> bytes) result" where
  "ConsumeInt arg =
     (let (v, e) = strtoul arg
      in if e = arg then Inl Exception else Inr (ucast v, e))"

text \<open>
  One turn of the loop of \<^verbatim>\<open>ParseFields\<close>: the beginning of the range, the \<^verbatim>\<open>switch\<close> that finds
  its end, and the comma that is swallowed.
\<close>

definition ParseBegin :: "bytes \<Rightarrow> (u32 \<times> bytes) result" where
  "ParseBegin arg =
     (if deref arg = 45 then Inr (0, arg)
      else case ConsumeInt arg of Inl e \<Rightarrow> Inl e | Inr (v, arg) \<Rightarrow> Inr (v - 1, arg))"

definition ParseEnd :: "u32 \<Rightarrow> bytes \<Rightarrow> (u32 \<times> bytes) result" where
  "ParseEnd b arg =
     (if deref arg = 44 \<or> deref arg = 0 then Inr (b + 1, arg)
      else if deref arg = 45 then
        (let arg = tl arg in
         if deref arg = 0 \<or> deref arg = 44 then Inr (kInfiniteEnd, arg)
         else case ConsumeInt arg of
                Inl e \<Rightarrow> Inl e
              | Inr (e, arg) \<Rightarrow> if e \<le> b then Inl Exception else Inr (e, arg))
      else Inl Exception)"

definition ParseField :: "bytes \<Rightarrow> (FieldRange \<times> bytes) result" where
  "ParseField arg =
     (case ParseBegin arg of
        Inl e \<Rightarrow> Inl e
      | Inr (b, arg) \<Rightarrow>
          (case ParseEnd b arg of
             Inl e \<Rightarrow> Inl e
           | Inr (e, arg) \<Rightarrow>
               Inr (\<lparr>fr_begin = b, fr_end = e\<rparr>, if deref arg = 44 then tl arg else arg)))"

lemma ConsumeInt_shorter: "ConsumeInt arg = Inr (v, rest) \<Longrightarrow> length rest < length arg"
proof -
  assume c: "ConsumeInt arg = Inr (v, rest)"
  let ?s = "dropWhile isspace arg"
  define s where "s = (if ?s \<noteq> [] \<and> (hd ?s = 45 \<or> hd ?s = 43) then tl ?s else ?s)"
  have r: "rest = dropWhile isdigit s" and t: "takeWhile isdigit s \<noteq> []"
    using c by (auto simp: ConsumeInt_def strtoul_def Let_def s_def split: if_splits)
  have "length s \<le> length arg"
    using length_dropWhile_le [of isspace arg] by (auto simp: s_def)
  moreover have "length s = length (takeWhile isdigit s) + length rest"
    unfolding r by (metis length_append takeWhile_dropWhile_id)
  ultimately show "length rest < length arg" using t by (cases "takeWhile isdigit s") simp_all
qed

lemma ParseEnd_shorter:
  "ParseEnd b arg = Inr (e, rest) \<Longrightarrow> length rest \<le> length arg \<and> (deref arg = 45 \<longrightarrow> length rest < length arg)"
  using ConsumeInt_shorter [of "tl arg" e rest]
  by (cases arg) (auto simp: ParseEnd_def deref_def Let_def split: if_splits sum.splits dest: less_imp_le)

lemma ParseField_shorter:
  assumes "ParseField arg = Inr (r, rest)"
  shows "length rest < length arg"
proof -
  obtain b a e a' where 1: "ParseBegin arg = Inr (b, a)" and 2: "ParseEnd b a = Inr (e, a')"
    and rest: "rest = (if deref a' = 44 then tl a' else a')"
    using assms by (auto simp: ParseField_def split: sum.splits)
  have "deref arg = 45 \<and> a = arg \<or> length a < length arg"
    using 1 ConsumeInt_shorter by (fastforce simp: ParseBegin_def split: if_splits sum.splits)
  moreover have "length rest \<le> length a'" using rest by simp
  ultimately show ?thesis using ParseEnd_shorter [OF 2] by auto
qed

function ParseFields :: "bytes \<Rightarrow> FieldRange list \<Rightarrow> FieldRange list result" where
  "ParseFields arg indices =
     (if deref arg = 0 then Inr indices
      else case ParseField arg of
             Inl e \<Rightarrow> Inl e
           | Inr (add, arg) \<Rightarrow> ParseFields arg (indices @ [add]))"
  by pat_completeness auto
termination
  by (relation "measure (length \<circ> fst)") (auto dest: ParseField_shorter)

declare ParseFields.simps [simp del]

subsection \<open>Sorting and merging\<close>

text \<open>
  \<^verbatim>\<open>std::sort\<close> with \<^verbatim>\<open>operator<\<close> on \<^verbatim>\<open>begin\<close>. It need not be stable: two ranges with the same
  beginning overlap unless one is empty, so their order does not show in the result.
\<close>

definition sort_fields :: "FieldRange list \<Rightarrow> FieldRange list" where
  "sort_fields = sort_key fr_begin"

function defragment_loop :: "nat \<Rightarrow> FieldRange list \<Rightarrow> FieldRange list result" where
  "defragment_loop i indices =
     (if i < length indices then
        if fr_end (indices ! (i - 1)) > fr_begin (indices ! i) then Inl Exception
        else if fr_end (indices ! (i - 1)) = fr_begin (indices ! i) then
          (let indices = indices[i - 1 := (indices ! (i - 1))\<lparr>fr_end := fr_end (indices ! i)\<rparr>]
           in defragment_loop i (take i indices @ drop (Suc i) indices))
        else defragment_loop (i + 1) indices
      else Inr indices)"
  by pat_completeness auto
termination
  by (relation "measure (\<lambda>(i, xs). length xs - i)") auto

declare defragment_loop.simps [simp del]

definition DefragmentFields :: "FieldRange list \<Rightarrow> FieldRange list result" where
  "DefragmentFields indices = defragment_loop 1 (sort_fields indices)"

subsection \<open>The walks over a line\<close>

text \<open>
  The pointers of the two walks are modelled by the bytes from them to \<^verbatim>\<open>end\<close>, so that
  \<^verbatim>\<open>begin >= end\<close> says that nothing is left. \<^verbatim>\<open>index\<close> stays at most \<^verbatim>\<open>f.end\<close>, so it does not
  wrap and is a natural number here. An early \<^verbatim>\<open>return\<close> is a left value. The callback is a
  parameter that transforms a state and, for \<^verbatim>\<open>IndividualFields\<close>, says whether to go on.
\<close>

function skip_fields :: "byte \<Rightarrow> nat \<Rightarrow> nat \<Rightarrow> bytes \<Rightarrow> unit + nat \<times> bytes" where
  "skip_fields delim stop index beg =
     (if index < stop then
        (let beg = drop (std_find delim beg + 1) beg
         in if beg = [] then Inl () else skip_fields delim stop (index + 1) beg)
      else Inr (index, beg))"
  by pat_completeness auto
termination
  by (relation "measure (\<lambda>(_, _, _, b). length b)") auto

function call_fields ::
  "('s \<Rightarrow> bytes \<Rightarrow> 's \<times> bool) \<Rightarrow> byte \<Rightarrow> nat \<Rightarrow> nat \<Rightarrow> bytes \<Rightarrow> 's \<Rightarrow> 's \<times> (bool + nat \<times> bytes)"
where
  "call_fields callback delim stop index beg st =
     (if index < stop then
        (let found = std_find delim beg;
             (st, ok) = callback st (take found beg)
         in if \<not> ok then (st, Inl False)
            else (let beg = drop (found + 1) beg
                  in if beg = [] then (st, Inl True) else call_fields callback delim stop (index + 1) beg st))
      else (st, Inr (index, beg)))"
  by pat_completeness auto
termination
  by (relation "measure (\<lambda>(_, _, _, _, b, _). length b)") auto

declare skip_fields.simps [simp del] call_fields.simps [simp del]

fun IndividualFields_from ::
  "('s \<Rightarrow> bytes \<Rightarrow> 's \<times> bool) \<Rightarrow> byte \<Rightarrow> FieldRange list \<Rightarrow> nat \<Rightarrow> bytes \<Rightarrow> 's \<Rightarrow> 's \<times> bool"
where
  "IndividualFields_from callback delim [] index beg st = (st, True)"
| "IndividualFields_from callback delim (f # indices) index beg st =
     (case skip_fields delim (unat (fr_begin f)) index beg of
        Inl _ \<Rightarrow> (st, True)
      | Inr (index, beg) \<Rightarrow>
          (case call_fields callback delim (unat (fr_end f)) index beg st of
             (st, Inl r) \<Rightarrow> (st, r)
           | (st, Inr (index, beg)) \<Rightarrow> IndividualFields_from callback delim indices index beg st))"

definition IndividualFields ::
  "bytes \<Rightarrow> FieldRange list \<Rightarrow> byte \<Rightarrow> ('s \<Rightarrow> bytes \<Rightarrow> 's \<times> bool) \<Rightarrow> 's \<Rightarrow> 's \<times> bool"
where
  "IndividualFields str indices delim callback st = IndividualFields_from callback delim indices 0 str st"

text \<open>
  \<^verbatim>\<open>RangeFields\<close> calls back with \<^verbatim>\<open>begin - old_begin - 1\<close> bytes after a closed range. When the range
  ends at or before the column the walk has reached, its loop does not move \<^verbatim>\<open>begin\<close>, the length
  wraps to \<open>2 ^ 64 - 1\<close> and the callback gets a \<^verbatim>\<open>StringPiece\<close> that reaches far beyond the line: the
  program then has no defined behaviour and the result here is \<open>None\<close>.
\<close>

fun RangeFields_from ::
  "('s \<Rightarrow> bytes \<Rightarrow> 's) \<Rightarrow> byte \<Rightarrow> FieldRange list \<Rightarrow> nat \<Rightarrow> bytes \<Rightarrow> 's \<Rightarrow> 's option"
where
  "RangeFields_from callback delim [] index beg st = Some st"
| "RangeFields_from callback delim (f # indices) index beg st =
     (case skip_fields delim (unat (fr_begin f)) index beg of
        Inl _ \<Rightarrow> Some st
      | Inr (index, beg) \<Rightarrow>
          if fr_end f = kInfiniteEnd then Some (callback st beg)
          else (let old_begin = beg in
                case skip_fields delim (unat (fr_end f)) index beg of
                  Inl _ \<Rightarrow> Some (callback st old_begin)
                | Inr (index, beg) \<Rightarrow>
                    if length beg = length old_begin then None
                    else RangeFields_from callback delim indices index beg
                      (callback st (take (length old_begin - length beg - 1) old_begin))))"

definition RangeFields ::
  "bytes \<Rightarrow> FieldRange list \<Rightarrow> byte \<Rightarrow> ('s \<Rightarrow> bytes \<Rightarrow> 's) \<Rightarrow> 's \<Rightarrow> 's option"
where
  "RangeFields str indices delim callback st = RangeFields_from callback delim indices 0 str st"

subsection \<open>The hash of a key\<close>

record HashCallback =
  hc_hash :: u64

definition HashCallback_init :: "u64 \<Rightarrow> HashCallback" where
  "HashCallback_init seed = \<lparr>hc_hash = seed\<rparr>"

definition HashCallback_default :: HashCallback where
  "HashCallback_default = HashCallback_init 47849374332489"

definition HashCallback_call :: "HashCallback \<Rightarrow> bytes \<Rightarrow> HashCallback" where
  "HashCallback_call c key = c\<lparr>hc_hash := MurmurHashNative key (hc_hash c)\<rparr>"

subsection \<open>Parsing undoes printing\<close>

definition show_range :: "FieldRange \<Rightarrow> bytes" where
  "show_range r =
     dec (unat (fr_begin r) + 1) @
     (if fr_end r = kInfiniteEnd then [45]
      else if fr_end r = fr_begin r + 1 then []
      else 45 # dec (unat (fr_end r)))"

fun show_fields :: "FieldRange list \<Rightarrow> bytes" where
  "show_fields [] = []"
| "show_fields [r] = show_range r"
| "show_fields (r # rs) = show_range r @ 44 # show_fields rs"

lemma digit_not_special: "isdigit c \<Longrightarrow> \<not> isspace c \<and> c \<noteq> 0 \<and> c \<noteq> 43 \<and> c \<noteq> 44 \<and> c \<noteq> 45"
  by (auto simp: isdigit_def isspace_def word_le_nat_alt)

lemma strtoul_dec:
  assumes "n < 2 ^ 64" and "r = [] \<or> \<not> isdigit (hd r)"
  shows "strtoul (dec n @ r) = (of_nat n, r)"
proof -
  have hd: "isdigit (hd (dec n))" and all: "\<forall>c\<in>set (dec n). isdigit c"
    using dec_digits dec_digits [OF hd_in_set [OF dec_not_Nil]] by auto
  obtain c cs where d: "dec n = c # cs" by (cases "dec n") auto
  have "dropWhile isspace (dec n @ r) = dec n @ r"
    using hd digit_not_special by (simp add: d)
  moreover have "takeWhile isdigit (dec n @ r) = dec n" "dropWhile isdigit (dec n @ r) = r"
    using all assms(2) by (cases r; simp)+
  moreover have "hd (dec n @ r) \<noteq> 45" "hd (dec n @ r) \<noteq> 43"
    using hd digit_not_special [of "hd (dec n)"] by (simp_all add: d)
  ultimately show ?thesis
    using assms(1) by (simp add: strtoul_def)
qed

lemma ucast_of_nat_u64: "(ucast (of_nat n :: u64) :: u32) = of_nat n"
  by (simp add: word_unat_eq_iff unsigned_ucast_eq unat_of_nat take_bit_eq_mod mod_mod_cancel)

lemma ConsumeInt_dec:
  assumes "n < 2 ^ 32" and "r = [] \<or> \<not> isdigit (hd r)"
  shows "ConsumeInt (dec n @ r) = Inr (of_nat n, r)"
  using assms strtoul_dec [of n r] by (simp add: ConsumeInt_def ucast_of_nat_u64)

lemma deref_dec: "isdigit (deref (dec n @ r))"
  using dec_digits [of "hd (dec n)" n] by (cases "dec n") (auto simp: deref_def)

lemma deref_simps [simp]: "deref [] = 0" "deref (c # cs) = c"
  by (simp_all add: deref_def)

lemma ParseField_show:
  assumes "fr_begin r < fr_end r" and "s = [] \<or> hd s = 44"
  shows "ParseField (show_range r @ s) = Inr (r, tl s)"
proof -
  have lt: "unat (fr_begin r) + 1 < 2 ^ 32" "unat (fr_end r) < 2 ^ 32"
    using assms(1) unsigned_less [of "fr_end r", where 'a = nat] by (simp_all add: word_less_nat_alt)
  have stop: "(if fr_end r = kInfiniteEnd then [45] else if fr_end r = fr_begin r + 1 then []
      else 45 # dec (unat (fr_end r))) @ s = [] \<or>
      \<not> isdigit (hd ((if fr_end r = kInfiniteEnd then [45] else if fr_end r = fr_begin r + 1 then []
      else 45 # dec (unat (fr_end r))) @ s))" (is "?t = [] \<or> _")
    using assms(2) by (auto simp: isdigit_def word_le_nat_alt)
  have b: "ParseBegin (show_range r @ s) = Inr (fr_begin r, ?t)"
    using ConsumeInt_dec [OF lt(1) stop] deref_dec [of "unat (fr_begin r) + 1" ?t] digit_not_special
    by (auto simp: ParseBegin_def show_range_def)
  have s: "deref s = 44 \<or> deref s = 0 \<and> s = []" "s = [] \<or> \<not> isdigit (hd s)"
    using assms(2) by (cases s; auto simp: isdigit_def word_le_nat_alt)+
  have "ParseEnd (fr_begin r) ?t = Inr (fr_end r, s)"
    using s ConsumeInt_dec [OF lt(2) s(2)] deref_dec [of "unat (fr_end r)" s] digit_not_special assms(1)
    by (auto simp: ParseEnd_def Let_def)
  with b s show ?thesis
    by (auto simp: ParseField_def)
qed

lemma deref_show_range: "deref (show_range r @ s) \<noteq> 0"
  using deref_dec digit_not_special unfolding show_range_def append_assoc by blast

lemma ParseFields_show:
  "\<forall>r\<in>set rs. fr_begin r < fr_end r \<Longrightarrow> ParseFields (show_fields rs) done = Inr (done @ rs)"
proof (induction rs arbitrary: "done" rule: show_fields.induct)
  case 1
  then show ?case by (subst ParseFields.simps) simp
next
  case (2 r)
  then show ?case
    using ParseField_show [of r "[]"] deref_show_range [of r "[]"]
    by (subst ParseFields.simps) (simp, subst ParseFields.simps, simp)
next
  case (3 r r' rs)
  have "ParseField (show_fields (r # r' # rs)) = Inr (r, show_fields (r' # rs))"
    using 3 ParseField_show [of r "44 # show_fields (r' # rs)"] by simp
  with 3 show ?case
    using deref_show_range [of r "44 # show_fields (r' # rs)"] by (subst ParseFields.simps) simp
qed

text \<open>
  C33. \<^verbatim>\<open>ParseFields\<close> undoes the printing of any list of non-empty ranges in the syntax of
  \<^verbatim>\<open>cut\<close>, single columns, closed ranges and open ones: it returns exactly those ranges, in
  their order, \<^verbatim>\<open>begin\<close> counted from 0 and \<^verbatim>\<open>end\<close> exclusive.
\<close>

theorem ParseFields_roundtrip:
  assumes "\<forall>r\<in>set rs. fr_begin r < fr_end r"
  shows "ParseFields (show_fields rs) [] = Inr rs"
  using ParseFields_show [OF assms, of "[]"] by simp

theorem ParseFields_roundtrip_witness:
  "ParseFields (show_fields [\<lparr>fr_begin = 0, fr_end = 3\<rparr>, \<lparr>fr_begin = 8, fr_end = 9\<rparr>, \<lparr>fr_begin = 11, fr_end = kInfiniteEnd\<rparr>]) [] =
     Inr [\<lparr>fr_begin = 0, fr_end = 3\<rparr>, \<lparr>fr_begin = 8, fr_end = 9\<rparr>, \<lparr>fr_begin = 11, fr_end = kInfiniteEnd\<rparr>]"
  by (rule ParseFields_roundtrip) (simp add: kInfiniteEnd_def)

subsection \<open>Merging keeps the selection\<close>

definition field_set :: "FieldRange \<Rightarrow> nat set" where
  "field_set r = {unat (fr_begin r) ..< unat (fr_end r)}"

definition disjoint_ranges :: "FieldRange list \<Rightarrow> bool" where
  "disjoint_ranges = sorted_wrt (\<lambda>r s. field_set r \<inter> field_set s = {})"

definition separated :: "FieldRange list \<Rightarrow> bool" where
  "separated = sorted_wrt (\<lambda>r s. fr_end r < fr_begin s)"

definition ordered_ranges :: "FieldRange list \<Rightarrow> bool" where
  "ordered_ranges = sorted_wrt (\<lambda>r s. fr_end r \<le> fr_begin s)"

lemma separated_ordered: "separated rs \<Longrightarrow> ordered_ranges rs"
  unfolding separated_def ordered_ranges_def by (rule sorted_wrt_mono_rel) auto

abbreviation nonempty_ranges :: "FieldRange list \<Rightarrow> bool" where
  "nonempty_ranges rs \<equiv> \<forall>r\<in>set rs. fr_begin r < fr_end r"

fun coalesce :: "FieldRange \<Rightarrow> FieldRange list \<Rightarrow> FieldRange list result" where
  "coalesce x [] = Inr [x]"
| "coalesce x (y # ys) =
     (if fr_end x > fr_begin y then Inl Exception
      else if fr_end x = fr_begin y then coalesce (x\<lparr>fr_end := fr_end y\<rparr>) ys
      else map_sum id ((#) x) (coalesce y ys))"

lemma defragment_loop_coalesce:
  "defragment_loop (Suc (length pre)) (pre @ x # ys) = map_sum id ((@) pre) (coalesce x ys)"
proof (induction x ys arbitrary: pre rule: coalesce.induct)
  case (1 x)
  then show ?case by (subst defragment_loop.simps) simp
next
  case (2 x y ys)
  note IH_merge = 2(1) [of pre] and IH_next = 2(2) [of "pre @ [x]"]
  show ?case
  proof (cases "fr_end x > fr_begin y \<or> fr_end x = fr_begin y")
    case True
    then show ?thesis
      using IH_merge by (subst defragment_loop.simps) (auto simp: nth_append list_update_append id_def)
  next
    case False
    then show ?thesis
      using IH_next by (subst defragment_loop.simps) (cases "coalesce y ys"; auto simp: nth_append)
  qed
qed

lemma field_set_merge:
  assumes "fr_begin x < fr_end x" and "fr_end x = fr_begin y" and "fr_begin y < fr_end y"
  shows "field_set (x\<lparr>fr_end := fr_end y\<rparr>) = field_set x \<union> field_set y"
  using assms by (auto simp: field_set_def word_less_nat_alt)

lemma field_set_disjoint:
  assumes "fr_begin x < fr_end x" and "fr_begin y < fr_end y" and "fr_begin x \<le> fr_begin y"
  shows "field_set x \<inter> field_set y = {} \<longleftrightarrow> fr_end x \<le> fr_begin y"
proof
  assume e: "field_set x \<inter> field_set y = {}"
  show "fr_end x \<le> fr_begin y"
  proof (rule ccontr)
    assume "\<not> fr_end x \<le> fr_begin y"
    then have "unat (fr_begin y) \<in> field_set x \<inter> field_set y"
      using assms by (auto simp: field_set_def word_less_nat_alt word_le_nat_alt)
    with e show False by simp
  qed
qed (auto simp: field_set_def word_le_nat_alt)

lemma coalesce_correct:
  assumes "nonempty_ranges (x # ys)" and "sorted (map fr_begin (x # ys))"
  shows "(case coalesce x ys of
            Inr ss \<Rightarrow> disjoint_ranges (x # ys) \<and> separated ss \<and> nonempty_ranges ss \<and>
              \<Union> (field_set ` set ss) = \<Union> (field_set ` set (x # ys)) \<and> fr_begin (hd ss) = fr_begin x \<and> ss \<noteq> []
          | Inl e \<Rightarrow> e = Exception \<and> \<not> disjoint_ranges (x # ys))"
  using assms
proof (induction x ys rule: coalesce.induct)
  case (1 x)
  then show ?case by (simp add: disjoint_ranges_def separated_def)
next
  case (2 x y ys)
  have xy: "fr_begin x < fr_end x" "fr_begin y < fr_end y" "fr_begin x \<le> fr_begin y"
    using 2(3,4) by simp_all
  consider "fr_end x > fr_begin y" | "fr_end x = fr_begin y" | "fr_end x < fr_begin y" by force
  then show ?case
  proof cases
    case 1
    then show ?thesis using field_set_disjoint [OF xy] by (auto simp: disjoint_ranges_def)
  next
    case 2
    let ?x = "x\<lparr>fr_end := fr_end y\<rparr>"
    have m: "field_set ?x = field_set x \<union> field_set y" "field_set x \<inter> field_set y = {}"
      using xy 2 field_set_merge field_set_disjoint by auto
    have "disjoint_ranges (?x # ys) \<longleftrightarrow> disjoint_ranges (x # y # ys)"
      using m by (auto simp: disjoint_ranges_def Int_Un_distrib2)
    moreover have "nonempty_ranges (?x # ys)" "sorted (map fr_begin (?x # ys))"
      using "2.prems" xy 2 by auto
    note "2.IH"(1) [OF _ 2 this]
    ultimately show ?thesis
      using 2 m by (cases "coalesce ?x ys") (auto simp: Un_assoc)
  next
    case 3
    have "nonempty_ranges (y # ys)" "sorted (map fr_begin (y # ys))"
      using "2.prems" by auto
    moreover have ne: "\<not> fr_begin y < fr_end x" "fr_end x \<noteq> fr_begin y"
      using 3 by auto
    ultimately have IH: "(case coalesce y ys of
            Inr ss \<Rightarrow> disjoint_ranges (y # ys) \<and> separated ss \<and> nonempty_ranges ss \<and>
              \<Union> (field_set ` set ss) = \<Union> (field_set ` set (y # ys)) \<and> fr_begin (hd ss) = fr_begin y \<and> ss \<noteq> []
          | Inl e \<Rightarrow> e = Exception \<and> \<not> disjoint_ranges (y # ys))"
      using "2.IH"(2) by blast
    have far: "field_set x \<inter> field_set z = {}" "fr_end x < fr_begin z" if "z \<in> set (y # ys)" for z
    proof -
      have "fr_begin y \<le> fr_begin z" "fr_begin z < fr_end z"
        using that "2.prems" by auto
      then show "fr_end x < fr_begin z" using 3 by simp
      then show "field_set x \<inter> field_set z = {}"
        using field_set_disjoint [of x z] xy(1) \<open>fr_begin z < fr_end z\<close> by force
    qed
    then have d: "disjoint_ranges (x # y # ys) \<longleftrightarrow> disjoint_ranges (y # ys)"
      by (auto simp: disjoint_ranges_def)
    show ?thesis
    proof (cases "coalesce y ys")
      case (Inl e)
      then show ?thesis using IH ne d by simp
    next
      case (Inr ss)
      then have ss: "disjoint_ranges (y # ys)" "separated ss" "nonempty_ranges ss" "fr_begin (hd ss) = fr_begin y"
        "\<Union> (field_set ` set ss) = \<Union> (field_set ` set (y # ys))" "ss \<noteq> []"
        using IH by auto
      have "fr_end x < fr_begin z" if "z \<in> set ss" for z
      proof (cases ss)
        case (Cons w ws)
        with that ss 3 show ?thesis
          by (auto simp: separated_def intro: less_trans)
      qed (use that in simp)
      with ss Inr ne d xy(1) show ?thesis by (simp add: separated_def)
    qed
  qed
qed

lemma disjoint_insort:
  "disjoint_ranges (insort_key fr_begin x xs) \<longleftrightarrow> disjoint_ranges (x # xs)"
  by (induction xs) (auto simp: disjoint_ranges_def set_insort_key)

lemma disjoint_sort: "disjoint_ranges (sort_fields rs) \<longleftrightarrow> disjoint_ranges rs"
proof -
  have set: "set (foldr (insort_key fr_begin) rs []) = set rs"
    by (induction rs) (auto simp: set_insort_key)
  then have "disjoint_ranges (foldr (insort_key fr_begin) rs []) \<longleftrightarrow> disjoint_ranges rs"
  proof (induction rs)
    case (Cons r rs)
    have "set (foldr (insort_key fr_begin) rs []) = set rs"
      by (induction rs) (auto simp: set_insort_key)
    with Cons.IH show ?case
      by (simp add: disjoint_insort) (simp add: disjoint_ranges_def)
  qed simp
  then show ?thesis
    by (simp add: sort_fields_def sort_key_def)
qed

lemma DefragmentFields_spec:
  assumes "nonempty_ranges rs"
  shows "(case DefragmentFields rs of
            Inr ss \<Rightarrow> disjoint_ranges rs \<and> separated ss \<and> nonempty_ranges ss \<and>
              \<Union> (field_set ` set ss) = \<Union> (field_set ` set rs)
          | Inl e \<Rightarrow> e = Exception \<and> \<not> disjoint_ranges rs)"
proof (cases "sort_fields rs")
  case Nil
  then have "rs = []" by (metis length_0_conv length_sort sort_fields_def)
  then show ?thesis
    by (simp add: DefragmentFields_def sort_fields_def defragment_loop.simps [of _ "[]"] separated_def disjoint_ranges_def)
next
  case (Cons x ys)
  have s: "nonempty_ranges (x # ys)" "sorted (map fr_begin (x # ys))" "set (x # ys) = set rs"
    using assms Cons set_sort [of fr_begin rs] sorted_sort_key [of fr_begin rs] by (auto simp: sort_fields_def)
  have "DefragmentFields rs = coalesce x ys"
    using defragment_loop_coalesce [of "[]" x ys] Cons by (cases "coalesce x ys") (simp_all add: DefragmentFields_def)
  then show ?thesis
    using coalesce_correct [OF s(1,2)] disjoint_sort [of rs] s(3) Cons by (auto split: sum.splits)
qed

text \<open>
  \<^verbatim>\<open>DefragmentFields\<close> throws exactly when two of the ranges share a column. Otherwise it
  returns ranges that select the same columns, sorted, non-empty and with a gap between any
  two of them.
\<close>

lemma DefragmentFields_correct:
  assumes "nonempty_ranges rs"
  shows "(case DefragmentFields rs of
            Inr ss \<Rightarrow> disjoint_ranges rs \<and> separated ss \<and> nonempty_ranges ss \<and>
              \<Union> (field_set ` set ss) = \<Union> (field_set ` set rs)
          | Inl e \<Rightarrow> e = Exception \<and> \<not> disjoint_ranges rs)"
  by (rule DefragmentFields_spec [OF assms])

text \<open>Column 0, which \<^verbatim>\<open>cut\<close> refuses, becomes a range that wraps around and selects nothing.\<close>

lemma ParseFields_zero: "ParseFields [48] [] = Inr [\<lparr>fr_begin = - 1, fr_end = 0\<rparr>]"
  by (simp add: ParseFields.simps ParseField_def ParseBegin_def ParseEnd_def ConsumeInt_def strtoul_def
      isspace_def isdigit_def dec_value_def digit_value_def)

subsection \<open>The fields of a line\<close>

text \<open>
  The fields of a line, as text between delimiters. The walks do not visit an empty field
  that ends a line of several fields.
\<close>

definition line_fields :: "byte \<Rightarrow> bytes \<Rightarrow> bytes list" where
  "line_fields d s =
     (let fs = split_on d s in if length fs > 1 \<and> last fs = [] then butlast fs else fs)"

lemma line_fields_rec:
  "line_fields d s =
     (let k = std_find d s; r = drop (k + 1) s
      in take k s # (if r = [] then [] else line_fields d r))"
proof (cases "d \<in> set s")
  case False
  then have "split_on d s = [s]" by (subst split_if.simps) simp
  moreover have "std_find d s = length s" using False by (simp add: scan_simps)
  ultimately show ?thesis by (simp add: line_fields_def)
next
  case True
  let ?r = "drop (std_find d s + 1) s"
  have r: "tl (dropWhile (\<lambda>c. c \<noteq> d) s) = ?r"
    by (metis Suc_eq_plus1 drop_Suc drop_std_find tl_drop)
  have sp: "split_on d s = take (std_find d s) s # split_on d ?r"
    using True by (subst split_if.simps) (simp add: r)
  show ?thesis
  proof (cases "?r = []")
    case True
    moreover have "split_on d [] = [[]]" by (subst split_if.simps) simp
    ultimately show ?thesis using sp by (simp add: line_fields_def Let_def)
  next
    case False
    obtain f fs where fs: "split_on d ?r = f # fs" using split_if_not_Nil [of "\<lambda>c. c = d" ?r] by (cases "split_on d ?r") auto
    have "fs = [] \<Longrightarrow> f \<noteq> []"
      using fs False by (subst (asm) split_if.simps) (auto split: if_splits simp: split_if_not_Nil)
    then show ?thesis
      using sp fs False by (simp add: line_fields_def Let_def)
  qed
qed

lemma line_fields_not_Nil [simp]: "line_fields d s \<noteq> []"
  by (subst line_fields_rec) (simp add: Let_def)

primrec rest_fields :: "byte \<Rightarrow> nat \<Rightarrow> bytes \<Rightarrow> bytes" where
  "rest_fields d 0 s = s"
| "rest_fields d (Suc n) s = rest_fields d n (drop (std_find d s + 1) s)"

definition lead_fields :: "byte \<Rightarrow> bytes list \<Rightarrow> bytes" where
  "lead_fields d fs = concat (map (\<lambda>f. f @ [d]) fs)"

lemma rest_fields_correct:
  "n < length (line_fields d s) \<Longrightarrow>
     line_fields d (rest_fields d n s) = drop n (line_fields d s) \<and>
     s = lead_fields d (take n (line_fields d s)) @ rest_fields d n s"
proof (induction n arbitrary: s)
  case 0
  then show ?case by (simp add: lead_fields_def)
next
  case (Suc n)
  let ?k = "std_find d s"
  let ?r = "drop (?k + 1) s"
  have fs: "line_fields d s = take ?k s # (if ?r = [] then [] else line_fields d ?r)"
    by (subst line_fields_rec) (simp only: Let_def)
  have r: "?r \<noteq> []" using fs Suc.prems by (auto split: if_splits)
  have "?k < length s" using r by simp
  then have k: "s = take ?k s @ d # ?r"
    using id_take_nth_drop [of ?k s] std_find_nth [of d s] std_find_less_iff [of d s] by simp
  show ?case
    using Suc.IH [of ?r] Suc.prems fs r k by (simp add: lead_fields_def)
qed

lemma skip_fields_eq:
  "skip_fields d stop i s =
     (if stop - i < length (line_fields d s) then Inr (max i stop, rest_fields d (stop - i) s) else Inl ())"
proof (induction d stop i s rule: skip_fields.induct)
  case (1 d stop i s)
  let ?r = "drop (std_find d s + 1) s"
  have fs: "line_fields d s = take (std_find d s) s # (if ?r = [] then [] else line_fields d ?r)"
    by (subst line_fields_rec) (simp only: Let_def)
  show ?case
  proof (cases "i < stop")
    case True
    then obtain n where n: "stop - i = Suc n" "stop - (i + 1) = n"
      using Suc_diff_Suc by fastforce
    show ?thesis
      using True n fs "1.IH" [OF True refl] by (subst skip_fields.simps) (simp add: Let_def)
  qed (subst skip_fields.simps, simp)
qed

primrec call_list :: "('s \<Rightarrow> bytes \<Rightarrow> 's \<times> bool) \<Rightarrow> 's \<Rightarrow> bytes list \<Rightarrow> 's \<times> bool" where
  "call_list callback st [] = (st, True)"
| "call_list callback st (f # fs) =
     (case callback st f of (st, ok) \<Rightarrow> if ok then call_list callback st fs else (st, False))"

lemma call_list_append:
  "call_list cb st (fs @ gs) =
     (case call_list cb st fs of (st, ok) \<Rightarrow> if ok then call_list cb st gs else (st, False))"
  by (induction fs arbitrary: st) (auto split: prod.splits)

lemma call_fields_eq:
  "call_fields cb d stop i s st =
     (case call_list cb st (take (stop - i) (line_fields d s)) of
        (st, ok) \<Rightarrow>
          (st, if \<not> ok then Inl False
               else if stop - i < length (line_fields d s) then Inr (max i stop, rest_fields d (stop - i) s)
               else Inl True))"
proof (induction cb d stop i s st rule: call_fields.induct)
  case (1 cb d stop i s st)
  let ?k = "std_find d s"
  let ?r = "drop (?k + 1) s"
  have fs: "line_fields d s = take ?k s # (if ?r = [] then [] else line_fields d ?r)"
    by (subst line_fields_rec) (simp only: Let_def)
  obtain st' ok where cb: "cb st (take ?k s) = (st', ok)" by fastforce
  show ?case
  proof (cases "i < stop \<and> ok \<and> ?r \<noteq> []")
    case True
    then obtain n where n: "stop - i = Suc n" "stop - (i + 1) = n"
      using Suc_diff_Suc by fastforce
    have IH: "call_fields cb d stop (i + 1) ?r st' =
       (case call_list cb st' (take n (line_fields d ?r)) of
        (st, ok) \<Rightarrow>
          (st, if \<not> ok then Inl False
               else if n < length (line_fields d ?r) then Inr (max (i + 1) stop, rest_fields d n ?r)
               else Inl True))"
      unfolding n(2) [symmetric] by (rule "1.IH" [OF _ refl refl cb [symmetric] _ refl]) (use True in auto)
    have "max (i + 1) stop = max i stop" using True by simp
    then show ?thesis
      using True cb n fs IH by (subst call_fields.simps) (simp add: Let_def split: prod.splits)
  next
    case False
    then consider "\<not> i < stop" | "i < stop" "\<not> ok \<or> ?r = []" by blast
    then show ?thesis
    proof cases
      case 2
      then obtain n where "stop - i = Suc n" using Suc_diff_Suc [of i stop] 2(1) by metis
      with 2 show ?thesis
        using cb fs by (subst call_fields.simps) (auto simp: Let_def)
    qed (subst call_fields.simps, simp)
  qed
qed

lemma nths_none: "\<forall>i<length xs. i \<notin> A \<Longrightarrow> nths xs A = []"
  by (auto simp: nths_def filter_empty_conv set_zip)

lemma nths_every: "\<forall>i<length xs. i \<in> A \<Longrightarrow> nths xs A = xs"
  by (simp add: nths_all)

lemma nths_window:
  assumes "\<And>j. j < n \<Longrightarrow> i + j \<notin> S" and "\<And>j. j < m \<Longrightarrow> i + n + j \<in> S"
    and "\<And>j. i + n + m + j \<in> S \<longleftrightarrow> i + n + m + j \<in> T"
  shows "nths fs {j. i + j \<in> S} = take m (drop n fs) @ nths (drop (n + m) fs) {j. i + n + m + j \<in> T}"
proof -
  have 1: "nths fs {j. i + j \<in> S} = nths (take n fs) {j. i + j \<in> S} @ nths (drop n fs) {j. j + length (take n fs) \<in> {j. i + j \<in> S}}"
    by (metis append_take_drop_id nths_append)
  have 2: "nths (take n fs) {j. i + j \<in> S} = []"
    by (rule nths_none) (use assms(1) in simp)
  have 3: "nths (drop n fs) {j. j + length (take n fs) \<in> {j. i + j \<in> S}} = nths (drop n fs) {j. i + n + j \<in> S}"
    by (cases "n \<le> length fs") (simp_all add: min_absorb2 add.commute add.left_commute)
  have 4: "nths (drop n fs) {j. i + n + j \<in> S} = nths (take m (drop n fs)) {j. i + n + j \<in> S} @
      nths (drop m (drop n fs)) {j. j + length (take m (drop n fs)) \<in> {j. i + n + j \<in> S}}"
    by (metis append_take_drop_id nths_append)
  have 5: "nths (take m (drop n fs)) {j. i + n + j \<in> S} = take m (drop n fs)"
    by (rule nths_every) (use assms(2) in simp)
  have 6: "nths (drop m (drop n fs)) {j. j + length (take m (drop n fs)) \<in> {j. i + n + j \<in> S}} =
      nths (drop (n + m) fs) {j. i + n + m + j \<in> T}"
    using assms(3)
    by (cases "m \<le> length (drop n fs)") (simp_all add: min_absorb2 add.commute add.left_commute)
  show ?thesis unfolding 1 2 3 4 5 6 by simp
qed

lemma ordered_Cons:
  "ordered_ranges (r # rs) \<longleftrightarrow> (\<forall>q\<in>set rs. fr_end r \<le> fr_begin q) \<and> ordered_ranges rs"
  by (simp add: ordered_ranges_def)

lemma nths_first_range:
  assumes "ordered_ranges (r # rs)" and "nonempty_ranges (r # rs)" and "i \<le> unat (fr_begin r)"
  defines "n \<equiv> unat (fr_begin r) - i" and "m \<equiv> unat (fr_end r) - unat (fr_begin r)"
  shows "nths fs {j. i + j \<in> \<Union> (field_set ` set (r # rs))} =
         take m (drop n fs) @ nths (drop (n + m) fs) {j. unat (fr_end r) + j \<in> \<Union> (field_set ` set rs)}"
proof -
  have r: "fr_begin r < fr_end r" and nm: "i + n = unat (fr_begin r)" "i + n + m = unat (fr_end r)"
    using assms by (simp_all add: word_less_nat_alt)
  have later: "unat (fr_end r) \<le> j" if "q \<in> set rs" "j \<in> field_set q" for q j
    using assms(1) that by (fastforce simp: ordered_Cons field_set_def word_le_nat_alt)
  have "nths fs {j. i + j \<in> \<Union> (field_set ` set (r # rs))} =
        take m (drop n fs) @ nths (drop (n + m) fs) {j. i + n + m + j \<in> \<Union> (field_set ` set rs)}"
  proof (rule nths_window)
    fix j assume "j < n"
    then show "i + j \<notin> \<Union> (field_set ` set (r # rs))"
      using nm later r by (fastforce simp: field_set_def word_less_nat_alt)
  qed (use nm in \<open>auto simp: field_set_def\<close>)
  then show ?thesis unfolding nm(2) .
qed

lemma IndividualFields_from_eq:
  assumes "ordered_ranges rs" and "nonempty_ranges rs" and "\<forall>r\<in>set rs. i \<le> unat (fr_begin r)"
  shows "IndividualFields_from cb d rs i s st =
         call_list cb st (nths (line_fields d s) {j. i + j \<in> \<Union> (field_set ` set rs)})"
  using assms
proof (induction rs arbitrary: i s st)
  case Nil
  then show ?case by simp
next
  case (Cons r rs)
  define fs n m where "fs = line_fields d s" and "n = unat (fr_begin r) - i"
    and "m = unat (fr_end r) - unat (fr_begin r)"
  have w: "nths fs {j. i + j \<in> \<Union> (field_set ` set (r # rs))} =
         take m (drop n fs) @ nths (drop (n + m) fs) {j. unat (fr_end r) + j \<in> \<Union> (field_set ` set rs)}"
    unfolding n_def m_def by (rule nths_first_range [OF Cons.prems(1,2)]) (use Cons.prems(3) in simp)
  have r: "unat (fr_begin r) < unat (fr_end r)" "max i (unat (fr_begin r)) = unat (fr_begin r)"
    using Cons.prems(2,3) by (simp_all add: word_less_nat_alt)
  have later: "\<forall>q\<in>set rs. unat (fr_end r) \<le> unat (fr_begin q)"
    using Cons.prems(1) by (auto simp: ordered_Cons word_le_nat_alt dest!: bspec)
  note IH = Cons.IH [OF _ _ later]
  show ?case
  proof (cases "n < length fs")
    case False
    then show ?thesis
      using w by (simp add: skip_fields_eq fs_def [symmetric] n_def [symmetric])
  next
    case True
    define t where "t = rest_fields d n s"
    have t: "line_fields d t = drop n fs"
      using rest_fields_correct [of n d s] True by (simp add: t_def fs_def)
    show ?thesis
    proof (cases "m < length (drop n fs)")
      case False
      then show ?thesis
        using w True r t
        by (auto simp: skip_fields_eq call_fields_eq fs_def [symmetric] n_def [symmetric] m_def [symmetric]
            t_def [symmetric] split: prod.splits)
    next
      case m: True
      have u: "line_fields d (rest_fields d m t) = drop (n + m) fs"
        using rest_fields_correct [of m d t] m t by (simp add: add.commute)
      show ?thesis
        unfolding fs_def [symmetric] w call_list_append
        using True r t m u IH Cons.prems(1,2)
        by (auto simp: skip_fields_eq call_fields_eq fs_def [symmetric] n_def [symmetric] m_def [symmetric]
            t_def [symmetric] ordered_Cons split: prod.splits)
    qed
  qed
qed

text \<open>
  Over ranges in order, such as \<^verbatim>\<open>DefragmentFields\<close> returns, \<^verbatim>\<open>IndividualFields\<close> calls back with
  exactly the fields whose column is selected, in the order of the line, and stops after the
  first call that returns false, whose answer it returns. A final empty field is not a field.
\<close>

lemma IndividualFields_correct:
  assumes "ordered_ranges rs" and "nonempty_ranges rs"
  shows "IndividualFields s rs d cb st =
         call_list cb st (nths (line_fields d s) (\<Union> (field_set ` set rs)))"
  unfolding IndividualFields_def by (subst IndividualFields_from_eq [OF assms]) (simp_all only: add_0 Collect_mem_eq zero_le ball_triv simp_thms)

definition join_fields :: "byte \<Rightarrow> bytes list \<Rightarrow> bytes" where
  "join_fields d fs = butlast (lead_fields d fs)"

lemma join_fields_simps [simp]:
  "join_fields d [] = []" "join_fields d [f] = f"
  "join_fields d (f # g # fs) = f @ d # join_fields d (g # fs)"
  by (simp_all add: join_fields_def lead_fields_def butlast_append)

definition range_text :: "byte \<Rightarrow> bytes \<Rightarrow> FieldRange \<Rightarrow> bytes" where
  "range_text d s r =
     (let fs = line_fields d s; b = unat (fr_begin r); e = unat (fr_end r)
      in if fr_end r = kInfiniteEnd \<or> e \<ge> length fs then rest_fields d b s
         else join_fields d (take (e - b) (drop b fs)))"

definition offset_range :: "nat \<Rightarrow> byte \<Rightarrow> bytes \<Rightarrow> FieldRange \<Rightarrow> bytes" where
  "offset_range i d s r =
     (let fs = line_fields d s; b = unat (fr_begin r) - i; e = unat (fr_end r) - i
      in if fr_end r = kInfiniteEnd \<or> e \<ge> length fs then rest_fields d b s
         else join_fields d (take (e - b) (drop b fs)))"

lemma rest_fields_add: "rest_fields d (n + m) s = rest_fields d m (rest_fields d n s)"
  by (induction n arbitrary: s) simp_all

lemma offset_range_rest:
  assumes "n < length (line_fields d s)" and "i + n \<le> unat (fr_begin r)" and "fr_begin r < fr_end r"
  shows "offset_range (i + n) d (rest_fields d n s) r = offset_range i d s r"
proof -
  have "rest_fields d (unat (fr_begin r) - (i + n)) (rest_fields d n s) = rest_fields d (unat (fr_begin r) - i) s"
    using assms(2) rest_fields_add [of d n "unat (fr_begin r) - (i + n)" s] by simp
  moreover have "line_fields d (rest_fields d n s) = drop n (line_fields d s)"
    using rest_fields_correct [OF assms(1)] by simp
  moreover have "drop (unat (fr_begin r) - (i + n)) (drop n (line_fields d s)) = drop (unat (fr_begin r) - i) (line_fields d s)"
    using assms(2) by simp
  moreover have "length (drop n (line_fields d s)) \<le> unat (fr_end r) - (i + n) \<longleftrightarrow> length (line_fields d s) \<le> unat (fr_end r) - i"
    using assms by (auto simp: word_less_nat_alt)
  moreover have "unat (fr_end r) - (i + n) - (unat (fr_begin r) - (i + n)) = unat (fr_end r) - i - (unat (fr_begin r) - i)"
    using assms(2,3) by (simp add: word_less_nat_alt)
  ultimately show ?thesis
    by (simp add: offset_range_def Let_def)
qed

lemma kInfiniteEnd_last: "\<not> kInfiniteEnd < x"
  by (simp add: kInfiniteEnd_def not_less word_order.extremum)

lemma rest_fields_less:
  assumes "0 < n" and "n < length (line_fields d s)"
  shows "length (rest_fields d n s) < length s"
proof -
  obtain f fs where "line_fields d s = f # fs" using assms(2) by (cases "line_fields d s") auto
  then have "0 < length (lead_fields d (take n (line_fields d s)))"
    using assms(1) by (cases n) (simp_all add: lead_fields_def)
  then show ?thesis using arg_cong [where f = length, OF conjunct2 [OF rest_fields_correct [OF assms(2)]]] by simp
qed

lemma take_lead: "t = l @ r \<Longrightarrow> take (length t - length r - 1) t = butlast l"
  by (simp add: butlast_conv_take)

lemma RangeFields_from_eq:
  assumes "ordered_ranges rs" and "nonempty_ranges rs" and "\<forall>r\<in>set rs. i \<le> unat (fr_begin r)"
  shows "RangeFields_from cb d rs i s st =
         Some (foldl cb st (map (offset_range i d s) (filter (\<lambda>r. unat (fr_begin r) - i < length (line_fields d s)) rs)))"
  using assms
proof (induction rs arbitrary: i s st)
  case Nil
  then show ?case by simp
next
  case (Cons r rs)
  define fs n m where "fs = line_fields d s" and "n = unat (fr_begin r) - i"
    and "m = unat (fr_end r) - unat (fr_begin r)"
  have r: "unat (fr_begin r) < unat (fr_end r)" "max i (unat (fr_begin r)) = unat (fr_begin r)"
    using Cons.prems(2,3) by (simp_all add: word_less_nat_alt)
  then have nm: "unat (fr_end r) - i = n + m" "0 < m" "i + (n + m) = unat (fr_end r)"
    using Cons.prems(3) by (simp_all add: n_def m_def)
  have later: "unat (fr_end r) \<le> unat (fr_begin q)" "fr_end r < fr_end q" if "q \<in> set rs" for q
    using Cons.prems(1,2) that by (auto simp: ordered_Cons word_le_nat_alt word_less_nat_alt dest!: bspec)
  have none: "filter (\<lambda>r. unat (fr_begin r) - i < length fs) rs = []" if "length fs \<le> n + m"
    unfolding filter_empty_conv using that later(1) nm by fastforce
  show ?case
  proof (cases "n < length fs")
    case False
    then show ?thesis
      using none by (simp add: skip_fields_eq fs_def [symmetric] n_def [symmetric])
  next
    case True
    define t where "t = rest_fields d n s"
    have t: "line_fields d t = drop n fs"
      using rest_fields_correct [of n d s] True by (simp add: t_def fs_def)
    show ?thesis
    proof (cases "fr_end r = kInfiniteEnd \<or> length fs \<le> n + m")
      case stop: True
      have "filter (\<lambda>r. unat (fr_begin r) - i < length fs) rs = []"
        using stop none kInfiniteEnd_last later(2) by (auto simp: filter_empty_conv)
      then show ?thesis
        using stop True r nm t
        by (auto simp: skip_fields_eq Let_def offset_range_def fs_def [symmetric] n_def [symmetric] m_def [symmetric]
            t_def [symmetric])
    next
      case go: False
      have u: "rest_fields d (n + m) s = rest_fields d m t"
        by (simp add: t_def rest_fields_add)
      have tk: "take (length t - length (rest_fields d m t) - 1) t = join_fields d (take m (drop n fs))"
        unfolding join_fields_def
        by (rule take_lead) (use rest_fields_correct [of m d t] go t in auto)
      have "map (offset_range (unat (fr_end r)) d (rest_fields d (n + m) s))
              (filter (\<lambda>q. unat (fr_begin q) - unat (fr_end r) < length (line_fields d (rest_fields d (n + m) s))) rs) =
            map (offset_range i d s) (filter (\<lambda>q. unat (fr_begin q) - i < length fs) rs)"
      proof (rule map_cong [OF filter_cong [OF refl]])
        fix q assume q: "q \<in> set rs"
        show "unat (fr_begin q) - unat (fr_end r) < length (line_fields d (rest_fields d (n + m) s)) \<longleftrightarrow>
              unat (fr_begin q) - i < length fs"
          using rest_fields_correct [of "n + m" d s] go later(1) [OF q] nm by (auto simp: fs_def [symmetric])
      next
        fix q assume "q \<in> set (filter (\<lambda>q. unat (fr_begin q) - i < length fs) rs)"
        then show "offset_range (unat (fr_end r)) d (rest_fields d (n + m) s) q = offset_range i d s q"
          using offset_range_rest [of "n + m" d s i q] go later(1) Cons.prems(2) nm by (simp add: fs_def)
      qed
      moreover have "offset_range i d s r = join_fields d (take m (drop n fs))"
        using go nm by (simp add: offset_range_def Let_def fs_def [symmetric] n_def [symmetric])
      moreover have "length (rest_fields d m t) < length t"
        using rest_fields_less [of m d t] go t nm(2) by auto
      moreover have "m < length fs - n" using go by auto
      ultimately show ?thesis
        using Cons.IH [of "unat (fr_end r)" "rest_fields d m t"] True go r nm t tk u later Cons.prems(1,2)
        by (simp add: skip_fields_eq Let_def fs_def [symmetric] n_def [symmetric] m_def [symmetric]
            t_def [symmetric] ordered_Cons)
    qed
  qed
qed

text \<open>The texts of the selected ranges, and how a hash of a key is made of them.\<close>

definition range_texts :: "byte \<Rightarrow> bytes \<Rightarrow> FieldRange list \<Rightarrow> bytes list" where
  "range_texts d s rs = map (range_text d s) (filter (\<lambda>r. unat (fr_begin r) < length (line_fields d s)) rs)"

abbreviation proper_ranges :: "FieldRange list \<Rightarrow> bool" where
  "proper_ranges rs \<equiv> ordered_ranges rs \<and> nonempty_ranges rs"

definition hash_texts :: "u64 \<Rightarrow> bytes list \<Rightarrow> u64" where
  "hash_texts seed = foldl (\<lambda>h t. MurmurHashNative t h) seed"

lemma hash_texts_simps [simp]:
  "hash_texts seed [] = seed" "hash_texts seed (t # ts) = hash_texts (MurmurHashNative t seed) ts"
  by (simp_all add: hash_texts_def)

lemma RangeFields_eq:
  assumes "ordered_ranges rs" and "nonempty_ranges rs"
  shows "RangeFields s rs d cb st = Some (foldl cb st (range_texts d s rs))"
proof -
  have "offset_range 0 d s = range_text d s"
    by (rule ext) (simp add: offset_range_def range_text_def)
  then show ?thesis
    using RangeFields_from_eq [OF assms, of 0 cb d s st] by (simp add: RangeFields_def range_texts_def)
qed

lemma foldl_HashCallback: "foldl HashCallback_call c ts = c\<lparr>hc_hash := hash_texts (hc_hash c) ts\<rparr>"
  by (induction ts arbitrary: c) (simp_all add: HashCallback_call_def)

lemma RangeFields_hash:
  assumes "proper_ranges rs"
  shows "\<exists>c. RangeFields s rs d HashCallback_call (HashCallback_init seed) = Some c \<and>
    hc_hash c = hash_texts seed (range_texts d s rs)"
  using assms by (simp add: RangeFields_eq foldl_HashCallback HashCallback_init_def)

text \<open>
  C34. Over ranges in order, such as \<^verbatim>\<open>DefragmentFields\<close> returns, \<^verbatim>\<open>RangeFields\<close> calls back once for each
  range that begins inside the line, in order. The text is the selected fields joined by the
  delimiter when the range ends before the last field, and otherwise everything from the
  first selected field to the end of the line, a final delimiter included.
\<close>

theorem RangeFields_correct:
  assumes "ordered_ranges rs" and "nonempty_ranges rs"
  shows "RangeFields s rs d cb st =
         Some (foldl cb st (map (range_text d s) (filter (\<lambda>r. unat (fr_begin r) < length (line_fields d s)) rs)))"
  using RangeFields_eq [OF assms] unfolding range_texts_def .

theorem RangeFields_correct_witness:
  "RangeFields (lit ''a,b'') [\<lparr>fr_begin = 1, fr_end = 2\<rparr>] 44 (\<lambda>st t. st @ [t]) [] =
   Some (foldl (\<lambda>st t. st @ [t]) [] (map (range_text 44 (lit ''a,b''))
     (filter (\<lambda>r. unat (fr_begin r) < length (line_fields 44 (lit ''a,b''))) [\<lparr>fr_begin = 1, fr_end = 2\<rparr>])))"
  by (rule RangeFields_correct) (simp_all add: ordered_ranges_def)

text \<open>
  The final delimiter makes a difference: the first two columns of \<^verbatim>\<open>a,b,\<close> and of \<^verbatim>\<open>a,b,c\<close>
  are not the same key.
\<close>

lemma RangeFields_final_delimiter:
  "RangeFields (lit ''a,b,'') [\<lparr>fr_begin = 0, fr_end = 2\<rparr>] 44 (\<lambda>st t. st @ [t]) [] = Some [lit ''a,b,'']"
  "RangeFields (lit ''a,b,c'') [\<lparr>fr_begin = 0, fr_end = 2\<rparr>] 44 (\<lambda>st t. st @ [t]) [] = Some [lit ''a,b'']"
  by (simp_all add: RangeFields_def skip_fields.simps lit_def kInfiniteEnd_def)

text \<open>
  Column 0 is accepted after an open range: \<^verbatim>\<open>5-,0\<close> parses, merges to a range from 4 to 0, and a
  line with five columns then makes \<^verbatim>\<open>RangeFields\<close> call back with a length of \<open>2 ^ 64 - 1\<close>. A shorter line
  does not reach the range.
\<close>

definition zero_column :: "FieldRange list" where
  "zero_column = [\<lparr>fr_begin = 4, fr_end = 0\<rparr>]"

lemma RangeFields_zero_column:
  "(case ParseFields (lit ''5-,0'') [] of Inr rs \<Rightarrow> DefragmentFields rs | Inl e \<Rightarrow> Inl e) = Inr zero_column"
  "RangeFields (lit ''a,b,c,d,e'') zero_column 44 cb st = None"
  "RangeFields (lit ''a,b,c,d'') zero_column 44 cb st = Some st"
proof -
  have "ParseFields (lit ''5-,0'') [] = Inr [\<lparr>fr_begin = 4, fr_end = kInfiniteEnd\<rparr>, \<lparr>fr_begin = kInfiniteEnd, fr_end = 0\<rparr>]"
    by (simp add: lit_def ParseFields.simps ParseField_def ParseBegin_def ParseEnd_def ConsumeInt_def strtoul_def
        isspace_def isdigit_def dec_value_def digit_value_def kInfiniteEnd_def)
  moreover have "DefragmentFields [\<lparr>fr_begin = 4, fr_end = kInfiniteEnd\<rparr>, \<lparr>fr_begin = kInfiniteEnd, fr_end = 0\<rparr>] = Inr zero_column"
    by (simp add: DefragmentFields_def sort_fields_def defragment_loop.simps kInfiniteEnd_def zero_column_def)
  ultimately show "(case ParseFields (lit ''5-,0'') [] of Inr rs \<Rightarrow> DefragmentFields rs | Inl e \<Rightarrow> Inl e) = Inr zero_column"
    by simp
qed (simp_all add: zero_column_def RangeFields_def skip_fields.simps lit_def kInfiniteEnd_def)

end
