(* ===== verification/ProbingHash.thy ===== *)
theory ProbingHash
  imports Prelude "HOL-Library.Multiset"
begin

text \<open>
  \<^verbatim>\<open>src/util/probing_hash_table.hh\<close>: the linear-probing hash table with external memory, its
  two policies for reducing a hash to a bucket, the doubling in place, and \<^verbatim>\<open>AutoProbing\<close>,
  the table that grows and owns its memory. The template parameters \<^verbatim>\<open>EntryT\<close> and \<^verbatim>\<open>HashT\<close>
  are a record of functions; \<^verbatim>\<open>EqualT\<close> is its default \<^verbatim>\<open>std::equal_to\<close>. A bucket is addressed
  by its index. A probe may not end in a table that is full, so it is a partial function.
\<close>

definition IdentityHash :: "'a \<Rightarrow> 'a" where
  "IdentityHash arg = arg"

subsection \<open>Reducing a hash to a bucket\<close>

datatype Mod = DivMod nat | Power2Mod u64

definition DivMod_new :: "nat \<Rightarrow> Mod result" where
  "DivMod_new n = Inr (DivMod n)"

definition Power2Mod_new :: "nat \<Rightarrow> Mod result" where
  "Power2Mod_new n =
     (let b = (of_nat n :: u64)
      in if b = 0 \<or> (b - 1) AND b \<noteq> 0 then Inl ProbingSizeException else Inr (Power2Mod (b - 1)))"

definition DivMod_RoundBuckets :: "u64 \<Rightarrow> u64" where
  "DivMod_RoundBuckets from = from"

definition Power2Mod_RoundBuckets :: "u64 \<Rightarrow> u64" where
  "Power2Mod_RoundBuckets from =
     (let from = from - 1;
          from = from OR drop_bit 1 from;
          from = from OR drop_bit 2 from;
          from = from OR drop_bit 4 from;
          from = from OR drop_bit 8 from;
          from = from OR drop_bit 16 from;
          from = from OR drop_bit 32 from
      in from + 1)"

definition mod_Ideal :: "Mod \<Rightarrow> u64 \<Rightarrow> nat" where
  "mod_Ideal m h = (case m of DivMod b \<Rightarrow> unat h mod b | Power2Mod msk \<Rightarrow> unat (h AND msk))"

definition mod_Next :: "Mod \<Rightarrow> nat \<Rightarrow> nat \<Rightarrow> nat" where
  "mod_Next m n i =
     (case m of
        DivMod _ \<Rightarrow> if i + 1 = n then 0 else i + 1
      | Power2Mod msk \<Rightarrow> unat (of_nat (i + 1) AND msk))"

definition mod_Double :: "Mod \<Rightarrow> Mod" where
  "mod_Double m = (case m of DivMod b \<Rightarrow> DivMod (b * 2) | Power2Mod msk \<Rightarrow> Power2Mod (push_bit 1 msk OR 1))"

subsection \<open>The table\<close>

text \<open>
  The operations of an entry; \<open>Blank\<close> is the entry \<^verbatim>\<open>Entry invalid;\<close> declares, whose fields are
  unspecified until \<^verbatim>\<open>SetKey\<close>.
\<close>

record ('e, 'k) EntryOps =
  GetKey :: "'e \<Rightarrow> 'k"
  SetKey :: "'k \<Rightarrow> 'e \<Rightarrow> 'e"
  Hash :: "'k \<Rightarrow> u64"
  Blank :: 'e

record ('e, 'k) ProbingHashTable =
  pt_buckets :: "'e list"
  pt_invalid :: 'k
  pt_mod :: Mod
  pt_entries :: nat

abbreviation pt_size :: "('e, 'k) ProbingHashTable \<Rightarrow> nat" where
  "pt_size t \<equiv> length (pt_buckets t)"

definition ProbingHashTable_new ::
  "(nat \<Rightarrow> Mod result) \<Rightarrow> 'e list \<Rightarrow> 'k \<Rightarrow> ('e, 'k) ProbingHashTable result"
where
  "ProbingHashTable_new mk memory invalid =
     map_sum id (\<lambda>m. \<lparr>pt_buckets = memory, pt_invalid = invalid, pt_mod = m, pt_entries = 0\<rparr>) (mk (length memory))"

text \<open>
  \<^verbatim>\<open>Size\<close>, in entries rather than bytes. The product of the multiplier and the number of
  entries, a computation in \<^verbatim>\<open>float\<close>, is the argument \<open>scaled\<close>.
\<close>

definition table_Size :: "(u64 \<Rightarrow> u64) \<Rightarrow> u64 \<Rightarrow> u64 \<Rightarrow> u64" where
  "table_Size round entries scaled = round (max (entries + 1) scaled)"

definition table_Ideal :: "('e, 'k) EntryOps \<Rightarrow> ('e, 'k) ProbingHashTable \<Rightarrow> 'k \<Rightarrow> nat" where
  "table_Ideal tr t key = mod_Ideal (pt_mod t) (Hash tr key)"

abbreviation key_at :: "('e, 'k) EntryOps \<Rightarrow> ('e, 'k) ProbingHashTable \<Rightarrow> nat \<Rightarrow> 'k" where
  "key_at tr t i \<equiv> GetKey tr (pt_buckets t ! i)"

text \<open>The loop \<^verbatim>\<open>for (i = start;; mod_.Next(begin_, end_, i))\<close> up to where its body leaves it.\<close>

partial_function (option) probe :: "(nat \<Rightarrow> bool) \<Rightarrow> (nat \<Rightarrow> nat) \<Rightarrow> nat \<Rightarrow> nat option" where
  "probe stop nxt i = (if stop i then Some i else probe stop nxt (nxt i))"

definition table_probe ::
  "('e, 'k) EntryOps \<Rightarrow> ('e, 'k) ProbingHashTable \<Rightarrow> 'k set \<Rightarrow> 'k \<Rightarrow> nat option"
where
  "table_probe tr t keys key =
     probe (\<lambda>i. key_at tr t i \<in> keys) (mod_Next (pt_mod t) (pt_size t)) (table_Ideal tr t key)"

definition UncheckedInsert ::
  "('e, 'k) EntryOps \<Rightarrow> ('e, 'k) ProbingHashTable \<Rightarrow> 'e \<Rightarrow> (('e, 'k) ProbingHashTable \<times> nat) option"
where
  "UncheckedInsert tr t e =
     (case table_probe tr t {pt_invalid t} (GetKey tr e) of
        None \<Rightarrow> None
      | Some i \<Rightarrow> Some (t\<lparr>pt_buckets := (pt_buckets t)[i := e]\<rparr>, i))"

definition table_Insert ::
  "('e, 'k) EntryOps \<Rightarrow> ('e, 'k) ProbingHashTable \<Rightarrow> 'e \<Rightarrow> (('e, 'k) ProbingHashTable \<times> nat result) option"
where
  "table_Insert tr t e =
     (let t = t\<lparr>pt_entries := pt_entries t + 1\<rparr>
      in if pt_entries t \<ge> pt_size t then Some (t, Inl ProbingSizeException)
         else map_option (\<lambda>(t, i). (t, Inr i)) (UncheckedInsert tr t e))"

text \<open>The result: whether the key was found, and the iterator.\<close>

definition table_FindOrInsert ::
  "('e, 'k) EntryOps \<Rightarrow> ('e, 'k) ProbingHashTable \<Rightarrow> 'e \<Rightarrow> (('e, 'k) ProbingHashTable \<times> (bool \<times> nat) result) option"
where
  "table_FindOrInsert tr t e =
     (case table_probe tr t {GetKey tr e, pt_invalid t} (GetKey tr e) of
        None \<Rightarrow> None
      | Some i \<Rightarrow>
          Some (if key_at tr t i = GetKey tr e then (t, Inr (True, i))
                else (let t = t\<lparr>pt_entries := pt_entries t + 1\<rparr>
                      in if pt_entries t \<ge> pt_size t then (t, Inl ProbingSizeException)
                         else (t\<lparr>pt_buckets := (pt_buckets t)[i := e]\<rparr>, Inr (False, i)))))"

definition table_Find ::
  "('e, 'k) EntryOps \<Rightarrow> ('e, 'k) ProbingHashTable \<Rightarrow> 'k \<Rightarrow> (bool \<times> nat) option"
where
  "table_Find tr t key =
     map_option (\<lambda>i. (key_at tr t i = key, i)) (table_probe tr t {key, pt_invalid t} key)"

definition table_MustFind :: "('e, 'k) EntryOps \<Rightarrow> ('e, 'k) ProbingHashTable \<Rightarrow> 'k \<Rightarrow> nat option" where
  "table_MustFind tr t key = table_probe tr t {key} key"

definition table_Clear :: "('e, 'k) EntryOps \<Rightarrow> ('e, 'k) ProbingHashTable \<Rightarrow> ('e, 'k) ProbingHashTable" where
  "table_Clear tr t =
     t\<lparr>pt_buckets := replicate (pt_size t) (SetKey tr (pt_invalid t) (Blank tr)), pt_entries := 0\<rparr>"

subsection \<open>Doubling\<close>

text \<open>
  The memory handed over begins with the old buckets; \<open>fresh\<close> is the second half, which is
  filled with invalid entries when \<open>clear_new\<close> is set. First the entries that may have
  wrapped around are moved to a buffer, then every entry is taken out and inserted again.
\<close>

definition is_free :: "('e, 'k) EntryOps \<Rightarrow> ('e, 'k) ProbingHashTable \<Rightarrow> nat \<Rightarrow> bool" where
  "is_free tr t i \<longleftrightarrow> key_at tr t i = pt_invalid t"

definition remove_at :: "('e, 'k) EntryOps \<Rightarrow> ('e, 'k) ProbingHashTable \<Rightarrow> nat \<Rightarrow> ('e, 'k) ProbingHashTable" where
  "remove_at tr t i = t\<lparr>pt_buckets := (pt_buckets t)[i := SetKey tr (pt_invalid t) (pt_buckets t ! i)]\<rparr>"

primrec roll_over ::
  "('e, 'k) EntryOps \<Rightarrow> nat \<Rightarrow> nat \<Rightarrow> ('e, 'k) ProbingHashTable \<Rightarrow> 'e list \<Rightarrow> ('e, 'k) ProbingHashTable \<times> 'e list"
where
  "roll_over tr 0 i t rolled = (t, rolled)"
| "roll_over tr (Suc left) i t rolled =
     (if is_free tr t i then (t, rolled)
      else roll_over tr left (i + 1) (remove_at tr t i) (rolled @ [pt_buckets t ! i]))"

primrec reinsert ::
  "('e, 'k) EntryOps \<Rightarrow> nat \<Rightarrow> nat \<Rightarrow> ('e, 'k) ProbingHashTable \<Rightarrow> ('e, 'k) ProbingHashTable option"
where
  "reinsert tr 0 i t = Some t"
| "reinsert tr (Suc left) i t =
     (if \<not> is_free tr t i then
        (case UncheckedInsert tr (remove_at tr t i) (pt_buckets t ! i) of
           None \<Rightarrow> None
         | Some (t, _) \<Rightarrow> reinsert tr left (i + 1) t)
      else reinsert tr left (i + 1) t)"

primrec insert_all ::
  "('e, 'k) EntryOps \<Rightarrow> 'e list \<Rightarrow> ('e, 'k) ProbingHashTable \<Rightarrow> ('e, 'k) ProbingHashTable option"
where
  "insert_all tr [] t = Some t"
| "insert_all tr (e # es) t =
     (case UncheckedInsert tr t e of None \<Rightarrow> None | Some (t, _) \<Rightarrow> insert_all tr es t)"

definition table_Double ::
  "('e, 'k) EntryOps \<Rightarrow> ('e, 'k) ProbingHashTable \<Rightarrow> 'e list \<Rightarrow> bool \<Rightarrow> ('e, 'k) ProbingHashTable option"
where
  "table_Double tr t fresh clear_new =
     (let n = pt_size t;
          fresh = (if clear_new then replicate n (SetKey tr (pt_invalid t) (Blank tr)) else fresh);
          t = t\<lparr>pt_buckets := pt_buckets t @ fresh, pt_mod := mod_Double (pt_mod t)\<rparr>;
          (t, rolled_over) = roll_over tr n 0 t []
      in case reinsert tr n 0 t of None \<Rightarrow> None | Some t \<Rightarrow> insert_all tr rolled_over t)"

text \<open>
  \<^verbatim>\<open>CheckConsistency\<close>. The first loop runs down from the last bucket; \<open>lst\<close> is one more than
  the pointer's index, so that 0 stands for the position before \<^verbatim>\<open>begin_\<close>. The loop from the
  beginning stops at the first free bucket and would run past \<^verbatim>\<open>end_\<close> if there were none,
  which is the result \<open>OutOfRange\<close> here.
\<close>

primrec check_last :: "('e, 'k) EntryOps \<Rightarrow> ('e, 'k) ProbingHashTable \<Rightarrow> nat \<Rightarrow> nat" where
  "check_last tr t 0 = 0"
| "check_last tr t (Suc i) = (if is_free tr t i then Suc i else check_last tr t i)"

primrec check_front :: "('e, 'k) EntryOps \<Rightarrow> ('e, 'k) ProbingHashTable \<Rightarrow> nat \<Rightarrow> nat \<Rightarrow> nat \<Rightarrow> nat result" where
  "check_front tr t lst 0 i = Inl OutOfRange"
| "check_front tr t lst (Suc left) i =
     (if is_free tr t i then Inr i
      else (let ideal = table_Ideal tr t (key_at tr t i)
            in if ideal > i \<and> ideal + 1 \<le> lst then Inl Exception
               else check_front tr t lst left (i + 1)))"

primrec check_back ::
  "('e, 'k) EntryOps \<Rightarrow> ('e, 'k) ProbingHashTable \<Rightarrow> nat \<Rightarrow> nat \<Rightarrow> nat \<Rightarrow> unit result"
where
  "check_back tr t 0 i pre_gap = Inr ()"
| "check_back tr t (Suc left) i pre_gap =
     (if is_free tr t i then check_back tr t left (i + 1) i
      else (let ideal = table_Ideal tr t (key_at tr t i)
            in if ideal > i \<or> ideal \<le> pre_gap then Inl Exception
               else check_back tr t left (i + 1) pre_gap))"

definition CheckConsistency :: "('e, 'k) EntryOps \<Rightarrow> ('e, 'k) ProbingHashTable \<Rightarrow> unit result" where
  "CheckConsistency tr t =
     (let n = pt_size t; lst = check_last tr t n
      in if lst = 1 then Inl ProbingSizeException
         else case check_front tr t lst n 0 of
                Inl e \<Rightarrow> Inl e
              | Inr i \<Rightarrow> check_back tr t (n - i) i i)"

subsection \<open>\<open>AutoProbing\<close>\<close>

record ('e, 'k) AutoProbing =
  ap_backend :: "('e, 'k) ProbingHashTable"
  ap_threshold :: nat

text \<open>\<^verbatim>\<open>buckets_ * 0.75\<close> is exact on a power of two below \<open>2 ^ 53\<close> and truncated on assignment.\<close>

definition threshold_for :: "nat \<Rightarrow> nat" where
  "threshold_for n = min (n - 1) (n * 3 div 4)"

text \<open>
  The memory is zeroed when the invalid key's bytes are zero (\<open>raw_zero\<close>), and cleared
  otherwise; either way every bucket holds the invalid key. \<open>zero\<close> is the entry of zero bytes.
\<close>

definition AutoProbing_new ::
  "('e, 'k) EntryOps \<Rightarrow> bool \<Rightarrow> 'e \<Rightarrow> u64 \<Rightarrow> u64 \<Rightarrow> 'k \<Rightarrow> ('e, 'k) AutoProbing result"
where
  "AutoProbing_new tr raw_zero zero initial_size scaled invalid =
     map_sum id
       (\<lambda>t. \<lparr>ap_backend = (if raw_zero then t else table_Clear tr t), ap_threshold = threshold_for (pt_size t)\<rparr>)
       (ProbingHashTable_new Power2Mod_new
          (replicate (unat (table_Size Power2Mod_RoundBuckets initial_size scaled)) zero) invalid)"

definition DoubleIfNeeded ::
  "('e, 'k) EntryOps \<Rightarrow> bool \<Rightarrow> 'e \<Rightarrow> ('e, 'k) AutoProbing \<Rightarrow> ('e, 'k) AutoProbing option"
where
  "DoubleIfNeeded tr raw_zero zero a =
     (let t = ap_backend a
      in if pt_entries t < ap_threshold a then Some a
         else map_option (\<lambda>t. \<lparr>ap_backend = t, ap_threshold = threshold_for (pt_size t)\<rparr>)
                (table_Double tr t (replicate (pt_size t) zero) (\<not> raw_zero)))"

definition auto_Insert ::
  "('e, 'k) EntryOps \<Rightarrow> bool \<Rightarrow> 'e \<Rightarrow> ('e, 'k) AutoProbing \<Rightarrow> 'e \<Rightarrow> (('e, 'k) AutoProbing \<times> nat) option"
where
  "auto_Insert tr raw_zero zero a e =
     (let a = a\<lparr>ap_backend := (ap_backend a)\<lparr>pt_entries := pt_entries (ap_backend a) + 1\<rparr>\<rparr>
      in case DoubleIfNeeded tr raw_zero zero a of
           None \<Rightarrow> None
         | Some a \<Rightarrow> map_option (\<lambda>(t, i). (a\<lparr>ap_backend := t\<rparr>, i)) (UncheckedInsert tr (ap_backend a) e))"

definition auto_FindOrInsert ::
  "('e, 'k) EntryOps \<Rightarrow> bool \<Rightarrow> 'e \<Rightarrow> ('e, 'k) AutoProbing \<Rightarrow> 'e \<Rightarrow>
     (('e, 'k) AutoProbing \<times> (bool \<times> nat) result) option"
where
  "auto_FindOrInsert tr raw_zero zero a e =
     (case DoubleIfNeeded tr raw_zero zero a of
        None \<Rightarrow> None
      | Some a \<Rightarrow> map_option (\<lambda>(t, r). (a\<lparr>ap_backend := t\<rparr>, r)) (table_FindOrInsert tr (ap_backend a) e))"

definition auto_Find :: "('e, 'k) EntryOps \<Rightarrow> ('e, 'k) AutoProbing \<Rightarrow> 'k \<Rightarrow> (bool \<times> nat) option" where
  "auto_Find tr a key = table_Find tr (ap_backend a) key"

definition auto_Clear :: "('e, 'k) EntryOps \<Rightarrow> ('e, 'k) AutoProbing \<Rightarrow> ('e, 'k) AutoProbing" where
  "auto_Clear tr a = a\<lparr>ap_backend := table_Clear tr (ap_backend a)\<rparr>"

subsection \<open>The policies\<close>

text \<open>What the table needs of a policy for a given number of buckets.\<close>

definition mod_ok :: "Mod \<Rightarrow> nat \<Rightarrow> bool" where
  "mod_ok m n \<longleftrightarrow>
     (case m of DivMod b \<Rightarrow> b = n \<and> n > 0 | Power2Mod msk \<Rightarrow> \<exists>k\<le>64. n = 2 ^ k \<and> msk = mask k)"

lemma mod_ok_pos: "mod_ok m n \<Longrightarrow> 0 < n"
  by (auto simp: mod_ok_def split: Mod.splits)

lemma unat_and_mask: "unat ((h :: u64) AND mask k) = unat h mod 2 ^ k"
  by (metis take_bit_eq_mask take_bit_eq_mod unsigned_take_bit_eq)

lemma mod_Ideal_eq: "mod_ok m n \<Longrightarrow> mod_Ideal m h = unat h mod n"
  by (auto simp: mod_ok_def mod_Ideal_def unat_and_mask split: Mod.splits)

lemma mod_Next_eq:
  assumes "mod_ok m n" and "i < n"
  shows "mod_Next m n i = (i + 1) mod n"
proof (cases m)
  case (DivMod b)
  then show ?thesis using assms by (auto simp: mod_Next_def mod_ok_def)
next
  case (Power2Mod msk)
  then obtain k where k: "k \<le> 64" "n = 2 ^ k" "msk = mask k" using assms by (auto simp: mod_ok_def)
  have "(2::nat) ^ k dvd 2 ^ 64" using k(1) by (rule le_imp_power_dvd)
  then have "(i + 1) mod 2 ^ 64 mod 2 ^ k = (i + 1) mod 2 ^ k" by (rule mod_mod_cancel)
  then show ?thesis
    using Power2Mod k unat_and_mask [of "of_nat (i + 1)" k] by (simp add: mod_Next_def unat_of_nat del: of_nat_Suc of_nat_add)
qed

lemma mod_Double_ok:
  assumes "mod_ok m n" and "n \<le> 2 ^ 63"
  shows "mod_ok (mod_Double m) (2 * n)"
proof (cases m)
  case (Power2Mod msk)
  then obtain k where k: "k \<le> 64" "n = 2 ^ k" "msk = mask k" using assms by (auto simp: mod_ok_def)
  have "k \<le> 63" using assms(2) unfolding k(2) by (rule power_le_imp_le_exp [rotated]) simp
  moreover have "push_bit 1 (mask k) OR 1 = (mask (Suc k) :: u64)"
    by (simp add: mask_Suc_double or.commute mult.commute)
  ultimately show ?thesis
    using Power2Mod k by (auto simp: mod_ok_def mod_Double_def intro!: exI [of _ "Suc k"])
qed (use assms in \<open>auto simp: mod_ok_def mod_Double_def\<close>)

subsection \<open>Probing\<close>

lemma probe_least:
  assumes "\<And>j. j < n \<Longrightarrow> nxt j = (j + 1) mod n" and "i < n"
    and "\<And>d'. d' < d \<Longrightarrow> \<not> stop ((i + d') mod n)" and "stop ((i + d) mod n)"
  shows "probe stop nxt i = Some ((i + d) mod n)"
  using assms(2-4)
proof (induction d arbitrary: i)
  case 0
  then show ?case by (subst probe.simps) simp
next
  case (Suc d)
  have "\<not> stop i" using Suc.prems(1) Suc.prems(2) [of 0] by simp
  then have "probe stop nxt i = probe stop nxt ((i + 1) mod n)"
    using assms(1) [OF Suc.prems(1)] by (subst probe.simps) simp
  also have "\<dots> = Some (((i + 1) mod n + d) mod n)"
  proof (rule Suc.IH)
    show "(i + 1) mod n < n" using Suc.prems(1) by simp
    show "\<not> stop (((i + 1) mod n + d') mod n)" if "d' < d" for d'
      using Suc.prems(2) [of "Suc d'"] that by (simp add: mod_add_left_eq)
    show "stop (((i + 1) mod n + d) mod n)"
      using Suc.prems(3) by (simp add: mod_add_left_eq)
  qed
  finally show ?case by (simp add: mod_add_left_eq)
qed

lemma cyclic_reach:
  assumes "i < n" and "f < (n :: nat)"
  shows "\<exists>d. (i + d) mod n = f"
  by (rule exI [of _ "n - i + f"]) (use assms in simp)

lemma probe_cyclic:
  assumes "\<And>j. j < n \<Longrightarrow> nxt j = (j + 1) mod n" and "i < n" and "f < n" and "stop f"
  obtains d where "probe stop nxt i = Some ((i + d) mod n)" and "stop ((i + d) mod n)"
    and "\<And>d'. d' < d \<Longrightarrow> \<not> stop ((i + d') mod n)"
proof -
  let ?d = "LEAST d. stop ((i + d) mod n)"
  have ex: "\<exists>d. stop ((i + d) mod n)" using cyclic_reach [OF assms(2,3)] assms(4) by auto
  have stop: "stop ((i + ?d) mod n)" by (rule LeastI_ex [OF ex])
  moreover have no: "\<not> stop ((i + d') mod n)" if "d' < ?d" for d' using that by (rule not_less_Least)
  moreover have "probe stop nxt i = Some ((i + ?d) mod n)" by (rule probe_least [OF assms(1,2), where stop = stop, OF _ no stop])
  ultimately show ?thesis using that by blast
qed

subsection \<open>The invariant\<close>

text \<open>
  No free bucket lies on the way from an entry's ideal bucket to where it is. With one bucket
  free somewhere, which every probe meets, distinct keys and an exact count, this is what the
  operations rely on and keep.
\<close>

definition gapless :: "('e, 'k) EntryOps \<Rightarrow> ('e, 'k) ProbingHashTable \<Rightarrow> bool" where
  "gapless tr t \<longleftrightarrow>
     (\<forall>p<pt_size t. \<not> is_free tr t p \<longrightarrow>
        (\<exists>d. p = (table_Ideal tr t (key_at tr t p) + d) mod pt_size t \<and>
             (\<forall>d'<d. \<not> is_free tr t ((table_Ideal tr t (key_at tr t p) + d') mod pt_size t))))"

definition contents :: "('e, 'k) EntryOps \<Rightarrow> ('e, 'k) ProbingHashTable \<Rightarrow> 'e multiset" where
  "contents tr t = filter_mset (\<lambda>e. GetKey tr e \<noteq> pt_invalid t) (mset (pt_buckets t))"

definition table_ok :: "('e, 'k) EntryOps \<Rightarrow> ('e, 'k) ProbingHashTable \<Rightarrow> bool" where
  "table_ok tr t \<longleftrightarrow>
     mod_ok (pt_mod t) (pt_size t) \<and> gapless tr t \<and> (\<forall>k. count (image_mset (GetKey tr) (contents tr t)) k \<le> 1) \<and>
     pt_entries t = size (contents tr t) \<and> pt_entries t < pt_size t"

definition lawful :: "('e, 'k) EntryOps \<Rightarrow> bool" where
  "lawful tr \<longleftrightarrow> (\<forall>k e. GetKey tr (SetKey tr k e) = k)"

text \<open>The map a table stands for.\<close>

definition table_map :: "('e, 'k) EntryOps \<Rightarrow> ('e, 'k) ProbingHashTable \<Rightarrow> 'k \<rightharpoonup> 'e" where
  "table_map tr t k = (if k = pt_invalid t then None else List.find (\<lambda>e. GetKey tr e = k) (pt_buckets t))"

lemma size_contents_free:
  assumes "size (contents tr t) < pt_size t"
  obtains f where "f < pt_size t" and "is_free tr t f"
proof -
  have "\<not> (\<forall>e\<in>set (pt_buckets t). GetKey tr e \<noteq> pt_invalid t)"
  proof
    assume "\<forall>e\<in>set (pt_buckets t). GetKey tr e \<noteq> pt_invalid t"
    then have "contents tr t = mset (pt_buckets t)"
      by (simp add: contents_def filter_mset_eq_conv)
    with assms show False by simp
  qed
  then show ?thesis
    using that by (auto simp: in_set_conv_nth is_free_def)
qed

lemma contents_update:
  assumes "i < pt_size t"
  shows "contents tr (t\<lparr>pt_buckets := (pt_buckets t)[i := e]\<rparr>) =
         (if is_free tr t i then contents tr t else contents tr t - {#pt_buckets t ! i#}) +
         (if GetKey tr e = pt_invalid t then {#} else {#e#})"
  using assms by (auto simp: contents_def mset_update is_free_def)

lemma count_image_two:
  assumes "i < j" and "j < length xs" and "P (xs ! i)" and "P (xs ! j)" and "f (xs ! i) = f (xs ! j)"
  shows "2 \<le> count (image_mset f (filter_mset P (mset xs))) (f (xs ! i))"
proof -
  have j: "xs ! j \<in> set (drop (Suc i) xs)"
    using assms(1,2) by (auto simp: in_set_conv_nth intro!: exI [of _ "j - Suc i"])
  then have "f (xs ! i) \<in># image_mset f (filter_mset P (mset (drop (Suc i) xs)))"
    using assms(4,5) by auto
  then have "1 \<le> count (image_mset f (filter_mset P (mset (drop (Suc i) xs)))) (f (xs ! i))"
    by (simp add: Suc_le_eq)
  moreover have "mset xs = mset (take i xs) + {#xs ! i#} + mset (drop (Suc i) xs)"
    using assms(1,2) id_take_nth_drop [of i xs] by (metis add_mset_add_single less_trans mset.simps(2) mset_append
        union_mset_add_mset_left union_mset_add_mset_right add.commute add.right_neutral empty_neutral(1))
  then have "count (image_mset f (filter_mset P (mset xs))) (f (xs ! i)) =
      count (image_mset f (filter_mset P (mset (take i xs)))) (f (xs ! i)) + 1 +
      count (image_mset f (filter_mset P (mset (drop (Suc i) xs)))) (f (xs ! i))"
    using assms(3) by simp
  ultimately show ?thesis by linarith
qed

lemma distinct_keys:
  assumes "\<forall>k. count (image_mset (GetKey tr) (contents tr t)) k \<le> 1"
    and "i < pt_size t" and "j < pt_size t" and "\<not> is_free tr t i" and "key_at tr t i = key_at tr t j"
  shows "i = j"
proof (rule ccontr)
  assume "i \<noteq> j"
  let ?P = "\<lambda>e. GetKey tr e \<noteq> pt_invalid t"
  have P: "?P (pt_buckets t ! i)" "?P (pt_buckets t ! j)" using assms(4,5) by (simp_all add: is_free_def)
  have "2 \<le> count (image_mset (GetKey tr) (filter_mset ?P (mset (pt_buckets t)))) (key_at tr t i)"
  proof (cases "i < j")
    case True
    show ?thesis by (rule count_image_two [OF True assms(3) P assms(5)])
  next
    case False
    then have "j < i" using \<open>i \<noteq> j\<close> by simp
    show ?thesis
      unfolding assms(5) by (rule count_image_two [OF \<open>j < i\<close> assms(2) P(2,1) assms(5) [symmetric]])
  qed
  then show False using assms(1) by (auto simp: contents_def dest!: spec [of _ "key_at tr t i"])
qed

lemma table_map_Some:
  assumes "\<forall>k. count (image_mset (GetKey tr) (contents tr t)) k \<le> 1"
  shows "table_map tr t k = Some e \<longleftrightarrow> e \<in># contents tr t \<and> GetKey tr e = k"
proof
  assume "table_map tr t k = Some e"
  then have "k \<noteq> pt_invalid t" "GetKey tr e = k" "e \<in> set (pt_buckets t)"
    by (auto simp: table_map_def find_Some_iff split: if_splits)
  then show "e \<in># contents tr t \<and> GetKey tr e = k" by (simp add: contents_def)
next
  assume e: "e \<in># contents tr t \<and> GetKey tr e = k"
  then obtain i where i: "i < pt_size t" "e = pt_buckets t ! i" "k \<noteq> pt_invalid t"
    by (auto simp: contents_def in_set_conv_nth)
  have ki: "key_at tr t i = k" using e i(2) by simp
  then have "\<not> is_free tr t i" using i(3) by (simp add: is_free_def)
  then have "key_at tr t j \<noteq> k" if "j < i" for j
    using distinct_keys [OF assms i(1), of j] ki i(1) that by fastforce
  with i e have "List.find (\<lambda>e. GetKey tr e = k) (pt_buckets t) = Some e"
    unfolding find_Some_iff by blast
  with i(3) show "table_map tr t k = Some e"
    by (simp add: table_map_def)
qed

subsection \<open>Finding and inserting\<close>

lemma table_next: "mod_ok (pt_mod t) (pt_size t) \<Longrightarrow> j < pt_size t \<Longrightarrow> mod_Next (pt_mod t) (pt_size t) j = (j + 1) mod pt_size t"
  by (rule mod_Next_eq)

lemma table_Ideal_eq: "mod_ok (pt_mod t) (pt_size t) \<Longrightarrow> table_Ideal tr t k = unat (Hash tr k) mod pt_size t"
  by (simp add: table_Ideal_def mod_Ideal_eq)

lemma table_Ideal_less: "mod_ok (pt_mod t) (pt_size t) \<Longrightarrow> table_Ideal tr t k < pt_size t"
  using mod_ok_pos [of "pt_mod t" "pt_size t"] by (simp add: table_Ideal_eq)

lemma table_probe_cyclic:
  assumes "mod_ok (pt_mod t) (pt_size t)" and "size (contents tr t) < pt_size t" and "pt_invalid t \<in> keys"
  obtains d where "table_probe tr t keys key = Some ((table_Ideal tr t key + d) mod pt_size t)"
    and "key_at tr t ((table_Ideal tr t key + d) mod pt_size t) \<in> keys"
    and "\<And>d'. d' < d \<Longrightarrow> key_at tr t ((table_Ideal tr t key + d') mod pt_size t) \<notin> keys"
proof -
  obtain f where f: "f < pt_size t" "is_free tr t f" using size_contents_free assms(2) by blast
  then have kf: "key_at tr t f \<in> keys" using assms(3) by (simp add: is_free_def)
  obtain d where "probe (\<lambda>i. key_at tr t i \<in> keys) (mod_Next (pt_mod t) (pt_size t)) (table_Ideal tr t key) =
      Some ((table_Ideal tr t key + d) mod pt_size t)"
    "key_at tr t ((table_Ideal tr t key + d) mod pt_size t) \<in> keys"
    "\<And>d'. d' < d \<Longrightarrow> key_at tr t ((table_Ideal tr t key + d') mod pt_size t) \<notin> keys"
    by (rule probe_cyclic [OF table_next [OF assms(1)] table_Ideal_less [OF assms(1)] f(1),
          where stop = "\<lambda>i. key_at tr t i \<in> keys", OF _ kf]) blast+
  then show ?thesis
    using that by (simp add: table_probe_def)
qed

text \<open>Where a probe for a key ends: at its entry, or at the bucket where it belongs.\<close>

definition belongs_at :: "('e, 'k) EntryOps \<Rightarrow> ('e, 'k) ProbingHashTable \<Rightarrow> 'k \<Rightarrow> nat \<Rightarrow> bool" where
  "belongs_at tr t k i \<longleftrightarrow>
     is_free tr t i \<and> i < pt_size t \<and>
     (\<exists>d. i = (table_Ideal tr t k + d) mod pt_size t \<and>
          (\<forall>d'<d. \<not> is_free tr t ((table_Ideal tr t k + d') mod pt_size t)))"

lemma table_probe_key:
  assumes "table_ok tr t" and "k \<noteq> pt_invalid t"
  obtains (found) i where "table_probe tr t {k, pt_invalid t} k = Some i" and "i < pt_size t" and "key_at tr t i = k"
      and "table_map tr t k = Some (pt_buckets t ! i)"
  | (missing) i where "table_probe tr t {k, pt_invalid t} k = Some i" and "belongs_at tr t k i"
      and "table_map tr t k = None"
proof -
  have ok: "mod_ok (pt_mod t) (pt_size t)" "size (contents tr t) < pt_size t" "gapless tr t"
    and dist: "\<forall>k. count (image_mset (GetKey tr) (contents tr t)) k \<le> 1"
    using assms(1) by (auto simp: table_ok_def)
  obtain d where d: "table_probe tr t {k, pt_invalid t} k = Some ((table_Ideal tr t k + d) mod pt_size t)"
    "key_at tr t ((table_Ideal tr t k + d) mod pt_size t) \<in> {k, pt_invalid t}"
    "\<And>d'. d' < d \<Longrightarrow> key_at tr t ((table_Ideal tr t k + d') mod pt_size t) \<notin> {k, pt_invalid t}"
    using table_probe_cyclic [OF ok(1,2), of "{k, pt_invalid t}"] by blast
  let ?i = "(table_Ideal tr t k + d) mod pt_size t"
  have i: "?i < pt_size t" using mod_ok_pos [OF ok(1)] by simp
  show ?thesis
  proof (cases "key_at tr t ?i = k")
    case True
    then have "table_map tr t k = Some (pt_buckets t ! ?i)"
      unfolding table_map_Some [OF dist] using i assms(2) by (simp add: contents_def)
    with True d(1) i show ?thesis using found by blast
  next
    case False
    then have free: "is_free tr t ?i" using d(2) by (simp add: is_free_def)
    have "table_map tr t k = None"
    proof (rule ccontr)
      assume "table_map tr t k \<noteq> None"
      then obtain e where "table_map tr t k = Some e" by blast
      then obtain p where p: "p < pt_size t" "key_at tr t p = k"
        unfolding table_map_Some [OF dist] by (auto simp: contents_def in_set_conv_nth)
      then obtain c where c: "p = (table_Ideal tr t k + c) mod pt_size t"
        "\<And>d'. d' < c \<Longrightarrow> \<not> is_free tr t ((table_Ideal tr t k + d') mod pt_size t)"
        using ok(3) assms(2) unfolding gapless_def is_free_def by blast
      then have "c \<le> d" using free not_le by blast
      moreover have "c \<noteq> d" using p c False by auto
      ultimately show False using d(3) [of c] p c by simp
    qed
    moreover have "belongs_at tr t k ?i"
      unfolding belongs_at_def using free i d(3) by (auto simp: is_free_def)
    ultimately show ?thesis using d(1) missing by blast
  qed
qed

text \<open>Filling the bucket where a key belongs keeps the table gapless.\<close>

lemma put_simps [simp]:
  "pt_size (t\<lparr>pt_buckets := (pt_buckets t)[i := e]\<rparr>) = pt_size t"
  "table_Ideal tr (t\<lparr>pt_buckets := bs\<rparr>) k = table_Ideal tr t k"
  "table_Ideal tr (t\<lparr>pt_entries := c\<rparr>) k = table_Ideal tr t k"
  "is_free tr (t\<lparr>pt_entries := c\<rparr>) i = is_free tr t i"
  "contents tr (t\<lparr>pt_entries := c\<rparr>) = contents tr t"
  "gapless tr (t\<lparr>pt_entries := c\<rparr>) = gapless tr t"
  "belongs_at tr (t\<lparr>pt_entries := c\<rparr>) k i = belongs_at tr t k i"
  by (simp_all add: table_Ideal_def is_free_def contents_def gapless_def belongs_at_def)

lemma is_free_put:
  "p < pt_size t \<Longrightarrow> is_free tr (t\<lparr>pt_buckets := (pt_buckets t)[i := e]\<rparr>) p \<longleftrightarrow>
     (if p = i then GetKey tr e = pt_invalid t else is_free tr t p)"
  by (simp add: is_free_def)

lemma gapless_put:
  assumes "gapless tr t" and "belongs_at tr t (GetKey tr e) i" and "GetKey tr e \<noteq> pt_invalid t"
  shows "gapless tr (t\<lparr>pt_buckets := (pt_buckets t)[i := e]\<rparr>)" (is "gapless tr ?t")
  unfolding gapless_def
proof (intro allI impI)
  have n: "0 < pt_size t" using assms(2) by (auto simp: belongs_at_def)
  have kept: "\<not> is_free tr ?t q" if "\<not> is_free tr t q" "q < pt_size t" for q
    using that assms(3) by (simp add: is_free_put)
  fix p assume p: "p < pt_size ?t" "\<not> is_free tr ?t p"
  show "\<exists>d. p = (table_Ideal tr ?t (key_at tr ?t p) + d) mod pt_size ?t \<and>
            (\<forall>d'<d. \<not> is_free tr ?t ((table_Ideal tr ?t (key_at tr ?t p) + d') mod pt_size ?t))"
  proof (cases "p = i")
    case True
    then have "key_at tr ?t p = GetKey tr e" using p by simp
    then show ?thesis
      using assms(2) True kept n unfolding belongs_at_def by auto
  next
    case False
    then have k: "key_at tr ?t p = key_at tr t p" and "\<not> is_free tr t p" "p < pt_size t"
      using p by (simp_all add: is_free_put)
    then obtain d where "p = (table_Ideal tr t (key_at tr t p) + d) mod pt_size t"
      "\<forall>d'<d. \<not> is_free tr t ((table_Ideal tr t (key_at tr t p) + d') mod pt_size t)"
      using assms(1) unfolding gapless_def by blast
    then show ?thesis
      unfolding k put_simps using kept n by (intro exI [of _ d]) simp
  qed
qed

lemma contents_put:
  "is_free tr t i \<Longrightarrow> i < pt_size t \<Longrightarrow> GetKey tr e \<noteq> pt_invalid t \<Longrightarrow>
     contents tr (t\<lparr>pt_buckets := (pt_buckets t)[i := e]\<rparr>) = add_mset e (contents tr t)"
  by (simp add: contents_update)

lemma table_map_update:
  assumes "\<forall>k. count (image_mset (GetKey tr) (contents tr t)) k \<le> 1" and "table_map tr t (GetKey tr e) = None"
    and "contents tr t' = add_mset e (contents tr t)"
  shows "\<forall>k. count (image_mset (GetKey tr) (contents tr t')) k \<le> 1"
    and "table_map tr t' = (table_map tr t)(GetKey tr e \<mapsto> e)"
proof -
  have no: "GetKey tr e \<notin># image_mset (GetKey tr) (contents tr t)"
    using assms(2) table_map_Some [OF assms(1), of "GetKey tr e"] by (auto, blast)
  then have no': "GetKey tr x \<noteq> GetKey tr e" if "x \<in># contents tr t" for x
    using that by (metis image_eqI set_image_mset)
  from no show d: "\<forall>k. count (image_mset (GetKey tr) (contents tr t')) k \<le> 1"
    using assms(1) unfolding not_in_iff by (auto simp: assms(3))
  have "table_map tr t' k = Some x \<longleftrightarrow> ((table_map tr t)(GetKey tr e \<mapsto> e)) k = Some x" for k x
    using no' by (auto simp: table_map_Some [OF d] table_map_Some [OF assms(1)] assms(3))
  then show "table_map tr t' = (table_map tr t)(GetKey tr e \<mapsto> e)"
    by (intro ext) (metis option.exhaust)
qed

lemma table_ok_put:
  assumes "table_ok tr t" and "belongs_at tr t (GetKey tr e) i" and "GetKey tr e \<noteq> pt_invalid t"
    and "table_map tr t (GetKey tr e) = None" and "pt_entries t + 1 < pt_size t"
  defines "t' \<equiv> t\<lparr>pt_entries := pt_entries t + 1, pt_buckets := (pt_buckets t)[i := e]\<rparr>"
  shows "table_ok tr t'" and "table_map tr t' = (table_map tr t)(GetKey tr e \<mapsto> e)"
proof -
  have ok: "mod_ok (pt_mod t) (pt_size t)" "gapless tr t" "pt_entries t = size (contents tr t)"
    and dist: "\<forall>k. count (image_mset (GetKey tr) (contents tr t)) k \<le> 1"
    using assms(1) by (auto simp: table_ok_def)
  have c: "contents tr t' = add_mset e (contents tr t)"
    using contents_put [of tr "t\<lparr>pt_entries := pt_entries t + 1\<rparr>" i e] assms(2,3) by (simp add: t'_def belongs_at_def)
  note u = table_map_update [OF dist assms(4) c]
  have "gapless tr t'"
    using gapless_put [of tr "t\<lparr>pt_entries := pt_entries t + 1\<rparr>" e i] ok(2) assms(2,3) by (simp add: t'_def)
  with ok assms(5) u(1) c show "table_ok tr t'"
    by (simp add: table_ok_def t'_def)
  show "table_map tr t' = (table_map tr t)(GetKey tr e \<mapsto> e)" by (rule u(2))
qed

text \<open>
  \<^verbatim>\<open>FindOrInsert\<close> on a table that satisfies the invariant always returns. If the key is
  in the table it returns true with the entry's bucket and changes nothing; if it is not and
  there is room it returns false, puts the entry in the bucket it returns and keeps the
  invariant, so that the map gains exactly that key; and if the table would be full it throws.
\<close>

lemma table_FindOrInsert_correct:
  assumes "table_ok tr t" and "GetKey tr e \<noteq> pt_invalid t"
  shows "\<exists>t' r. table_FindOrInsert tr t e = Some (t', r) \<and>
    (case table_map tr t (GetKey tr e) of
       Some old \<Rightarrow> t' = t \<and> (\<exists>i<pt_size t. r = Inr (True, i) \<and> pt_buckets t ! i = old)
     | None \<Rightarrow>
         if pt_entries t + 1 < pt_size t
         then table_ok tr t' \<and> table_map tr t' = (table_map tr t)(GetKey tr e \<mapsto> e) \<and>
              (\<exists>i<pt_size t'. r = Inr (False, i) \<and> pt_buckets t' ! i = e)
         else r = Inl ProbingSizeException)"
  using assms
proof (cases rule: table_probe_key)
  case (found i)
  then show ?thesis by (simp add: table_FindOrInsert_def)
next
  case (missing i)
  have i: "i < pt_size t" "is_free tr t i" using missing(2) by (auto simp: belongs_at_def)
  then have "key_at tr t i \<noteq> GetKey tr e" using assms(2) by (simp add: is_free_def)
  with missing i show ?thesis
    using table_ok_put [OF assms(1) missing(2) assms(2) missing(3)]
    by (cases "pt_entries t + 1 < pt_size t") (simp_all add: table_FindOrInsert_def)
qed

lemma table_Find_spec:
  assumes "table_ok tr t" and "k \<noteq> pt_invalid t"
  shows "\<exists>i<pt_size t. table_Find tr t k = Some (table_map tr t k \<noteq> None, i) \<and>
           (\<forall>e. table_map tr t k = Some e \<longrightarrow> pt_buckets t ! i = e)"
  using assms
proof (cases rule: table_probe_key)
  case (found i)
  then show ?thesis by (auto simp: table_Find_def)
next
  case (missing i)
  then show ?thesis using assms(2) by (auto simp: table_Find_def belongs_at_def is_free_def)
qed

subsection \<open>Doubling keeps the contents\<close>

definition same_frame :: "('e, 'k) ProbingHashTable \<Rightarrow> ('e, 'k) ProbingHashTable \<Rightarrow> bool" where
  "same_frame t t' \<longleftrightarrow>
     pt_size t' = pt_size t \<and> pt_mod t' = pt_mod t \<and> pt_invalid t' = pt_invalid t \<and> pt_entries t' = pt_entries t"

lemma same_frame_refl [simp]: "same_frame t t"
  and same_frame_trans: "same_frame t u \<Longrightarrow> same_frame u v \<Longrightarrow> same_frame t v"
  and same_frame_put [simp]: "same_frame t (t\<lparr>pt_buckets := (pt_buckets t)[i := e]\<rparr>)"
  and same_frame_remove [simp]: "same_frame t (remove_at tr t i)"
  by (simp_all add: same_frame_def remove_at_def)

lemma same_frame_Ideal: "same_frame t t' \<Longrightarrow> table_Ideal tr t' k = table_Ideal tr t k"
  by (simp add: same_frame_def table_Ideal_def)

lemma same_frameD:
  "same_frame t t' \<Longrightarrow> pt_size t' = pt_size t" "same_frame t t' \<Longrightarrow> pt_invalid t' = pt_invalid t"
  "same_frame t t' \<Longrightarrow> pt_mod t' = pt_mod t" "same_frame t t' \<Longrightarrow> pt_entries t' = pt_entries t"
  by (simp_all add: same_frame_def)

lemma is_free_remove:
  "lawful tr \<Longrightarrow> p < pt_size t \<Longrightarrow> is_free tr (remove_at tr t i) p \<longleftrightarrow> p = i \<or> is_free tr t p"
  by (cases "p = i") (simp_all add: is_free_def remove_at_def lawful_def)

lemma bucket_remove: "p \<noteq> i \<Longrightarrow> pt_buckets (remove_at tr t i) ! p = pt_buckets t ! p"
  by (simp add: remove_at_def)

lemma contents_remove:
  "lawful tr \<Longrightarrow> i < pt_size t \<Longrightarrow> \<not> is_free tr t i \<Longrightarrow>
     contents tr t = add_mset (pt_buckets t ! i) (contents tr (remove_at tr t i))"
  by (simp add: remove_at_def contents_update lawful_def)
    (simp add: contents_def is_free_def)

lemma roll_over_correct:
  assumes "lawful tr" and "i + left \<le> pt_size t" and "roll_over tr left i t rolled = (t', rolled')"
    and "\<forall>e\<in>set rolled. GetKey tr e \<noteq> pt_invalid t"
  shows "\<exists>g. i \<le> g \<and> g \<le> i + left \<and> (g < i + left \<longrightarrow> is_free tr t g) \<and>
    (\<forall>p<pt_size t. if i \<le> p \<and> p < g then is_free tr t' p else pt_buckets t' ! p = pt_buckets t ! p) \<and>
    contents tr t + mset rolled = contents tr t' + mset rolled' \<and> same_frame t t' \<and>
    (\<forall>e\<in>set rolled'. GetKey tr e \<noteq> pt_invalid t)"
  using assms(2-4)
proof (induction left arbitrary: i t rolled)
  case 0
  then show ?case by (intro exI [of _ i]) auto
next
  case (Suc left)
  show ?case
  proof (cases "is_free tr t i")
    case True
    then show ?thesis using Suc.prems by (intro exI [of _ i]) auto
  next
    case False
    let ?t = "remove_at tr t i"
    have i: "i < pt_size t" using Suc.prems(1) by simp
    have sz: "pt_size ?t = pt_size t" "pt_invalid ?t = pt_invalid t" by (simp_all add: remove_at_def)
    obtain g where g: "i + 1 \<le> g" "g \<le> i + 1 + left" "g < i + 1 + left \<longrightarrow> is_free tr ?t g"
      "\<forall>p<pt_size t. if i + 1 \<le> p \<and> p < g then is_free tr t' p else pt_buckets t' ! p = pt_buckets ?t ! p"
      "contents tr ?t + mset (rolled @ [pt_buckets t ! i]) = contents tr t' + mset rolled'" "same_frame ?t t'"
      "\<forall>e\<in>set rolled'. GetKey tr e \<noteq> pt_invalid t"
      using Suc.IH [of "i + 1" ?t "rolled @ [pt_buckets t ! i]"] Suc.prems False unfolding sz
      by (auto simp: is_free_def)
    have "is_free tr t' i"
      using g(4) i is_free_remove [OF assms(1) i, of i] same_frameD(2) [OF g(6)] by (simp add: is_free_def sz)
    then have "if i \<le> p \<and> p < g then is_free tr t' p else pt_buckets t' ! p = pt_buckets t ! p" if "p < pt_size t" for p
      using g(1,4) that bucket_remove [of p i tr t] by (cases "p = i") auto
    moreover have "g < i + Suc left \<longrightarrow> is_free tr t g"
      using g(1,3) Suc.prems(1) is_free_remove [OF assms(1), of g t i] by auto
    moreover have "same_frame t t'" using same_frame_trans [OF same_frame_remove g(6)] .
    ultimately show ?thesis
      using g contents_remove [OF assms(1) i False] by (intro exI [of _ g]) simp
  qed
qed

lemma UncheckedInsert_linear:
  assumes "mod_ok (pt_mod t) (pt_size t)" and "table_Ideal tr t (GetKey tr e) \<le> b" and "b < pt_size t" and "is_free tr t b"
  obtains q where "table_Ideal tr t (GetKey tr e) \<le> q" and "q \<le> b" and "is_free tr t q"
    and "UncheckedInsert tr t e = Some (t\<lparr>pt_buckets := (pt_buckets t)[q := e]\<rparr>, q)"
    and "\<And>j. table_Ideal tr t (GetKey tr e) \<le> j \<Longrightarrow> j < q \<Longrightarrow> \<not> is_free tr t j"
proof -
  let ?a = "table_Ideal tr t (GetKey tr e)"
  let ?q = "LEAST j. ?a \<le> j \<and> is_free tr t j"
  have q: "?a \<le> ?q \<and> is_free tr t ?q" by (rule LeastI [of _ b]) (use assms in simp)
  have qb: "?q \<le> b" by (rule Least_le) (use assms in simp)
  have least: "\<not> is_free tr t j" if "?a \<le> j" "j < ?q" for j
    using not_less_Least [OF that(2)] that(1) by simp
  have "probe (\<lambda>i. key_at tr t i \<in> {pt_invalid t}) (mod_Next (pt_mod t) (pt_size t)) ?a =
        Some ((?a + (?q - ?a)) mod pt_size t)"
  proof (rule probe_least)
    show "\<not> key_at tr t ((?a + d') mod pt_size t) \<in> {pt_invalid t}" if "d' < ?q - ?a" for d'
      using least [of "?a + d'"] that qb assms(3) by (simp add: is_free_def)
  qed (use q qb assms(3) table_next [OF assms(1)] table_Ideal_less [OF assms(1)] in \<open>simp_all add: is_free_def\<close>)
  then have "UncheckedInsert tr t e = Some (t\<lparr>pt_buckets := (pt_buckets t)[?q := e]\<rparr>, ?q)"
    using q qb assms(3) by (simp add: UncheckedInsert_def table_probe_def)
  with q qb least show ?thesis using that by blast
qed

lemma UncheckedInsert_belongs:
  assumes "mod_ok (pt_mod t) (pt_size t)" and "size (contents tr t) < pt_size t"
  obtains i where "UncheckedInsert tr t e = Some (t\<lparr>pt_buckets := (pt_buckets t)[i := e]\<rparr>, i)"
    and "belongs_at tr t (GetKey tr e) i"
proof -
  obtain d where d: "table_probe tr t {pt_invalid t} (GetKey tr e) = Some ((table_Ideal tr t (GetKey tr e) + d) mod pt_size t)"
    "key_at tr t ((table_Ideal tr t (GetKey tr e) + d) mod pt_size t) \<in> {pt_invalid t}"
    "\<And>d'. d' < d \<Longrightarrow> key_at tr t ((table_Ideal tr t (GetKey tr e) + d') mod pt_size t) \<notin> {pt_invalid t}"
    using table_probe_cyclic [OF assms, of "{pt_invalid t}"] by blast
  then show ?thesis
    using that [of "(table_Ideal tr t (GetKey tr e) + d) mod pt_size t"] mod_ok_pos [OF assms(1)]
    by (auto simp: UncheckedInsert_def belongs_at_def is_free_def)
qed

text \<open>An entry that sits after its ideal bucket with nothing free between, without wrapping.\<close>

definition placed_at :: "('e, 'k) EntryOps \<Rightarrow> ('e, 'k) ProbingHashTable \<Rightarrow> nat \<Rightarrow> nat \<Rightarrow> bool" where
  "placed_at tr t n p \<longleftrightarrow>
     (let a = table_Ideal tr t (key_at tr t p)
      in a \<le> p \<and> (n \<le> p \<longrightarrow> n \<le> a) \<and> (\<forall>j. a \<le> j \<and> j < p \<longrightarrow> \<not> is_free tr t j))"

lemma placed_gapless:
  assumes "\<And>p. p < pt_size t \<Longrightarrow> \<not> is_free tr t p \<Longrightarrow> placed_at tr t n p"
  shows "gapless tr t"
  unfolding gapless_def
proof (intro allI impI)
  fix p assume p: "p < pt_size t" "\<not> is_free tr t p"
  let ?a = "table_Ideal tr t (key_at tr t p)"
  have a: "?a \<le> p" "\<And>j. ?a \<le> j \<Longrightarrow> j < p \<Longrightarrow> \<not> is_free tr t j"
    using assms [OF p] by (auto simp: placed_at_def Let_def)
  then show "\<exists>d. p = (?a + d) mod pt_size t \<and> (\<forall>d'<d. \<not> is_free tr t ((?a + d') mod pt_size t))"
    using p(1) by (intro exI [of _ "p - ?a"]) auto
qed

lemma mod_double: "(h :: nat) mod (2 * n) = h mod n \<or> h mod (2 * n) = h mod n + n"
proof -
  have "h mod (n * 2) = n * (h div n mod 2) + h mod n" by (rule mod_mult2_eq)
  then show ?thesis by (cases "h div n mod 2 = 0") (auto simp: mult.commute not_mod_2_eq_0_eq_1)
qed

text \<open>
  The loop that takes every entry of the old half out and inserts it again. Because the
  entries that had wrapped are out of the way, an entry never moves up within its half:
  from bucket \<open>i\<close> it goes to some bucket at most \<open>i\<close>, or at most \<open>n + i\<close> in the new half.
\<close>

definition reinsert_inv :: "('e, 'k) EntryOps \<Rightarrow> ('e, 'k) ProbingHashTable \<Rightarrow> nat \<Rightarrow> nat \<Rightarrow> bool" where
  "reinsert_inv tr t n i \<longleftrightarrow>
     pt_size t = 2 * n \<and> mod_ok (pt_mod t) (2 * n) \<and>
     (\<forall>p. i \<le> p \<and> p < n \<and> \<not> is_free tr t p \<longrightarrow> unat (Hash tr (key_at tr t p)) mod n \<le> p) \<and>
     (\<forall>p. n + i \<le> p \<and> p < 2 * n \<longrightarrow> is_free tr t p) \<and>
     (\<forall>p<2 * n. \<not> is_free tr t p \<and> (p < i \<or> n \<le> p) \<longrightarrow> placed_at tr t n p)"

lemma reinsert_inv_skip:
  "reinsert_inv tr t n i \<Longrightarrow> is_free tr t i \<Longrightarrow> reinsert_inv tr t n (i + 1)"
  unfolding reinsert_inv_def by (metis add_lessD1 less_Suc_eq Suc_eq_plus1 add_Suc_right le_less Suc_le_eq not_less)

lemma reinsert_inv_move:
  assumes "reinsert_inv tr t n i" and "lawful tr" and "i < n" and "\<not> is_free tr t i"
  obtains t' q where "UncheckedInsert tr (remove_at tr t i) (pt_buckets t ! i) = Some (t', q)"
    and "reinsert_inv tr t' n (i + 1)" and "contents tr t' = contents tr t" and "same_frame t t'"
proof -
  let ?u = "remove_at tr t i" and ?e = "pt_buckets t ! i"
  have inv: "pt_size t = 2 * n" "mod_ok (pt_mod t) (2 * n)"
    "\<And>p. i \<le> p \<Longrightarrow> p < n \<Longrightarrow> \<not> is_free tr t p \<Longrightarrow> unat (Hash tr (key_at tr t p)) mod n \<le> p"
    "\<And>p. n + i \<le> p \<Longrightarrow> p < 2 * n \<Longrightarrow> is_free tr t p"
    "\<And>p. p < 2 * n \<Longrightarrow> \<not> is_free tr t p \<Longrightarrow> p < i \<or> n \<le> p \<Longrightarrow> placed_at tr t n p"
    using assms(1) by (auto simp: reinsert_inv_def)
  have u: "pt_size ?u = 2 * n" "pt_mod ?u = pt_mod t" "pt_invalid ?u = pt_invalid t"
    using inv(1) by (simp_all add: remove_at_def)
  have free_u: "is_free tr ?u p \<longleftrightarrow> p = i \<or> is_free tr t p" if "p < 2 * n" for p
    using is_free_remove [OF assms(2)] that inv(1) by simp
  define a where "a = table_Ideal tr ?u (GetKey tr ?e)"
  have "a = unat (Hash tr (GetKey tr ?e)) mod (2 * n)"
    using table_Ideal_eq [of ?u tr] inv(2) u by (simp add: a_def)
  moreover have "unat (Hash tr (GetKey tr ?e)) mod n \<le> i" using inv(3) [of i] assms(3,4) by simp
  ultimately have half: "a \<le> i \<or> n \<le> a \<and> a \<le> n + i"
    using mod_double [of "unat (Hash tr (GetKey tr ?e))" n] by linarith
  define b where "b = (if a \<le> i then i else n + i)"
  have b: "a \<le> b" "b < 2 * n" "is_free tr ?u b"
    using half assms(3) free_u inv(4) by (auto simp: b_def)
  obtain q where q: "a \<le> q" "q \<le> b" "is_free tr ?u q"
    "UncheckedInsert tr ?u ?e = Some (?u\<lparr>pt_buckets := (pt_buckets ?u)[q := ?e]\<rparr>, q)"
    "\<And>j. a \<le> j \<Longrightarrow> j < q \<Longrightarrow> \<not> is_free tr ?u j"
    using UncheckedInsert_linear [of ?u tr ?e b] inv(2) b u unfolding a_def by auto
  let ?v = "?u\<lparr>pt_buckets := (pt_buckets ?u)[q := ?e]\<rparr>"
  have qn: "q < 2 * n" using q(2) b(2) by simp
  have v: "pt_size ?v = 2 * n" "pt_mod ?v = pt_mod t" using u by simp_all
  have e: "GetKey tr ?e \<noteq> pt_invalid t" using assms(4) by (simp add: is_free_def)
  have free_v: "is_free tr ?v p \<longleftrightarrow> p \<noteq> q \<and> (p = i \<or> is_free tr t p)" if "p < 2 * n" for p
    using that is_free_put [of p ?u tr q ?e] free_u u e by auto
  have bucket_v: "pt_buckets ?v ! p = pt_buckets t ! p" if "p \<noteq> q" "p \<noteq> i" for p
    using that by (simp add: remove_at_def)
  have qb: "q \<le> i \<or> n \<le> q \<and> q \<le> n + i" "n \<le> q \<longrightarrow> n \<le> a" using q(1,2) half assms(3) by (auto simp: b_def split: if_splits)
  have ideal: "table_Ideal tr ?v k = table_Ideal tr t k" for k
    using same_frame_Ideal [OF same_frame_remove, of tr tr t i k] by simp
  have "placed_at tr ?v n p" if p: "p < 2 * n" "\<not> is_free tr ?v p" "p < i + 1 \<or> n \<le> p" for p
  proof (cases "p = q")
    case True
    have "key_at tr ?v q = GetKey tr ?e" using qn u by simp
    moreover have "\<not> is_free tr ?v j" if "a \<le> j" "j < q" for j
      using q(5) [OF that] free_v [of j] free_u [of j] that qn by auto
    ultimately show ?thesis
      using True q(1) qb(2) by (auto simp: placed_at_def Let_def a_def)
  next
    case False
    then have pt: "\<not> is_free tr t p" "p \<noteq> i" using p free_v by auto
    then have pl: "placed_at tr t n p" using inv(5) p by auto
    have "\<not> is_free tr ?v j" if "table_Ideal tr t (key_at tr t p) \<le> j" "j < p" for j
      using pl that p pt assms(3) free_v [of j] by (auto simp: placed_at_def Let_def)
    with pl show ?thesis
      using bucket_v [OF False pt(2)] ideal by (simp add: placed_at_def Let_def)
  qed
  moreover have "unat (Hash tr (key_at tr ?v p)) mod n \<le> p" if "i + 1 \<le> p" "p < n" "\<not> is_free tr ?v p" for p
    using inv(3) [of p] that free_v [of p] bucket_v [of p] qb by auto
  moreover have "is_free tr ?v p" if "n + (i + 1) \<le> p" "p < 2 * n" for p
    using inv(4) [of p] that free_v [of p] qb(1) assms(3) by auto
  ultimately have "reinsert_inv tr ?v n (i + 1)"
    unfolding reinsert_inv_def using v inv(2) by auto
  moreover have "contents tr ?v = contents tr t"
    using contents_put [of tr ?u q ?e] contents_remove [OF assms(2) _ assms(4)] q(3) qn u e assms(3) inv(1) by simp
  moreover have "same_frame t ?v"
    by (rule same_frame_trans [OF same_frame_remove same_frame_put])
  ultimately show ?thesis using q(4) that by blast
qed

lemma reinsert_correct:
  assumes "reinsert_inv tr t n i" and "lawful tr" and "i + left = n"
  obtains t' where "reinsert tr left i t = Some t'" and "reinsert_inv tr t' n n"
    and "contents tr t' = contents tr t" and "same_frame t t'"
  using assms
proof (induction left arbitrary: i t thesis)
  case 0
  then show ?case by simp
next
  case (Suc left)
  show ?case
  proof (cases "is_free tr t i")
    case True
    show ?thesis
      by (rule Suc.IH [where i = "i + 1" and t = t])
        (use Suc.prems True reinsert_inv_skip in auto)
  next
    case False
    obtain u q where u: "UncheckedInsert tr (remove_at tr t i) (pt_buckets t ! i) = Some (u, q)"
      "reinsert_inv tr u n (i + 1)" "contents tr u = contents tr t" "same_frame t u"
      using reinsert_inv_move [OF Suc.prems(2,3) _ False] Suc.prems(4) by auto
    obtain t' where "reinsert tr left (i + 1) u = Some t'" "reinsert_inv tr t' n n"
      "contents tr t' = contents tr u" "same_frame u t'"
      using Suc.IH [OF _ u(2) Suc.prems(3)] Suc.prems(4) by auto
    with u False show ?thesis
      using Suc.prems(1) [of t'] same_frame_trans by auto
  qed
qed

lemma insert_all_correct:
  assumes "mod_ok (pt_mod t) (pt_size t)" and "gapless tr t" and "size (contents tr t) + length es < pt_size t"
    and "\<forall>e\<in>set es. GetKey tr e \<noteq> pt_invalid t"
  obtains t' where "insert_all tr es t = Some t'" and "gapless tr t'"
    and "contents tr t' = contents tr t + mset es" and "same_frame t t'"
  using assms
proof (induction es arbitrary: t thesis)
  case Nil
  then show ?case by simp
next
  case (Cons e es)
  have e: "GetKey tr e \<noteq> pt_invalid t" using Cons.prems(5) by simp
  obtain i where i: "UncheckedInsert tr t e = Some (t\<lparr>pt_buckets := (pt_buckets t)[i := e]\<rparr>, i)" "belongs_at tr t (GetKey tr e) i"
    using UncheckedInsert_belongs [OF Cons.prems(2)] Cons.prems(4) by (metis add_lessD1)
  let ?u = "t\<lparr>pt_buckets := (pt_buckets t)[i := e]\<rparr>"
  have c: "contents tr ?u = add_mset e (contents tr t)"
    using i(2) e contents_put by (auto simp: belongs_at_def)
  obtain t' where t': "insert_all tr es ?u = Some t'" "gapless tr t'" "contents tr t' = contents tr ?u + mset es" "same_frame ?u t'"
    using Cons.IH [of ?u] Cons.prems gapless_put [OF Cons.prems(3) i(2) e] c by auto
  have "same_frame t t'" by (rule same_frame_trans [OF same_frame_put t'(4)])
  with t' i c show ?case
    by (intro Cons.prems(1) [of t']) simp_all
qed

definition table_core :: "('e, 'k) EntryOps \<Rightarrow> ('e, 'k) ProbingHashTable \<Rightarrow> bool" where
  "table_core tr t \<longleftrightarrow>
     mod_ok (pt_mod t) (pt_size t) \<and> gapless tr t \<and> (\<forall>k. count (image_mset (GetKey tr) (contents tr t)) k \<le> 1) \<and>
     size (contents tr t) < pt_size t"

lemma table_ok_core: "table_ok tr t \<longleftrightarrow> table_core tr t \<and> pt_entries t = size (contents tr t)"
  by (auto simp: table_ok_def table_core_def)

text \<open>Before the first free bucket only wrapped entries can be out of order.\<close>

lemma gapless_after_gap:
  assumes "gapless tr t" and "mod_ok (pt_mod t) (pt_size t)" and "is_free tr t g"
    and "g \<le> p" and "p < pt_size t" and "\<not> is_free tr t p"
  shows "table_Ideal tr t (key_at tr t p) \<le> p"
proof (rule ccontr)
  let ?n = "pt_size t" and ?a = "table_Ideal tr t (key_at tr t p)"
  assume "\<not> ?a \<le> p"
  then have ap: "p < ?a" by simp
  have a: "?a < ?n" by (rule table_Ideal_less [OF assms(2)])
  obtain d where d: "p = (?a + d) mod ?n" "\<And>d'. d' < d \<Longrightarrow> \<not> is_free tr t ((?a + d') mod ?n)"
    using assms(1,5,6) unfolding gapless_def by blast
  have "g < p" using assms(3,4,6) by (metis le_neq_implies_less)
  have "p + ?n \<le> ?a + d"
  proof (rule ccontr)
    assume "\<not> p + ?n \<le> ?a + d"
    then have "(?a + d) mod ?n = (if ?a + d < ?n then ?a + d else ?a + d - ?n)"
      using ap a by (auto simp: le_mod_geq)
    then show False using d(1) ap \<open>\<not> p + ?n \<le> ?a + d\<close> by (auto split: if_splits)
  qed
  then have "?n - ?a + g < d" using a \<open>g < p\<close> by linarith
  moreover have "(?a + (?n - ?a + g)) mod ?n = g" using a \<open>g < p\<close> assms(5) by simp
  ultimately show False using d(2) assms(3) by metis
qed

lemma contents_append:
  "contents tr (t\<lparr>pt_buckets := pt_buckets t @ bs, pt_mod := m\<rparr>) =
     contents tr t + filter_mset (\<lambda>e. GetKey tr e \<noteq> pt_invalid t) (mset bs)"
  by (simp add: contents_def)

lemma table_Double_core:
  assumes "table_core tr t" and "lawful tr" and "pt_size t \<le> 2 ^ 63"
    and "clear_new \<or> length fresh = pt_size t \<and> (\<forall>e\<in>set fresh. GetKey tr e = pt_invalid t)"
  obtains t' where "table_Double tr t fresh clear_new = Some t'" and "table_core tr t'"
    and "pt_size t' = 2 * pt_size t" and "contents tr t' = contents tr t" and "pt_invalid t' = pt_invalid t"
    and "pt_entries t' = pt_entries t"
proof -
  define n where "n = pt_size t"
  define fr where "fr = (if clear_new then replicate n (SetKey tr (pt_invalid t) (Blank tr)) else fresh)"
  have fr: "length fr = n" "\<forall>e\<in>set fr. GetKey tr e = pt_invalid t"
    using assms(2,4) by (auto simp: fr_def n_def lawful_def)
  define t0 where "t0 = t\<lparr>pt_buckets := pt_buckets t @ fr, pt_mod := mod_Double (pt_mod t)\<rparr>"
  have core: "mod_ok (pt_mod t) n" "gapless tr t" "size (contents tr t) < n"
    "\<forall>k. count (image_mset (GetKey tr) (contents tr t)) k \<le> 1"
    using assms(1) by (auto simp: table_core_def n_def)
  have t0: "pt_size t0 = 2 * n" "mod_ok (pt_mod t0) (2 * n)" "pt_invalid t0 = pt_invalid t" "pt_entries t0 = pt_entries t"
    using fr(1) mod_Double_ok [OF core(1)] assms(3) by (simp_all add: t0_def n_def)
  have c0: "contents tr t0 = contents tr t"
  proof -
    have "filter (\<lambda>e. GetKey tr e \<noteq> pt_invalid t) fr = []" using fr(2) by (simp add: filter_empty_conv)
    then show ?thesis
      by (simp add: t0_def contents_append flip: mset_filter)
  qed
  have low: "pt_buckets t0 ! p = pt_buckets t ! p" "is_free tr t0 p = is_free tr t p" if "p < n" for p
    using that by (simp_all add: t0_def n_def nth_append is_free_def)
  have high: "is_free tr t0 p" if "n \<le> p" "p < 2 * n" for p
    using that fr by (simp add: t0_def n_def nth_append is_free_def)
  obtain t1 rolled where r: "roll_over tr n 0 t0 [] = (t1, rolled)" by fastforce
  obtain g where g: "g \<le> n" "g < n \<longrightarrow> is_free tr t0 g"
    "\<And>p. p < 2 * n \<Longrightarrow> if p < g then is_free tr t1 p else pt_buckets t1 ! p = pt_buckets t0 ! p"
    "contents tr t0 = contents tr t1 + mset rolled" "same_frame t0 t1" "\<forall>e\<in>set rolled. GetKey tr e \<noteq> pt_invalid t0"
    using roll_over_correct [OF assms(2) _ r] t0(1) by auto
  have t1: "pt_size t1 = 2 * n" "pt_mod t1 = pt_mod t0" "pt_invalid t1 = pt_invalid t" "pt_entries t1 = pt_entries t"
    using g(5) t0 by (simp_all add: same_frame_def)
  have "reinsert_inv tr t1 n 0"
    unfolding reinsert_inv_def
  proof (intro conjI allI impI)
    fix p assume p: "0 \<le> p \<and> p < n \<and> \<not> is_free tr t1 p"
    then have "g \<le> p" using g(3) [of p] by (auto split: if_splits)
    then have b: "pt_buckets t1 ! p = pt_buckets t ! p" and gf: "is_free tr t g" using g p low by auto
    then have "\<not> is_free tr t p" using p t1 by (simp add: is_free_def)
    then have "table_Ideal tr t (key_at tr t p) \<le> p"
      using gapless_after_gap [OF core(2) _ gf \<open>g \<le> p\<close>] core(1) p by (simp add: n_def)
    then show "unat (Hash tr (key_at tr t1 p)) mod n \<le> p"
      using b table_Ideal_eq [of t tr] core(1) by (simp add: n_def)
  next
    fix p assume "n + 0 \<le> p \<and> p < 2 * n"
    then show "is_free tr t1 p"
      using g(1) g(3) [of p] high [of p] t1 t0 by (simp add: is_free_def)
  next
    fix p assume "p < 2 * n" "\<not> is_free tr t1 p \<and> (p < 0 \<or> n \<le> p)"
    then show "placed_at tr t1 n p"
      using g(1) g(3) [of p] high [of p] t1 t0 by (simp add: is_free_def)
  qed (use t0 t1 in simp_all)
  then obtain t2 where t2: "reinsert tr n 0 t1 = Some t2" "reinsert_inv tr t2 n n"
    "contents tr t2 = contents tr t1" "same_frame t1 t2"
    using reinsert_correct [of tr t1 n 0 n] assms(2) by auto
  have "gapless tr t2"
    by (rule placed_gapless [where n = n]) (use t2(2) in \<open>auto simp: reinsert_inv_def\<close>)
  moreover have "size (contents tr t2) + length rolled < pt_size t2"
  proof -
    have "size (contents tr t) = size (contents tr t2) + length rolled"
      using c0 g(4) t2(3) by (metis size_mset size_union)
    then show ?thesis using core(3) t1(1) same_frameD(1) [OF t2(4)] by simp
  qed
  ultimately obtain t3 where t3: "insert_all tr rolled t2 = Some t3" "gapless tr t3"
    "contents tr t3 = contents tr t2 + mset rolled" "same_frame t2 t3"
    using insert_all_correct [of t2 tr rolled] t2(2) g(6) t0(3) same_frameD [OF t2(4)] t1(3)
    by (auto simp: reinsert_inv_def)
  have "table_Double tr t fresh clear_new = Some t3"
    unfolding table_Double_def Let_def n_def [symmetric] fr_def [symmetric] t0_def [symmetric] r
    using t2(1) t3(1) by simp
  moreover have c: "contents tr t3 = contents tr t" using t3(3) t2(3) g(4) c0 by simp
  moreover have "pt_size t3 = 2 * n" "pt_mod t3 = pt_mod t0" "pt_invalid t3 = pt_invalid t" "pt_entries t3 = pt_entries t"
    using t1 same_frameD [OF t2(4)] same_frameD [OF t3(4)] by simp_all
  ultimately show ?thesis
    using that t3(2) t0(2) core(3,4) by (simp add: table_core_def n_def)
qed

lemma table_map_contents:
  assumes "\<forall>k. count (image_mset (GetKey tr) (contents tr t)) k \<le> 1" and "contents tr t' = contents tr t"
  shows "table_map tr t' = table_map tr t"
proof -
  have "table_map tr t' k = Some x \<longleftrightarrow> table_map tr t k = Some x" for k x
    using assms by (simp add: table_map_Some)
  then show ?thesis by (intro ext) (metis option.exhaust)
qed

text \<open>
  C6. \<^verbatim>\<open>Double\<close> rehashes in place and terminates: the table has twice the buckets, satisfies
  the invariant again for the new ideal positions, and stands for the same map, although
  entries are taken out and put back while the table is being read. The second half of the
  memory has to hold invalid keys unless \<^verbatim>\<open>clear_new\<close> asks for them to be written.
\<close>

theorem table_Double_correct:
  assumes "table_ok tr t" and "lawful tr" and "pt_size t \<le> 2 ^ 63"
    and "clear_new \<or> length fresh = pt_size t \<and> (\<forall>e\<in>set fresh. GetKey tr e = pt_invalid t)"
  shows "\<exists>t'. table_Double tr t fresh clear_new = Some t' \<and> table_ok tr t' \<and>
           pt_size t' = 2 * pt_size t \<and> table_map tr t' = table_map tr t"
proof -
  have "table_core tr t" using assms(1) by (simp add: table_ok_core)
  from this assms(2-4) obtain t' where t': "table_Double tr t fresh clear_new = Some t'" "table_core tr t'"
    "pt_size t' = 2 * pt_size t" "contents tr t' = contents tr t" "pt_entries t' = pt_entries t"
    by (rule table_Double_core)
  moreover have "table_map tr t' = table_map tr t"
    by (rule table_map_contents) (use assms(1) t'(4) in \<open>simp_all add: table_ok_def\<close>)
  ultimately show ?thesis
    using assms(1) by (simp add: table_ok_core)
qed

subsection \<open>\<open>AutoProbing\<close> never fills up\<close>

definition auto_ok :: "('e, 'k) EntryOps \<Rightarrow> ('e, 'k) AutoProbing \<Rightarrow> bool" where
  "auto_ok tr a \<longleftrightarrow>
     table_ok tr (ap_backend a) \<and> ap_threshold a = threshold_for (pt_size (ap_backend a)) \<and>
     pt_entries (ap_backend a) \<le> ap_threshold a \<and> pt_size (ap_backend a) \<le> 2 ^ 63"

abbreviation auto_map :: "('e, 'k) EntryOps \<Rightarrow> ('e, 'k) AutoProbing \<Rightarrow> 'k \<rightharpoonup> 'e" where
  "auto_map tr a \<equiv> table_map tr (ap_backend a)"

lemma threshold_double: "0 < n \<Longrightarrow> threshold_for n < threshold_for (2 * n)"
  by (auto simp: threshold_for_def min_def)

lemma threshold_full: "threshold_for n \<le> m \<Longrightarrow> m < 2 ^ 61 \<Longrightarrow> n \<le> 2 ^ 62"
  by (auto simp: threshold_for_def min_def split: if_splits)

lemma threshold_room: "m < threshold_for n \<Longrightarrow> m + 1 < n"
  by (auto simp: threshold_for_def)

definition zero_ok :: "('e, 'k) EntryOps \<Rightarrow> bool \<Rightarrow> 'e \<Rightarrow> 'k \<Rightarrow> bool" where
  "zero_ok tr raw_zero zero invalid \<longleftrightarrow> lawful tr \<and> (raw_zero \<longrightarrow> GetKey tr zero = invalid)"

text \<open>
  The core of the invariant and the fill, without the exact count: \<^verbatim>\<open>Insert\<close> increments the
  counter before it makes room.
\<close>

lemma DoubleIfNeeded_core:
  assumes "table_core tr (ap_backend a)" and "ap_threshold a = threshold_for (pt_size (ap_backend a))"
    and "pt_entries (ap_backend a) \<le> ap_threshold a + c" and "c \<le> 1" and "size (contents tr (ap_backend a)) \<le> pt_entries (ap_backend a)"
    and "pt_size (ap_backend a) \<le> 2 ^ 63" and "pt_entries (ap_backend a) < 2 ^ 61"
    and "zero_ok tr raw_zero zero (pt_invalid (ap_backend a))"
  obtains a' where "DoubleIfNeeded tr raw_zero zero a = Some a'" and "table_core tr (ap_backend a')"
    and "ap_threshold a' = threshold_for (pt_size (ap_backend a'))"
    and "pt_entries (ap_backend a') < ap_threshold a' + c" and "pt_size (ap_backend a') \<le> 2 ^ 63"
    and "contents tr (ap_backend a') = contents tr (ap_backend a)"
    and "pt_invalid (ap_backend a') = pt_invalid (ap_backend a)"
    and "pt_entries (ap_backend a') = pt_entries (ap_backend a)"
proof (cases "pt_entries (ap_backend a) < ap_threshold a")
  case True
  then show ?thesis using assms that [of a] by (simp add: DoubleIfNeeded_def)
next
  case False
  let ?t = "ap_backend a"
  have n: "0 < pt_size ?t" using assms(1) mod_ok_pos by (auto simp: table_core_def)
  have small: "pt_size ?t \<le> 2 ^ 62"
    using False assms(2,7) threshold_full [of "pt_size ?t" "pt_entries ?t"] by simp
  have l: "lawful tr" and f: "\<not> raw_zero \<or> length (replicate (pt_size ?t) zero) = pt_size ?t \<and>
      (\<forall>e\<in>set (replicate (pt_size ?t) zero). GetKey tr e = pt_invalid ?t)"
    using assms(8) by (auto simp: zero_ok_def)
  obtain t' where t': "table_Double tr ?t (replicate (pt_size ?t) zero) (\<not> raw_zero) = Some t'" "table_core tr t'"
    "pt_size t' = 2 * pt_size ?t" "contents tr t' = contents tr ?t" "pt_invalid t' = pt_invalid ?t" "pt_entries t' = pt_entries ?t"
    by (rule table_Double_core [OF assms(1) l assms(6) f])
  have "pt_entries t' < threshold_for (2 * pt_size ?t) + c"
    using threshold_double [OF n] assms(2,3) t'(6) by linarith
  then show ?thesis
    using t' False small by (intro that [of "\<lparr>ap_backend = t', ap_threshold = threshold_for (pt_size t')\<rparr>"])
      (simp_all add: DoubleIfNeeded_def)
qed

lemma DoubleIfNeeded_ok:
  assumes "auto_ok tr a" and "pt_entries (ap_backend a) < 2 ^ 61" and "zero_ok tr raw_zero zero (pt_invalid (ap_backend a))"
  obtains a' where "DoubleIfNeeded tr raw_zero zero a = Some a'" and "auto_ok tr a'"
    and "auto_map tr a' = auto_map tr a" and "pt_entries (ap_backend a') < ap_threshold a'"
    and "pt_invalid (ap_backend a') = pt_invalid (ap_backend a)"
    and "pt_entries (ap_backend a') = pt_entries (ap_backend a)"
proof -
  have a: "table_core tr (ap_backend a)" "pt_entries (ap_backend a) = size (contents tr (ap_backend a))"
    using assms(1) by (auto simp: auto_ok_def table_ok_core)
  obtain a' where a': "DoubleIfNeeded tr raw_zero zero a = Some a'" "table_core tr (ap_backend a')"
    "ap_threshold a' = threshold_for (pt_size (ap_backend a'))"
    "pt_entries (ap_backend a') < ap_threshold a' + 0" "pt_size (ap_backend a') \<le> 2 ^ 63"
    "contents tr (ap_backend a') = contents tr (ap_backend a)"
    "pt_invalid (ap_backend a') = pt_invalid (ap_backend a)"
    "pt_entries (ap_backend a') = pt_entries (ap_backend a)"
    using DoubleIfNeeded_core [OF a(1), of 0] assms a(2) by (auto simp: auto_ok_def)
  moreover have "auto_map tr a' = auto_map tr a"
    by (rule table_map_contents) (use a(1) a'(6) in \<open>simp_all add: table_core_def\<close>)
  ultimately show ?thesis
    using a(2) by (intro that [of a']) (simp_all add: auto_ok_def table_ok_core)
qed

lemma auto_FindOrInsert_spec:
  assumes "auto_ok tr a" and "zero_ok tr raw_zero zero (pt_invalid (ap_backend a))"
    and "pt_entries (ap_backend a) < 2 ^ 61" and "GetKey tr e \<noteq> pt_invalid (ap_backend a)"
  shows "\<exists>a' found i. auto_FindOrInsert tr raw_zero zero a e = Some (a', Inr (found, i)) \<and> auto_ok tr a' \<and>
    (found \<longleftrightarrow> GetKey tr e \<in> dom (auto_map tr a)) \<and>
    auto_map tr a' = (if found then auto_map tr a else (auto_map tr a)(GetKey tr e \<mapsto> e)) \<and>
    i < pt_size (ap_backend a') \<and> auto_map tr a' (GetKey tr e) = Some (pt_buckets (ap_backend a') ! i) \<and>
    pt_invalid (ap_backend a') = pt_invalid (ap_backend a) \<and>
    pt_entries (ap_backend a') \<le> pt_entries (ap_backend a) + 1"
proof -
  obtain b where b: "DoubleIfNeeded tr raw_zero zero a = Some b" "auto_ok tr b" "auto_map tr b = auto_map tr a"
    "pt_entries (ap_backend b) < ap_threshold b" "pt_invalid (ap_backend b) = pt_invalid (ap_backend a)"
    "pt_entries (ap_backend b) = pt_entries (ap_backend a)"
    using DoubleIfNeeded_ok [OF assms(1,3,2)] by metis
  have ok: "table_ok tr (ap_backend b)" "GetKey tr e \<noteq> pt_invalid (ap_backend b)"
    and room: "pt_entries (ap_backend b) + 1 < pt_size (ap_backend b)"
    using b assms(4) threshold_room by (auto simp: auto_ok_def)
  from ok show ?thesis
  proof (cases rule: table_probe_key)
    case (found i)
    then have "table_FindOrInsert tr (ap_backend b) e = Some (ap_backend b, Inr (True, i))"
      by (simp add: table_FindOrInsert_def)
    with b found show ?thesis
      by (auto simp: auto_FindOrInsert_def)
  next
    case (missing i)
    define t' where "t' = (ap_backend b)\<lparr>pt_entries := pt_entries (ap_backend b) + 1,
        pt_buckets := (pt_buckets (ap_backend b))[i := e]\<rparr>"
    have i: "i < pt_size (ap_backend b)" "is_free tr (ap_backend b) i" using missing(2) by (auto simp: belongs_at_def)
    then have "table_FindOrInsert tr (ap_backend b) e = Some (t', Inr (False, i))"
      using missing(1) ok(2) room by (simp add: table_FindOrInsert_def t'_def is_free_def)
    moreover have "table_ok tr t'" "table_map tr t' = (auto_map tr b)(GetKey tr e \<mapsto> e)"
      using table_ok_put [OF ok(1) missing(2) ok(2) missing(3) room] by (simp_all add: t'_def)
    moreover have "pt_size t' = pt_size (ap_backend b)" "pt_entries t' = pt_entries (ap_backend b) + 1"
      "pt_buckets t' ! i = e" "pt_invalid t' = pt_invalid (ap_backend b)"
      using i(1) by (simp_all add: t'_def)
    ultimately show ?thesis
      using b missing(3) i(1) by (auto simp: auto_FindOrInsert_def auto_ok_def domIff)
  qed
qed

text \<open>
  C15. \<^verbatim>\<open>AutoProbing::FindOrInsert\<close> implements a finite map that only grows, and grows its
  memory as it needs to: it always returns, never throws, says whether the key was there,
  leaves the old entry in place if it was and adds the new one if it was not, keeps the
  invariant, and returns the bucket that holds the key's entry. The bound on the number of
  entries keeps the bucket count within \<^verbatim>\<open>size_t\<close>.
\<close>

theorem auto_FindOrInsert_correct:
  assumes "auto_ok tr a" and "zero_ok tr raw_zero zero (pt_invalid (ap_backend a))"
    and "pt_entries (ap_backend a) < 2 ^ 61" and "GetKey tr e \<noteq> pt_invalid (ap_backend a)"
  shows "\<exists>a' found i. auto_FindOrInsert tr raw_zero zero a e = Some (a', Inr (found, i)) \<and> auto_ok tr a' \<and>
    (found \<longleftrightarrow> GetKey tr e \<in> dom (auto_map tr a)) \<and>
    auto_map tr a' = (if found then auto_map tr a else (auto_map tr a)(GetKey tr e \<mapsto> e)) \<and>
    i < pt_size (ap_backend a') \<and> auto_map tr a' (GetKey tr e) = Some (pt_buckets (ap_backend a') ! i)"
  using auto_FindOrInsert_spec [OF assms] by blast

text \<open>\<^verbatim>\<open>Insert\<close>, which takes the key to be new.\<close>

lemma auto_Insert_spec:
  assumes "auto_ok tr a" and "zero_ok tr raw_zero zero (pt_invalid (ap_backend a))"
    and "pt_entries (ap_backend a) + 1 < 2 ^ 61" and "GetKey tr e \<noteq> pt_invalid (ap_backend a)"
    and "GetKey tr e \<notin> dom (auto_map tr a)"
  shows "\<exists>a' i. auto_Insert tr raw_zero zero a e = Some (a', i) \<and> auto_ok tr a' \<and>
    auto_map tr a' = (auto_map tr a)(GetKey tr e \<mapsto> e) \<and> i < pt_size (ap_backend a') \<and>
    pt_buckets (ap_backend a') ! i = e \<and> pt_invalid (ap_backend a') = pt_invalid (ap_backend a) \<and>
    pt_entries (ap_backend a') = pt_entries (ap_backend a) + 1"
proof -
  let ?a = "a\<lparr>ap_backend := (ap_backend a)\<lparr>pt_entries := pt_entries (ap_backend a) + 1\<rparr>\<rparr>"
  have a: "table_core tr (ap_backend a)" "pt_entries (ap_backend a) = size (contents tr (ap_backend a))"
    using assms(1) by (auto simp: auto_ok_def table_ok_core)
  have core: "table_core tr (ap_backend ?a)" using a(1) by (simp add: table_core_def)
  obtain b where b: "DoubleIfNeeded tr raw_zero zero ?a = Some b" "table_core tr (ap_backend b)"
    "ap_threshold b = threshold_for (pt_size (ap_backend b))"
    "pt_entries (ap_backend b) < ap_threshold b + 1" "pt_size (ap_backend b) \<le> 2 ^ 63"
    "contents tr (ap_backend b) = contents tr (ap_backend ?a)"
    "pt_invalid (ap_backend b) = pt_invalid (ap_backend ?a)"
    "pt_entries (ap_backend b) = pt_entries (ap_backend ?a)"
    by (rule DoubleIfNeeded_core [OF core, of 1 raw_zero zero]) (use assms a(2) in \<open>auto simp: auto_ok_def\<close>)
  have n: "0 < pt_size (ap_backend b)" using b(2) mod_ok_pos by (auto simp: table_core_def)
  have c: "contents tr (ap_backend b) = contents tr (ap_backend a)" using b(6) by simp
  have m: "auto_map tr b = auto_map tr a"
    by (rule table_map_contents) (use a(1) c in \<open>simp_all add: table_core_def\<close>)
  have e: "GetKey tr e \<noteq> pt_invalid (ap_backend b)" "auto_map tr b (GetKey tr e) = None"
    using assms(4,5) b(7) m by auto
  obtain i where i: "UncheckedInsert tr (ap_backend b) e = Some ((ap_backend b)\<lparr>pt_buckets := (pt_buckets (ap_backend b))[i := e]\<rparr>, i)"
    "belongs_at tr (ap_backend b) (GetKey tr e) i"
    using UncheckedInsert_belongs [of "ap_backend b" tr e] b(2) by (auto simp: table_core_def)
  define t' where "t' = (ap_backend b)\<lparr>pt_buckets := (pt_buckets (ap_backend b))[i := e]\<rparr>"
  have t': "contents tr t' = add_mset e (contents tr (ap_backend b))" "gapless tr t'"
    using i(2) e b(2) contents_put [of tr "ap_backend b" i e] gapless_put [of tr "ap_backend b" e i]
    by (auto simp: t'_def belongs_at_def table_core_def)
  note u = table_map_update [OF _ e(2) t'(1)]
  have "size (contents tr t') < pt_size t'"
    using t'(1) c a(2) b(3,4,8) n by (simp add: t'_def threshold_for_def)
  then have "table_ok tr t'"
    using t' u b(2,8) c a(2) unfolding table_ok_core table_core_def by (simp add: t'_def)
  moreover have "table_map tr t' = (auto_map tr a)(GetKey tr e \<mapsto> e)"
    using u b(2) m by (simp add: table_core_def)
  moreover have "i < pt_size (ap_backend b)" using i(2) by (simp add: belongs_at_def)
  ultimately show ?thesis
    using i(1) b m by (auto simp: auto_Insert_def auto_ok_def t'_def Let_def)
qed

text \<open>
  The invalid key itself: the first free bucket compares equal to it, so \<^verbatim>\<open>FindOrInsert\<close>
  reports it as found and stores nothing.
\<close>

lemma auto_FindOrInsert_invalid:
  assumes "auto_ok tr a" and "zero_ok tr raw_zero zero (pt_invalid (ap_backend a))"
    and "pt_entries (ap_backend a) < 2 ^ 61" and "GetKey tr e = pt_invalid (ap_backend a)"
  shows "\<exists>a' i. auto_FindOrInsert tr raw_zero zero a e = Some (a', Inr (True, i)) \<and> auto_ok tr a' \<and>
    auto_map tr a' = auto_map tr a \<and> pt_invalid (ap_backend a') = pt_invalid (ap_backend a) \<and>
    pt_entries (ap_backend a') = pt_entries (ap_backend a)"
proof -
  obtain b where b: "DoubleIfNeeded tr raw_zero zero a = Some b" "auto_ok tr b" "auto_map tr b = auto_map tr a"
    "pt_invalid (ap_backend b) = pt_invalid (ap_backend a)" "pt_entries (ap_backend b) = pt_entries (ap_backend a)"
    using DoubleIfNeeded_ok [OF assms(1,3,2)] by metis
  then have "mod_ok (pt_mod (ap_backend b)) (pt_size (ap_backend b))"
    "size (contents tr (ap_backend b)) < pt_size (ap_backend b)"
    by (auto simp: auto_ok_def table_ok_def)
  from table_probe_cyclic [OF this, of "{pt_invalid (ap_backend b)}" "GetKey tr e"]
  show ?thesis
    using b assms(4) by (fastforce simp: auto_FindOrInsert_def table_FindOrInsert_def)
qed

subsection \<open>New tables\<close>

lemma table_ok_empty:
  assumes "mod_ok (pt_mod t) (pt_size t)" and "\<forall>e\<in>set (pt_buckets t). GetKey tr e = pt_invalid t" and "pt_entries t = 0"
  shows "table_ok tr t" and "table_map tr t = Map.empty"
proof -
  have "filter (\<lambda>e. GetKey tr e \<noteq> pt_invalid t) (pt_buckets t) = []" using assms(2) by (simp add: filter_empty_conv)
  then have c: "contents tr t = {#}" by (simp add: contents_def flip: mset_filter)
  have "gapless tr t" using assms(2) by (simp add: gapless_def is_free_def)
  then show "table_ok tr t" using assms(1,3) c mod_ok_pos [OF assms(1)] by (simp add: table_ok_def)
  have "table_map tr t k \<noteq> Some e" for k e using c by (simp add: table_map_Some)
  then show "table_map tr t = Map.empty" by (intro ext) (metis not_Some_eq)
qed

lemma table_Clear_ok:
  assumes "mod_ok (pt_mod t) (pt_size t)" and "lawful tr"
  shows "table_ok tr (table_Clear tr t)" and "table_map tr (table_Clear tr t) = Map.empty"
  using assms by (auto intro!: table_ok_empty simp: table_Clear_def lawful_def)

text \<open>Spreading the highest set bit downwards.\<close>

lemma smear_step:
  fixes x y :: u64
  assumes "\<And>i. bit y i \<longleftrightarrow> (\<exists>j. i \<le> j \<and> j < i + w \<and> bit x j)"
  shows "bit (y OR drop_bit w y) i \<longleftrightarrow> (\<exists>j. i \<le> j \<and> j < i + 2 * w \<and> bit x j)"
proof -
  have "bit (y OR drop_bit w y) i \<longleftrightarrow> (\<exists>j. i \<le> j \<and> j < i + w \<and> bit x j) \<or> (\<exists>j. w + i \<le> j \<and> j < w + i + w \<and> bit x j)"
    using assms [of i] assms [of "w + i"] by (simp add: bit_or_iff bit_drop_bit_eq)
  also have "\<dots> \<longleftrightarrow> (\<exists>j. i \<le> j \<and> j < i + 2 * w \<and> bit x j)"
    by (auto simp: not_less) (metis add.commute add_lessD1 group_cancel.add1 le_add1 le_trans mult_2 not_less)+
  finally show ?thesis .
qed

lemma smear_all:
  fixes x :: u64
  defines "y1 \<equiv> x OR drop_bit 1 x"
  defines "y2 \<equiv> y1 OR drop_bit 2 y1"
  defines "y3 \<equiv> y2 OR drop_bit 4 y2"
  defines "y4 \<equiv> y3 OR drop_bit 8 y3"
  defines "y5 \<equiv> y4 OR drop_bit 16 y4"
  shows "bit (y5 OR drop_bit 32 y5) i \<longleftrightarrow> (\<exists>j\<ge>i. bit x j)"
proof -
  have 0: "bit x i \<longleftrightarrow> (\<exists>j. i \<le> j \<and> j < i + 1 \<and> bit x j)" for i
    by (auto simp: le_antisym less_Suc_eq_le)
  have 1: "bit y1 i \<longleftrightarrow> (\<exists>j. i \<le> j \<and> j < i + 2 \<and> bit x j)" for i
    unfolding y1_def using smear_step [OF 0] by simp
  have 2: "bit y2 i \<longleftrightarrow> (\<exists>j. i \<le> j \<and> j < i + 4 \<and> bit x j)" for i
    unfolding y2_def using smear_step [OF 1] by simp
  have 3: "bit y3 i \<longleftrightarrow> (\<exists>j. i \<le> j \<and> j < i + 8 \<and> bit x j)" for i
    unfolding y3_def using smear_step [OF 2] by simp
  have 4: "bit y4 i \<longleftrightarrow> (\<exists>j. i \<le> j \<and> j < i + 16 \<and> bit x j)" for i
    unfolding y4_def using smear_step [OF 3] by simp
  have 5: "bit y5 i \<longleftrightarrow> (\<exists>j. i \<le> j \<and> j < i + 32 \<and> bit x j)" for i
    unfolding y5_def using smear_step [OF 4] by simp
  have "bit (y5 OR drop_bit 32 y5) i \<longleftrightarrow> (\<exists>j. i \<le> j \<and> j < i + 64 \<and> bit x j)"
    using smear_step [OF 5] by simp
  also have "\<dots> \<longleftrightarrow> (\<exists>j\<ge>i. bit x j)"
  proof
    assume "\<exists>j\<ge>i. bit x j"
    then obtain j where "i \<le> j" "bit x j" "j < 64" using bit_imp_le_length [of x] by auto
    then show "\<exists>j. i \<le> j \<and> j < i + 64 \<and> bit x j" by (intro exI [of _ j]) simp
  qed blast
  finally show ?thesis .
qed

lemma highest_bit:
  fixes x :: u64
  obtains k where "k \<le> 64" and "\<And>i. (\<exists>j\<ge>i. bit x j) \<longleftrightarrow> i < k" and "unat x < 2 ^ k"
    and "0 < k \<Longrightarrow> 2 ^ (k - 1) \<le> unat x"
proof -
  have none: "\<forall>j\<ge>64. \<not> bit x j" using bit_imp_le_length [of x] by fastforce
  obtain k where k: "\<forall>j\<ge>k. \<not> bit x j" and k64: "k \<le> 64" and below: "\<And>i. i < k \<Longrightarrow> \<exists>j\<ge>i. bit x j"
  proof
    show "\<forall>j\<ge>LEAST m. \<forall>j\<ge>m. \<not> bit x j. \<not> bit x j" by (rule LeastI [of _ 64]) (rule none)
    show "(LEAST m. \<forall>j\<ge>m. \<not> bit x j) \<le> 64" by (rule Least_le) (rule none)
    show "\<exists>j\<ge>i. bit x j" if "i < (LEAST m. \<forall>j\<ge>m. \<not> bit x j)" for i using not_less_Least [OF that] by blast
  qed
  have iff: "(\<exists>j\<ge>i. bit x j) \<longleftrightarrow> i < k" for i
  proof
    assume "i < k"
    then show "\<exists>j\<ge>i. bit x j" by (rule below)
  next
    assume "\<exists>j\<ge>i. bit x j"
    then obtain j where j: "i \<le> j" "bit x j" by blast
    show "i < k"
    proof (rule ccontr)
      assume "\<not> i < k"
      with j(1) have "k \<le> j" by linarith
      with k j(2) show False by blast
    qed
  qed
  have "n < k" if "bit x n" for n using k that by (meson not_le)
  then have "take_bit k x = x"
    by (intro bit_word_eqI) (auto simp: bit_take_bit_iff)
  then have "unat x = unat x mod 2 ^ k"
    by (metis take_bit_eq_mod unsigned_take_bit_eq)
  then have "unat x < 2 ^ k" by (metis mod_less_divisor zero_less_numeral zero_less_power)
  moreover have "2 ^ (k - 1) \<le> unat x" if "0 < k"
  proof -
    have "k - 1 < k" using that by simp
    then obtain j where "k - 1 \<le> j" "bit x j" using below by blast
    then have "bit x (k - 1)" using k by (metis Suc_pred' le_antisym not_less_eq_eq that)
    then have "bit (unat x) (k - 1)" by (simp add: bit_unsigned_iff)
    then have "unat x div 2 ^ (k - 1) \<noteq> 0" by (metis bit_iff_odd even_zero)
    then show ?thesis by (simp add: div_eq_0_iff)
  qed
  ultimately show ?thesis using that k64 iff by blast
qed

lemma RoundBuckets_mask:
  obtains k where "k \<le> 64" and "Power2Mod_RoundBuckets from = mask k + 1" and "unat (from - 1) < 2 ^ k"
    and "0 < k \<Longrightarrow> 2 ^ (k - 1) \<le> unat (from - 1)"
proof -
  obtain k where k: "k \<le> 64" "\<And>i. (\<exists>j\<ge>i. bit (from - 1) j) \<longleftrightarrow> i < k" "unat (from - 1) < 2 ^ k"
    "0 < k \<Longrightarrow> 2 ^ (k - 1) \<le> unat (from - 1)"
    using highest_bit [of "from - 1"] by blast
  have "Power2Mod_RoundBuckets from = mask k + 1"
    unfolding Power2Mod_RoundBuckets_def Let_def
    by (rule arg_cong [where f = "\<lambda>y. y + 1"], rule bit_word_eqI, subst smear_all) (auto simp: k(2) bit_mask_iff)
  with k show ?thesis using that by blast
qed

lemma Power2Mod_new_power:
  assumes "k \<le> 63"
  shows "Power2Mod_new (2 ^ k) = Inr (Power2Mod (mask k))"
proof -
  have "(of_nat (2 ^ k) :: u64) - 1 = mask k" by (simp add: mask_eq_exp_minus_1)
  moreover have "mask k AND (of_nat (2 ^ k) :: u64) = 0"
    by (rule bit_word_eqI) (auto simp: bit_simps)
  moreover have "(of_nat (2 ^ k) :: u64) \<noteq> 0" using assms by simp
  ultimately show ?thesis by (simp add: Power2Mod_new_def)
qed

lemma unat_two_power:
  assumes "k \<le> 63"
  shows "unat (2 ^ k :: u64) = 2 ^ k"
proof -
  have "(2::nat) ^ k < 2 ^ 64" using assms by (intro power_strict_increasing) auto
  then have "unat (of_nat (2 ^ k) :: u64) = 2 ^ k" by (simp only: unat_of_nat) simp
  then show ?thesis by simp
qed

lemma RoundBuckets_spec:
  assumes "1 \<le> unat from" and "unat from \<le> 2 ^ 63"
  shows "\<exists>k\<le>63. unat (Power2Mod_RoundBuckets from) = 2 ^ k \<and> unat from \<le> 2 ^ k \<and>
           (\<forall>j. unat from \<le> 2 ^ j \<longrightarrow> k \<le> j) \<and> Power2Mod_new (unat (Power2Mod_RoundBuckets from)) = Inr (Power2Mod (mask k))"
proof -
  obtain k where k: "Power2Mod_RoundBuckets from = mask k + 1" "unat (from - 1) < 2 ^ k"
    "0 < k \<Longrightarrow> 2 ^ (k - 1) \<le> unat (from - 1)"
    using RoundBuckets_mask by blast
  have m: "unat (from - 1) = unat from - 1" using assms(1) by (intro unat_minus_one) auto
  have "k \<le> 63"
  proof (rule ccontr)
    assume "\<not> k \<le> 63"
    then have "(2::nat) ^ 63 \<le> 2 ^ (k - 1)" by (intro power_increasing) auto
    then show False using k(3) \<open>\<not> k \<le> 63\<close> assms m by simp
  qed
  then have r: "unat (Power2Mod_RoundBuckets from) = 2 ^ k"
    unfolding k(1) by (simp add: mask_eq_exp_minus_1 unat_two_power)
  moreover have "k \<le> j" if "unat from \<le> 2 ^ j" for j
  proof (rule ccontr)
    assume "\<not> k \<le> j"
    then have "(2::nat) ^ j \<le> 2 ^ (k - 1)" by (intro power_increasing) auto
    moreover have "2 ^ (k - 1) \<le> unat (from - 1)" using k(3) \<open>\<not> k \<le> j\<close> by simp
    ultimately show False using that m assms(1) by linarith
  qed
  ultimately show ?thesis
    using \<open>k \<le> 63\<close> k(2) m Power2Mod_new_power [of k] by (intro exI [of _ k]) (simp add: r)
qed

text \<open>
  \<^verbatim>\<open>Power2Mod::RoundBuckets\<close> rounds up to the next power of two: for every size from 1 to
  \<open>2 ^ 63\<close> it returns the least power of two that is at least that size, which the
  constructor of \<^verbatim>\<open>Power2Mod\<close> accepts.
\<close>

lemma RoundBuckets_correct:
  assumes "1 \<le> unat from" and "unat from \<le> 2 ^ 63"
  shows "\<exists>k\<le>63. unat (Power2Mod_RoundBuckets from) = 2 ^ k \<and> unat from \<le> 2 ^ k \<and>
           (\<forall>j. unat from \<le> 2 ^ j \<longrightarrow> k \<le> j) \<and> Power2Mod_new (unat (Power2Mod_RoundBuckets from)) = Inr (Power2Mod (mask k))"
  by (rule RoundBuckets_spec [OF assms])

lemma AutoProbing_new_ok:
  assumes "1 \<le> unat (max (initial_size + 1) scaled)" and "unat (max (initial_size + 1) scaled) \<le> 2 ^ 63"
    and "zero_ok tr raw_zero zero invalid"
  shows "\<exists>a. AutoProbing_new tr raw_zero zero initial_size scaled invalid = Inr a \<and> auto_ok tr a \<and>
           auto_map tr a = Map.empty \<and> pt_invalid (ap_backend a) = invalid \<and> pt_entries (ap_backend a) = 0"
proof -
  let ?n = "unat (table_Size Power2Mod_RoundBuckets initial_size scaled)"
  obtain k where k: "k \<le> 63" "?n = 2 ^ k" "Power2Mod_new ?n = Inr (Power2Mod (mask k))"
    using RoundBuckets_spec [OF assms(1,2)] by (auto simp: table_Size_def)
  define t where "t = \<lparr>pt_buckets = replicate ?n zero, pt_invalid = invalid, pt_mod = Power2Mod (mask k), pt_entries = 0\<rparr>"
  have m: "mod_ok (pt_mod t) (pt_size t)" using k by (auto simp: mod_ok_def t_def)
  define u where "u = (if raw_zero then t else table_Clear tr t)"
  have "table_ok tr u" "table_map tr u = Map.empty"
    using table_ok_empty [OF m, of tr] table_Clear_ok [OF m, of tr] assms(3) by (auto simp: u_def t_def zero_ok_def)
  moreover have "pt_size u = 2 ^ k" "pt_invalid u = invalid" "pt_entries u = 0"
    using k(2) by (auto simp: u_def t_def table_Clear_def)
  moreover have "AutoProbing_new tr raw_zero zero initial_size scaled invalid =
      Inr \<lparr>ap_backend = u, ap_threshold = threshold_for ?n\<rparr>"
    using k(3) by (simp add: AutoProbing_new_def ProbingHashTable_new_def u_def t_def)
  moreover have "(2::nat) ^ k \<le> 2 ^ 63" using k(1) by (rule power_increasing) simp
  ultimately show ?thesis using k(2) by (simp add: auto_ok_def)
qed

text \<open>A set of 64-bit keys that are their own hash, as the deduplicating tools have it.\<close>

definition u64_ops :: "(u64, u64) EntryOps" where
  "u64_ops = \<lparr>GetKey = (\<lambda>e. e), SetKey = (\<lambda>k e. k), Hash = IdentityHash, Blank = 0\<rparr>"

definition two_buckets :: "(u64, u64) ProbingHashTable" where
  "two_buckets = \<lparr>pt_buckets = [0, 0], pt_invalid = 0, pt_mod = DivMod 2, pt_entries = 0\<rparr>"

lemma two_buckets_ok: "table_ok u64_ops two_buckets" "table_map u64_ops two_buckets = Map.empty" "lawful u64_ops"
  using table_ok_empty [of two_buckets u64_ops] by (simp_all add: two_buckets_def u64_ops_def mod_ok_def lawful_def)

lemma zero_ok_u64: "zero_ok u64_ops True 0 0"
  by (simp add: zero_ok_def u64_ops_def lawful_def)

theorem table_Double_correct_witness:
  "\<exists>t'. table_Double u64_ops two_buckets [] True = Some t' \<and> table_ok u64_ops t' \<and> pt_size t' = 4"
  using table_Double_correct [of u64_ops two_buckets True "[]"] two_buckets_ok
  by (auto simp: two_buckets_def)

theorem auto_FindOrInsert_correct_witness:
  "\<exists>a a' i. AutoProbing_new u64_ops True 0 5 7 0 = Inr a \<and>
     auto_FindOrInsert u64_ops True 0 a 9 = Some (a', Inr (False, i)) \<and> auto_map u64_ops a' = [9 \<mapsto> 9]"
proof -
  obtain a where a: "AutoProbing_new u64_ops True 0 5 7 0 = Inr a" "auto_ok u64_ops a" "auto_map u64_ops a = Map.empty"
    "pt_invalid (ap_backend a) = 0" "pt_entries (ap_backend a) = 0"
    using AutoProbing_new_ok [of 5 7 u64_ops True 0 0] zero_ok_u64 by auto
  then show ?thesis
    using auto_FindOrInsert_correct [of u64_ops a True 0 9] zero_ok_u64 by (auto simp: u64_ops_def)
qed

subsection \<open>A set that grows\<close>

text \<open>
  What the tools that deduplicate by key rely on: a set of keys whose only operation says
  whether a key is new and adds it. \<open>keep_new\<close> is their loop over the items of the input, which
  keeps those whose key is new. \<open>cap\<close> bounds the number of insertions.
\<close>

primrec keep_new :: "('t \<Rightarrow> 'k \<Rightarrow> ('t \<times> bool) option) \<Rightarrow> ('a \<Rightarrow> 'k) \<Rightarrow> 't \<Rightarrow> 'a list \<Rightarrow> ('t \<times> 'a list) option" where
  "keep_new foi key t [] = Some (t, [])"
| "keep_new foi key t (x # xs) =
     (case foi t (key x) of
        None \<Rightarrow> None
      | Some (t, found) \<Rightarrow> map_option (\<lambda>(t, ys). (t, if found then ys else x # ys)) (keep_new foi key t xs))"

primrec first_new :: "('a \<Rightarrow> 'k) \<Rightarrow> 'k set \<Rightarrow> 'a list \<Rightarrow> 'a list" where
  "first_new key seen [] = []"
| "first_new key seen (x # xs) =
     (if key x \<in> seen then first_new key seen xs else x # first_new key (insert (key x) seen) xs)"

lemma first_new_subseq: "subseq (first_new key seen xs) xs"
  by (induction xs arbitrary: seen) auto

lemma first_new_distinct: "distinct (map key (first_new key seen xs)) \<and> set (map key (first_new key seen xs)) = key ` set xs - seen"
  by (induction xs arbitrary: seen) auto

locale growing_set =
  fixes find_or_insert :: "'t \<Rightarrow> 'k \<Rightarrow> ('t \<times> bool) option"
    and elems :: "'t \<Rightarrow> 'k set"
    and invar :: "'t \<Rightarrow> bool"
    and load :: "'t \<Rightarrow> nat"
    and cap :: nat
  assumes find_or_insert: "invar t \<Longrightarrow> load t < cap \<Longrightarrow>
    \<exists>t'. find_or_insert t k = Some (t', k \<in> elems t) \<and> invar t' \<and> elems t' = insert k (elems t) \<and> load t' \<le> load t + 1"
begin

lemma keep_new_first:
  "invar t \<Longrightarrow> load t + length xs \<le> cap \<Longrightarrow>
     \<exists>t'. keep_new find_or_insert key t xs = Some (t', first_new key (elems t) xs) \<and> invar t' \<and>
          elems t' = elems t \<union> key ` set xs"
proof (induction xs arbitrary: t)
  case (Cons x xs)
  obtain u where u: "find_or_insert t (key x) = Some (u, key x \<in> elems t)" "invar u"
    "elems u = insert (key x) (elems t)" "load u \<le> load t + 1"
    using find_or_insert [of t "key x"] Cons.prems by auto
  from Cons.IH [OF u(2)] u(4) Cons.prems(2) obtain t' where
    "keep_new find_or_insert key u xs = Some (t', first_new key (elems u) xs)" "invar t'" "elems t' = elems u \<union> key ` set xs"
    by auto
  with u show ?case by (auto simp: insert_absorb)
qed simp

end

end
