(* ===== verification/StringPiece.thy ===== *)
theory StringPiece
  imports Prelude "HOL-Library.List_Lexorder"
begin

text \<open>
  \<^verbatim>\<open>src/util/string_piece.hh\<close> and \<^verbatim>\<open>src/util/string_piece.cc\<close>: comparison, prefix and suffix
  tests, the searches and \<^verbatim>\<open>substr\<close>. A piece is the list of its bytes; a position is a number
  and \<^verbatim>\<open>npos\<close> is the largest \<^verbatim>\<open>size_t\<close>. The searches are compared with their declarative
  meaning: the least or greatest position that matches.
\<close>

definition npos :: nat where
  "npos = 2 ^ 64 - 1"

subsection \<open>Comparison\<close>

text \<open>\<^verbatim>\<open>memcmp\<close>: the sign of the difference of the first bytes that differ, as \<^verbatim>\<open>unsigned char\<close>.\<close>

fun memcmp :: "bytes \<Rightarrow> bytes \<Rightarrow> nat \<Rightarrow> int" where
  "memcmp p q 0 = 0"
| "memcmp p q (Suc n) =
     (if hd p = hd q then memcmp (tl p) (tl q) n else if hd p < hd q then -1 else 1)"

definition sp_compare :: "bytes \<Rightarrow> bytes \<Rightarrow> int" where
  "sp_compare x y =
     (let r = memcmp x y (min (length x) (length y))
      in if r = 0 then (if length x < length y then -1 else if length x > length y then 1 else r) else r)"

definition sp_equal :: "bytes \<Rightarrow> bytes \<Rightarrow> bool" where
  "sp_equal x y = (if length x \<noteq> length y then False else memcmp x y (length x) = 0)"

definition sp_less :: "bytes \<Rightarrow> bytes \<Rightarrow> bool" where
  "sp_less x y =
     (let r = memcmp x y (min (length x) (length y)) in r < 0 \<or> r = 0 \<and> length x < length y)"

definition starts_with :: "bytes \<Rightarrow> bytes \<Rightarrow> bool" where
  "starts_with s x \<longleftrightarrow> length s \<ge> length x \<and> memcmp s x (length x) = 0"

definition ends_with :: "bytes \<Rightarrow> bytes \<Rightarrow> bool" where
  "ends_with s x \<longleftrightarrow> length s \<ge> length x \<and> memcmp (drop (length s - length x) s) x (length x) = 0"

definition remove_prefix :: "nat \<Rightarrow> bytes \<Rightarrow> bytes" where
  "remove_prefix n s = drop n s"

definition remove_suffix :: "nat \<Rightarrow> bytes \<Rightarrow> bytes" where
  "remove_suffix n s = take (length s - n) s"

subsection \<open>Searching\<close>

text \<open>
  \<^verbatim>\<open>std::search\<close> returns the first position of the needle, or the length; \<^verbatim>\<open>std::find_end\<close> the
  last position of a needle that is not empty, or the length.
\<close>

fun std_search :: "'a list \<Rightarrow> 'a list \<Rightarrow> nat" where
  "std_search [] x = 0"
| "std_search (c # s) x = (if prefix x (c # s) then 0 else Suc (std_search s x))"

fun std_find_end :: "'a list \<Rightarrow> 'a list \<Rightarrow> nat" where
  "std_find_end [] x = 0"
| "std_find_end (c # s) x =
     (let r = std_find_end s x
      in if r < length s then Suc r else if prefix x (c # s) then 0 else Suc (length s))"

definition find_piece :: "bytes \<Rightarrow> bytes \<Rightarrow> nat \<Rightarrow> nat" where
  "find_piece s x pos =
     (if pos > length s then npos
      else (let xpos = pos + std_search (drop pos s) x
            in if xpos + length x \<le> length s then xpos else npos))"

definition find_char :: "bytes \<Rightarrow> byte \<Rightarrow> nat \<Rightarrow> nat" where
  "find_char s c pos =
     (if length s \<le> 0 \<or> pos \<ge> length s then npos
      else (let r = pos + std_find c (drop pos s) in if r \<noteq> length s then r else npos))"

definition rfind_piece :: "bytes \<Rightarrow> bytes \<Rightarrow> nat \<Rightarrow> nat" where
  "rfind_piece s x pos =
     (if length s < length x then npos
      else if length x = 0 then min (length s) pos
      else (let lst = min (length s - length x) pos + length x;
                r = std_find_end (take lst s) x
            in if r \<noteq> lst then r else npos))"

text \<open>The loops that run down an index, from \<open>i\<close> to 0.\<close>

primrec scan_down :: "(byte \<Rightarrow> bool) \<Rightarrow> bytes \<Rightarrow> nat \<Rightarrow> nat" where
  "scan_down p s 0 = (if p (s ! 0) then 0 else npos)"
| "scan_down p s (Suc i) = (if p (s ! Suc i) then Suc i else scan_down p s i)"

text \<open>\<^verbatim>\<open>rfind\<close> of a character counts down in an \<^verbatim>\<open>int\<close>, which a longer piece overflows.\<close>

definition rfind_char :: "bytes \<Rightarrow> byte \<Rightarrow> nat \<Rightarrow> nat" where
  "rfind_char s c pos =
     (if length s \<le> 0 then npos
      else (let i = sint (of_nat (min pos (length s - 1)) :: u32)
            in if i < 0 then npos else scan_down (\<lambda>b. b = c) s (nat i)))"

primrec BuildLookupTable :: "bytes \<Rightarrow> bool list \<Rightarrow> bool list" where
  "BuildLookupTable [] table = table"
| "BuildLookupTable (c # cs) table = BuildLookupTable cs (table[unat c := True])"

definition lookup_table :: "bytes \<Rightarrow> bool list" where
  "lookup_table s = BuildLookupTable s (replicate 256 False)"

definition scan_up :: "(byte \<Rightarrow> bool) \<Rightarrow> bytes \<Rightarrow> nat \<Rightarrow> nat" where
  "scan_up p s pos =
     (let r = pos + find_if p (drop pos s) in if pos < length s \<and> r < length s then r else npos)"

definition find_first_of :: "bytes \<Rightarrow> bytes \<Rightarrow> nat \<Rightarrow> nat" where
  "find_first_of s x pos =
     (if length s = 0 \<or> length x = 0 then npos
      else if length x = 1 then find_char s (x ! 0) pos
      else scan_up (\<lambda>b. lookup_table x ! unat b) s pos)"

definition find_first_not_of_char :: "bytes \<Rightarrow> byte \<Rightarrow> nat \<Rightarrow> nat" where
  "find_first_not_of_char s c pos = (if length s = 0 then npos else scan_up (\<lambda>b. b \<noteq> c) s pos)"

definition find_first_not_of :: "bytes \<Rightarrow> bytes \<Rightarrow> nat \<Rightarrow> nat" where
  "find_first_not_of s x pos =
     (if length s = 0 then npos
      else if length x = 0 then 0
      else if length x = 1 then find_first_not_of_char s (x ! 0) pos
      else scan_up (\<lambda>b. \<not> lookup_table x ! unat b) s pos)"

definition find_last_of :: "bytes \<Rightarrow> bytes \<Rightarrow> nat \<Rightarrow> nat" where
  "find_last_of s x pos =
     (if length s = 0 \<or> length x = 0 then npos
      else if length x = 1 then rfind_char s (x ! 0) pos
      else scan_down (\<lambda>b. lookup_table x ! unat b) s (min pos (length s - 1)))"

definition find_last_not_of_char :: "bytes \<Rightarrow> byte \<Rightarrow> nat \<Rightarrow> nat" where
  "find_last_not_of_char s c pos =
     (if length s = 0 then npos else scan_down (\<lambda>b. b \<noteq> c) s (min pos (length s - 1)))"

definition find_last_not_of :: "bytes \<Rightarrow> bytes \<Rightarrow> nat \<Rightarrow> nat" where
  "find_last_not_of s x pos =
     (if length s = 0 then npos
      else (let i = min pos (length s - 1)
            in if length x = 0 then i
               else if length x = 1 then find_last_not_of_char s (x ! 0) pos
               else scan_down (\<lambda>b. \<not> lookup_table x ! unat b) s i))"

definition substr :: "bytes \<Rightarrow> nat \<Rightarrow> nat \<Rightarrow> bytes" where
  "substr s pos n =
     (let pos = (if pos > length s then length s else pos);
          n = (if n > length s - pos then length s - pos else n)
      in take n (drop pos s))"

subsection \<open>Comparison is lexicographic\<close>

lemma memcmp_eq: "length x = n \<Longrightarrow> length y = n \<Longrightarrow> memcmp x y n = 0 \<longleftrightarrow> x = y"
proof (induction n arbitrary: x y)
  case (Suc n)
  then obtain a x' b y' where "x = a # x'" "y = b # y'" by (metis length_Suc_conv)
  with Suc show ?case by simp
qed simp

lemma memcmp_take: "n \<le> length x \<Longrightarrow> n \<le> length y \<Longrightarrow> memcmp x y n = memcmp (take n x) (take n y) n"
proof (induction n arbitrary: x y)
  case (Suc n)
  then obtain a x' b y' where "x = a # x'" "y = b # y'" by (metis Suc_le_length_iff)
  with Suc.IH [of x' y'] Suc.prems show ?case by simp
qed simp

lemma sp_equal_eq: "sp_equal x y \<longleftrightarrow> x = y"
  by (auto simp: sp_equal_def memcmp_eq)

lemma prefix_take_iff: "prefix x s \<longleftrightarrow> length x \<le> length s \<and> take (length x) s = x"
  by (metis append_eq_conv_conj append_take_drop_id prefix_def prefix_length_le)

lemma suffix_drop_iff: "suffix x s \<longleftrightarrow> length x \<le> length s \<and> drop (length s - length x) s = x"
proof
  assume "suffix x s"
  then obtain p where "s = p @ x" by (auto elim: suffixE)
  then show "length x \<le> length s \<and> drop (length s - length x) s = x" by simp
next
  assume "length x \<le> length s \<and> drop (length s - length x) s = x"
  then show "suffix x s" by (metis suffix_drop)
qed

lemma starts_with_iff: "starts_with s x \<longleftrightarrow> prefix x s"
proof (cases "length x \<le> length s")
  case True
  then have "memcmp s x (length x) = 0 \<longleftrightarrow> take (length x) s = x"
    using memcmp_take [of "length x" s x] memcmp_eq [of "take (length x) s" "length x" x] by simp
  then show ?thesis using True by (simp add: starts_with_def prefix_take_iff)
qed (simp add: starts_with_def prefix_take_iff)

lemma ends_with_iff: "ends_with s x \<longleftrightarrow> suffix x s"
proof (cases "length x \<le> length s")
  case True
  then have "memcmp (drop (length s - length x) s) x (length x) = 0 \<longleftrightarrow> drop (length s - length x) s = x"
    by (intro memcmp_eq) simp_all
  then show ?thesis
    using True by (simp add: ends_with_def suffix_drop_iff)
qed (simp add: ends_with_def suffix_drop_iff)

lemma memcmp_less:
  "sp_less x y \<longleftrightarrow> x < y"
proof (induction x arbitrary: y)
  case Nil
  then show ?case by (cases y) (simp_all add: sp_less_def)
next
  case (Cons a x)
  show ?case
  proof (cases y)
    case (Cons b y')
    then show ?thesis using Cons.IH [of y'] by (auto simp: sp_less_def Let_def)
  qed (simp add: sp_less_def)
qed

text \<open>
  \<^verbatim>\<open>operator==\<close>, \<^verbatim>\<open>operator<\<close> and \<^verbatim>\<open>compare\<close> agree with each other and with equality and the
  lexicographic order of byte strings, so the pieces are totally ordered.
\<close>

lemma sp_compare_correct:
  "(sp_equal x y \<longleftrightarrow> x = y) \<and> (sp_less x y \<longleftrightarrow> x < y) \<and>
   sp_compare x y = (if x < y then -1 else if x = y then 0 else 1)"
proof -
  have range: "memcmp p q n = -1 \<or> memcmp p q n = 0 \<or> memcmp p q n = 1" for p q n
    by (induction p q n rule: memcmp.induct) auto
  have less: "x < y \<longleftrightarrow> sp_less x y" for x y by (simp add: memcmp_less)
  have "sp_compare x y = (if sp_less x y then -1 else if x = y then 0 else 1)"
  proof (cases "length x = length y")
    case True
    then show ?thesis
      using range [of x y "length y"] memcmp_eq [of x "length y" y] by (auto simp: sp_compare_def sp_less_def Let_def)
  next
    case False
    then show ?thesis
      using range [of x y "min (length x) (length y)"] by (auto simp: sp_compare_def sp_less_def Let_def)
  qed
  then show ?thesis by (simp add: sp_equal_eq less)
qed

subsection \<open>Searches find the first or the last match\<close>

lemma std_search_spec:
  "std_search s x < length s \<Longrightarrow> prefix x (drop (std_search s x) s)"
  "k < std_search s x \<Longrightarrow> \<not> prefix x (drop k s)"
  "std_search s x \<le> length s"
proof (induction s arbitrary: k)
  case (Cons c s)
  {
    case 2
    then show ?case using Cons(2) [of "k - 1"] by (cases k) (auto split: if_splits)
  }
qed (auto split: if_splits)

lemma find_piece_found:
  assumes "length s < npos"
  shows "find_piece s x pos = p \<and> p \<noteq> npos \<longleftrightarrow>
         pos \<le> p \<and> p + length x \<le> length s \<and> prefix x (drop p s) \<and> (\<forall>q. pos \<le> q \<and> q < p \<longrightarrow> \<not> prefix x (drop q s))"
    (is "?l \<longleftrightarrow> ?r")
proof (cases "pos \<le> length s")
  case False
  then show ?thesis using assms by (auto simp: find_piece_def)
next
  case True
  define k where "k = std_search (drop pos s) x"
  have none: "\<not> prefix x (drop q s)" if "pos \<le> q" "q < pos + k" for q
    using std_search_spec(2) [of "q - pos" "drop pos s" x] that by (simp add: k_def)
  have here: "prefix x (drop (pos + k) s)" if "pos + k + length x \<le> length s"
  proof (cases "k < length (drop pos s)")
    case True
    then show ?thesis using std_search_spec(1) [of "drop pos s" x] by (simp add: k_def add.commute)
  next
    case False
    then show ?thesis using that by (cases x) auto
  qed
  have fp: "find_piece s x pos = (if pos + k + length x \<le> length s then pos + k else npos)"
    using True by (simp add: find_piece_def k_def Let_def)
  show ?thesis
  proof
    assume ?l
    then have "p = pos + k" "pos + k + length x \<le> length s" using fp by (auto split: if_splits)
    then show ?r using here none by auto
  next
    assume r: ?r
    then have "pos + k \<le> p" using none by (meson not_le)
    moreover have "p \<le> pos + k"
    proof (rule ccontr)
      assume "\<not> p \<le> pos + k"
      then have "pos + k + length x \<le> length s" using r by simp
      then show False using here r \<open>\<not> p \<le> pos + k\<close> by auto
    qed
    ultimately show ?l using r fp assms by auto
  qed
qed

text \<open>
  \<^verbatim>\<open>find\<close> returns the first position at or after \<^verbatim>\<open>pos\<close> where the needle occurs entirely
  inside the piece, and \<^verbatim>\<open>npos\<close> exactly when there is none.
\<close>

lemma find_piece_correct:
  assumes "length s < npos"
  shows "find_piece s x pos = p \<and> p \<noteq> npos \<longleftrightarrow>
         pos \<le> p \<and> p + length x \<le> length s \<and> prefix x (drop p s) \<and> (\<forall>q. pos \<le> q \<and> q < p \<longrightarrow> \<not> prefix x (drop q s))"
  by (rule find_piece_found [OF assms])

definition first_at :: "(byte \<Rightarrow> bool) \<Rightarrow> bytes \<Rightarrow> nat \<Rightarrow> nat \<Rightarrow> bool" where
  "first_at p s pos r \<longleftrightarrow> pos \<le> r \<and> r < length s \<and> p (s ! r) \<and> (\<forall>q. pos \<le> q \<and> q < r \<longrightarrow> \<not> p (s ! q))"

definition last_at :: "(byte \<Rightarrow> bool) \<Rightarrow> bytes \<Rightarrow> nat \<Rightarrow> nat \<Rightarrow> bool" where
  "last_at p s pos r \<longleftrightarrow> r \<le> pos \<and> r < length s \<and> p (s ! r) \<and> (\<forall>q. r < q \<and> q \<le> pos \<and> q < length s \<longrightarrow> \<not> p (s ! q))"

lemma scan_up_spec:
  assumes "length s < npos"
  shows "scan_up p s pos = r \<and> r \<noteq> npos \<longleftrightarrow> first_at p s pos r"
proof -
  define k where "k = find_if p (drop pos s)"
  have before: "\<not> p (s ! q)" if "pos \<le> q" "q < pos + k" "pos < length s" for q
    using find_if_before [of "q - pos" p "drop pos s"] that by (simp add: k_def)
  have at: "p (s ! (pos + k))" if "pos < length s" "pos + k < length s"
    using find_if_nth [of p "drop pos s"] that by (simp add: k_def)
  have su: "scan_up p s pos = (if pos < length s \<and> pos + k < length s then pos + k else npos)"
    by (simp add: scan_up_def k_def Let_def)
  show ?thesis
  proof
    assume "scan_up p s pos = r \<and> r \<noteq> npos"
    then show "first_at p s pos r" using su at before by (auto simp: first_at_def split: if_splits)
  next
    assume f: "first_at p s pos r"
    then have "pos + k \<le> r" using before by (meson first_at_def le_less_trans not_le)
    moreover from this have "pos < length s" "pos + k < length s" using f by (auto simp: first_at_def)
    moreover have "r \<le> pos + k" using f at \<open>pos < length s\<close> \<open>pos + k < length s\<close> by (meson first_at_def le_add1 not_le)
    ultimately show "scan_up p s pos = r \<and> r \<noteq> npos" using su f assms by (auto simp: first_at_def)
  qed
qed

lemma scan_down_spec:
  assumes "i < length s" and "length s < npos"
  shows "scan_down p s i = r \<and> r \<noteq> npos \<longleftrightarrow> last_at p s i r"
  using assms(1)
proof (induction i)
  case 0
  then show ?case using assms(2) by (auto simp: last_at_def)
next
  case (Suc i)
  then have IH: "scan_down p s i = r \<and> r \<noteq> npos \<longleftrightarrow> last_at p s i r" by simp
  show ?case
  proof (cases "p (s ! Suc i)")
    case True
    then show ?thesis using Suc.prems assms(2) by (auto simp: last_at_def le_less)
  next
    case False
    have "last_at p s (Suc i) r \<longleftrightarrow> last_at p s i r"
      using False by (auto simp: last_at_def le_Suc_eq)
    then show ?thesis using False IH by simp
  qed
qed

lemma BuildLookupTable_nth:
  "length t = 256 \<Longrightarrow> length (BuildLookupTable x t) = 256 \<and>
     (BuildLookupTable x t ! unat b \<longleftrightarrow> b \<in> set x \<or> t ! unat b)"
proof (induction x arbitrary: t)
  case (Cons c x)
  have "(t[unat c := True]) ! unat b \<longleftrightarrow> b = c \<or> t ! unat b"
    using Cons.prems by (cases "b = c") (auto simp: nth_list_update word_unat_eq_iff)
  with Cons show ?case by auto
qed simp

lemma lookup_table_nth: "lookup_table x ! unat b \<longleftrightarrow> b \<in> set x"
  using BuildLookupTable_nth [of "replicate 256 False" x b] by (simp add: lookup_table_def)

lemma find_char_spec:
  assumes "length s < npos"
  shows "find_char s c pos = r \<and> r \<noteq> npos \<longleftrightarrow> first_at (\<lambda>b. b = c) s pos r"
proof -
  have "std_find c (drop pos s) \<le> length s - pos" using std_find_le [of c "drop pos s"] by simp
  then have "find_char s c pos = scan_up (\<lambda>b. b = c) s pos"
    by (auto simp: find_char_def scan_up_def std_find_def Let_def)
  then show ?thesis using scan_up_spec [OF assms] by simp
qed

lemma singleton_set: "length x = 1 \<Longrightarrow> (\<lambda>b. b = x ! 0) = (\<lambda>b. b \<in> set x)"
  by (cases x) auto

lemma rfind_char_spec:
  assumes "length s \<le> 2 ^ 31" and "length s \<noteq> 0"
  shows "rfind_char s c pos = scan_down (\<lambda>b. b = c) s (min pos (length s - 1))"
proof -
  have "min pos (length s - 1) < 2 ^ 31" using assms by auto
  then have "sint (of_nat (min pos (length s - 1)) :: u32) = int (min pos (length s - 1))"
    by (simp add: sint_uint uint_nat unat_of_nat signed_take_bit_int_eq_self del: min_less_iff_conj)
  then show ?thesis using assms(2) by (simp add: rfind_char_def)
qed

text \<open>
  The searches for one of several characters, which go through a table of 256 flags or, for
  a single character, through \<^verbatim>\<open>find\<close> and \<^verbatim>\<open>rfind\<close>, return the first or last position whose byte
  is in the given set, or is not, and \<^verbatim>\<open>npos\<close> if there is none. Two exceptions: \<^verbatim>\<open>rfind\<close> counts in an
  \<^verbatim>\<open>int\<close>, so pieces are at most \<open>2 ^ 31\<close> long here, and \<^verbatim>\<open>find_first_not_of\<close> with the empty set
  returns 0 whatever \<^verbatim>\<open>pos\<close> is.
\<close>

lemma find_of_correct:
  assumes "length s \<le> 2 ^ 31" and "x \<noteq> []"
  shows "(find_first_of s x pos = r \<and> r \<noteq> npos \<longleftrightarrow> first_at (\<lambda>b. b \<in> set x) s pos r) \<and>
    (find_first_not_of s x pos = r \<and> r \<noteq> npos \<longleftrightarrow> first_at (\<lambda>b. b \<notin> set x) s pos r) \<and>
    (find_last_of s x pos = r \<and> r \<noteq> npos \<longleftrightarrow> last_at (\<lambda>b. b \<in> set x) s pos r) \<and>
    (find_last_not_of s x pos = r \<and> r \<noteq> npos \<longleftrightarrow> last_at (\<lambda>b. b \<notin> set x) s pos r)"
proof (cases "s = []")
  case True
  then show ?thesis
    by (auto simp: find_first_of_def find_first_not_of_def find_last_of_def find_last_not_of_def first_at_def last_at_def)
next
  case False
  have n: "length s < npos" using assms(1) by (simp add: npos_def)
  have i: "min pos (length s - 1) < length s" using False by (simp add: min_less_iff_disj)
  have last: "last_at p s (min pos (length s - 1)) r \<longleftrightarrow> last_at p s pos r" for p r
    by (auto simp: last_at_def min_le_iff_disj)
  note down = scan_down_spec [OF i n, unfolded last] and up = scan_up_spec [OF n]
  show ?thesis
  proof (cases "length x = 1")
    case True
    have ne: "(\<lambda>b. b \<noteq> x ! 0) = (\<lambda>b. b \<notin> set x)" using singleton_set [OF True] by metis
    show ?thesis
      using False True singleton_set [OF True] ne down up find_char_spec [OF n] rfind_char_spec [OF assms(1), of "x ! 0" pos]
      by (simp add: find_first_of_def find_first_not_of_def find_last_of_def find_last_not_of_def
          find_first_not_of_char_def find_last_not_of_char_def)
  next
    case len: False
    show ?thesis
      using False len assms(2) down up
      by (simp add: find_first_of_def find_first_not_of_def find_last_of_def find_last_not_of_def lookup_table_nth Let_def)
  qed
qed

text \<open>\<^verbatim>\<open>substr\<close> clips both arguments to the piece.\<close>

lemma substr_eq: "substr s pos n = take n (drop pos s)"
  by (auto simp: substr_def Let_def min_def)

end
