(* ===== verification/TokenizePiece.thy ===== *)
theory TokenizePiece
  imports StringPiece
begin

text \<open>
  \<^verbatim>\<open>src/util/tokenize_piece.hh\<close> and \<^verbatim>\<open>src/util/spaces.cc\<close>: the policies that find the next
  delimiter, the token iterator over them with and without empty tokens, and \<^verbatim>\<open>Trim\<close>. A null
  \<^verbatim>\<open>StringPiece\<close>, which ends the iteration, is \<open>None\<close>. The iterator's promise is proved once for
  every policy that satisfies the interface \<open>finder\<close>.
\<close>

definition kSpaces :: "bool list" where
  "kSpaces =
    [False,False,False,False,False,False,False,False,False,True,True,True,True,True,False,False,
     False,False,False,False,False,False,False,False,False,False,False,False,False,False,False,False,
     True] @ replicate 223 False"

subsection \<open>Policies\<close>

text \<open>The piece a policy finds, as the offset where it begins and its length.\<close>

definition SingleCharacter :: "byte \<Rightarrow> bytes \<Rightarrow> nat \<times> nat" where
  "SingleCharacter delim s = (std_find delim s, 1)"

definition MultiCharacter :: "bytes \<Rightarrow> bytes \<Rightarrow> nat \<times> nat" where
  "MultiCharacter delimiter s = (std_search s delimiter, length delimiter)"

definition AnyCharacter :: "bytes \<Rightarrow> bytes \<Rightarrow> nat \<times> nat" where
  "AnyCharacter chars s = (find_if (\<lambda>c. c \<in> set chars) s, 1)"

definition BoolCharacter :: "bool list \<Rightarrow> bytes \<Rightarrow> nat \<times> nat" where
  "BoolCharacter delimiter s =
     (let i = find_if (\<lambda>c. delimiter ! unat c) s in if i \<noteq> length s then (i, 1) else (i, 0))"

text \<open>\<^verbatim>\<open>Build\<close> runs over the whole array of a literal, its final null byte included.\<close>

definition BoolCharacter_Build :: "bytes \<Rightarrow> bool list" where
  "BoolCharacter_Build characters =
     foldl (\<lambda>out c. out[unat c := True]) (replicate 256 False) (characters @ [0])"

definition AnyCharacterLast :: "bytes \<Rightarrow> bytes \<Rightarrow> nat \<times> nat" where
  "AnyCharacterLast chars s = (std_find_end s chars, 1)"

subsection \<open>The iterator\<close>

record TokenIter =
  ti_current :: "bytes option"
  ti_after :: "bytes option"

text \<open>One turn of the \<^verbatim>\<open>do\<close> loop of \<^verbatim>\<open>operator++\<close>, then the loop.\<close>

definition token_turn :: "(bytes \<Rightarrow> nat \<times> nat) \<Rightarrow> TokenIter \<Rightarrow> TokenIter" where
  "token_turn finder it =
     (case ti_after it of
        None \<Rightarrow> \<lparr>ti_current = None, ti_after = None\<rparr>
      | Some a \<Rightarrow>
          (let (off, len) = finder a
           in \<lparr>ti_current = Some (take off a),
               ti_after = (if off = length a then None else Some (drop (off + len) a))\<rparr>))"

partial_function (option) token_next :: "bool \<Rightarrow> (bytes \<Rightarrow> nat \<times> nat) \<Rightarrow> TokenIter \<Rightarrow> TokenIter option" where
  "token_next skip_empty finder it =
     (let it = token_turn finder it
      in if skip_empty \<and> ti_current it = Some [] then token_next skip_empty finder it else Some it)"

definition token_begin :: "bool \<Rightarrow> (bytes \<Rightarrow> nat \<times> nat) \<Rightarrow> bytes \<Rightarrow> TokenIter option" where
  "token_begin skip_empty finder s = token_next skip_empty finder \<lparr>ti_current = None, ti_after = Some s\<rparr>"

definition token_deref :: "TokenIter \<Rightarrow> bytes result" where
  "token_deref it = (case ti_current it of None \<Rightarrow> Inl OutOfTokens | Some t \<Rightarrow> Inr t)"

text \<open>The loop \<^verbatim>\<open>for (TokenIter it(s, f); it; ++it)\<close>, collecting what \<^verbatim>\<open>*it\<close> returns.\<close>

partial_function (option) token_loop :: "bool \<Rightarrow> (bytes \<Rightarrow> nat \<times> nat) \<Rightarrow> TokenIter \<Rightarrow> bytes list option" where
  "token_loop skip_empty finder it =
     (case ti_current it of
        None \<Rightarrow> Some []
      | Some t \<Rightarrow>
          (case token_next skip_empty finder it of
             None \<Rightarrow> None
           | Some it \<Rightarrow> Option.bind (token_loop skip_empty finder it) (\<lambda>ts. Some (t # ts))))"

definition token_list :: "bool \<Rightarrow> (bytes \<Rightarrow> nat \<times> nat) \<Rightarrow> bytes \<Rightarrow> bytes list option" where
  "token_list skip_empty finder s =
     (case token_begin skip_empty finder s of
        None \<Rightarrow> None
      | Some it \<Rightarrow> token_loop skip_empty finder it)"

subsection \<open>\<open>Trim\<close>\<close>

fun trim_left :: "bool list \<Rightarrow> bytes \<Rightarrow> bytes" where
  "trim_left spaces [] = []"
| "trim_left spaces (c # s) = (if spaces ! unat c then trim_left spaces s else c # s)"

function trim_right :: "bool list \<Rightarrow> bytes \<Rightarrow> bytes" where
  "trim_right spaces s = (if s \<noteq> [] \<and> spaces ! unat (last s) then trim_right spaces (butlast s) else s)"
  by pat_completeness auto
termination
  by (relation "measure (length \<circ> snd)") auto

declare trim_right.simps [simp del]

definition Trim :: "bytes \<Rightarrow> bool list \<Rightarrow> bytes" where
  "Trim s spaces = trim_right spaces (trim_left spaces s)"

subsection \<open>What the iterator yields\<close>

text \<open>
  The interface of a policy: it stays inside its argument, and what it finds before the end is
  not empty, so that the iteration makes progress.
\<close>

locale finder =
  fixes find :: "bytes \<Rightarrow> nat \<times> nat"
  assumes find_le: "fst (find s) \<le> length s"
    and find_progress: "fst (find s) < length s \<Longrightarrow> 0 < snd (find s)"
begin

function tokens :: "bytes \<Rightarrow> bytes list" where
  "tokens s =
     (if fst (find s) < length s
      then take (fst (find s)) s # tokens (drop (fst (find s) + snd (find s)) s) else [s])"
  by pat_completeness auto
termination
proof (relation "measure length")
  fix s
  assume "fst (find s) < length s"
  with find_progress [OF this] show "(drop (fst (find s) + snd (find s)) s, s) \<in> measure length" by auto
qed simp

declare tokens.simps [simp del]

fun rest_tokens :: "bytes option \<Rightarrow> bytes list" where
  "rest_tokens None = []"
| "rest_tokens (Some s) = tokens s"

definition keep :: "bool \<Rightarrow> bytes list \<Rightarrow> bytes list" where
  "keep skip ts = filter (\<lambda>t. \<not> (skip \<and> t = [])) ts"

lemma token_turn_Some:
  "token_turn find \<lparr>ti_current = c, ti_after = Some s\<rparr> =
     \<lparr>ti_current = Some (hd (tokens s)),
      ti_after = (if fst (find s) < length s then Some (drop (fst (find s) + snd (find s)) s) else None)\<rparr>"
  using find_le [of s]
  by (cases "find s") (auto simp: token_turn_def tokens.simps [of s])

lemma tl_tokens:
  "tl (tokens s) = rest_tokens (if fst (find s) < length s then Some (drop (fst (find s) + snd (find s)) s) else None)"
  by (simp add: tokens.simps [of s])

lemma tokens_not_Nil: "tokens s \<noteq> []"
  by (simp add: tokens.simps [of s])

lemma token_next_None: "ti_after it = None \<Longrightarrow> token_next skip find it = Some \<lparr>ti_current = None, ti_after = None\<rparr>"
  by (subst token_next.simps) (simp add: token_turn_def)

lemma token_next_Some:
  "\<exists>it'. token_next skip find \<lparr>ti_current = c, ti_after = Some s\<rparr> = Some it' \<and>
     (case ti_current it' of
        None \<Rightarrow> keep skip (tokens s) = [] \<and> ti_after it' = None
      | Some t \<Rightarrow> keep skip (tokens s) = t # keep skip (rest_tokens (ti_after it')) \<and>
                  (\<forall>a. ti_after it' = Some a \<longrightarrow> length a < length s))"
proof (induction "length s" arbitrary: s c rule: less_induct)
  case less
  define after where "after = (if fst (find s) < length s then Some (drop (fst (find s) + snd (find s)) s) else None)"
  have turn: "token_turn find \<lparr>ti_current = c, ti_after = Some s\<rparr> = \<lparr>ti_current = Some (hd (tokens s)), ti_after = after\<rparr>"
    by (simp add: token_turn_Some after_def)
  have ts: "tokens s = hd (tokens s) # rest_tokens after"
    using tl_tokens [of s] tokens_not_Nil [of s] unfolding after_def by (metis list.collapse)
  have shorter: "length a < length s" if "after = Some a" for a
    using that find_progress [of s] by (auto simp: after_def split: if_splits)
  show ?case
  proof (cases "skip \<and> hd (tokens s) = []")
    case False
    then have "keep skip (tokens s) = hd (tokens s) # keep skip (rest_tokens after)"
      by (subst ts) (auto simp: keep_def)
    moreover have "token_next skip find \<lparr>ti_current = c, ti_after = Some s\<rparr> = Some \<lparr>ti_current = Some (hd (tokens s)), ti_after = after\<rparr>"
      using False by (subst token_next.simps) (auto simp: turn Let_def)
    ultimately show ?thesis using shorter by simp
  next
    case True
    then have k: "keep skip (tokens s) = keep skip (rest_tokens after)"
      by (subst ts) (simp add: keep_def)
    have go: "token_next skip find \<lparr>ti_current = c, ti_after = Some s\<rparr> =
              token_next skip find \<lparr>ti_current = Some (hd (tokens s)), ti_after = after\<rparr>"
      using True by (subst token_next.simps) (simp add: turn Let_def)
    show ?thesis
    proof (cases after)
      case None
      then show ?thesis using go k token_next_None by (simp add: keep_def)
    next
      case (Some a)
      then show ?thesis
        using less [OF shorter [OF Some], of "Some (hd (tokens s))"] go k shorter [OF Some]
        by (fastforce split: option.splits)
    qed
  qed
qed

lemma token_loop_eq:
  "token_loop skip find \<lparr>ti_current = Some t, ti_after = a\<rparr> = Some (t # keep skip (rest_tokens a))"
proof (induction "case a of None \<Rightarrow> 0 | Some s \<Rightarrow> Suc (length s)" arbitrary: t a rule: less_induct)
  case less
  show ?case
  proof (cases a)
    case None
    then show ?thesis
      by (subst token_loop.simps, simp add: token_next_None keep_def, subst token_loop.simps, simp)
  next
    case (Some s)
    obtain it where it: "token_next skip find \<lparr>ti_current = Some t, ti_after = Some s\<rparr> = Some it"
      "case ti_current it of
        None \<Rightarrow> keep skip (tokens s) = [] \<and> ti_after it = None
      | Some t \<Rightarrow> keep skip (tokens s) = t # keep skip (rest_tokens (ti_after it)) \<and>
                  (\<forall>a. ti_after it = Some a \<longrightarrow> length a < length s)"
      using token_next_Some [of skip "Some t" s] by blast
    show ?thesis
    proof (cases "ti_current it")
      case None
      with it Some show ?thesis
        by (subst token_loop.simps) (simp, subst token_loop.simps, simp)
    next
      case (Some u)
      then have eq: "it = \<lparr>ti_current = Some u, ti_after = ti_after it\<rparr>" by simp
      have "token_loop skip find \<lparr>ti_current = Some u, ti_after = ti_after it\<rparr> = Some (u # keep skip (rest_tokens (ti_after it)))"
        using less [of "ti_after it" u] it(2) Some \<open>a = Some s\<close> by (auto split: option.splits)
      then have "token_loop skip find it = Some (u # keep skip (rest_tokens (ti_after it)))"
        unfolding eq [symmetric] .
      then show ?thesis
        using it Some \<open>a = Some s\<close> by (subst token_loop.simps) simp
    qed
  qed
qed

lemma token_list_eq: "token_list skip find s = Some (keep skip (tokens s))"
proof -
  obtain it where it: "token_begin skip find s = Some it"
    "case ti_current it of
        None \<Rightarrow> keep skip (tokens s) = [] \<and> ti_after it = None
      | Some t \<Rightarrow> keep skip (tokens s) = t # keep skip (rest_tokens (ti_after it)) \<and>
                  (\<forall>a. ti_after it = Some a \<longrightarrow> length a < length s)"
    using token_next_Some [of skip None s] by (auto simp: token_begin_def)
  show ?thesis
  proof (cases "ti_current it")
    case None
    with it show ?thesis by (simp add: token_list_def) (subst token_loop.simps, simp)
  next
    case (Some t)
    then have eq: "it = \<lparr>ti_current = Some t, ti_after = ti_after it\<rparr>" by simp
    have "token_loop skip find it = Some (t # keep skip (rest_tokens (ti_after it)))"
      using token_loop_eq [of skip t "ti_after it"] unfolding eq [symmetric] .
    with it Some show ?thesis by (simp add: token_list_def)
  qed
qed

lemma tokens_split:
  assumes "\<And>s. fst (find s) = find_if p s" and "\<And>s. find_if p s < length s \<Longrightarrow> snd (find s) = 1"
  shows "tokens s = split_if p s"
proof (induction s rule: tokens.induct)
  case (1 s)
  show ?case
    using 1 assms by (subst tokens.simps, subst split_if_find) auto
qed

end

interpretation single: finder "SingleCharacter d" for d
  by unfold_locales (simp_all add: SingleCharacter_def)

interpretation any: finder "AnyCharacter chars" for chars
  by unfold_locales (simp_all add: AnyCharacter_def)

interpretation bools: finder "BoolCharacter table" for table
  by unfold_locales (auto simp: BoolCharacter_def Let_def)

text \<open>
  C36. Iterating a \<^verbatim>\<open>TokenIter\<close> ends and yields the parts of the string between delimiters: all
  of them, empty ones and the last included, without \<^verbatim>\<open>SkipEmpty\<close>, and exactly those that are not
  empty with it. This holds for one delimiting character, for a set of them, and for a table of
  flags.
\<close>

theorem TokenIter_correct:
  "token_list skip (SingleCharacter d) s = Some (filter (\<lambda>t. \<not> (skip \<and> t = [])) (split_on d s)) \<and>
   token_list skip (AnyCharacter chars) s = Some (filter (\<lambda>t. \<not> (skip \<and> t = [])) (split_if (\<lambda>c. c \<in> set chars) s)) \<and>
   token_list skip (BoolCharacter table) s = Some (filter (\<lambda>t. \<not> (skip \<and> t = [])) (split_if (\<lambda>c. table ! unat c) s))"
proof -
  have "single.tokens d s = split_on d s"
    by (rule single.tokens_split) (simp_all add: SingleCharacter_def std_find_def)
  moreover have "any.tokens chars s = split_if (\<lambda>c. c \<in> set chars) s"
    by (rule any.tokens_split) (simp_all add: AnyCharacter_def)
  moreover have "bools.tokens table s = split_if (\<lambda>c. table ! unat c) s"
    by (rule bools.tokens_split) (auto simp: BoolCharacter_def Let_def)
  ultimately show ?thesis
    by (simp add: single.token_list_eq any.token_list_eq bools.token_list_eq single.keep_def any.keep_def bools.keep_def)
qed

lemma kSpaces_iff: "kSpaces ! unat (c :: byte) \<longleftrightarrow> c = 32 \<or> 9 \<le> c \<and> c \<le> 13"
proof -
  have u: "c = 32 \<or> 9 \<le> c \<and> c \<le> 13 \<longleftrightarrow> unat c = 32 \<or> 9 \<le> unat c \<and> unat c \<le> 13"
    by (auto simp: word_le_nat_alt word_unat_eq_iff)
  have "kSpaces ! n \<longleftrightarrow> n = 32 \<or> 9 \<le> n \<and> n \<le> 13" if "n < 256" for n
  proof (cases "n < 33")
    case True
    then show ?thesis
      by (simp add: kSpaces_def nth_append numeral_eq_Suc less_Suc_eq) (elim disjE; simp)
  next
    case False
    with that show ?thesis by (simp add: kSpaces_def nth_append)
  qed
  then show ?thesis using u unat_byte_less [of c] by simp
qed

lemma trim_left_eq: "trim_left spaces s = dropWhile (\<lambda>c. spaces ! unat c) s"
  by (induction s) auto

lemma trim_right_eq: "trim_right spaces s = rev (dropWhile (\<lambda>c. spaces ! unat c) (rev s))"
proof (induction s rule: rev_induct)
  case Nil
  then show ?case by (simp add: trim_right.simps)
next
  case (snoc c s)
  then show ?case by (subst trim_right.simps) simp
qed

end
