(* ===== verification/FileIO.thy ===== *)
theory FileIO
  imports Prelude
begin

text \<open>
  The reading and writing loops of \<^verbatim>\<open>src/util/file.cc\<close> over the system calls, and \<^verbatim>\<open>FileWriter\<close>
  of \<^verbatim>\<open>src/util/file.hh\<close>. A descriptor is the bytes still to be read from it, the bytes written
  to it, and the kernel's answers to the calls to come: interrupted, failed, or how many bytes
  it transfers, which may be fewer than asked for. When the answers run out every call
  transfers everything.
\<close>

subsection \<open>System calls\<close>

datatype answer = Interrupted | Failed | Transfer nat

datatype sync_answer = Synced | SyncUnsupported | SyncFailed

record Desc =
  d_rest :: bytes
  d_out :: bytes
  d_answers :: "answer list"
  d_syncs :: "sync_answer list"

text \<open>
  \<^verbatim>\<open>read\<close> gives at most what was asked for and at least one byte unless it is at the end of the
  file; \<^verbatim>\<open>write\<close> takes at most what it is given. The loops repeat an interrupted call.
\<close>

definition read_count :: "nat \<Rightarrow> bytes \<Rightarrow> nat \<Rightarrow> nat" where
  "read_count amount rest k = min amount (min (length rest) (max 1 k))"

fun PartialRead_calls :: "answer list \<Rightarrow> bytes \<Rightarrow> nat \<Rightarrow> (nat \<times> answer list) result" where
  "PartialRead_calls [] rest amount = Inr (min amount (length rest), [])"
| "PartialRead_calls (Interrupted # as) rest amount = PartialRead_calls as rest amount"
| "PartialRead_calls (Failed # as) rest amount = Inl FDException"
| "PartialRead_calls (Transfer k # as) rest amount = Inr (read_count amount rest k, as)"

definition PartialRead :: "Desc \<Rightarrow> nat \<Rightarrow> (bytes \<times> Desc) result" where
  "PartialRead fd amount =
     (case PartialRead_calls (d_answers fd) (d_rest fd) amount of
        Inl e \<Rightarrow> Inl e
      | Inr (ret, as) \<Rightarrow> Inr (take ret (d_rest fd), fd\<lparr>d_rest := drop ret (d_rest fd), d_answers := as\<rparr>))"

lemma PartialRead_calls_le: "PartialRead_calls as rest amount = Inr (ret, as') \<Longrightarrow> ret \<le> amount \<and> ret \<le> length rest"
  by (induction as rest amount rule: PartialRead_calls.induct) (auto simp: read_count_def)

lemma PartialRead_calls_progress:
  "PartialRead_calls as rest amount = Inr (ret, as') \<Longrightarrow> ret = 0 \<longleftrightarrow> amount = 0 \<or> rest = []"
  by (induction as rest amount rule: PartialRead_calls.induct) (auto simp: read_count_def min_def split: if_splits)

lemma PartialRead_spec:
  assumes "PartialRead fd amount = Inr (bs, fd')"
  shows "d_rest fd = bs @ d_rest fd'" and "length bs \<le> amount" and "bs = [] \<longleftrightarrow> amount = 0 \<or> d_rest fd = []"
    and "d_out fd' = d_out fd"
proof -
  obtain ret as where r: "PartialRead_calls (d_answers fd) (d_rest fd) amount = Inr (ret, as)"
    and bs: "bs = take ret (d_rest fd)" and fd': "fd' = fd\<lparr>d_rest := drop ret (d_rest fd), d_answers := as\<rparr>"
    using assms by (auto simp: PartialRead_def split: sum.splits)
  note le = PartialRead_calls_le [OF r] and pr = PartialRead_calls_progress [OF r]
  show "d_rest fd = bs @ d_rest fd'" using bs fd' by simp
  show "length bs \<le> amount" using bs le by simp
  show "bs = [] \<longleftrightarrow> amount = 0 \<or> d_rest fd = []" using bs le pr by auto
  show "d_out fd' = d_out fd" using fd' by simp
qed

subsection \<open>Reading loops\<close>

function ReadOrThrow :: "Desc \<Rightarrow> nat \<Rightarrow> bytes \<Rightarrow> (bytes \<times> Desc) result" where
  "ReadOrThrow fd amount to =
     (if amount = 0 then Inr (to, fd)
      else case PartialRead fd amount of
             Inl e \<Rightarrow> Inl e
           | Inr (bs, fd) \<Rightarrow>
               if bs = [] then Inl EndOfFileException else ReadOrThrow fd (amount - length bs) (to @ bs))"
  by pat_completeness auto
termination
  by (relation "measure (\<lambda>(_, n, _). n)") (auto dest: PartialRead_spec(2) simp: diff_less)

function ReadOrEOF :: "Desc \<Rightarrow> nat \<Rightarrow> bytes \<Rightarrow> (bytes \<times> Desc) result" where
  "ReadOrEOF fd remaining to =
     (if remaining = 0 then Inr (to, fd)
      else case PartialRead fd remaining of
             Inl e \<Rightarrow> Inl e
           | Inr (bs, fd) \<Rightarrow> if bs = [] then Inr (to, fd) else ReadOrEOF fd (remaining - length bs) (to @ bs))"
  by pat_completeness auto
termination
  by (relation "measure (\<lambda>(_, n, _). n)") (auto dest: PartialRead_spec(2) simp: diff_less)

declare ReadOrThrow.simps [simp del] ReadOrEOF.simps [simp del]

subsection \<open>Writing\<close>

text \<open>
  \<^verbatim>\<open>WriteOrThrow\<close> on a descriptor. The answer to a \<^verbatim>\<open>write\<close> of some bytes that transfers none is
  an error here. The descriptor is returned beside the error: part of the data may have gone out.
\<close>

fun WriteOrThrow_calls :: "answer list \<Rightarrow> bytes \<Rightarrow> bytes \<Rightarrow> bytes \<times> answer list \<times> unit result" where
  "WriteOrThrow_calls as out [] = (out, as, Inr ())"
| "WriteOrThrow_calls [] out data = (out @ data, [], Inr ())"
| "WriteOrThrow_calls (Interrupted # as) out data = WriteOrThrow_calls as out data"
| "WriteOrThrow_calls (Failed # as) out data = (out, as, Inl FDException)"
| "WriteOrThrow_calls (Transfer k # as) out data =
     (let ret = min k (length data)
      in if ret < 1 then (out, as, Inl FDException)
         else WriteOrThrow_calls as (out @ take ret data) (drop ret data))"

definition WriteOrThrow :: "Desc \<Rightarrow> bytes \<Rightarrow> Desc \<times> unit result" where
  "WriteOrThrow fd data =
     (case WriteOrThrow_calls (d_answers fd) (d_out fd) data of
        (out, as, r) \<Rightarrow> (fd\<lparr>d_out := out, d_answers := as\<rparr>, r))"

text \<open>
  Positioned reads and writes, on the whole file; an interrupted call is repeated by
  \<^verbatim>\<open>continue\<close>.
\<close>

fun ErsatzPRead :: "answer list \<Rightarrow> bytes \<Rightarrow> nat \<Rightarrow> nat \<Rightarrow> bytes result" where
  "ErsatzPRead as file 0 off = Inr []"
| "ErsatzPRead [] file amount off =
     (if off + amount \<le> length file then Inr (take amount (drop off file)) else Inl EndOfFileException)"
| "ErsatzPRead (Interrupted # as) file amount off = ErsatzPRead as file amount off"
| "ErsatzPRead (Failed # as) file amount off = Inl FDException"
| "ErsatzPRead (Transfer k # as) file amount off =
     (let ret = read_count amount (drop off file) k
      in if ret = 0 then Inl EndOfFileException
         else map_sum id (\<lambda>bs. take ret (drop off file) @ bs) (ErsatzPRead as file (amount - ret) (off + ret)))"

definition pwrite_at :: "bytes \<Rightarrow> nat \<Rightarrow> bytes \<Rightarrow> bytes" where
  "pwrite_at file off data =
     take off (file @ replicate (off - length file) 0) @ data @ drop (off + length data) file"

fun ErsatzPWrite :: "answer list \<Rightarrow> bytes \<Rightarrow> bytes \<Rightarrow> nat \<Rightarrow> bytes \<times> unit result" where
  "ErsatzPWrite as file [] off = (file, Inr ())"
| "ErsatzPWrite [] file data off = (pwrite_at file off data, Inr ())"
| "ErsatzPWrite (Interrupted # as) file data off = ErsatzPWrite as file data off"
| "ErsatzPWrite (Failed # as) file data off = (file, Inl FDException)"
| "ErsatzPWrite (Transfer k # as) file data off =
     (let ret = min k (length data)
      in if ret = 0 then (file, Inl EndOfFileException)
         else ErsatzPWrite as (pwrite_at file off (take ret data)) (drop ret data) (off + ret))"

text \<open>
  \<^verbatim>\<open>FSyncOrThrow\<close> and \<^verbatim>\<open>FSyncIgnoreUnsupported\<close>, which lets descriptors pass that cannot be
  synchronised (a pipe, a socket); then \<^verbatim>\<open>FileWriter\<close>.
\<close>

definition fsync :: "Desc \<Rightarrow> Desc \<times> sync_answer" where
  "fsync fd = (case d_syncs fd of [] \<Rightarrow> (fd, Synced) | s # ss \<Rightarrow> (fd\<lparr>d_syncs := ss\<rparr>, s))"

definition FSyncOrThrow :: "Desc \<Rightarrow> Desc \<times> unit result" where
  "FSyncOrThrow fd = (case fsync fd of (fd, s) \<Rightarrow> (fd, if s = Synced then Inr () else Inl FDException))"

definition FSyncIgnoreUnsupported :: "Desc \<Rightarrow> Desc \<times> unit result" where
  "FSyncIgnoreUnsupported fd =
     (case fsync fd of (fd, s) \<Rightarrow> (fd, if s = Synced \<or> s = SyncUnsupported then Inr () else Inl FDException))"

definition FileWriter_write :: "Desc \<Rightarrow> bytes \<Rightarrow> Desc \<times> unit result" where
  "FileWriter_write fd data = WriteOrThrow fd data"

definition FileWriter_flush :: "Desc \<Rightarrow> Desc \<times> unit result" where
  "FileWriter_flush fd = FSyncIgnoreUnsupported fd"

subsection \<open>Short transfers do not show\<close>

lemma ReadOrEOF_zero [simp]: "ReadOrEOF fd 0 to = Inr (to, fd)"
  by (simp add: ReadOrEOF.simps)

lemma ReadOrThrow_zero [simp]: "ReadOrThrow fd 0 to = Inr (to, fd)"
  by (simp add: ReadOrThrow.simps)

lemma PartialRead_calls_failure:
  "PartialRead_calls as rest amount = Inl e \<Longrightarrow> e = FDException \<and> Failed \<in> set as"
  by (induction as rest amount rule: PartialRead_calls.induct) auto

lemma PartialRead_calls_subset:
  "PartialRead_calls as rest amount = Inr (ret, as') \<Longrightarrow> set as' \<subseteq> set as"
  by (induction as rest amount rule: PartialRead_calls.induct) auto

lemma PartialRead_failure: "PartialRead fd n = Inl e \<Longrightarrow> e = FDException \<and> Failed \<in> set (d_answers fd)"
  by (auto simp: PartialRead_def dest: PartialRead_calls_failure split: sum.splits)

lemma PartialRead_subset: "PartialRead fd n = Inr (bs, fd') \<Longrightarrow> set (d_answers fd') \<subseteq> set (d_answers fd)"
  using PartialRead_calls_subset [of "d_answers fd" "d_rest fd" n]
  by (auto simp: PartialRead_def split: sum.splits)

lemma ReadOrEOF_step:
  assumes "n \<noteq> 0" "PartialRead fd n = Inr (cs, fd1)"
  shows "ReadOrEOF fd n to = (if cs = [] then Inr (to, fd1) else ReadOrEOF fd1 (n - length cs) (to @ cs))"
  using assms by (subst ReadOrEOF.simps) simp

lemma ReadOrThrow_step:
  assumes "n \<noteq> 0" "PartialRead fd n = Inr (cs, fd1)"
  shows "ReadOrThrow fd n to = (if cs = [] then Inl EndOfFileException else ReadOrThrow fd1 (n - length cs) (to @ cs))"
  using assms by (subst ReadOrThrow.simps) simp

lemma ReadOr_failure:
  assumes "n \<noteq> 0" "PartialRead fd n = Inl e"
  shows "ReadOrEOF fd n to = Inl e" "ReadOrThrow fd n to = Inl e"
  using assms by (subst ReadOrEOF.simps ReadOrThrow.simps, simp)+

definition reads :: "Desc \<Rightarrow> nat \<Rightarrow> Desc \<Rightarrow> bool" where
  "reads fd n fd' \<longleftrightarrow> d_rest fd' = drop n (d_rest fd) \<and> d_out fd' = d_out fd \<and> set (d_answers fd') \<subseteq> set (d_answers fd)"

lemma reads_PartialRead:
  assumes "PartialRead fd n = Inr (cs, fd1)" "reads fd1 (n - length cs) fd'"
  shows "reads fd n fd'" "to @ take n (d_rest fd) = (to @ cs) @ take (n - length cs) (d_rest fd1)"
  using PartialRead_spec [OF assms(1)] PartialRead_subset [OF assms(1)] assms(2) by (auto simp: reads_def)

lemma reads_PartialRead_end:
  assumes "PartialRead fd n = Inr ([], fd1)" "n \<noteq> 0"
  shows "d_rest fd = []" "reads fd n fd1"
  using PartialRead_spec [OF assms(1)] PartialRead_subset [OF assms(1)] assms(2) by (simp_all add: reads_def)

lemma ReadOrEOF_spec:
  "ReadOrEOF fd n to = Inl FDException \<and> Failed \<in> set (d_answers fd) \<or>
   (\<exists>fd'. ReadOrEOF fd n to = Inr (to @ take n (d_rest fd), fd') \<and> reads fd n fd')"
proof (induction fd n to rule: ReadOrEOF.induct)
  case (1 fd n to)
  consider "n = 0" | e where "n \<noteq> 0" "PartialRead fd n = Inl e" | fd1 where "n \<noteq> 0" "PartialRead fd n = Inr ([], fd1)"
    | cs fd1 where "n \<noteq> 0" "PartialRead fd n = Inr (cs, fd1)" "cs \<noteq> []"
    by (cases "PartialRead fd n") auto
  then show ?case
  proof cases
    case 4
    note IH = "1.IH" [OF 4(1,2) refl 4(3)]
    show ?thesis
      using IH PartialRead_subset [OF 4(2)] reads_PartialRead [OF 4(2)] ReadOrEOF_step [OF 4(1,2)] 4(3) by auto
  qed (use PartialRead_failure in \<open>auto simp: ReadOr_failure ReadOrEOF_step reads_PartialRead_end reads_def [of fd 0]\<close>)
qed

lemma ReadOrThrow_spec:
  "ReadOrThrow fd n to = Inl FDException \<and> Failed \<in> set (d_answers fd) \<or>
   (\<exists>fd'. ReadOrThrow fd n to =
       (if n \<le> length (d_rest fd) then Inr (to @ take n (d_rest fd), fd') else Inl EndOfFileException) \<and> reads fd n fd')"
proof (induction fd n to rule: ReadOrThrow.induct)
  case (1 fd n to)
  consider "n = 0" | e where "n \<noteq> 0" "PartialRead fd n = Inl e" | fd1 where "n \<noteq> 0" "PartialRead fd n = Inr ([], fd1)"
    | cs fd1 where "n \<noteq> 0" "PartialRead fd n = Inr (cs, fd1)" "cs \<noteq> []"
    by (cases "PartialRead fd n") auto
  then show ?case
  proof cases
    case 4
    note IH = "1.IH" [OF 4(1,2) refl 4(3)]
    have "n \<le> length (d_rest fd) \<longleftrightarrow> n - length cs \<le> length (d_rest fd1)"
      using PartialRead_spec(1,2) [OF 4(2)] by simp linarith
    then show ?thesis
      using IH PartialRead_subset [OF 4(2)] reads_PartialRead(1) [OF 4(2)] reads_PartialRead(2) [OF 4(2), of _ to]
        ReadOrThrow_step [OF 4(1,2), of to] 4(3)
      by (metis (no_types, lifting) subsetD)
  qed (use PartialRead_failure in \<open>auto simp: ReadOr_failure ReadOrThrow_step reads_PartialRead_end(1) reads_def [of fd 0]
      intro: reads_PartialRead_end(2)\<close>)
qed

definition no_failure :: "answer list \<Rightarrow> bool" where
  "no_failure as \<longleftrightarrow> Failed \<notin> set as \<and> Transfer 0 \<notin> set as"

lemma WriteOrThrow_calls_spec:
  "\<exists>as' r k. WriteOrThrow_calls as out data = (out @ take k data, as', r) \<and>
     (r = Inr () \<longrightarrow> length data \<le> k) \<and> (no_failure as \<longrightarrow> r = Inr () \<and> no_failure as')"
proof (induction as out data rule: WriteOrThrow_calls.induct)
  case (2 out v va)
  then show ?case by (intro exI [of _ "[]"] exI [of _ "Inr ()"] exI [of _ "length (v # va)"]) simp
next
  case (5 k as out v va)
  let ?data = "v # va"
  let ?ret = "min k (length ?data)"
  show ?case
  proof (cases "?ret < 1")
    case True
    then have "k = 0" by auto
    then show ?thesis by (intro exI [of _ as] exI [of _ "Inl FDException"] exI [of _ 0]) (simp add: no_failure_def)
  next
    case False
    then obtain as' r j where j: "WriteOrThrow_calls as (out @ take ?ret ?data) (drop ?ret ?data) =
        ((out @ take ?ret ?data) @ take j (drop ?ret ?data), as', r)"
      "r = Inr () \<longrightarrow> length (drop ?ret ?data) \<le> j" "no_failure as \<longrightarrow> r = Inr () \<and> no_failure as'"
      using 5 [OF refl] by blast
    have "WriteOrThrow_calls (Transfer k # as) out ?data = (out @ take (?ret + j) ?data, as', r)"
      using False unfolding WriteOrThrow_calls.simps(5) Let_def j(1) take_add append_assoc by (simp only: if_False)
    moreover have "r = Inr () \<longrightarrow> length ?data \<le> ?ret + j" using j(2) by (auto simp del: length_Cons)
    moreover have "no_failure (Transfer k # as) \<longrightarrow> r = Inr () \<and> no_failure as'"
      using j(3) by (auto simp: no_failure_def)
    ultimately show ?thesis by blast
  qed
qed (auto simp: no_failure_def intro: exI [of _ 0])

lemma WriteOrThrow_spec:
  obtains k where "d_out (fst (WriteOrThrow fd data)) = d_out fd @ take k data"
    and "d_rest (fst (WriteOrThrow fd data)) = d_rest fd"
    and "snd (WriteOrThrow fd data) = Inr () \<Longrightarrow> length data \<le> k"
    and "no_failure (d_answers fd) \<Longrightarrow>
      snd (WriteOrThrow fd data) = Inr () \<and> no_failure (d_answers (fst (WriteOrThrow fd data)))"
proof -
  obtain as' r k where w: "WriteOrThrow_calls (d_answers fd) (d_out fd) data = (d_out fd @ take k data, as', r)"
    "r = Inr () \<longrightarrow> length data \<le> k" "no_failure (d_answers fd) \<longrightarrow> r = Inr () \<and> no_failure as'"
    using WriteOrThrow_calls_spec by blast
  then have "WriteOrThrow fd data = (fd\<lparr>d_out := d_out fd @ take k data, d_answers := as'\<rparr>, r)"
    by (simp add: WriteOrThrow_def)
  with w(2,3) show ?thesis by (intro that [of k]) simp_all
qed

text \<open>
  C38. \<^verbatim>\<open>WriteOrThrow\<close> hides short and interrupted writes: what it has put out is always a prefix
  of the data, it is all of the data when the call returns, and the call can only throw if the
  kernel reported an error or transferred nothing.
\<close>

theorem WriteOrThrow_correct:
  "\<exists>k. d_out (fst (WriteOrThrow fd data)) = d_out fd @ take k data \<and>
     (snd (WriteOrThrow fd data) = Inr () \<longrightarrow> take k data = data) \<and>
     (no_failure (d_answers fd) \<longrightarrow> snd (WriteOrThrow fd data) = Inr ())"
proof -
  obtain k where "d_out (fst (WriteOrThrow fd data)) = d_out fd @ take k data"
    "snd (WriteOrThrow fd data) = Inr () \<Longrightarrow> length data \<le> k"
    "no_failure (d_answers fd) \<Longrightarrow> snd (WriteOrThrow fd data) = Inr ()"
    using WriteOrThrow_spec [of fd data] by blast
  then show ?thesis by (intro exI [of _ k]) auto
qed

theorem WriteOrThrow_correct_witness:
  "d_out (fst (WriteOrThrow \<lparr>d_rest = [], d_out = [7], d_answers = [Interrupted, Transfer 2], d_syncs = []\<rparr> [1, 2, 3])) = [7, 1, 2, 3]"
proof -
  let ?fd = "\<lparr>d_rest = [], d_out = [7], d_answers = [Interrupted, Transfer 2], d_syncs = []\<rparr>"
  have "no_failure (d_answers ?fd)" by (simp add: no_failure_def)
  with WriteOrThrow_correct [of ?fd "[1, 2, 3]"]
  have "d_out (fst (WriteOrThrow ?fd [1, 2, 3])) = d_out ?fd @ [1, 2, 3]" by metis
  then show ?thesis by simp
qed

text \<open>
  The reading loops hide short and interrupted reads. Unless the kernel reports an error,
  \<^verbatim>\<open>ReadOrEOF\<close> returns the next bytes, as many as asked for or as there are, and \<^verbatim>\<open>ReadOrThrow\<close>
  returns exactly as many as asked for, or throws the end of file exception when there are
  fewer; both leave the rest to be read.
\<close>

lemma ReadOr_correct:
  "(ReadOrEOF fd n [] = Inl FDException \<and> Failed \<in> set (d_answers fd) \<or>
    (\<exists>fd'. ReadOrEOF fd n [] = Inr (take n (d_rest fd), fd') \<and> d_rest fd' = drop n (d_rest fd))) \<and>
   (ReadOrThrow fd n [] = Inl FDException \<and> Failed \<in> set (d_answers fd) \<or>
    (\<exists>fd'. ReadOrThrow fd n [] =
        (if n \<le> length (d_rest fd) then Inr (take n (d_rest fd), fd') else Inl EndOfFileException) \<and>
      d_rest fd' = drop n (d_rest fd)))"
  using ReadOrEOF_spec [of fd n "[]"] ReadOrThrow_spec [of fd n "[]"] by (auto simp: reads_def)

end
