(* ===== verification/Compress.thy ===== *)
theory Compress
  imports FileIO StringPiece
begin

text \<open>
  \<^verbatim>\<open>src/util/compress.cc\<close>: reading a file that may be compressed. The format is detected from the first
  six bytes, a compressed file may be several compressed streams one after the other, and an
  uncompressed file is passed through. The libraries zlib, bzip2 and xz are parameters: a call
  takes the library's state, the input at hand and the room for output, and returns the new
  state, the input left over, the output and the result code. The virtual class \<^verbatim>\<open>ReadBase\<close> is a
  datatype with a constructor per subclass; \<^verbatim>\<open>ReplaceThis\<close> is the reader that a read returns.
\<close>

subsection \<open>Result codes\<close>

datatype zlib_code = Z_OK | Z_STREAM_END | Z_ERRNO | Z_BUF_ERROR | Z_OTHER

datatype bz_code =
    BZ_OK | BZ_RUN_OK | BZ_STREAM_END | BZ_CONFIG_ERROR | BZ_PARAM_ERROR | BZ_DATA_ERROR
  | BZ_DATA_ERROR_MAGIC | BZ_MEM_ERROR | BZ_FINISH_OK | BZ_OTHER

datatype lzma_ret =
    LZMA_OK | LZMA_STREAM_END | LZMA_MEM_ERROR | LZMA_FORMAT_ERROR | LZMA_OPTIONS_ERROR | LZMA_DATA_ERROR
  | LZMA_BUF_ERROR | LZMA_OTHER

record 'z Library =
  inflateInit2 :: "zlib_code \<times> 'z"
  inflate :: "'z \<Rightarrow> bytes \<Rightarrow> nat \<Rightarrow> 'z \<times> bytes \<times> bytes \<times> zlib_code"
  BZ2_bzDecompressInit :: "bz_code \<times> 'z"
  BZ2_bzDecompress :: "'z \<Rightarrow> bytes \<Rightarrow> nat \<Rightarrow> 'z \<times> bytes \<times> bytes \<times> bz_code"
  lzma_stream_decoder :: "lzma_ret \<times> 'z"
  lzma_code :: "'z \<Rightarrow> bool \<Rightarrow> bytes \<Rightarrow> nat \<Rightarrow> 'z \<times> bytes \<times> bytes \<times> lzma_ret"

fun BZip_HandleError :: "bz_code \<Rightarrow> unit result" where
  "BZip_HandleError BZ_OK = Inr ()"
| "BZip_HandleError BZ_RUN_OK = Inr ()"
| "BZip_HandleError BZ_MEM_ERROR = Inl BadAlloc"
| "BZip_HandleError _ = Inl BZException"

fun XZip_HandleError :: "lzma_ret \<Rightarrow> unit result" where
  "XZip_HandleError LZMA_OK = Inr ()"
| "XZip_HandleError LZMA_MEM_ERROR = Inl BadAlloc"
| "XZip_HandleError _ = Inl XZException"

subsection \<open>Formats\<close>

datatype MagicResult = UTIL_UNKNOWN | UTIL_GZIP | UTIL_BZIP | UTIL_XZIP

definition kMagicSize :: nat where
  "kMagicSize = 6"

definition kBZMagic :: bytes where
  "kBZMagic = lit ''BZh''"

definition kXZMagic :: bytes where
  "kXZMagic = [0xFD] @ lit ''7zXZ'' @ [0]"

definition DetectMagic :: "bytes \<Rightarrow> MagicResult" where
  "DetectMagic header =
     (if length header \<ge> 2 \<and> header ! 0 = 0x1f \<and> header ! 1 = 0x8b then UTIL_GZIP
      else if length header \<ge> length kBZMagic \<and> memcmp header kBZMagic (length kBZMagic) = 0 then UTIL_BZIP
      else if length header \<ge> length kXZMagic \<and> memcmp header kXZMagic (length kXZMagic) = 0 then UTIL_XZIP
      else UTIL_UNKNOWN)"

definition DetectCompressedMagic :: "bytes \<Rightarrow> bool" where
  "DetectCompressedMagic from \<longleftrightarrow> DetectMagic (take kMagicSize from) \<noteq> UTIL_UNKNOWN"

subsection \<open>Decompressors\<close>

text \<open>\<^verbatim>\<open>GZipRead\<close>, \<^verbatim>\<open>BZipRead\<close> or \<^verbatim>\<open>XZip\<close>; \<open>dz_finish\<close> is \<^verbatim>\<open>action_ == LZMA_FINISH\<close>.\<close>

record 'z Decompressor =
  dz_format :: MagicResult
  dz_state :: 'z
  dz_input :: bytes
  dz_finish :: bool

definition kSizeMax :: nat where
  "kSizeMax = 2 ^ 32 - 1"

definition SetInput :: "'z Decompressor \<Rightarrow> bytes \<Rightarrow> 'z Decompressor" where
  "SetInput d base = d\<lparr>dz_input := base, dz_finish := dz_finish d \<or> dz_format d = UTIL_XZIP \<and> base = []\<rparr>"

definition GZipRead_Process :: "'z Library \<Rightarrow> 'z Decompressor \<Rightarrow> nat \<Rightarrow> ('z Decompressor \<times> bytes \<times> bool) result" where
  "GZipRead_Process lib d amount =
     (case inflate lib (dz_state d) (dz_input d) (min kSizeMax amount) of
        (z, inp, out, code) \<Rightarrow>
          (case code of
             Z_OK \<Rightarrow> Inr (d\<lparr>dz_state := z, dz_input := inp\<rparr>, out, True)
           | Z_STREAM_END \<Rightarrow> Inr (d\<lparr>dz_state := z, dz_input := inp\<rparr>, out, False)
           | Z_ERRNO \<Rightarrow> Inl ErrnoException
           | _ \<Rightarrow> Inl GZException))"

definition BZipRead_Process :: "'z Library \<Rightarrow> 'z Decompressor \<Rightarrow> nat \<Rightarrow> ('z Decompressor \<times> bytes \<times> bool) result" where
  "BZipRead_Process lib d amount =
     (case BZ2_bzDecompress lib (dz_state d) (dz_input d) (min kSizeMax amount) of
        (z, inp, out, code) \<Rightarrow>
          if code = BZ_STREAM_END then Inr (d\<lparr>dz_state := z, dz_input := inp\<rparr>, out, False)
          else (case BZip_HandleError code of
                  Inl e \<Rightarrow> Inl e
                | Inr _ \<Rightarrow> Inr (d\<lparr>dz_state := z, dz_input := inp\<rparr>, out, True)))"

definition XZip_Process :: "'z Library \<Rightarrow> 'z Decompressor \<Rightarrow> nat \<Rightarrow> ('z Decompressor \<times> bytes \<times> bool) result" where
  "XZip_Process lib d amount =
     (case lzma_code lib (dz_state d) (dz_finish d) (dz_input d) amount of
        (z, inp, out, code) \<Rightarrow>
          if code = LZMA_STREAM_END then Inr (d\<lparr>dz_state := z, dz_input := inp\<rparr>, out, False)
          else (case XZip_HandleError code of
                  Inl e \<Rightarrow> Inl e
                | Inr _ \<Rightarrow> Inr (d\<lparr>dz_state := z, dz_input := inp\<rparr>, out, True)))"

fun Process :: "'z Library \<Rightarrow> MagicResult \<Rightarrow> 'z Decompressor \<Rightarrow> nat \<Rightarrow> ('z Decompressor \<times> bytes \<times> bool) result" where
  "Process lib UTIL_GZIP = GZipRead_Process lib"
| "Process lib UTIL_BZIP = BZipRead_Process lib"
| "Process lib UTIL_XZIP = XZip_Process lib"
| "Process lib UTIL_UNKNOWN = (\<lambda>_ _. Inl CompressedException)"

definition GZipRead_new :: "'z Library \<Rightarrow> bytes \<Rightarrow> 'z Decompressor result" where
  "GZipRead_new lib base =
     (case inflateInit2 lib of
        (code, z) \<Rightarrow>
          if code \<noteq> Z_OK then Inl GZException
          else Inr (SetInput \<lparr>dz_format = UTIL_GZIP, dz_state = z, dz_input = [], dz_finish = False\<rparr> base))"

definition BZipRead_new :: "'z Library \<Rightarrow> bytes \<Rightarrow> 'z Decompressor result" where
  "BZipRead_new lib base =
     (case BZ2_bzDecompressInit lib of
        (code, z) \<Rightarrow>
          map_sum id (\<lambda>_. SetInput \<lparr>dz_format = UTIL_BZIP, dz_state = z, dz_input = [], dz_finish = False\<rparr> base)
            (BZip_HandleError code))"

definition XZip_new :: "'z Library \<Rightarrow> bytes \<Rightarrow> 'z Decompressor result" where
  "XZip_new lib base =
     (case lzma_stream_decoder lib of
        (code, z) \<Rightarrow>
          map_sum id (\<lambda>_. SetInput \<lparr>dz_format = UTIL_XZIP, dz_state = z, dz_input = [], dz_finish = False\<rparr> base)
            (XZip_HandleError code))"

subsection \<open>Readers\<close>

datatype 'z ReadBase =
    Complete
  | Uncompressed Desc
  | UncompressedWithHeader bytes Desc
  | ReadStream "'z Decompressor" Desc

definition kInputBuffer :: nat where
  "kInputBuffer = 16384"

text \<open>\<open>raw\<close> is \<^verbatim>\<open>raw_amount_\<close>, the number of bytes read from the file.\<close>

definition ReadFactory :: "'z Library \<Rightarrow> Desc \<Rightarrow> u64 \<Rightarrow> bytes \<Rightarrow> bool \<Rightarrow> ('z ReadBase \<times> u64) result" where
  "ReadFactory lib fd raw already require_compressed =
     (case (if length already < kMagicSize then
              map_sum id (\<lambda>(got, fd). (already @ got, fd, raw + of_nat (length got)))
                (ReadOrEOF fd (kMagicSize - length already) [])
            else Inr (already, fd, raw)) of
        Inl e \<Rightarrow> Inl e
      | Inr (header, fd, raw) \<Rightarrow>
          if header = [] then Inr (Complete, raw)
          else (case DetectMagic header of
                  UTIL_GZIP \<Rightarrow> map_sum id (\<lambda>d. (ReadStream d fd, raw)) (GZipRead_new lib header)
                | UTIL_BZIP \<Rightarrow> map_sum id (\<lambda>d. (ReadStream d fd, raw)) (BZipRead_new lib header)
                | UTIL_XZIP \<Rightarrow> map_sum id (\<lambda>d. (ReadStream d fd, raw)) (XZip_new lib header)
                | UTIL_UNKNOWN \<Rightarrow>
                    if require_compressed then Inl CompressedException
                    else Inr (UncompressedWithHeader header fd, raw)))"

definition ReadInput :: "'z Decompressor \<Rightarrow> Desc \<Rightarrow> u64 \<Rightarrow> ('z Decompressor \<times> Desc \<times> u64) result" where
  "ReadInput d fd raw =
     map_sum id (\<lambda>(got, fd). (SetInput d got, fd, raw + of_nat (length got))) (ReadOrEOF fd kInputBuffer [])"

text \<open>The readers that are not compressed.\<close>

fun Read_plain :: "'z ReadBase \<Rightarrow> nat \<Rightarrow> u64 \<Rightarrow> (bytes \<times> 'z ReadBase \<times> u64) result" where
  "Read_plain Complete amount raw = Inr ([], Complete, raw)"
| "Read_plain (Uncompressed fd) amount raw =
     map_sum id (\<lambda>(got, fd). (got, Uncompressed fd, raw + of_nat (length got))) (PartialRead fd amount)"
| "Read_plain (UncompressedWithHeader remain fd) amount raw =
     (let sending = take amount remain; remain = drop amount remain
      in Inr (sending, if remain = [] then Uncompressed fd else UncompressedWithHeader remain fd, raw))"
| "Read_plain (ReadStream d fd) amount raw = Inr ([], ReadStream d fd, raw)"

text \<open>
  The loop of \<^verbatim>\<open>ReadStream::Read\<close>. At the end of a compressed stream the next reader takes over, and
  if nothing had been produced its \<^verbatim>\<open>Read\<close> is called in turn.
\<close>

partial_function (option) ReadStream_loop ::
  "'z Library \<Rightarrow> 'z Decompressor \<Rightarrow> Desc \<Rightarrow> u64 \<Rightarrow> nat \<Rightarrow> (bytes \<times> 'z ReadBase \<times> u64) result option"
where
  "ReadStream_loop lib d fd raw amount =
     (case (if dz_input d = [] then ReadInput d fd raw else Inr (d, fd, raw)) of
        Inl e \<Rightarrow> Some (Inl e)
      | Inr (d, fd, raw) \<Rightarrow>
          (case Process lib (dz_format d) d amount of
             Inl e \<Rightarrow> Some (Inl e)
           | Inr (d, out, cont) \<Rightarrow>
               if \<not> cont then
                 (case ReadFactory lib fd raw (dz_input d) True of
                    Inl e \<Rightarrow> Some (Inl e)
                  | Inr (base, raw) \<Rightarrow>
                      if out \<noteq> [] then Some (Inr (out, base, raw))
                      else (case base of
                              ReadStream d fd \<Rightarrow> ReadStream_loop lib d fd raw amount
                            | _ \<Rightarrow> Some (Read_plain base amount raw)))
               else if out = [] then ReadStream_loop lib d fd raw amount
               else Some (Inr (out, ReadStream d fd, raw))))"

definition Read ::
  "'z Library \<Rightarrow> 'z ReadBase \<Rightarrow> nat \<Rightarrow> u64 \<Rightarrow> (bytes \<times> 'z ReadBase \<times> u64) result option"
where
  "Read lib base amount raw =
     (case base of
        ReadStream d fd \<Rightarrow> if amount = 0 then Some (Inr ([], base, raw)) else ReadStream_loop lib d fd raw amount
      | _ \<Rightarrow> Some (Read_plain base amount raw))"

record 'z ReadCompressed =
  rc_internal :: "'z ReadBase"
  rc_raw_amount :: u64

definition ReadCompressed_Reset :: "'z Library \<Rightarrow> Desc \<Rightarrow> 'z ReadCompressed result" where
  "ReadCompressed_Reset lib fd =
     map_sum id (\<lambda>(base, raw). \<lparr>rc_internal = base, rc_raw_amount = raw\<rparr>) (ReadFactory lib fd 0 [] False)"

definition ReadCompressed_Read :: "'z Library \<Rightarrow> 'z ReadCompressed \<Rightarrow> nat \<Rightarrow> (bytes \<times> 'z ReadCompressed) result option" where
  "ReadCompressed_Read lib rc amount =
     map_option (map_sum id (\<lambda>(bs, base, raw). (bs, \<lparr>rc_internal = base, rc_raw_amount = raw\<rparr>)))
       (Read lib (rc_internal rc) amount (rc_raw_amount rc))"

partial_function (option) ReadCompressed_ReadOrEOF ::
  "'z Library \<Rightarrow> 'z ReadCompressed \<Rightarrow> nat \<Rightarrow> bytes \<Rightarrow> (bytes \<times> 'z ReadCompressed) result option"
where
  "ReadCompressed_ReadOrEOF lib rc amount to =
     (if amount = 0 then Some (Inr (to, rc))
      else case ReadCompressed_Read lib rc amount of
             None \<Rightarrow> None
           | Some (Inl e) \<Rightarrow> Some (Inl e)
           | Some (Inr (got, rc)) \<Rightarrow>
               if got = [] then Some (Inr (to, rc)) else ReadCompressed_ReadOrEOF lib rc (amount - length got) (to @ got))"

subsection \<open>What the libraries promise\<close>

text \<open>
  A format is described by a relation: \<open>decodes z s out rest\<close> says that from the library state
  \<open>z\<close> on, the input \<open>s\<close> begins with a complete compressed stream that decompresses to \<open>out\<close> and
  \<open>rest\<close> follows it. A call with some of that input and some room uses up a part of the input and
  returns a part of the output; it reports the end of the stream exactly when all of it has been
  returned, and otherwise makes progress. With the flag for the last input there is none left.
\<close>

definition codec_ok ::
  "('z \<Rightarrow> bytes \<Rightarrow> bytes \<Rightarrow> bytes \<Rightarrow> bool) \<Rightarrow> ('z \<Rightarrow> bool \<Rightarrow> bytes \<Rightarrow> nat \<Rightarrow> 'z \<times> bytes \<times> bytes \<times> 'c) \<Rightarrow> 'c \<Rightarrow> 'c \<Rightarrow> bool"
where
  "codec_ok decodes call ok_code end_code \<longleftrightarrow>
     (\<forall>z inp future fin room out rest.
        0 < room \<and> (inp = [] \<longrightarrow> future = []) \<and> (fin \<longrightarrow> inp = []) \<and> decodes z (inp @ future) out rest \<longrightarrow>
        (\<exists>z' inp' o1 code used. call z fin inp room = (z', inp', o1, code) \<and> inp = used @ inp' \<and> length o1 \<le> room \<and>
           (code = end_code \<and> out = o1 \<and> rest = inp' @ future \<or>
            code = ok_code \<and> (used \<noteq> [] \<or> o1 \<noteq> []) \<and> (\<exists>o2. out = o1 @ o2 \<and> decodes z' (inp' @ future) o2 rest))))"

definition library_ok :: "'z Library \<Rightarrow> (MagicResult \<Rightarrow> 'z \<Rightarrow> bytes \<Rightarrow> bytes \<Rightarrow> bytes \<Rightarrow> bool) \<Rightarrow> bool" where
  "library_ok lib decodes \<longleftrightarrow>
     codec_ok (decodes UTIL_GZIP) (\<lambda>z _. inflate lib z) Z_OK Z_STREAM_END \<and>
     codec_ok (decodes UTIL_BZIP) (\<lambda>z _. BZ2_bzDecompress lib z) BZ_OK BZ_STREAM_END \<and>
     codec_ok (decodes UTIL_XZIP) (lzma_code lib) LZMA_OK LZMA_STREAM_END \<and>
     fst (inflateInit2 lib) = Z_OK \<and> fst (BZ2_bzDecompressInit lib) = BZ_OK \<and> fst (lzma_stream_decoder lib) = LZMA_OK"

fun init_state :: "'z Library \<Rightarrow> MagicResult \<Rightarrow> 'z" where
  "init_state lib UTIL_BZIP = snd (BZ2_bzDecompressInit lib)"
| "init_state lib UTIL_XZIP = snd (lzma_stream_decoder lib)"
| "init_state lib _ = snd (inflateInit2 lib)"

text \<open>A sequence of compressed streams, and what a file contains.\<close>

inductive members :: "'z Library \<Rightarrow> (MagicResult \<Rightarrow> 'z \<Rightarrow> bytes \<Rightarrow> bytes \<Rightarrow> bytes \<Rightarrow> bool) \<Rightarrow> bytes \<Rightarrow> bytes \<Rightarrow> bool"
  for lib decodes
where
  members_Nil: "members lib decodes [] []"
| members_stream: "DetectMagic s \<noteq> UTIL_UNKNOWN \<Longrightarrow> decodes (DetectMagic s) (init_state lib (DetectMagic s)) s out rest \<Longrightarrow>
    members lib decodes rest outs \<Longrightarrow> members lib decodes s (out @ outs)"

definition file_content :: "'z Library \<Rightarrow> (MagicResult \<Rightarrow> 'z \<Rightarrow> bytes \<Rightarrow> bytes \<Rightarrow> bytes \<Rightarrow> bool) \<Rightarrow> bytes \<Rightarrow> bytes \<Rightarrow> bool" where
  "file_content lib decodes s out \<longleftrightarrow>
     (if DetectMagic s = UTIL_UNKNOWN then out = s else members lib decodes s out)"

subsection \<open>Detection needs six bytes\<close>

lemma memcmp_append: "n \<le> length x \<Longrightarrow> memcmp (x @ t) y n = memcmp x y n"
proof (induction x y n rule: memcmp.induct)
  case (2 p q n)
  then show ?case by (cases p) auto
qed simp_all

lemma magic_lengths: "length kBZMagic = 3" "length kXZMagic = 6"
  by (simp_all add: kBZMagic_def kXZMagic_def lit_def)

lemma DetectMagic_prefix:
  assumes "kMagicSize \<le> length h \<or> t = []"
  shows "DetectMagic (h @ t) = DetectMagic h"
proof (cases "t = []")
  case False
  then have len: "6 \<le> length h" using assms by (simp add: kMagicSize_def)
  have "0 < length h" "1 < length h" using len by linarith+
  then have "(h @ t) ! 0 = h ! 0" "(h @ t) ! 1 = h ! 1" by (simp_all only: nth_append if_True)
  moreover have "memcmp (h @ t) kBZMagic 3 = memcmp h kBZMagic 3" "memcmp (h @ t) kXZMagic 6 = memcmp h kXZMagic 6"
    using len by (simp_all add: memcmp_append)
  ultimately show ?thesis using len unfolding DetectMagic_def magic_lengths by simp
qed simp

lemma DetectMagic_Nil [simp]: "DetectMagic [] = UTIL_UNKNOWN"
  by (simp add: DetectMagic_def kBZMagic_def kXZMagic_def lit_def)

subsection \<open>One call of the decompressor\<close>

definition finish_ok :: "'z Decompressor \<Rightarrow> bytes \<Rightarrow> bool" where
  "finish_ok d future \<longleftrightarrow> (dz_finish d \<longrightarrow> dz_input d = [] \<and> future = [])"

lemma codec_call:
  assumes "codec_ok decodes call ok_code end_code" and "0 < room" and "inp = [] \<longrightarrow> future = []" and "fin \<longrightarrow> inp = []"
    and "decodes z (inp @ future) out rest"
  obtains z' inp' o1 used where "call z fin inp room = (z', inp', o1, end_code)" and "inp = used @ inp'" and "length o1 \<le> room"
      and "out = o1" and "rest = inp' @ future"
    | z' inp' o1 o2 used where "call z fin inp room = (z', inp', o1, ok_code)" and "inp = used @ inp'" and "length o1 \<le> room"
      and "used \<noteq> [] \<or> o1 \<noteq> []" and "out = o1 @ o2" and "decodes z' (inp' @ future) o2 rest"
proof -
  obtain z' inp' o1 code used where "call z fin inp room = (z', inp', o1, code)" "inp = used @ inp'" "length o1 \<le> room"
    "code = end_code \<and> out = o1 \<and> rest = inp' @ future \<or>
     code = ok_code \<and> (used \<noteq> [] \<or> o1 \<noteq> []) \<and> (\<exists>o2. out = o1 @ o2 \<and> decodes z' (inp' @ future) o2 rest)"
    using assms(1) [unfolded codec_ok_def, rule_format, of room inp future fin z out rest] assms(2-5) by blast
  then show ?thesis using that by blast
qed

lemma Process_ok:
  assumes "library_ok lib decodes" and "dz_format d \<noteq> UTIL_UNKNOWN" and "0 < amount"
    and "dz_input d = [] \<longrightarrow> future = []" and "finish_ok d future"
    and "decodes (dz_format d) (dz_state d) (dz_input d @ future) out rest"
  obtains d' o1 used where "Process lib (dz_format d) d amount = Inr (d', o1, False)" and "out = o1" and "length o1 \<le> amount"
      and "rest = dz_input d' @ future"
    | d' o1 o2 used where "Process lib (dz_format d) d amount = Inr (d', o1, True)" and "out = o1 @ o2" and "length o1 \<le> amount"
      and "dz_input d = used @ dz_input d'" and "used \<noteq> [] \<or> o1 \<noteq> []"
      and "decodes (dz_format d) (dz_state d') (dz_input d' @ future) o2 rest"
      and "dz_format d' = dz_format d" and "finish_ok d' future"
proof (cases "dz_format d")
  case UTIL_UNKNOWN
  then show ?thesis using assms(2) by simp
next
  case UTIL_GZIP
  have c: "codec_ok (decodes UTIL_GZIP) (\<lambda>z _. inflate lib z) Z_OK Z_STREAM_END" using assms(1) by (simp add: library_ok_def)
  have room: "0 < min kSizeMax amount" using assms(3) by (simp add: kSizeMax_def)
  from c room assms(4) _ assms(6) [unfolded UTIL_GZIP] show ?thesis
  proof (rule codec_call [where fin = False])
    fix z' inp' o1 used
    assume "inflate lib (dz_state d) (dz_input d) (min kSizeMax amount) = (z', inp', o1, Z_STREAM_END)"
      and "length o1 \<le> min kSizeMax amount" "out = o1" "rest = inp' @ future"
    then show thesis
      by (intro that(1) [of "d\<lparr>dz_state := z', dz_input := inp'\<rparr>" o1]) (simp_all add: UTIL_GZIP GZipRead_Process_def)
  next
    fix z' inp' o1 o2 used
    assume "inflate lib (dz_state d) (dz_input d) (min kSizeMax amount) = (z', inp', o1, Z_OK)" "dz_input d = used @ inp'"
      "length o1 \<le> min kSizeMax amount" "used \<noteq> [] \<or> o1 \<noteq> []" "out = o1 @ o2" "decodes UTIL_GZIP z' (inp' @ future) o2 rest"
    then show thesis using assms(5)
      by (intro that(2) [of "d\<lparr>dz_state := z', dz_input := inp'\<rparr>" o1 o2 used])
        (simp_all add: UTIL_GZIP GZipRead_Process_def finish_ok_def)
  qed simp
next
  case UTIL_BZIP
  have c: "codec_ok (decodes UTIL_BZIP) (\<lambda>z _. BZ2_bzDecompress lib z) BZ_OK BZ_STREAM_END" using assms(1) by (simp add: library_ok_def)
  have room: "0 < min kSizeMax amount" using assms(3) by (simp add: kSizeMax_def)
  from c room assms(4) _ assms(6) [unfolded UTIL_BZIP] show ?thesis
  proof (rule codec_call [where fin = False])
    fix z' inp' o1 used
    assume "BZ2_bzDecompress lib (dz_state d) (dz_input d) (min kSizeMax amount) = (z', inp', o1, BZ_STREAM_END)"
      and "length o1 \<le> min kSizeMax amount" "out = o1" "rest = inp' @ future"
    then show thesis
      by (intro that(1) [of "d\<lparr>dz_state := z', dz_input := inp'\<rparr>" o1]) (simp_all add: UTIL_BZIP BZipRead_Process_def)
  next
    fix z' inp' o1 o2 used
    assume "BZ2_bzDecompress lib (dz_state d) (dz_input d) (min kSizeMax amount) = (z', inp', o1, BZ_OK)" "dz_input d = used @ inp'"
      "length o1 \<le> min kSizeMax amount" "used \<noteq> [] \<or> o1 \<noteq> []" "out = o1 @ o2" "decodes UTIL_BZIP z' (inp' @ future) o2 rest"
    then show thesis using assms(5)
      by (intro that(2) [of "d\<lparr>dz_state := z', dz_input := inp'\<rparr>" o1 o2 used])
        (simp_all add: UTIL_BZIP BZipRead_Process_def finish_ok_def)
  qed simp
next
  case UTIL_XZIP
  have c: "codec_ok (decodes UTIL_XZIP) (lzma_code lib) LZMA_OK LZMA_STREAM_END" using assms(1) by (simp add: library_ok_def)
  have fin: "dz_finish d \<longrightarrow> dz_input d = []" using assms(5) by (simp add: finish_ok_def)
  from c assms(3,4) fin assms(6) [unfolded UTIL_XZIP] show ?thesis
  proof (rule codec_call)
    fix z' inp' o1 used
    assume "lzma_code lib (dz_state d) (dz_finish d) (dz_input d) amount = (z', inp', o1, LZMA_STREAM_END)"
      and "length o1 \<le> amount" "out = o1" "rest = inp' @ future"
    then show thesis
      by (intro that(1) [of "d\<lparr>dz_state := z', dz_input := inp'\<rparr>" o1]) (simp_all add: UTIL_XZIP XZip_Process_def)
  next
    fix z' inp' o1 o2 used
    assume "lzma_code lib (dz_state d) (dz_finish d) (dz_input d) amount = (z', inp', o1, LZMA_OK)" "dz_input d = used @ inp'"
      "length o1 \<le> amount" "used \<noteq> [] \<or> o1 \<noteq> []" "out = o1 @ o2" "decodes UTIL_XZIP z' (inp' @ future) o2 rest"
    then show thesis using assms(5)
      by (intro that(2) [of "d\<lparr>dz_state := z', dz_input := inp'\<rparr>" o1 o2 used])
        (simp_all add: UTIL_XZIP XZip_Process_def finish_ok_def)
  qed
qed

subsection \<open>Reading returns the content\<close>

text \<open>What a reader still has to return, when the kernel reports no error.\<close>

abbreviation fd_ok :: "Desc \<Rightarrow> bool" where
  "fd_ok fd \<equiv> Failed \<notin> set (d_answers fd)"

fun holds :: "'z Library \<Rightarrow> (MagicResult \<Rightarrow> 'z \<Rightarrow> bytes \<Rightarrow> bytes \<Rightarrow> bytes \<Rightarrow> bool) \<Rightarrow> 'z ReadBase \<Rightarrow> bytes \<Rightarrow> bool" where
  "holds lib decodes Complete content \<longleftrightarrow> content = []"
| "holds lib decodes (Uncompressed fd) content \<longleftrightarrow> fd_ok fd \<and> content = d_rest fd"
| "holds lib decodes (UncompressedWithHeader remain fd) content \<longleftrightarrow> fd_ok fd \<and> remain \<noteq> [] \<and> content = remain @ d_rest fd"
| "holds lib decodes (ReadStream d fd) content \<longleftrightarrow>
     fd_ok fd \<and> dz_format d \<noteq> UTIL_UNKNOWN \<and> finish_ok d (d_rest fd) \<and>
     (\<exists>out rest outs. decodes (dz_format d) (dz_state d) (dz_input d @ d_rest fd) out rest \<and>
        members lib decodes rest outs \<and> content = out @ outs)"

definition good_read ::
  "'z Library \<Rightarrow> (MagicResult \<Rightarrow> 'z \<Rightarrow> bytes \<Rightarrow> bytes \<Rightarrow> bytes \<Rightarrow> bool) \<Rightarrow> nat \<Rightarrow> bytes \<Rightarrow>
     (bytes \<times> 'z ReadBase \<times> u64) result option \<Rightarrow> bool"
where
  "good_read lib decodes amount content r \<longleftrightarrow>
     (\<exists>bs base raw content'. r = Some (Inr (bs, base, raw)) \<and> content = bs @ content' \<and> holds lib decodes base content' \<and>
        length bs \<le> amount \<and> (bs = [] \<longrightarrow> content = []))"

lemma ReadOrEOF_ok:
  assumes "fd_ok fd"
  obtains fd' where "ReadOrEOF fd n [] = Inr (take n (d_rest fd), fd')" and "d_rest fd' = drop n (d_rest fd)" and "fd_ok fd'"
  using ReadOrEOF_spec [of fd n "[]"] assms that by (auto simp: reads_def)

lemma PartialRead_ok:
  assumes "fd_ok fd"
  obtains bs fd' where "PartialRead fd n = Inr (bs, fd')" and "d_rest fd = bs @ d_rest fd'" and "length bs \<le> n"
    and "bs = [] \<longleftrightarrow> n = 0 \<or> d_rest fd = []" and "fd_ok fd'"
proof (cases "PartialRead fd n")
  case (Inl e)
  then show ?thesis using PartialRead_failure assms by blast
next
  case (Inr p)
  obtain bs fd' where p: "PartialRead fd n = Inr (bs, fd')" using Inr by (cases p) auto
  show ?thesis by (rule that [OF p]) (use PartialRead_spec [OF p] PartialRead_subset [OF p] assms in auto)
qed

lemma new_decompressor:
  assumes "library_ok lib decodes"
  shows "GZipRead_new lib h = Inr (SetInput \<lparr>dz_format = UTIL_GZIP, dz_state = init_state lib UTIL_GZIP, dz_input = [], dz_finish = False\<rparr> h)"
    and "BZipRead_new lib h = Inr (SetInput \<lparr>dz_format = UTIL_BZIP, dz_state = init_state lib UTIL_BZIP, dz_input = [], dz_finish = False\<rparr> h)"
    and "XZip_new lib h = Inr (SetInput \<lparr>dz_format = UTIL_XZIP, dz_state = init_state lib UTIL_XZIP, dz_input = [], dz_finish = False\<rparr> h)"
  using assms by (auto simp: library_ok_def GZipRead_new_def BZipRead_new_def XZip_new_def split: prod.splits)

lemma ReadFactory_header:
  assumes "fd_ok fd"
  obtains header fd' raw' where "(if length already < kMagicSize then
              map_sum id (\<lambda>(got, fd). (already @ got, fd, raw + of_nat (length got)))
                (ReadOrEOF fd (kMagicSize - length already) [])
            else Inr (already, fd, raw)) = Inr (header, fd', raw')"
    and "header @ d_rest fd' = already @ d_rest fd" and "fd_ok fd'" and "kMagicSize \<le> length header \<or> d_rest fd' = []"
proof (cases "length already < kMagicSize")
  case True
  obtain fd' where f: "ReadOrEOF fd (kMagicSize - length already) [] = Inr (take (kMagicSize - length already) (d_rest fd), fd')"
    "d_rest fd' = drop (kMagicSize - length already) (d_rest fd)" "fd_ok fd'"
    using ReadOrEOF_ok [OF assms] by blast
  show ?thesis
    by (rule that [of "already @ take (kMagicSize - length already) (d_rest fd)" fd'])
      (use True f in \<open>auto simp: min_def\<close>)
next
  case False
  then show ?thesis using that [of already fd raw] assms by simp
qed

lemma ReadFactory_members:
  assumes "library_ok lib decodes" and "fd_ok fd" and "members lib decodes (already @ d_rest fd) outs"
  obtains raw' where "ReadFactory lib fd raw already req = Inr (Complete, raw')" and "already @ d_rest fd = []" and "outs = []"
  | d fd' raw' out rest outs' where "ReadFactory lib fd raw already req = Inr (ReadStream d fd', raw')" and "fd_ok fd'"
      and "dz_format d \<noteq> UTIL_UNKNOWN" and "finish_ok d (d_rest fd')"
      and "decodes (dz_format d) (dz_state d) (dz_input d @ d_rest fd') out rest"
      and "DetectMagic (already @ d_rest fd) \<noteq> UTIL_UNKNOWN"
      and "dz_format d = DetectMagic (already @ d_rest fd)" "dz_state d = init_state lib (dz_format d)"
      and "dz_input d @ d_rest fd' = already @ d_rest fd"
      and "members lib decodes rest outs'" and "outs = out @ outs'"
proof -
  let ?s = "already @ d_rest fd"
  obtain header fd' raw' where h: "(if length already < kMagicSize then
              map_sum id (\<lambda>(got, fd). (already @ got, fd, raw + of_nat (length got)))
                (ReadOrEOF fd (kMagicSize - length already) [])
            else Inr (already, fd, raw)) = Inr (header, fd', raw')"
    "header @ d_rest fd' = ?s" "fd_ok fd'" "kMagicSize \<le> length header \<or> d_rest fd' = []"
    using ReadFactory_header [OF assms(2), of already raw] by blast
  have m: "DetectMagic header = DetectMagic ?s" using DetectMagic_prefix [OF h(4)] h(2) by simp
  have "header \<noteq> [] \<or> ?s = []" using h(2,4) by (auto simp: kMagicSize_def)
  from assms(3) show ?thesis
  proof (cases rule: members.cases)
    case members_Nil
    then have "header = []" using h(2) by simp
    then show ?thesis using that(1) [of raw'] members_Nil h(1) by (simp add: ReadFactory_def)
  next
    case (members_stream out rest outs')
    define d where "d = SetInput \<lparr>dz_format = DetectMagic ?s, dz_state = init_state lib (DetectMagic ?s), dz_input = [], dz_finish = False\<rparr> header"
    have ne: "header \<noteq> []" using members_stream(2) m by auto
    have "ReadFactory lib fd raw already req = Inr (ReadStream d fd', raw')"
      unfolding ReadFactory_def h(1) using ne m members_stream(2) new_decompressor [OF assms(1), of header]
      by (cases "DetectMagic ?s") (simp_all add: d_def)
    moreover have "dz_format d = DetectMagic ?s" "dz_state d = init_state lib (DetectMagic ?s)" "dz_input d = header" "\<not> dz_finish d"
      using ne by (simp_all add: d_def SetInput_def)
    ultimately show ?thesis
      using members_stream h(2,3) by (intro that(2) [of d fd' raw' out rest outs']) (simp_all add: finish_ok_def)
  qed
qed

lemma ReadInput_ok:
  assumes "fd_ok fd" and "finish_ok d (d_rest fd)"
  obtains d1 fd1 raw1 where "(if dz_input d = [] then ReadInput d fd raw else Inr (d, fd, raw)) = Inr (d1, fd1, raw1)"
    and "fd_ok fd1" and "dz_input d1 @ d_rest fd1 = dz_input d @ d_rest fd" and "dz_format d1 = dz_format d"
    and "dz_state d1 = dz_state d" and "dz_input d1 = [] \<longrightarrow> d_rest fd1 = []" and "finish_ok d1 (d_rest fd1)"
proof (cases "dz_input d = []")
  case True
  obtain fd1 where f: "ReadOrEOF fd kInputBuffer [] = Inr (take kInputBuffer (d_rest fd), fd1)"
    "d_rest fd1 = drop kInputBuffer (d_rest fd)" "fd_ok fd1"
    using ReadOrEOF_ok [OF assms(1)] by blast
  have "kInputBuffer \<noteq> 0" by (simp add: kInputBuffer_def)
  then show ?thesis
    using True f assms(2)
    by (intro that [of "SetInput d (take kInputBuffer (d_rest fd))" fd1 "raw + of_nat (length (take kInputBuffer (d_rest fd)))"])
      (auto simp: ReadInput_def SetInput_def finish_ok_def)
next
  case False
  then show ?thesis using assms by (intro that [of d fd raw]) simp_all
qed

lemma ReadStream_loop_unfold:
  assumes "(if dz_input d = [] then ReadInput d fd raw else Inr (d, fd, raw)) = Inr (d1, fd1, raw1)"
    and "Process lib (dz_format d1) d1 amount = Inr (d2, out, cont)"
  shows "ReadStream_loop lib d fd raw amount =
    (if \<not> cont then
       (case ReadFactory lib fd1 raw1 (dz_input d2) True of
          Inl e \<Rightarrow> Some (Inl e)
        | Inr (base, raw) \<Rightarrow>
            if out \<noteq> [] then Some (Inr (out, base, raw))
            else (case base of
                    ReadStream d fd \<Rightarrow> ReadStream_loop lib d fd raw amount
                  | _ \<Rightarrow> Some (Read_plain base amount raw)))
     else if out = [] then ReadStream_loop lib d2 fd1 raw1 amount
     else Some (Inr (out, ReadStream d2 fd1, raw1)))"
  by (subst ReadStream_loop.simps) (simp add: assms)

definition stream_at ::
  "(MagicResult \<Rightarrow> 'z \<Rightarrow> bytes \<Rightarrow> bytes \<Rightarrow> bytes \<Rightarrow> bool) \<Rightarrow> 'z Decompressor \<Rightarrow> Desc \<Rightarrow> bytes \<Rightarrow> bytes \<Rightarrow> bool"
where
  "stream_at decodes d fd out rest \<longleftrightarrow> fd_ok fd \<and> dz_format d \<noteq> UTIL_UNKNOWN \<and> finish_ok d (d_rest fd) \<and>
     decodes (dz_format d) (dz_state d) (dz_input d @ d_rest fd) out rest"

lemma holds_ReadStream:
  "holds lib decodes (ReadStream d fd) content \<longleftrightarrow>
     (\<exists>out rest outs. stream_at decodes d fd out rest \<and> members lib decodes rest outs \<and> content = out @ outs)"
  by (auto simp: stream_at_def)

lemma good_readI:
  "r = Some (Inr (bs, base, raw)) \<Longrightarrow> holds lib decodes base content' \<Longrightarrow> length bs \<le> amount \<Longrightarrow> content = bs @ content' \<Longrightarrow>
     (bs = [] \<longrightarrow> content = []) \<Longrightarrow> good_read lib decodes amount content r"
  by (auto simp: good_read_def)

definition next_reader ::
  "'z Library \<Rightarrow> nat \<Rightarrow> ('z ReadBase \<times> u64) result \<Rightarrow> (bytes \<times> 'z ReadBase \<times> u64) result option"
where
  "next_reader lib amount r =
     (case r of
        Inl e \<Rightarrow> Some (Inl e)
      | Inr (base, raw) \<Rightarrow>
          (case base of
             ReadStream d fd \<Rightarrow> ReadStream_loop lib d fd raw amount
           | _ \<Rightarrow> Some (Read_plain base amount raw)))"

lemma ReadStream_loop_within:
  assumes lib: "library_ok lib decodes" and amount: "0 < amount" and rest: "members lib decodes rest outs"
    and next_good: "\<And>fd1 raw1 already. fd_ok fd1 \<Longrightarrow> already @ d_rest fd1 = rest \<Longrightarrow>
      good_read lib decodes amount outs (next_reader lib amount (ReadFactory lib fd1 raw1 already True))"
  shows "stream_at decodes d fd out rest \<Longrightarrow> good_read lib decodes amount (out @ outs) (ReadStream_loop lib d fd raw amount)"
proof (induction "length (dz_input d @ d_rest fd)" arbitrary: d fd out raw rule: less_induct)
  case less
  have st: "fd_ok fd" "dz_format d \<noteq> UTIL_UNKNOWN" "finish_ok d (d_rest fd)"
    "decodes (dz_format d) (dz_state d) (dz_input d @ d_rest fd) out rest"
    using less.prems by (auto simp: stream_at_def)
  obtain d1 fd1 raw1 where i: "(if dz_input d = [] then ReadInput d fd raw else Inr (d, fd, raw)) = Inr (d1, fd1, raw1)"
    "fd_ok fd1" "dz_input d1 @ d_rest fd1 = dz_input d @ d_rest fd" "dz_format d1 = dz_format d"
    "dz_state d1 = dz_state d" "dz_input d1 = [] \<longrightarrow> d_rest fd1 = []" "finish_ok d1 (d_rest fd1)"
    using ReadInput_ok [OF st(1,3)] by blast
  have f: "dz_format d1 \<noteq> UTIL_UNKNOWN" "decodes (dz_format d1) (dz_state d1) (dz_input d1 @ d_rest fd1) out rest"
    using i st by simp_all
  from lib f(1) amount i(6,7) f(2) show ?case
  proof (rule Process_ok)
    fix d2 o1
    assume p: "Process lib (dz_format d1) d1 amount = Inr (d2, o1, False)" "out = o1" "length o1 \<le> amount"
      "rest = dz_input d2 @ d_rest fd1"
    show ?case
    proof (cases "o1 = []")
      case True
      then have "ReadStream_loop lib d fd raw amount = next_reader lib amount (ReadFactory lib fd1 raw1 (dz_input d2) True)"
        using ReadStream_loop_unfold [OF i(1) p(1)] by (simp add: next_reader_def split: sum.splits prod.splits)
      then show ?thesis using next_good [OF i(2), of "dz_input d2" raw1] p(2,4) True by simp
    next
      case False
      from lib i(2) rest [unfolded p(4)] obtain base raw2 where
        "ReadFactory lib fd1 raw1 (dz_input d2) True = Inr (base, raw2)" "holds lib decodes base outs"
        by (cases rule: ReadFactory_members [where raw = raw1 and req = True]) (auto simp: holds_ReadStream stream_at_def)
      then show ?thesis
        using ReadStream_loop_unfold [OF i(1) p(1)] False p(2,3) by (intro good_readI [of _ o1 base raw2]) auto
    qed
  next
    fix d2 o1 o2 used
    assume p: "Process lib (dz_format d1) d1 amount = Inr (d2, o1, True)" "out = o1 @ o2" "length o1 \<le> amount"
      "dz_input d1 = used @ dz_input d2" "used \<noteq> [] \<or> o1 \<noteq> []"
      "decodes (dz_format d1) (dz_state d2) (dz_input d2 @ d_rest fd1) o2 rest"
      "dz_format d2 = dz_format d1" "finish_ok d2 (d_rest fd1)"
    have st2: "stream_at decodes d2 fd1 o2 rest" using p i(2) f(1) by (simp add: stream_at_def)
    show ?case
    proof (cases "o1 = []")
      case True
      have "length (dz_input d2 @ d_rest fd1) < length (dz_input d @ d_rest fd)"
        using i(3) p(4,5) True by (metis append_assoc length_append less_add_same_cancel2 length_greater_0_conv)
      then show ?thesis
        using less.hyps [OF _ st2, of raw1] ReadStream_loop_unfold [OF i(1) p(1)] True p(2) by simp
    next
      case False
      have "holds lib decodes (ReadStream d2 fd1) (o2 @ outs)" using st2 rest holds_ReadStream by blast
      then show ?thesis
        using ReadStream_loop_unfold [OF i(1) p(1)] False p(2,3)
        by (intro good_readI [of _ o1 "ReadStream d2 fd1" raw1]) auto
    qed
  qed
qed

lemma ReadStream_loop_good:
  assumes lib: "library_ok lib decodes" and amount: "0 < amount"
  shows "members lib decodes rest outs \<Longrightarrow> stream_at decodes d fd out rest \<Longrightarrow>
    good_read lib decodes amount (out @ outs) (ReadStream_loop lib d fd raw amount)"
proof (induction arbitrary: d fd out raw rule: members.induct)
  case members_Nil
  have "good_read lib decodes amount [] (next_reader lib amount (ReadFactory lib fd1 raw1 already True))"
    if "fd_ok fd1" "already @ d_rest fd1 = []" for fd1 raw1 already
  proof -
    have "members lib decodes (already @ d_rest fd1) []" using that members.members_Nil by simp
    from lib that(1) this show ?thesis
      by (cases rule: ReadFactory_members [where raw = raw1 and req = True])
        (use that in \<open>auto simp: next_reader_def good_read_def\<close>)
  qed
  from ReadStream_loop_within [OF lib amount members.members_Nil this members_Nil.prems] show ?case by simp
next
  case (members_stream s out1 rest1 outs1)
  have m: "members lib decodes s (out1 @ outs1)" using members_stream.hyps by (rule members.members_stream)
  have "good_read lib decodes amount (out1 @ outs1) (next_reader lib amount (ReadFactory lib fd1 raw1 already True))"
    if s: "fd_ok fd1" "already @ d_rest fd1 = s" for fd1 raw1 already
  proof -
    have "members lib decodes (already @ d_rest fd1) (out1 @ outs1)" using m s by simp
    from lib s(1) this show ?thesis
    proof (cases rule: ReadFactory_members [where raw = raw1 and req = True])
      case (1 raw')
      then show ?thesis using members_stream.hyps(1) s(2) by simp
    next
      case (2 d fd' raw')
      then have "stream_at decodes d fd' out1 rest1" using members_stream.hyps(2) s(2) by (simp add: stream_at_def)
      then show ?thesis using members_stream.IH [of d fd' out1 raw'] 2(1) by (simp add: next_reader_def)
    qed
  qed
  from ReadStream_loop_within [OF lib amount m this members_stream.prems] show ?case by simp
qed

lemma Read_good:
  assumes "library_ok lib decodes" and "holds lib decodes base content" and "0 < amount"
  shows "good_read lib decodes amount content (Read lib base amount raw)"
proof (cases base)
  case Complete
  then show ?thesis using assms(2) by (auto simp: Read_def good_read_def)
next
  case (Uncompressed fd)
  then have fd: "fd_ok fd" "content = d_rest fd" using assms(2) by auto
  obtain bs fd' where p: "PartialRead fd amount = Inr (bs, fd')" "d_rest fd = bs @ d_rest fd'" "length bs \<le> amount"
    "bs = [] \<longleftrightarrow> amount = 0 \<or> d_rest fd = []" "fd_ok fd'"
    using PartialRead_ok [OF fd(1)] by metis
  then show ?thesis
    using fd(2) Uncompressed assms(3) by (intro good_readI [of _ bs "Uncompressed fd'"]) (auto simp: Read_def)
next
  case (UncompressedWithHeader remain fd)
  then show ?thesis
    using assms(2,3) by (intro good_readI [of _ "take amount remain" _ raw _ _ "drop amount remain @ d_rest fd"])
      (auto simp: Read_def Let_def)
next
  case (ReadStream d fd)
  then obtain out rest outs where "stream_at decodes d fd out rest" "members lib decodes rest outs" "content = out @ outs"
    using assms(2) by (auto simp: holds_ReadStream simp del: holds.simps)
  then show ?thesis using ReadStream_loop_good [OF assms(1,3)] ReadStream assms(3) by (simp add: Read_def)
qed

lemma ReadCompressed_Read_good:
  assumes "library_ok lib decodes" and "holds lib decodes (rc_internal rc) content" and "0 < amount"
  obtains bs rc' content' where "ReadCompressed_Read lib rc amount = Some (Inr (bs, rc'))" and "content = bs @ content'"
    and "holds lib decodes (rc_internal rc') content'" and "length bs \<le> amount" and "bs = [] \<longrightarrow> content = []"
  using Read_good [OF assms, of "rc_raw_amount rc"] that by (auto simp: good_read_def ReadCompressed_Read_def)

lemma ReadCompressed_ReadOrEOF_good:
  assumes "library_ok lib decodes"
  shows "holds lib decodes (rc_internal rc) content \<Longrightarrow>
    \<exists>rc'. ReadCompressed_ReadOrEOF lib rc amount to = Some (Inr (to @ take amount content, rc')) \<and>
      holds lib decodes (rc_internal rc') (drop amount content)"
proof (induction amount arbitrary: rc content to rule: less_induct)
  case (less amount)
  show ?case
  proof (cases "amount = 0")
    case True
    then show ?thesis using less.prems by (subst ReadCompressed_ReadOrEOF.simps) auto
  next
    case False
    then have "0 < amount" by simp
    from assms less.prems this obtain bs rc1 content' where
      r: "ReadCompressed_Read lib rc amount = Some (Inr (bs, rc1))" "content = bs @ content'"
      "holds lib decodes (rc_internal rc1) content'" "length bs \<le> amount" "bs = [] \<longrightarrow> content = []"
      by (rule ReadCompressed_Read_good)
    show ?thesis
    proof (cases "bs = []")
      case True
      then show ?thesis using r False by (subst ReadCompressed_ReadOrEOF.simps) auto
    next
      case ne: False
      then have "amount - length bs < amount" using False by (simp add: diff_less)
      from less.IH [OF this r(3), of "to @ bs"] show ?thesis
        using r(1,2,4) False ne by (subst ReadCompressed_ReadOrEOF.simps) auto
    qed
  qed
qed

lemma ReadFactory_plain:
  assumes "fd_ok fd" and "DetectMagic (already @ d_rest fd) = UTIL_UNKNOWN"
  shows "\<exists>base raw'. ReadFactory lib fd raw already False = Inr (base, raw') \<and> holds lib decodes base (already @ d_rest fd)"
proof -
  obtain header fd' raw' where h: "(if length already < kMagicSize then
              map_sum id (\<lambda>(got, fd). (already @ got, fd, raw + of_nat (length got)))
                (ReadOrEOF fd (kMagicSize - length already) [])
            else Inr (already, fd, raw)) = Inr (header, fd', raw')"
    "header @ d_rest fd' = already @ d_rest fd" "fd_ok fd'" "kMagicSize \<le> length header \<or> d_rest fd' = []"
    using ReadFactory_header [OF assms(1), of already raw] by blast
  have "DetectMagic header = UTIL_UNKNOWN" using DetectMagic_prefix [OF h(4)] h(2) assms(2) by simp
  then have "ReadFactory lib fd raw already False =
      Inr (if header = [] then Complete else UncompressedWithHeader header fd', raw')"
    unfolding ReadFactory_def h(1) by simp
  moreover have "header = [] \<longrightarrow> d_rest fd' = []" using h(4) by (auto simp: kMagicSize_def)
  ultimately show ?thesis using h(2,3) by (auto simp flip: h(2))
qed

lemma ReadCompressed_Reset_good:
  assumes "library_ok lib decodes" and "fd_ok fd" and "file_content lib decodes (d_rest fd) content"
  obtains rc where "ReadCompressed_Reset lib fd = Inr rc" and "holds lib decodes (rc_internal rc) content"
proof (cases "DetectMagic (d_rest fd) = UTIL_UNKNOWN")
  case True
  then obtain base raw' where "ReadFactory lib fd 0 [] False = Inr (base, raw')" "holds lib decodes base ([] @ d_rest fd)"
    using ReadFactory_plain [OF assms(2), of "[]" lib 0 decodes] by auto
  moreover have "content = d_rest fd" using True assms(3) by (simp add: file_content_def)
  ultimately show ?thesis
    by (intro that [of "\<lparr>rc_internal = base, rc_raw_amount = raw'\<rparr>"]) (simp_all add: ReadCompressed_Reset_def)
next
  case False
  then have m: "members lib decodes ([] @ d_rest fd) content" using assms(3) by (simp add: file_content_def)
  from assms(1,2) m obtain base raw' where "ReadFactory lib fd 0 [] False = Inr (base, raw')" "holds lib decodes base content"
    by (cases rule: ReadFactory_members [where raw = 0 and req = False]) (auto simp: holds_ReadStream stream_at_def)
  then show ?thesis by (intro that [of "\<lparr>rc_internal = base, rc_raw_amount = raw'\<rparr>"]) (simp_all add: ReadCompressed_Reset_def)
qed

text \<open>
  C7. Reading through \<^verbatim>\<open>ReadCompressed\<close> returns the content of the file whatever its compression: an
  uncompressed file as it is, a compressed one decompressed, several compressed streams one after
  the other as their concatenation; however the kernel cuts up its reads and the libraries their
  output, and even if a stream is empty. The reads end: no call loops or reports the end too early.
\<close>

theorem ReadCompressed_correct:
  assumes "library_ok lib decodes" and "fd_ok fd" and "file_content lib decodes (d_rest fd) content"
  shows "\<exists>rc rc'. ReadCompressed_Reset lib fd = Inr rc \<and>
    ReadCompressed_ReadOrEOF lib rc amount [] = Some (Inr (take amount content, rc')) \<and>
    holds lib decodes (rc_internal rc') (drop amount content)"
proof -
  obtain rc where "ReadCompressed_Reset lib fd = Inr rc" "holds lib decodes (rc_internal rc) content"
    using ReadCompressed_Reset_good [OF assms] by blast
  then show ?thesis using ReadCompressed_ReadOrEOF_good [OF assms(1), of rc content amount "[]"] by auto
qed

text \<open>
  A library for which the assumptions hold: a format that has a header of six bytes, then every byte
  of the data after a mark, and a zero at the end, decoded byte by byte.
\<close>

datatype stored = Header nat | Mark | Byte

fun stored_step :: "stored \<Rightarrow> bytes \<Rightarrow> stored \<times> bytes \<times> bytes \<times> bool" where
  "stored_step (Header (Suc n)) (c # cs) = (if n = 0 then Mark else Header n, cs, [], False)"
| "stored_step Mark (c # cs) = (if c = 0 then (Mark, cs, [], True) else (Byte, cs, [], False))"
| "stored_step Byte (c # cs) = (Mark, cs, [c], False)"
| "stored_step z cs = (z, cs, [], False)"

fun marked :: "bytes \<Rightarrow> bytes \<Rightarrow> bytes \<Rightarrow> bool" where
  "marked [] out rest \<longleftrightarrow> False"
| "marked [c] out rest \<longleftrightarrow> c = 0 \<and> out = [] \<and> rest = []"
| "marked (c # d # s) out rest \<longleftrightarrow>
     (if c = 0 then out = [] \<and> rest = d # s else case out of [] \<Rightarrow> False | e # out \<Rightarrow> e = d \<and> marked s out rest)"

lemma marked_Cons:
  "marked (c # s) out rest \<longleftrightarrow>
     (if c = 0 then out = [] \<and> rest = s else s \<noteq> [] \<and> out \<noteq> [] \<and> hd s = hd out \<and> marked (tl s) (tl out) rest)"
  by (cases s; cases out) auto

fun stored_decodes :: "stored \<Rightarrow> bytes \<Rightarrow> bytes \<Rightarrow> bytes \<Rightarrow> bool" where
  "stored_decodes Byte s out rest \<longleftrightarrow> s \<noteq> [] \<and> out \<noteq> [] \<and> hd s = hd out \<and> marked (tl s) (tl out) rest"
| "stored_decodes Mark s out rest \<longleftrightarrow> marked s out rest"
| "stored_decodes (Header n) s out rest \<longleftrightarrow> 0 < n \<and> n \<le> length s \<and> marked (drop n s) out rest"

definition stored_library :: "stored Library" where
  "stored_library =
     \<lparr>inflateInit2 = (Z_OK, Header 6),
      inflate = (\<lambda>z inp room. case stored_step z inp of (z, inp, out, e) \<Rightarrow> (z, inp, out, if e then Z_STREAM_END else Z_OK)),
      BZ2_bzDecompressInit = (BZ_OK, Header 6),
      BZ2_bzDecompress = (\<lambda>z inp room. case stored_step z inp of (z, inp, out, e) \<Rightarrow> (z, inp, out, if e then BZ_STREAM_END else BZ_OK)),
      lzma_stream_decoder = (LZMA_OK, Header 6),
      lzma_code = (\<lambda>z fin inp room. case stored_step z inp of (z, inp, out, e) \<Rightarrow> (z, inp, out, if e then LZMA_STREAM_END else LZMA_OK))\<rparr>"

lemma stored_step_ok:
  assumes "inp = [] \<longrightarrow> future = []" and "stored_decodes z (inp @ future) out rest" and "0 < room"
  shows "\<exists>z' inp' o1 e used. stored_step z inp = (z', inp', o1, e) \<and> inp = used @ inp' \<and> length o1 \<le> room \<and>
    (e \<and> out = o1 \<and> rest = inp' @ future \<or>
     \<not> e \<and> (used \<noteq> [] \<or> o1 \<noteq> []) \<and> (\<exists>o2. out = o1 @ o2 \<and> stored_decodes z' (inp' @ future) o2 rest))"
proof (cases inp)
  case Nil
  then show ?thesis using assms by (cases z) auto
next
  case (Cons c cs)
  show ?thesis
  proof (cases z)
    case (Header n)
    then obtain m where "n = Suc m" using assms(2) by (cases n) auto
    then show ?thesis
      using assms(2) Cons Header
      by (intro exI [of _ "if m = 0 then Mark else Header m"] exI [of _ cs] exI [of _ "[]"] exI [of _ False] exI [of _ "[c]"])
        auto
  next
    case Mark
    then show ?thesis
      using assms(2) Cons
      by (intro exI [of _ "if c = 0 then Mark else Byte"] exI [of _ cs] exI [of _ "[]"] exI [of _ "c = 0"] exI [of _ "[c]"])
        (auto simp: marked_Cons)
  next
    case Byte
    then show ?thesis
      using assms(2,3) Cons
      by (intro exI [of _ Mark] exI [of _ cs] exI [of _ "[c]"] exI [of _ False] exI [of _ "[c]"]) (auto simp: neq_Nil_conv)
  qed
qed

lemma codec_ok_stored:
  assumes "ok_code \<noteq> end_code"
  shows "codec_ok stored_decodes (\<lambda>z fin inp room. case stored_step z inp of (z, inp, out, e) \<Rightarrow> (z, inp, out, if e then end_code else ok_code))
    ok_code end_code"
  unfolding codec_ok_def
proof (intro allI impI, elim conjE)
  fix z inp future fin and room :: nat and out rest
  assume a: "0 < room" "inp = [] \<longrightarrow> future = []" "stored_decodes z (inp @ future) out rest"
  show "\<exists>z' inp' o1 code used. (case stored_step z inp of (z, inp, out, e) \<Rightarrow> (z, inp, out, if e then end_code else ok_code)) =
      (z', inp', o1, code) \<and> inp = used @ inp' \<and> length o1 \<le> room \<and>
      (code = end_code \<and> out = o1 \<and> rest = inp' @ future \<or>
       code = ok_code \<and> (used \<noteq> [] \<or> o1 \<noteq> []) \<and> (\<exists>o2. out = o1 @ o2 \<and> stored_decodes z' (inp' @ future) o2 rest))"
    using stored_step_ok [OF a(2,3,1)] by (elim exE conjE) (force split: if_splits)
qed

lemma stored_library_ok: "library_ok stored_library (\<lambda>_. stored_decodes)"
  unfolding library_ok_def stored_library_def
  using codec_ok_stored [of Z_OK Z_STREAM_END] codec_ok_stored [of BZ_OK BZ_STREAM_END] codec_ok_stored [of LZMA_OK LZMA_STREAM_END]
  by simp

theorem ReadCompressed_correct_witness:
  "\<exists>rc rc'. ReadCompressed_Reset stored_library
       \<lparr>d_rest = kXZMagic @ [1, 104, 1, 105, 0] @ kXZMagic @ [0], d_out = [], d_answers = [Transfer 3], d_syncs = []\<rparr> = Inr rc \<and>
     ReadCompressed_ReadOrEOF stored_library rc 9 [] = Some (Inr ([104, 105], rc'))"
proof -
  let ?fd = "\<lparr>d_rest = kXZMagic @ [1, 104, 1, 105, 0] @ kXZMagic @ [0], d_out = [], d_answers = [Transfer 3], d_syncs = []\<rparr> :: Desc"
  have "DetectMagic kXZMagic = UTIL_XZIP" by code_simp
  then have x: "DetectMagic (kXZMagic @ s) = UTIL_XZIP" for s
    using DetectMagic_prefix [of kXZMagic s] by (simp add: magic_lengths kMagicSize_def)
  have "members stored_library (\<lambda>_. stored_decodes) (kXZMagic @ [0]) ([] @ [])"
    by (rule members_stream [OF _ _ members_Nil]) (simp_all add: x stored_library_def magic_lengths)
  moreover have "init_state stored_library UTIL_XZIP = Header 6" by (simp add: stored_library_def)
  ultimately have "members stored_library (\<lambda>_. stored_decodes) (d_rest ?fd) ([104, 105] @ [] @ [])"
    by (intro members_stream [where rest = "kXZMagic @ [0]" and out = "[104, 105]" and outs = "[] @ []"])
      (simp_all add: x magic_lengths marked_Cons)
  then have "file_content stored_library (\<lambda>_. stored_decodes) (d_rest ?fd) [104, 105]" by (simp add: file_content_def x)
  from ReadCompressed_correct [OF stored_library_ok _ this, of 9] show ?thesis by auto
qed

text \<open>
  C39. A truncated bzip2 file is not reported: at the end of the file \<^verbatim>\<open>BZ2_bzDecompress\<close> is called
  without input and, as long as the compressed stream is incomplete, returns \<^verbatim>\<open>BZ_OK\<close> to ask
  for more, so that \<^verbatim>\<open>ReadStream::Read\<close> never returns.
\<close>

theorem ReadStream_truncated_bzip:
  assumes "BZ2_bzDecompress lib z [] (min kSizeMax amount) = (z, [], [], BZ_OK)"
  shows "ReadStream_loop lib \<lparr>dz_format = UTIL_BZIP, dz_state = z, dz_input = [], dz_finish = False\<rparr>
    \<lparr>d_rest = [], d_out = [], d_answers = [], d_syncs = []\<rparr> raw amount = None"
proof (cases "ReadStream_loop lib \<lparr>dz_format = UTIL_BZIP, dz_state = z, dz_input = [], dz_finish = False\<rparr>
    \<lparr>d_rest = [], d_out = [], d_answers = [], d_syncs = []\<rparr> raw amount")
  case (Some r)
  let ?d = "\<lparr>dz_format = UTIL_BZIP, dz_state = z, dz_input = [], dz_finish = False\<rparr>"
  let ?fd = "\<lparr>d_rest = [], d_out = [], d_answers = [], d_syncs = []\<rparr> :: Desc"
  have p: "Process lib UTIL_BZIP ?d amount = Inr (?d, [], True)" using assms by (simp add: BZipRead_Process_def)
  have i: "ReadInput ?d ?fd w = Inr (?d, ?fd, w)" for w
    by (simp add: ReadInput_def SetInput_def ReadOrEOF.simps PartialRead_def kInputBuffer_def)
  have "\<not> (l = lib \<and> d = ?d \<and> f = ?fd \<and> a = amount)" if "ReadStream_loop l d f w a = Some r" for l d f w a
  proof (rule ReadStream_loop.raw_induct
      [where P = "\<lambda>l d f w a r. \<not> (l = lib \<and> d = ?d \<and> f = ?fd \<and> a = amount)", OF _ that], rule notI)
    fix loop l d f w a y
    assume IH: "\<And>l d f w a y. loop l d f w a = Some y \<Longrightarrow> \<not> (l = lib \<and> d = ?d \<and> f = ?fd \<and> a = amount)"
      and body: "(case if dz_input d = [] then ReadInput d f w else Inr (d, f, w) of
        Inl e \<Rightarrow> Some (Inl e)
      | Inr (d, fd, raw) \<Rightarrow>
          (case Process l (dz_format d) d a of
             Inl e \<Rightarrow> Some (Inl e)
           | Inr (d, out, cont) \<Rightarrow>
               if \<not> cont then
                 (case ReadFactory l fd raw (dz_input d) True of
                    Inl e \<Rightarrow> Some (Inl e)
                  | Inr (base, raw) \<Rightarrow>
                      if out \<noteq> [] then Some (Inr (out, base, raw))
                      else (case base of
                              ReadStream d fd \<Rightarrow> loop l d fd raw a
                            | _ \<Rightarrow> Some (Read_plain base a raw)))
               else if out = [] then loop l d fd raw a
               else Some (Inr (out, ReadStream d fd, raw)))) = Some y"
      and eq: "l = lib \<and> d = ?d \<and> f = ?fd \<and> a = amount"
    have "loop lib ?d ?fd w amount = Some y" using body eq p i by simp
    then show False using IH by blast
  qed
  then show ?thesis using Some by blast
qed simp

theorem ReadStream_truncated_bzip_witness:
  "ReadStream_loop stored_library \<lparr>dz_format = UTIL_BZIP, dz_state = Byte, dz_input = [], dz_finish = False\<rparr>
    \<lparr>d_rest = [], d_out = [], d_answers = [], d_syncs = []\<rparr> 0 10 = None"
  by (rule ReadStream_truncated_bzip) (simp add: stored_library_def)

end
