(* ===== verification/FilePiece.thy ===== *)
theory FilePiece
  imports Compress TokenizePiece
begin

text \<open>
  \<^verbatim>\<open>src/util/file_piece.cc\<close> and \<^verbatim>\<open>file_piece.hh\<close>: the input of nearly every program of the repository. A file is
  mapped window by window, or read into a growing buffer when it cannot be mapped or is
  compressed; lines, words and numbers are handed out as pieces of the window. The environment of
  a \<^verbatim>\<open>FilePiece\<close> is a record of what the operating system answers: the page size, the bytes of the
  file, what \<^verbatim>\<open>fstat\<close> and \<^verbatim>\<open>lseek\<close> report and which mappings \<^verbatim>\<open>mmap\<close> grants; the decompression
  libraries are those of \<open>Compress\<close>. Sizes are natural numbers: a window fits into the memory.
  The progress bar is left out, and so are the floating point numbers, which the vendored
  double-conversion reads.
\<close>

record 'z Environment =
  env_kPageSize :: nat
  env_library :: "'z Library"
  env_file :: bytes
  env_SizeFile :: nat
  env_lseek :: "nat option"
  env_mmap :: "nat \<Rightarrow> nat \<Rightarrow> bool"

text \<open>
  \<open>fp_data\<close> holds the bytes from \<^verbatim>\<open>data_.begin()\<close> to \<^verbatim>\<open>position_end_\<close>, and the pointers are offsets
  from \<^verbatim>\<open>data_.begin()\<close>; \<open>fp_null\<close> says that \<^verbatim>\<open>position_\<close> is still \<^verbatim>\<open>NULL\<close>. A read function returns
  the state with a result, so that the state is known when an exception is caught.
\<close>

record 'z FilePiece =
  fp_data :: bytes
  fp_null :: bool
  fp_position :: nat
  fp_last_space :: int
  fp_file :: Desc
  fp_total_size :: nat
  fp_default_map_size :: nat
  fp_mapped_offset :: nat
  fp_at_end :: bool
  fp_fallback_to_read :: bool
  fp_fell_back :: "'z ReadCompressed"

definition kBadSize :: nat where
  "kBadSize = 2 ^ 64 - 1"

text \<open>Subtraction of \<^verbatim>\<open>uint64_t\<close> values.\<close>

definition sub64 :: "nat \<Rightarrow> nat \<Rightarrow> nat" where
  "sub64 a b = (a + 2 ^ 64 - b) mod 2 ^ 64"

abbreviation available :: "'z FilePiece \<Rightarrow> bytes" where
  "available fp \<equiv> drop (fp_position fp) (fp_data fp)"

subsection \<open>Moving the window\<close>

definition TransitionToRead :: "'z Environment \<Rightarrow> 'z FilePiece \<Rightarrow> 'z FilePiece \<times> unit result" where
  "TransitionToRead env fp =
     (let fp = fp\<lparr>fp_fallback_to_read := True, fp_data := [], fp_null := False, fp_position := 0\<rparr>
      in case ReadCompressed_Reset (env_library env) (fp_file fp) of
           Inl e \<Rightarrow> (fp, Inl e)
         | Inr rc \<Rightarrow> (fp\<lparr>fp_fell_back := rc\<rparr>, Inr ()))"

definition MapRead :: "'z Environment \<Rightarrow> nat \<Rightarrow> nat \<Rightarrow> bytes result" where
  "MapRead env offset sz =
     (if env_mmap env offset sz then Inr (take sz (drop offset (env_file env))) else Inl ErrnoException)"

definition SeekOrThrow :: "'z Environment \<Rightarrow> Desc \<Rightarrow> nat \<Rightarrow> Desc" where
  "SeekOrThrow env fd off = fd\<lparr>d_rest := drop off (env_file env)\<rparr>"

definition MMapShift :: "'z Environment \<Rightarrow> nat \<Rightarrow> 'z FilePiece \<Rightarrow> 'z FilePiece \<times> unit result" where
  "MMapShift env desired_begin fp =
     (let ignored = desired_begin mod env_kPageSize env;
          map_size = (if fp_position fp = ignored \<and> \<not> fp_null fp then 2 * fp_default_map_size fp else fp_default_map_size fp);
          mapped_offset = desired_begin - ignored;
          left = sub64 (fp_total_size fp) mapped_offset;
          mapped_size = (if map_size \<ge> left then left else map_size);
          fp = fp\<lparr>fp_default_map_size := map_size, fp_at_end := fp_at_end fp \<or> map_size \<ge> left\<rparr>
      in case MapRead env mapped_offset mapped_size of
           Inl _ \<Rightarrow>
             TransitionToRead env
               (fp\<lparr>fp_file := (if desired_begin \<noteq> 0 then SeekOrThrow env (fp_file fp) desired_begin else fp_file fp),
                   fp_at_end := False\<rparr>)
         | Inr data \<Rightarrow>
             (fp\<lparr>fp_mapped_offset := mapped_offset, fp_data := data, fp_null := False, fp_position := ignored\<rparr>, Inr ()))"

definition ReadShift :: "'z Environment \<Rightarrow> 'z FilePiece \<Rightarrow> ('z FilePiece \<times> unit result) option" where
  "ReadShift env fp =
     (let fp = (if fp_position fp = length (fp_data fp)
                then fp\<lparr>fp_mapped_offset := fp_mapped_offset fp + length (fp_data fp), fp_position := 0, fp_data := []\<rparr>
                else fp);
          fp = (if length (fp_data fp) = fp_default_map_size fp then
                  if fp_position fp = 0 then fp\<lparr>fp_default_map_size := 2 * fp_default_map_size fp\<rparr>
                  else fp\<lparr>fp_data := available fp, fp_position := 0\<rparr>
                else fp)
      in case ReadCompressed_Read (env_library env) (fp_fell_back fp) (fp_default_map_size fp - length (fp_data fp)) of
           None \<Rightarrow> None
         | Some (Inl e) \<Rightarrow> Some (fp, Inl e)
         | Some (Inr (got, rc)) \<Rightarrow>
             Some (fp\<lparr>fp_fell_back := rc, fp_at_end := fp_at_end fp \<or> got = [], fp_data := fp_data fp @ got\<rparr>, Inr ()))"

text \<open>The search for the last space runs backwards from the end; without one it stops before \<^verbatim>\<open>position_\<close>.\<close>

definition find_last_space :: "'z FilePiece \<Rightarrow> int" where
  "find_last_space fp =
     int (length (fp_data fp)) - 1 - int (find_if (\<lambda>c. kSpaces ! unat c) (rev (available fp)))"

definition Shift :: "'z Environment \<Rightarrow> 'z FilePiece \<Rightarrow> ('z FilePiece \<times> unit result) option" where
  "Shift env fp =
     (if fp_at_end fp then Some (fp, Inl EndOfFileException)
      else
        let desired_begin = fp_position fp + fp_mapped_offset fp
        in case (if \<not> fp_fallback_to_read fp then MMapShift env desired_begin fp else (fp, Inr ())) of
             (fp, Inl e) \<Rightarrow> Some (fp, Inl e)
           | (fp, Inr _) \<Rightarrow>
               (case (if fp_fallback_to_read fp then ReadShift env fp else Some (fp, Inr ())) of
                  Some (fp, Inr _) \<Rightarrow> Some (fp\<lparr>fp_last_space := find_last_space fp\<rparr>, Inr ())
                | r \<Rightarrow> r))"

subsection \<open>Opening a file\<close>

definition InitializeNoRead :: "'z Environment \<Rightarrow> nat \<Rightarrow> Desc \<Rightarrow> 'z FilePiece" where
  "InitializeNoRead env min_buffer fd =
     \<lparr>fp_data = [], fp_null = True, fp_position = 0, fp_last_space = 0, fp_file = fd, fp_total_size = env_SizeFile env,
      fp_default_map_size = env_kPageSize env * max (min_buffer div env_kPageSize env + 1) 2,
      fp_mapped_offset = 0, fp_at_end = False, fp_fallback_to_read = False,
      fp_fell_back = \<lparr>rc_internal = Complete, rc_raw_amount = 0\<rparr>\<rparr>"

text \<open>
  \<^verbatim>\<open>AdvanceOrThrow(fd, 0)\<close> gives the offset of the descriptor, or fails for a pipe. A window that
  begins like a compressed file is given up for reading.
\<close>

definition Initialize :: "'z Environment \<Rightarrow> nat \<Rightarrow> Desc \<Rightarrow> ('z FilePiece \<times> unit result) option" where
  "Initialize env min_buffer fd =
     (let fp = InitializeNoRead env min_buffer fd
      in case (if fp_total_size fp = kBadSize \<or> env_lseek env = None then TransitionToRead env fp
               else (fp\<lparr>fp_mapped_offset := the (env_lseek env)\<rparr>, Inr ())) of
           (fp, Inl e) \<Rightarrow> Some (fp, Inl e)
         | (fp, Inr _) \<Rightarrow>
             (case Shift env fp of
                Some (fp, Inr _) \<Rightarrow>
                  if length (available fp) \<ge> kMagicSize \<and> DetectCompressedMagic (available fp) \<and> \<not> fp_fallback_to_read fp
                  then Some (TransitionToRead env (fp\<lparr>fp_at_end := False\<rparr>))
                  else Some (fp, Inr ())
              | r \<Rightarrow> r))"

subsection \<open>Reading\<close>

definition Consume :: "'z FilePiece \<Rightarrow> nat \<Rightarrow> 'z FilePiece \<times> bytes result" where
  "Consume fp n = (fp\<lparr>fp_position := fp_position fp + n\<rparr>, Inr (take n (available fp)))"

text \<open>
  \<open>skip\<close> is the number of bytes that have been searched before the window moved. A search that
  would begin beyond the window is an access out of bounds.
\<close>

partial_function (option) ReadLine_loop ::
  "'z Environment \<Rightarrow> byte \<Rightarrow> bool \<Rightarrow> nat \<Rightarrow> 'z FilePiece \<Rightarrow> ('z FilePiece \<times> bytes result) option"
where
  "ReadLine_loop env delim strip_cr skip fp =
     (let av = available fp; i = skip + std_find delim (drop skip av)
      in if skip > length av then Some (fp, Inl OutOfBounds)
         else if i \<noteq> length av then
           (let subtract_cr = (if strip_cr \<and> i > 0 \<and> av ! (i - 1) = carriage_return then 1 else 0)
            in Some (fp\<lparr>fp_position := fp_position fp + i + 1\<rparr>, Inr (take (i - subtract_cr) av)))
         else if fp_at_end fp then
           (if av = [] then Some (fp, Inl EndOfFileException) else Some (Consume fp (length av)))
         else
           (case Shift env fp of
              None \<Rightarrow> None
            | Some (fp, Inl e) \<Rightarrow> Some (fp, Inl e)
            | Some (fp, Inr _) \<Rightarrow> ReadLine_loop env delim strip_cr (length av) fp))"

definition ReadLine :: "'z Environment \<Rightarrow> byte \<Rightarrow> bool \<Rightarrow> 'z FilePiece \<Rightarrow> ('z FilePiece \<times> bytes result) option" where
  "ReadLine env delim strip_cr fp = ReadLine_loop env delim strip_cr 0 fp"

text \<open>The value is \<open>None\<close> where the function returns \<^verbatim>\<open>false\<close>.\<close>

definition ReadLineOrEOF ::
  "'z Environment \<Rightarrow> byte \<Rightarrow> bool \<Rightarrow> 'z FilePiece \<Rightarrow> ('z FilePiece \<times> bytes option result) option"
where
  "ReadLineOrEOF env delim strip_cr fp =
     (case ReadLine env delim strip_cr fp of
        None \<Rightarrow> None
      | Some (fp, Inr to) \<Rightarrow> Some (fp, Inr (Some to))
      | Some (fp, Inl e) \<Rightarrow> Some (fp, if e = EndOfFileException then Inr None else Inl e))"

definition peek :: "'z Environment \<Rightarrow> 'z FilePiece \<Rightarrow> ('z FilePiece \<times> byte result) option" where
  "peek env fp =
     (if fp_position fp = length (fp_data fp) then
        (case Shift env fp of
           None \<Rightarrow> None
         | Some (fp, Inl e) \<Rightarrow> Some (fp, Inl e)
         | Some (fp, Inr _) \<Rightarrow>
             Some (fp, if fp_at_end fp then Inl EndOfFileException else Inr (fp_data fp ! fp_position fp)))
      else Some (fp, Inr (fp_data fp ! fp_position fp)))"

definition get :: "'z Environment \<Rightarrow> 'z FilePiece \<Rightarrow> ('z FilePiece \<times> byte result) option" where
  "get env fp =
     (case peek env fp of
        Some (fp, Inr ret) \<Rightarrow> Some (fp\<lparr>fp_position := fp_position fp + 1\<rparr>, Inr ret)
      | r \<Rightarrow> r)"

partial_function (option) SkipSpaces ::
  "'z Environment \<Rightarrow> bool list \<Rightarrow> 'z FilePiece \<Rightarrow> ('z FilePiece \<times> unit result) option"
where
  "SkipSpaces env delim fp =
     (case (if fp_position fp = length (fp_data fp) then Shift env fp else Some (fp, Inr ())) of
        None \<Rightarrow> None
      | Some (fp, Inl e) \<Rightarrow> Some (fp, Inl e)
      | Some (fp, Inr _) \<Rightarrow>
          if fp_position fp = length (fp_data fp) then Some (fp, Inr ())
          else if \<not> delim ! unat (fp_data fp ! fp_position fp) then Some (fp, Inr ())
          else SkipSpaces env delim (fp\<lparr>fp_position := fp_position fp + 1\<rparr>))"

text \<open>The offset of the delimiter from \<^verbatim>\<open>position_\<close>.\<close>

partial_function (option) FindDelimiterOrEOF_loop ::
  "'z Environment \<Rightarrow> bool list \<Rightarrow> nat \<Rightarrow> 'z FilePiece \<Rightarrow> ('z FilePiece \<times> nat result) option"
where
  "FindDelimiterOrEOF_loop env delim skip fp =
     (let av = available fp; i = skip + find_if (\<lambda>c. delim ! unat c) (drop skip av)
      in if i < length av then Some (fp, Inr i)
         else if fp_at_end fp then
           (if av = [] then Some (fp, Inl EndOfFileException) else Some (fp, Inr (length av)))
         else
           (case Shift env fp of
              None \<Rightarrow> None
            | Some (fp, Inl e) \<Rightarrow> Some (fp, Inl e)
            | Some (fp, Inr _) \<Rightarrow> FindDelimiterOrEOF_loop env delim (length av) fp))"

definition FindDelimiterOrEOF :: "'z Environment \<Rightarrow> bool list \<Rightarrow> 'z FilePiece \<Rightarrow> ('z FilePiece \<times> nat result) option" where
  "FindDelimiterOrEOF env delim fp = FindDelimiterOrEOF_loop env delim 0 fp"

definition ReadDelimited :: "'z Environment \<Rightarrow> bool list \<Rightarrow> 'z FilePiece \<Rightarrow> ('z FilePiece \<times> bytes result) option" where
  "ReadDelimited env delim fp =
     (case SkipSpaces env delim fp of
        None \<Rightarrow> None
      | Some (fp, Inl e) \<Rightarrow> Some (fp, Inl e)
      | Some (fp, Inr _) \<Rightarrow>
          (case FindDelimiterOrEOF env delim fp of
             None \<Rightarrow> None
           | Some (fp, Inl e) \<Rightarrow> Some (fp, Inl e)
           | Some (fp, Inr n) \<Rightarrow> Some (Consume fp n)))"

text \<open>The loop over the spaces of a line: whether a word follows.\<close>

partial_function (option) SkipSameLine ::
  "'z Environment \<Rightarrow> bool list \<Rightarrow> 'z FilePiece \<Rightarrow> ('z FilePiece \<times> bool result) option"
where
  "SkipSameLine env delim fp =
     (case (if fp_position fp = length (fp_data fp) then Shift env fp else Some (fp, Inr ())) of
        None \<Rightarrow> None
      | Some (fp, Inl e) \<Rightarrow> Some (fp, if e = EndOfFileException then Inr False else Inl e)
      | Some (fp, Inr _) \<Rightarrow>
          if fp_position fp = length (fp_data fp) then Some (fp, Inr False)
          else if \<not> delim ! unat (fp_data fp ! fp_position fp) then Some (fp, Inr True)
          else if fp_data fp ! fp_position fp = newline then Some (fp, Inr False)
          else SkipSameLine env delim (fp\<lparr>fp_position := fp_position fp + 1\<rparr>))"

definition ReadWordSameLine ::
  "'z Environment \<Rightarrow> bool list \<Rightarrow> 'z FilePiece \<Rightarrow> ('z FilePiece \<times> bytes option result) option"
where
  "ReadWordSameLine env delim fp =
     (case SkipSameLine env delim fp of
        None \<Rightarrow> None
      | Some (fp, Inl e) \<Rightarrow> Some (fp, Inl e)
      | Some (fp, Inr False) \<Rightarrow> Some (fp, Inr None)
      | Some (fp, Inr True) \<Rightarrow>
          (case FindDelimiterOrEOF env delim fp of
             None \<Rightarrow> None
           | Some (fp, Inl e) \<Rightarrow> Some (fp, Inl e)
           | Some (fp, Inr n) \<Rightarrow> Some (case Consume fp n of (fp, r) \<Rightarrow> (fp, map_sum id Some r))))"

definition Offset :: "'z FilePiece \<Rightarrow> nat" where
  "Offset fp = fp_position fp + fp_mapped_offset fp"

subsection \<open>Numbers\<close>

text \<open>
  \<^verbatim>\<open>strtol\<close> and \<^verbatim>\<open>strtoul\<close> in base ten: white space, a sign, digits. They return the sign, the digits
  and the number of bytes used, which is 0 when there are no digits.
\<close>

definition strto :: "bytes \<Rightarrow> bool \<times> bytes \<times> nat" where
  "strto s =
     (let ws = takeWhile (\<lambda>c. kSpaces ! unat c) s;
          r = drop (length ws) s;
          sign = (if r \<noteq> [] \<and> (hd r = 43 \<or> hd r = 45) then 1 else 0);
          ds = takeWhile isdigit (drop sign r)
      in (r \<noteq> [] \<and> hd r = 45, ds, if ds = [] then 0 else length ws + sign + length ds))"

definition ParseNumber_long :: "bytes \<Rightarrow> (int \<times> nat) result" where
  "ParseNumber_long str =
     (case strto str of
        (neg, ds, n) \<Rightarrow>
          let v = (if neg then - int (dec_value ds) else int (dec_value ds))
          in if v < - (2 ^ 63) \<or> 2 ^ 63 \<le> v \<or> n = 0 then Inl ParseNumberException else Inr (v, n))"

definition ParseNumber_ulong :: "bytes \<Rightarrow> (u64 \<times> nat) result" where
  "ParseNumber_ulong str =
     (case strto str of
        (neg, ds, n) \<Rightarrow>
          if 2 ^ 64 \<le> dec_value ds \<or> n = 0 then Inl ParseNumberException
          else Inr (if neg then - of_nat (dec_value ds) else of_nat (dec_value ds), n))"

partial_function (option) ReadNumber_loop ::
  "(bytes \<Rightarrow> ('n \<times> nat) result) \<Rightarrow> 'z Environment \<Rightarrow> 'z FilePiece \<Rightarrow> ('z FilePiece \<times> 'n result) option"
where
  "ReadNumber_loop ParseNumber env fp =
     (if fp_last_space fp < int (fp_position fp) then
        if fp_at_end fp then
          if available fp = [] then Some (fp, Inl EndOfFileException)
          else Some (case ParseNumber (available fp) of
                       Inl e \<Rightarrow> (fp, Inl e)
                     | Inr (ret, n) \<Rightarrow> (fp\<lparr>fp_position := fp_position fp + n\<rparr>, Inr ret))
        else
          (case Shift env fp of
             None \<Rightarrow> None
           | Some (fp, Inl e) \<Rightarrow> Some (fp, Inl e)
           | Some (fp, Inr _) \<Rightarrow> ReadNumber_loop ParseNumber env fp)
      else Some (case ParseNumber (available fp) of
                   Inl e \<Rightarrow> (fp, Inl e)
                 | Inr (ret, n) \<Rightarrow> (fp\<lparr>fp_position := fp_position fp + n\<rparr>, Inr ret)))"

definition ReadNumber ::
  "(bytes \<Rightarrow> ('n \<times> nat) result) \<Rightarrow> 'z Environment \<Rightarrow> 'z FilePiece \<Rightarrow> ('z FilePiece \<times> 'n result) option"
where
  "ReadNumber ParseNumber env fp =
     (case SkipSpaces env kSpaces fp of
        None \<Rightarrow> None
      | Some (fp, Inl e) \<Rightarrow> Some (fp, Inl e)
      | Some (fp, Inr _) \<Rightarrow> ReadNumber_loop ParseNumber env fp)"

definition ReadLong :: "'z Environment \<Rightarrow> 'z FilePiece \<Rightarrow> ('z FilePiece \<times> int result) option" where
  "ReadLong = ReadNumber ParseNumber_long"

definition ReadULong :: "'z Environment \<Rightarrow> 'z FilePiece \<Rightarrow> ('z FilePiece \<times> u64 result) option" where
  "ReadULong = ReadNumber ParseNumber_ulong"

subsection \<open>Loops over the lines of a file\<close>

text \<open>
  The loop \<^verbatim>\<open>for (StringPiece l : in)\<close>, which is a \<^verbatim>\<open>LineIterator\<close> that calls \<^verbatim>\<open>ReadLineOrEOF\<close> until
  there is no line: \<open>f\<close> is the body, which may throw or not return.
\<close>

partial_function (option) for_lines ::
  "('s \<Rightarrow> ('s \<times> bytes option result) option) \<Rightarrow> ('a \<Rightarrow> bytes \<Rightarrow> 'a result option) \<Rightarrow> 's \<Rightarrow> 'a \<Rightarrow> ('s \<times> 'a result) option"
where
  "for_lines next_line f s a =
     (case next_line s of
        None \<Rightarrow> None
      | Some (s, Inl e) \<Rightarrow> Some (s, Inl e)
      | Some (s, Inr None) \<Rightarrow> Some (s, Inr a)
      | Some (s, Inr (Some l)) \<Rightarrow>
          (case f a l of
             None \<Rightarrow> None
           | Some (Inl e) \<Rightarrow> Some (s, Inl e)
           | Some (Inr a) \<Rightarrow> for_lines next_line f s a))"

primrec fold_result :: "('a \<Rightarrow> 'b \<Rightarrow> 'a result option) \<Rightarrow> 'a \<Rightarrow> 'b list \<Rightarrow> 'a result option" where
  "fold_result f a [] = Some (Inr a)"
| "fold_result f a (x # xs) =
     (case f a x of
        None \<Rightarrow> None
      | Some (Inl e) \<Rightarrow> Some (Inl e)
      | Some (Inr a) \<Rightarrow> fold_result f a xs)"

text \<open>The lines of a text, a carriage return before a delimiter left out; an unterminated last line counts.\<close>

definition chomp :: "bool \<Rightarrow> bytes \<Rightarrow> bytes" where
  "chomp strip_cr l = (if strip_cr \<and> l \<noteq> [] \<and> last l = carriage_return then butlast l else l)"

definition first_line :: "byte \<Rightarrow> bool \<Rightarrow> bytes \<Rightarrow> bytes \<times> bytes" where
  "first_line delim strip_cr str =
     (if delim \<in> set str
      then (chomp strip_cr (takeWhile (\<lambda>c. c \<noteq> delim) str), tl (dropWhile (\<lambda>c. c \<noteq> delim) str))
      else (str, []))"

lemma length_first_line: "str \<noteq> [] \<Longrightarrow> length (snd (first_line delim strip_cr str)) < length str"
  using length_dropWhile_le [of "\<lambda>c. c \<noteq> delim" str]
  by (cases str) (auto simp: first_line_def simp del: length_dropWhile_le)

function text_lines :: "byte \<Rightarrow> bool \<Rightarrow> bytes \<Rightarrow> bytes list" where
  "text_lines delim strip_cr str =
     (if str = [] then []
      else fst (first_line delim strip_cr str) # text_lines delim strip_cr (snd (first_line delim strip_cr str)))"
  by pat_completeness auto
termination
  by (relation "measure (\<lambda>(_, _, str). length str)") (simp_all add: length_first_line)

declare text_lines.simps [simp del]

locale line_source =
  fixes next_line :: "'s \<Rightarrow> ('s \<times> bytes option result) option"
    and content :: "'s \<Rightarrow> bytes \<Rightarrow> bool"
    and delim :: byte
    and strip_cr :: bool
  assumes next_line_end: "content s [] \<Longrightarrow> \<exists>s'. next_line s = Some (s', Inr None) \<and> content s' []"
    and next_line_more: "content s str \<Longrightarrow> str \<noteq> [] \<Longrightarrow>
      \<exists>s'. next_line s = Some (s', Inr (Some (fst (first_line delim strip_cr str)))) \<and>
           content s' (snd (first_line delim strip_cr str))"
begin

lemma for_lines_fold:
  "content s str \<Longrightarrow> \<exists>s'. for_lines next_line f s a = map_option (Pair s') (fold_result f a (text_lines delim strip_cr str))"
proof (induction "length str" arbitrary: str s a rule: less_induct)
  case less
  show ?case
  proof (cases "str = []")
    case True
    then show ?thesis using next_line_end [of s] less.prems by (subst for_lines.simps) (auto simp: text_lines.simps)
  next
    case False
    obtain s1 where s1: "next_line s = Some (s1, Inr (Some (fst (first_line delim strip_cr str))))"
      "content s1 (snd (first_line delim strip_cr str))" using next_line_more [OF less.prems False] by blast
    show ?thesis
    proof (cases "f a (fst (first_line delim strip_cr str))")
      case None
      then show ?thesis using s1 False by (subst for_lines.simps) (simp add: text_lines.simps [of delim strip_cr str])
    next
      case (Some r)
      then show ?thesis using s1 False less.hyps [OF length_first_line [OF False] s1(2)]
        by (subst for_lines.simps) (cases r, simp_all add: text_lines.simps [of delim strip_cr str])
    qed
  qed
qed

end

subsection \<open>What a FilePiece has still to deliver\<close>

text \<open>
  The kernel grants the mappings of the file, or none. (When it refuses one after having granted
  others the code is not safe, see \<open>ReadLine_out_of_bounds\<close>.)
\<close>

definition env_ok :: "'z Environment \<Rightarrow> (MagicResult \<Rightarrow> 'z \<Rightarrow> bytes \<Rightarrow> bytes \<Rightarrow> bytes \<Rightarrow> bool) \<Rightarrow> bool" where
  "env_ok env decodes \<longleftrightarrow>
     library_ok (env_library env) decodes \<and> kMagicSize \<le> env_kPageSize env \<and>
     ((\<forall>off sz. 0 < sz \<longrightarrow> env_mmap env off sz) \<or> (\<forall>off sz. \<not> env_mmap env off sz)) \<and>
     (env_SizeFile env = kBadSize \<or> env_SizeFile env = length (env_file env) \<and> length (env_file env) < kBadSize)"

definition mapped :: "'z Environment \<Rightarrow> 'z FilePiece \<Rightarrow> bytes \<Rightarrow> bool" where
  "mapped env fp content \<longleftrightarrow>
     \<not> fp_null fp \<and> (\<forall>off sz. 0 < sz \<longrightarrow> env_mmap env off sz) \<and>
     fp_total_size fp = length (env_file env) \<and> length (env_file env) < kBadSize \<and>
     env_kPageSize env dvd fp_mapped_offset fp \<and>
     fp_mapped_offset fp + length (fp_data fp) \<le> length (env_file env) \<and>
     fp_data fp = take (length (fp_data fp)) (drop (fp_mapped_offset fp) (env_file env)) \<and>
     content = drop (fp_mapped_offset fp + fp_position fp) (env_file env) \<and>
     (if fp_at_end fp then fp_mapped_offset fp + length (fp_data fp) = length (env_file env)
      else fp_mapped_offset fp + length (fp_data fp) < length (env_file env) \<and> length (fp_data fp) = fp_default_map_size fp)"

definition buffered ::
  "'z Environment \<Rightarrow> (MagicResult \<Rightarrow> 'z \<Rightarrow> bytes \<Rightarrow> bytes \<Rightarrow> bytes \<Rightarrow> bool) \<Rightarrow> 'z FilePiece \<Rightarrow> bytes \<Rightarrow> bool"
where
  "buffered env decodes fp content \<longleftrightarrow>
     length (fp_data fp) \<le> fp_default_map_size fp \<and>
     (\<exists>future. holds (env_library env) decodes (rc_internal (fp_fell_back fp)) future \<and>
        content = available fp @ future \<and> (fp_at_end fp \<longrightarrow> future = []))"

definition stands ::
  "'z Environment \<Rightarrow> (MagicResult \<Rightarrow> 'z \<Rightarrow> bytes \<Rightarrow> bytes \<Rightarrow> bytes \<Rightarrow> bool) \<Rightarrow> 'z FilePiece \<Rightarrow> bytes \<Rightarrow> bool"
where
  "stands env decodes fp content \<longleftrightarrow>
     env_ok env decodes \<and> fp_position fp \<le> length (fp_data fp) \<and> 0 < fp_default_map_size fp \<and>
     (if fp_fallback_to_read fp then buffered env decodes fp content else mapped env fp content)"

definition last_space_ok :: "'z FilePiece \<Rightarrow> bool" where
  "last_space_ok fp \<longleftrightarrow>
     (available fp \<noteq> [] \<and> int (fp_position fp) \<le> fp_last_space fp \<longrightarrow>
        fp_last_space fp < int (length (fp_data fp)) \<and> kSpaces ! unat (fp_data fp ! nat (fp_last_space fp)))"

definition delivers ::
  "'z Environment \<Rightarrow> (MagicResult \<Rightarrow> 'z \<Rightarrow> bytes \<Rightarrow> bytes \<Rightarrow> bytes \<Rightarrow> bool) \<Rightarrow> 'z FilePiece \<Rightarrow> bytes \<Rightarrow> bool"
where
  "delivers env decodes fp content \<longleftrightarrow> stands env decodes fp content \<and> last_space_ok fp"

lemma sub64_le: "b \<le> a \<Longrightarrow> a < 2 ^ 64 \<Longrightarrow> sub64 a b = a - b"
  unfolding sub64_def by (simp only: diff_add_assoc2 mod_add_self2) simp

lemma mapped_available:
  assumes "mapped env fp content" and "fp_position fp \<le> length (fp_data fp)"
  shows "content = available fp @ drop (fp_mapped_offset fp + length (fp_data fp)) (env_file env)"
proof -
  let ?w = "drop (fp_mapped_offset fp) (env_file env)"
  have d: "fp_data fp = take (length (fp_data fp)) ?w" and c: "content = drop (fp_position fp) ?w"
    using assms(1) by (simp_all only: mapped_def drop_drop add.commute)
  have "?w = fp_data fp @ drop (length (fp_data fp)) ?w" using d append_take_drop_id [of "length (fp_data fp)" ?w] by simp
  then have "content = drop (fp_position fp) (fp_data fp @ drop (length (fp_data fp)) ?w)" using c by simp
  then show ?thesis using assms(2) by (simp add: add.commute)
qed

lemma stands_available:
  assumes "stands env decodes fp content"
  obtains future where "content = available fp @ future" and "fp_at_end fp \<longrightarrow> future = []"
proof (cases "fp_fallback_to_read fp")
  case True
  then show ?thesis using assms that by (auto simp: stands_def buffered_def)
next
  case False
  then have m: "mapped env fp content" "fp_position fp \<le> length (fp_data fp)" using assms by (simp_all add: stands_def)
  show ?thesis
  proof (rule that [OF mapped_available [OF m]], rule impI)
    assume "fp_at_end fp"
    then show "drop (fp_mapped_offset fp + length (fp_data fp)) (env_file env) = []" using m(1) by (simp add: mapped_def)
  qed
qed

lemma find_last_space_ok:
  assumes "fp_position fp \<le> length (fp_data fp)" and "int (fp_position fp) \<le> find_last_space fp"
  shows "find_last_space fp < int (length (fp_data fp))" and "kSpaces ! unat (fp_data fp ! nat (find_last_space fp))"
proof -
  let ?p = "\<lambda>c. kSpaces ! unat (c :: byte)" and ?av = "available fp"
  let ?k = "find_if ?p (rev ?av)"
  have k: "?k < length (rev ?av)" using assms by (simp add: find_last_space_def)
  then have "?p (rev ?av ! ?k)" by (rule find_if_nth)
  moreover have "rev ?av ! ?k = fp_data fp ! nat (find_last_space fp)"
    using k assms(1) by (simp add: rev_nth find_last_space_def) (rule arg_cong [where f = "nth (fp_data fp)"], linarith)
  ultimately show "kSpaces ! unat (fp_data fp ! nat (find_last_space fp))" by simp
  show "find_last_space fp < int (length (fp_data fp))" by (simp add: find_last_space_def)
qed

lemma delivers_last_space: "stands env decodes fp content \<Longrightarrow> delivers env decodes (fp\<lparr>fp_last_space := find_last_space fp\<rparr>) content"
  unfolding delivers_def
proof
  assume s: "stands env decodes fp content"
  moreover have "stands env decodes (fp\<lparr>fp_last_space := find_last_space fp\<rparr>) content = stands env decodes fp content"
    by (cases fp) (simp only: stands_def mapped_def buffered_def FilePiece.simps)
  ultimately show "stands env decodes (fp\<lparr>fp_last_space := find_last_space fp\<rparr>) content" by simp
  have "fp_position fp \<le> length (fp_data fp)" using s by (simp add: stands_def)
  then show "last_space_ok (fp\<lparr>fp_last_space := find_last_space fp\<rparr>)"
    using find_last_space_ok [of fp] by (simp add: last_space_ok_def)
qed

subsection \<open>Shift keeps the content and makes progress\<close>

definition progress :: "'z FilePiece \<Rightarrow> 'z FilePiece \<Rightarrow> bool" where
  "progress fp fp' \<longleftrightarrow> length (available fp) \<le> length (available fp') \<and>
     (fp_at_end fp' \<or> length (available fp) < length (available fp'))"

lemma ReadShift_good:
  assumes "stands env decodes fp content" and "fp_fallback_to_read fp" and "\<not> fp_at_end fp"
  shows "\<exists>fp'. ReadShift env fp = Some (fp', Inr ()) \<and> stands env decodes fp' content \<and> fp_fallback_to_read fp' \<and> progress fp fp'"
proof -
  let ?fp1 = "if fp_position fp = length (fp_data fp)
      then fp\<lparr>fp_mapped_offset := fp_mapped_offset fp + length (fp_data fp), fp_position := 0, fp_data := []\<rparr> else fp"
  let ?fp2 = "if length (fp_data ?fp1) = fp_default_map_size ?fp1 then
      if fp_position ?fp1 = 0 then ?fp1\<lparr>fp_default_map_size := 2 * fp_default_map_size ?fp1\<rparr>
      else ?fp1\<lparr>fp_data := available ?fp1, fp_position := 0\<rparr> else ?fp1"
  obtain fp2 where fp2: "fp2 = ?fp2" by simp
  obtain future where f: "holds (env_library env) decodes (rc_internal (fp_fell_back fp)) future" "content = available fp @ future"
    and lib: "library_ok (env_library env) decodes"
    using assms by (auto simp: stands_def buffered_def env_ok_def)
  have av: "available fp2 = available fp" "fp_fell_back fp2 = fp_fell_back fp" "fp_at_end fp2 = fp_at_end fp"
    "fp_fallback_to_read fp2 = fp_fallback_to_read fp" by (simp_all add: fp2)
  have room: "length (fp_data fp2) < fp_default_map_size fp2" "fp_position fp2 \<le> length (fp_data fp2)"
    using assms(1,2) by (auto simp: fp2 stands_def buffered_def)
  obtain bs rc future' where r: "ReadCompressed_Read (env_library env) (fp_fell_back fp) (fp_default_map_size fp2 - length (fp_data fp2)) = Some (Inr (bs, rc))"
      "future = bs @ future'" "holds (env_library env) decodes (rc_internal rc) future'"
      "length bs \<le> fp_default_map_size fp2 - length (fp_data fp2)" "bs = [] \<longrightarrow> future = []"
    using ReadCompressed_Read_good [OF lib f(1), of "fp_default_map_size fp2 - length (fp_data fp2)"] room(1) by auto
  have "ReadShift env fp = Some (fp2\<lparr>fp_fell_back := rc, fp_at_end := fp_at_end fp2 \<or> bs = [], fp_data := fp_data fp2 @ bs\<rparr>, Inr ())"
    using r(1) unfolding ReadShift_def Let_def fp2 [symmetric] av(2) [symmetric] by simp
  moreover have "stands env decodes (fp2\<lparr>fp_fell_back := rc, fp_at_end := fp_at_end fp2 \<or> bs = [], fp_data := fp_data fp2 @ bs\<rparr>) content"
    using assms r room av f(2) by (auto simp: stands_def buffered_def)
  moreover have "progress fp (fp2\<lparr>fp_fell_back := rc, fp_at_end := fp_at_end fp2 \<or> bs = [], fp_data := fp_data fp2 @ bs\<rparr>)"
    using arg_cong [OF av(1), of length] room(2) by (cases bs) (simp_all add: progress_def)
  ultimately show ?thesis using av(4) assms(2) by auto
qed

lemma TransitionToRead_good:
  assumes "env_ok env decodes" and "fd_ok (fp_file fp)" and "file_content (env_library env) decodes (d_rest (fp_file fp)) content"
    and "0 < fp_default_map_size fp" and "\<not> fp_at_end fp"
  shows "\<exists>fp'. TransitionToRead env fp = (fp', Inr ()) \<and> stands env decodes fp' content \<and> fp_fallback_to_read fp' \<and>
    \<not> fp_at_end fp' \<and> fp_data fp' = [] \<and> fp_position fp' = 0 \<and> fp_last_space fp' = fp_last_space fp"
proof -
  have lib: "library_ok (env_library env) decodes" using assms(1) by (simp add: env_ok_def)
  obtain rc where "ReadCompressed_Reset (env_library env) (fp_file fp) = Inr rc" "holds (env_library env) decodes (rc_internal rc) content"
    using ReadCompressed_Reset_good [OF lib assms(2,3)] by blast
  then show ?thesis using assms by (simp add: TransitionToRead_def Let_def stands_def buffered_def)
qed

text \<open>The window moves on by at least a page, or grows.\<close>

lemma MMapShift_window:
  assumes m: "mapped env fp content" and pos: "fp_position fp \<le> length (fp_data fp)" and e: "\<not> fp_at_end fp"
    and grows: "0 < fp_default_map_size fp"
  defines "desired \<equiv> fp_position fp + fp_mapped_offset fp"
  defines "ignored \<equiv> desired mod env_kPageSize env"
  defines "map_size \<equiv> (if fp_position fp = ignored \<and> \<not> fp_null fp then 2 * fp_default_map_size fp else fp_default_map_size fp)"
  shows "fp_mapped_offset fp + length (fp_data fp) < desired - ignored + map_size" and "desired - ignored < length (env_file env)"
proof -
  let ?P = "env_kPageSize env" and ?o = "fp_mapped_offset fp" and ?x = "fp_position fp"
  have dv: "?P dvd ?o" and len: "length (fp_data fp) = fp_default_map_size fp" "?o + length (fp_data fp) < length (env_file env)"
    "\<not> fp_null fp" using m e by (simp_all add: mapped_def)
  have ig: "ignored = ?x mod ?P"
  proof -
    obtain k where "?o = ?P * k" using dv by (rule dvdE)
    then show ?thesis by (simp add: ignored_def desired_def)
  qed
  show "desired - ignored < length (env_file env)" using len pos by (simp add: desired_def)
  show "?o + length (fp_data fp) < desired - ignored + map_size"
  proof (cases "?x = ignored")
    case True
    then show ?thesis using len grows by (simp add: map_size_def desired_def)
  next
    case False
    then have "ignored < ?x" using ig mod_less_eq_dividend [of ?x ?P] by linarith
    then show ?thesis using len False by (simp add: map_size_def desired_def)
  qed
qed

lemma MMapShift_good:
  assumes st: "stands env decodes fp content" and mm: "\<not> fp_fallback_to_read fp" and e: "\<not> fp_at_end fp"
  shows "\<exists>fp'. MMapShift env (fp_position fp + fp_mapped_offset fp) fp = (fp', Inr ()) \<and> stands env decodes fp' content \<and>
    \<not> fp_fallback_to_read fp' \<and> progress fp fp'"
proof -
  let ?d = "fp_position fp + fp_mapped_offset fp"
  define ig where "ig = ?d mod env_kPageSize env"
  define off where "off = ?d - ig"
  have d: "off + ig = ?d" by (simp add: off_def ig_def)
  define ms where "ms = (if fp_position fp = ig \<and> \<not> fp_null fp then 2 * fp_default_map_size fp else fp_default_map_size fp)"
  define sz where "sz = (if ms \<ge> length (env_file env) - (off) then length (env_file env) - (off) else ms)"
  let ?fp' = "fp\<lparr>fp_default_map_size := ms, fp_at_end := ms \<ge> length (env_file env) - (off), fp_mapped_offset := off,
    fp_data := take sz (drop (off) (env_file env)), fp_null := False, fp_position := ig\<rparr>"
  have m: "mapped env fp content" "fp_position fp \<le> length (fp_data fp)" and dms: "0 < fp_default_map_size fp"
    using st mm by (simp_all add: stands_def)
  have all: "\<forall>off sz. 0 < sz \<longrightarrow> env_mmap env off sz" and tot: "fp_total_size fp = length (env_file env)" "length (env_file env) < 2 ^ 64"
    using m(1) by (simp_all add: mapped_def kBadSize_def)
  have win: "fp_mapped_offset fp + length (fp_data fp) < off + ms" "off < length (env_file env)"
    using MMapShift_window [OF m e dms] by (simp_all only: ms_def off_def ig_def)
  have "0 < ms" using dms by (simp add: ms_def)
  then have sz: "0 < sz" "length (take sz (drop (off) (env_file env))) = sz" using win by (auto simp: sz_def)
  have "MapRead env (off) sz = Inr (take sz (drop (off) (env_file env)))" using all sz(1) by (simp add: MapRead_def)
  then have run: "MMapShift env ?d fp = (?fp', Inr ())"
    unfolding MMapShift_def Let_def ig_def [symmetric] off_def [symmetric] ms_def [symmetric] tot(1) sub64_le [OF less_imp_le [OF win(2)] tot(2)] sz_def [symmetric]
    using e by simp
  have inside: "?d \<le> fp_mapped_offset fp + length (fp_data fp)" using m(2) by simp
  have reach: "?d \<le> off + sz" "fp_mapped_offset fp + length (fp_data fp) \<le> off + sz"
    "ms < length (env_file env) - (off) \<Longrightarrow> fp_mapped_offset fp + length (fp_data fp) < off + sz"
    using win inside m(1) by (auto simp: sz_def mapped_def)
  have "mapped env ?fp' content"
  proof -
    have "env_kPageSize env dvd off" unfolding off_def ig_def by (rule dvd_minus_mod)
    moreover have "off + sz \<le> length (env_file env)" using win(2) by (auto simp: sz_def)
    moreover have "ms \<ge> length (env_file env) - (off) \<Longrightarrow> off + sz = length (env_file env)" using win(2) by (simp add: sz_def)
    moreover have "\<not> ms \<ge> length (env_file env) - (off) \<Longrightarrow> sz = ms \<and> off + sz < length (env_file env)" using win(2) by (simp add: sz_def)
    moreover have "content = drop (off + ig) (env_file env)" unfolding d add.commute [of "fp_position fp"] using m(1) by (simp only: mapped_def)
    ultimately show ?thesis using m(1) sz(2) all tot(1)
      by (cases "length (env_file env) - off \<le> ms") (simp_all add: mapped_def)
  qed
  moreover have "ig \<le> sz" using reach(1) d by linarith
  ultimately have "stands env decodes ?fp' content" using st mm sz(2) \<open>0 < ms\<close> by (simp add: stands_def)
  moreover have "progress fp ?fp'" using reach(2,3) sz(2) d m(2)
    by (cases "ms < length (env_file env) - off") (auto simp: progress_def)
  ultimately show ?thesis using run mm by auto
qed

lemma Shift_good:
  assumes "stands env decodes fp content" and "\<not> fp_at_end fp"
  shows "\<exists>fp'. Shift env fp = Some (fp', Inr ()) \<and> delivers env decodes fp' content \<and> progress fp fp' \<and>
    fp_fallback_to_read fp' = fp_fallback_to_read fp"
proof (cases "fp_fallback_to_read fp")
  case True
  obtain fp' where "ReadShift env fp = Some (fp', Inr ())" "stands env decodes fp' content" "progress fp fp'" "fp_fallback_to_read fp'"
    using ReadShift_good [OF assms(1) True assms(2)] by blast
  then show ?thesis using assms(2) True delivers_last_space [of env decodes fp' content]
    by (simp add: Shift_def progress_def)
next
  case False
  obtain fp' where "MMapShift env (fp_position fp + fp_mapped_offset fp) fp = (fp', Inr ())" "stands env decodes fp' content"
      "\<not> fp_fallback_to_read fp'" "progress fp fp'"
    using MMapShift_good [OF assms(1) False assms(2)] by blast
  then show ?thesis using assms(2) False delivers_last_space [of env decodes fp' content]
    by (simp add: Shift_def progress_def)
qed

subsection \<open>Lines\<close>

lemma stands_shift_induct [consumes 1, case_names at_end shift]:
  assumes "stands env decodes fp content"
    and "\<And>fp. stands env decodes fp content \<Longrightarrow> fp_at_end fp \<Longrightarrow> P fp"
    and "\<And>fp fp'. stands env decodes fp content \<Longrightarrow> \<not> fp_at_end fp \<Longrightarrow> Shift env fp = Some (fp', Inr ()) \<Longrightarrow>
      delivers env decodes fp' content \<Longrightarrow> progress fp fp' \<Longrightarrow> P fp' \<Longrightarrow> P fp"
  shows "P fp"
  using assms(1)
proof (induction "length content + (if fp_at_end fp then 0 else 1) - length (available fp)" arbitrary: fp rule: less_induct)
  case less
  show ?case
  proof (cases "fp_at_end fp")
    case False
    obtain fp' where fp': "Shift env fp = Some (fp', Inr ())" "delivers env decodes fp' content" "progress fp fp'"
      using Shift_good [OF less.prems False] by blast
    have st: "stands env decodes fp' content" using fp'(2) by (simp add: delivers_def)
    have "length (available fp) \<le> length content"
      using less.prems by (rule stands_available) simp
    then have "length content + (if fp_at_end fp' then 0 else 1) - length (available fp') <
      length content + (if fp_at_end fp then 0 else 1) - length (available fp)"
      using fp'(3) False by (auto simp: progress_def)
    then have "P fp'" using st by (rule less.hyps)
    then show ?thesis by (rule assms(3) [OF less.prems False fp'])
  qed (rule assms(2) [OF less.prems])
qed

lemma delivers_advance:
  assumes "delivers env decodes fp content" and "n \<le> length (available fp)"
  shows "delivers env decodes (fp\<lparr>fp_position := fp_position fp + n\<rparr>) (drop n content)"
proof -
  have "stands env decodes (fp\<lparr>fp_position := fp_position fp + n\<rparr>) (drop n content)"
  proof (cases "fp_fallback_to_read fp")
    case True
    then show ?thesis using assms by (auto simp: delivers_def stands_def buffered_def add.commute)
  next
    case False
    then show ?thesis using assms by (auto simp: delivers_def stands_def mapped_def ac_simps)
  qed
  moreover have "last_space_ok (fp\<lparr>fp_position := fp_position fp + n\<rparr>)"
    using assms by (auto simp: delivers_def last_space_ok_def)
  ultimately show ?thesis by (simp add: delivers_def)
qed

lemma chomp_take:
  "i \<le> length av \<Longrightarrow> chomp strip_cr (take i av) =
     take (i - (if strip_cr \<and> i > 0 \<and> av ! (i - 1) = carriage_return then 1 else 0)) av"
  by (cases i) (auto simp: chomp_def take_Suc_conv_app_nth)

lemma std_find_skip:
  assumes "skip \<le> length av" and "delim \<notin> set (take skip av)"
  shows "skip + std_find delim (drop skip av) = std_find delim av"
proof -
  have "std_find delim (take skip av @ drop skip av) = skip + std_find delim (drop skip av)"
    using assms by (auto simp: std_find_def find_if_append simp del: append_take_drop_id)
  then show ?thesis by simp
qed

lemma ReadLine_found:
  assumes "delivers env decodes fp content" and "delim \<in> set (available fp)" and "skip \<le> length (available fp)"
    and "delim \<notin> set (take skip (available fp))"
  shows "\<exists>fp'. ReadLine_loop env delim strip_cr skip fp = Some (fp', Inr (fst (first_line delim strip_cr content))) \<and>
    delivers env decodes fp' (snd (first_line delim strip_cr content))"
proof -
  let ?av = "available fp" and ?i = "std_find delim (available fp)"
  have "stands env decodes fp content" using assms(1) by (simp add: delivers_def)
  then obtain future where c: "content = ?av @ future" using stands_available by blast
  have i: "?i < length ?av" using assms(2) by (simp only: scan_simps)
  have "std_find delim content = ?i" "delim \<in> set content" using assms(2) c by (auto simp: std_find_def find_if_append)
  then have "first_line delim strip_cr content = (chomp strip_cr (take ?i content), tl (drop ?i content))"
    by (simp only: first_line_def if_True take_std_find [symmetric] drop_std_find [symmetric])
  then have "first_line delim strip_cr content = (chomp strip_cr (take ?i ?av), drop (Suc ?i) content)"
    using i c by (simp add: drop_Suc tl_drop)
  moreover have "delivers env decodes (fp\<lparr>fp_position := fp_position fp + ?i + 1\<rparr>) (drop (Suc ?i) content)"
    using delivers_advance [OF assms(1), of "Suc ?i"] i by simp
  moreover have "\<not> skip > length ?av" "?i \<noteq> length ?av" using i assms(3) by linarith+
  then have "ReadLine_loop env delim strip_cr skip fp =
      Some (fp\<lparr>fp_position := fp_position fp + ?i + 1\<rparr>, Inr (chomp strip_cr (take ?i ?av)))"
    by (subst ReadLine_loop.simps)
      (simp only: Let_def std_find_skip [OF assms(3,4)] chomp_take [OF less_imp_le [OF i]] if_False if_True not_False_eq_True)
  ultimately show ?thesis by (simp only: fst_conv snd_conv) blast
qed

lemma ReadLine_loop_good:
  assumes "stands env decodes fp content"
  shows "last_space_ok fp \<Longrightarrow> skip \<le> length (available fp) \<Longrightarrow> delim \<notin> set (take skip (available fp)) \<Longrightarrow>
    \<exists>fp'. (if content = [] then ReadLine_loop env delim strip_cr skip fp = Some (fp', Inl EndOfFileException) \<and> delivers env decodes fp' []
           else ReadLine_loop env delim strip_cr skip fp = Some (fp', Inr (fst (first_line delim strip_cr content))) \<and>
             delivers env decodes fp' (snd (first_line delim strip_cr content)))"
  using assms
proof (induction arbitrary: skip rule: stands_shift_induct)
  case (at_end fp)
  then have dl: "delivers env decodes fp content" and c: "content = available fp"
    by (auto simp: delivers_def elim: stands_available)
  show ?case
  proof (cases "delim \<in> set (available fp)")
    case True
    then show ?thesis using ReadLine_found [OF dl True at_end(4,5), of strip_cr] c by auto
  next
    case False
    then have run: "ReadLine_loop env delim strip_cr skip fp =
      (if available fp = [] then Some (fp, Inl EndOfFileException) else Some (Consume fp (length (available fp))))"
      using at_end(2,4) std_find_skip [OF at_end(4,5)] by (subst ReadLine_loop.simps) (simp add: scan_simps del: drop_eq_Nil length_drop)
    show ?thesis
      using delivers_advance [OF dl order_refl] dl c False unfolding run by (auto simp: Consume_def first_line_def)
  qed
next
  case (shift fp fp')
  then have dl: "delivers env decodes fp content" by (simp add: delivers_def)
  show ?case
  proof (cases "delim \<in> set (available fp)")
    case True
    then have "content \<noteq> []" using shift(1) by (auto elim!: stands_available)
    then show ?thesis using ReadLine_found [OF dl True shift(8,9), of strip_cr] by auto
  next
    case False
    have run: "ReadLine_loop env delim strip_cr skip fp = ReadLine_loop env delim strip_cr (length (available fp)) fp'"
      using False shift(2,3,8) std_find_skip [OF shift(8,9)]
      by (subst ReadLine_loop.simps) (simp add: scan_simps del: drop_eq_Nil length_drop)
    have st: "stands env decodes fp' content" "last_space_ok fp'" using shift(4) by (simp_all add: delivers_def)
    obtain x y where xy: "content = available fp @ x" "content = available fp' @ y"
      using shift(1) st(1) stands_available by metis
    have len: "length (available fp) \<le> length (available fp')" using shift(5) by (simp only: progress_def)
    then have "take (length (available fp)) (available fp') = available fp"
      using xy by (metis append_eq_conv_conj take_append diff_is_0_eq take0 append_Nil2)
    then have "delim \<notin> set (take (length (available fp)) (available fp'))" using False by simp
    from shift(6) [OF st(2) len this] show ?thesis unfolding run .
  qed
qed

lemma ReadLine_good:
  assumes "delivers env decodes fp content"
  shows "\<exists>fp'. (if content = [] then ReadLine env delim strip_cr fp = Some (fp', Inl EndOfFileException) \<and> delivers env decodes fp' []
           else ReadLine env delim strip_cr fp = Some (fp', Inr (fst (first_line delim strip_cr content))) \<and>
             delivers env decodes fp' (snd (first_line delim strip_cr content)))"
proof -
  have "stands env decodes fp content" "last_space_ok fp" using assms by (simp_all add: delivers_def)
  then show ?thesis unfolding ReadLine_def by (rule ReadLine_loop_good) simp_all
qed

interpretation fp_lines: line_source "ReadLineOrEOF env delim strip_cr" "delivers env decodes" delim strip_cr for env decodes delim strip_cr
proof
  fix s :: "'a FilePiece"
  assume "delivers env decodes s []"
  from ReadLine_good [OF this, of delim strip_cr]
  show "\<exists>s'. ReadLineOrEOF env delim strip_cr s = Some (s', Inr None) \<and> delivers env decodes s' []"
    by (auto simp: ReadLineOrEOF_def)
next
  fix s :: "'a FilePiece" and str
  assume "delivers env decodes s str" "str \<noteq> []"
  from ReadLine_good [OF this(1), of delim strip_cr] this(2)
  show "\<exists>s'. ReadLineOrEOF env delim strip_cr s = Some (s', Inr (Some (fst (first_line delim strip_cr str)))) \<and>
      delivers env decodes s' (snd (first_line delim strip_cr str))"
    by (auto simp: ReadLineOrEOF_def)
qed

subsection \<open>A file that has just been opened\<close>

text \<open>
  The descriptor is a pipe, or a regular file at an offset that \<^verbatim>\<open>lseek\<close> reports. A compressed
  file is not shorter than the signature that is looked for.
\<close>

definition opens ::
  "'z Environment \<Rightarrow> (MagicResult \<Rightarrow> 'z \<Rightarrow> bytes \<Rightarrow> bytes \<Rightarrow> bytes \<Rightarrow> bool) \<Rightarrow> Desc \<Rightarrow> bytes \<Rightarrow> bool"
where
  "opens env decodes fd content \<longleftrightarrow>
     env_ok env decodes \<and> fd_ok fd \<and> file_content (env_library env) decodes (d_rest fd) content \<and>
     (DetectMagic (d_rest fd) \<noteq> UTIL_UNKNOWN \<longrightarrow> kMagicSize \<le> length (d_rest fd)) \<and>
     (env_SizeFile env = kBadSize \<or> env_lseek env = None \<or>
      (\<exists>off. env_lseek env = Some off \<and> off \<le> length (env_file env) \<and> d_rest fd = drop off (env_file env)))"

lemma DetectCompressedMagic_prefix:
  assumes "kMagicSize \<le> length h"
  shows "DetectCompressedMagic h \<longleftrightarrow> DetectMagic (h @ t) \<noteq> UTIL_UNKNOWN"
proof -
  have "DetectMagic (take kMagicSize h @ (drop kMagicSize h @ t)) = DetectMagic (take kMagicSize h)"
    using assms by (intro DetectMagic_prefix) simp
  then have "DetectMagic (h @ t) = DetectMagic (take kMagicSize h)" by (simp only: append.assoc [symmetric] append_take_drop_id)
  then show ?thesis by (simp add: DetectCompressedMagic_def)
qed

lemma Shift_first_refused:
  assumes o: "opens env decodes fd content" and off: "d_rest fd = drop off (env_file env)" "off \<le> length (env_file env)"
    and sz: "env_SizeFile env = length (env_file env)" "length (env_file env) < kBadSize"
    and refused: "\<not> env_mmap env (off - off mod env_kPageSize env) (min (length (env_file env) - (off - off mod env_kPageSize env)) (fp_default_map_size fp))"
    and fp: "fp = (InitializeNoRead env min_buffer fd)\<lparr>fp_mapped_offset := off\<rparr>"
  shows "\<exists>fp'. Shift env fp = Some (fp', Inr ()) \<and> delivers env decodes fp' content \<and> fp_fallback_to_read fp'"
proof -
  have fields: "fp_null fp" "fp_position fp = 0" "fp_file fp = fd" "fp_mapped_offset fp = off" "\<not> fp_at_end fp" "\<not> fp_fallback_to_read fp"
    "fp_total_size fp = env_SizeFile env" "env_kPageSize env * 2 \<le> fp_default_map_size fp"
    by (simp_all add: fp InitializeNoRead_def)
  have page: "0 < env_kPageSize env" using o by (auto simp: opens_def env_ok_def kMagicSize_def)
  have fd: "(if off \<noteq> 0 then SeekOrThrow env fd off else fd) = fd" using off(1) by (simp add: SeekOrThrow_def)
  obtain fp1 where m: "MMapShift env off fp = TransitionToRead env fp1" and fp1: "fp_file fp1 = fd" "\<not> fp_at_end fp1"
      "fp_default_map_size fp1 = fp_default_map_size fp"
  proof -
    have sub: "sub64 (length (env_file env)) (off - off mod env_kPageSize env) = length (env_file env) - (off - off mod env_kPageSize env)"
      using off(2) sz(2) by (intro sub64_le) (simp_all add: kBadSize_def)
    show thesis
      by (rule that [of "fp\<lparr>fp_file := fd, fp_at_end := False\<rparr>"])
        (use fd refused in \<open>simp_all add: MMapShift_def Let_def MapRead_def fields sz(1) sub min_def cong: if_cong split: if_splits\<close>)
  qed
  have "0 < fp_default_map_size fp1" using page fp1(3) fields(8) by simp
  then obtain fp2 where fp2: "TransitionToRead env fp1 = (fp2, Inr ())" "stands env decodes fp2 content" "fp_fallback_to_read fp2" "\<not> fp_at_end fp2"
    using TransitionToRead_good [of env decodes fp1 content] o fp1 by (auto simp: opens_def)
  obtain fp3 where fp3: "ReadShift env fp2 = Some (fp3, Inr ())" "stands env decodes fp3 content" "fp_fallback_to_read fp3"
    using ReadShift_good [OF fp2(2-4)] by blast
  show ?thesis using m fp2 fp3 delivers_last_space [OF fp3(2)] by (simp add: Shift_def fields)
qed

lemma Shift_first_granted:
  assumes ok: "env_ok env decodes" and off: "off \<le> length (env_file env)" and sz: "env_SizeFile env = length (env_file env)"
      "length (env_file env) < kBadSize"
    and granted: "env_mmap env (off - off mod env_kPageSize env) (min (length (env_file env) - (off - off mod env_kPageSize env)) (fp_default_map_size fp))"
    and fp: "fp = (InitializeNoRead env min_buffer fd)\<lparr>fp_mapped_offset := off\<rparr>"
  shows "\<exists>fp'. Shift env fp = Some (fp', Inr ()) \<and> delivers env decodes fp' (drop off (env_file env)) \<and> \<not> fp_fallback_to_read fp' \<and>
    fp_file fp' = fd \<and> (kMagicSize \<le> length (available fp') \<or> available fp' = drop off (env_file env))"
proof -
  have fields: "fp_null fp" "fp_position fp = 0" "fp_file fp = fd" "fp_mapped_offset fp = off" "\<not> fp_at_end fp" "\<not> fp_fallback_to_read fp"
    "fp_total_size fp = env_SizeFile env" "env_kPageSize env * 2 \<le> fp_default_map_size fp"
    by (simp_all add: fp InitializeNoRead_def)
  define ig where "ig = off mod env_kPageSize env"
  define start where "start = off - ig"
  define left where "left = length (env_file env) - start"
  define ms where "ms = fp_default_map_size fp"
  have page: "kMagicSize \<le> env_kPageSize env" "0 < env_kPageSize env" using ok by (auto simp: env_ok_def kMagicSize_def)
  have "env_kPageSize env * 2 \<le> ms" using fields(8) by (simp add: ms_def)
  moreover have "ig < env_kPageSize env" using page(2) by (simp add: ig_def)
  ultimately have room: "ig + kMagicSize \<le> ms" "0 < ms" using page(1) by linarith+
  have d: "start + ig = off" by (simp add: start_def ig_def)
  have all: "\<forall>off sz. 0 < sz \<longrightarrow> env_mmap env off sz" using ok granted by (auto simp: env_ok_def)
  let ?fp' = "fp\<lparr>fp_default_map_size := ms, fp_at_end := left \<le> ms, fp_mapped_offset := start,
    fp_data := take (min left ms) (drop start (env_file env)), fp_null := False, fp_position := ig\<rparr>"
  have sub: "sub64 (length (env_file env)) start = left"
    unfolding left_def using d off sz(2) by (intro sub64_le) (simp_all add: kBadSize_def)
  have mr: "MapRead env start (min left ms) = Inr (take (min left ms) (drop start (env_file env)))"
    using granted by (simp add: MapRead_def start_def ig_def left_def ms_def)
  have run: "MMapShift env off fp = (?fp', Inr ())"
    using mr sub unfolding MMapShift_def Let_def ig_def [symmetric] start_def [symmetric]
    by (cases "left \<le> ms") (simp_all add: fields sz(1) ms_def [symmetric])
  have len: "length (fp_data ?fp') = min left ms" by (simp add: left_def)
  have "mapped env ?fp' (drop off (env_file env))"
  proof -
    have "env_kPageSize env dvd start" unfolding start_def ig_def by (rule dvd_minus_mod)
    moreover have "start \<le> length (env_file env)" using d off by linarith
    ultimately show ?thesis using all sz len d by (auto simp: mapped_def fields left_def)
  qed
  moreover have le: "ig \<le> min left ms" using room d off by (simp add: left_def)
  ultimately have st: "stands env decodes ?fp' (drop off (env_file env))"
    using ok room(2) len by (simp add: stands_def fields)
  have "kMagicSize \<le> length (available ?fp') \<or> available ?fp' = drop off (env_file env)"
  proof (cases "left \<le> ms")
    case True
    then show ?thesis using d by (simp add: left_def add.commute)
  next
    case False
    then have "length (available ?fp') = ms - ig" by (simp add: left_def)
    then show ?thesis using room(1) by linarith
  qed
  then show ?thesis using run delivers_last_space [OF st]
    by (simp add: Shift_def fields del: length_drop)
qed

lemma Initialize_good:
  assumes o: "opens env decodes fd content"
  shows "\<exists>fp. Initialize env min_buffer fd = Some (fp, Inr ()) \<and> delivers env decodes fp content"
proof (cases "env_SizeFile env = kBadSize \<or> env_lseek env = None")
  case True
  let ?fp0 = "InitializeNoRead env min_buffer fd"
  have "env_ok env decodes" "fd_ok (fp_file ?fp0)" "file_content (env_library env) decodes (d_rest (fp_file ?fp0)) content"
    "0 < fp_default_map_size ?fp0" "\<not> fp_at_end ?fp0"
    using o by (auto simp: opens_def env_ok_def kMagicSize_def InitializeNoRead_def)
  then obtain fp1 where fp1: "TransitionToRead env ?fp0 = (fp1, Inr ())" "stands env decodes fp1 content" "fp_fallback_to_read fp1" "\<not> fp_at_end fp1"
    using TransitionToRead_good [of env decodes ?fp0 content] by blast
  obtain fp2 where "Shift env fp1 = Some (fp2, Inr ())" "delivers env decodes fp2 content" "fp_fallback_to_read fp2 = fp_fallback_to_read fp1"
    using Shift_good [OF fp1(2,4)] by blast
  moreover have "fp_total_size ?fp0 = kBadSize \<or> env_lseek env = None" using True by (simp add: InitializeNoRead_def)
  ultimately show ?thesis using fp1 by (simp add: Initialize_def Let_def)
next
  case False
  then obtain off where off: "env_lseek env = Some off" "off \<le> length (env_file env)" "d_rest fd = drop off (env_file env)"
    using o by (auto simp: opens_def)
  have sz: "env_SizeFile env = length (env_file env)" "length (env_file env) < kBadSize" and ok: "env_ok env decodes"
    using o False by (auto simp: opens_def env_ok_def)
  let ?fp0 = "(InitializeNoRead env min_buffer fd)\<lparr>fp_mapped_offset := off\<rparr>"
  have init: "Initialize env min_buffer fd = (case Shift env ?fp0 of
      Some (fp, Inr _) \<Rightarrow>
        if length (available fp) \<ge> kMagicSize \<and> DetectCompressedMagic (available fp) \<and> \<not> fp_fallback_to_read fp
        then Some (TransitionToRead env (fp\<lparr>fp_at_end := False\<rparr>)) else Some (fp, Inr ())
    | r \<Rightarrow> r)"
    using False off(1) by (simp add: Initialize_def Let_def InitializeNoRead_def)
  show ?thesis
  proof (cases "env_mmap env (off - off mod env_kPageSize env)
      (min (length (env_file env) - (off - off mod env_kPageSize env)) (fp_default_map_size ?fp0))")
    case False
    then show ?thesis using Shift_first_refused [OF o off(3,2) sz False refl] unfolding init by auto
  next
    case True
    obtain fp where fp: "Shift env ?fp0 = Some (fp, Inr ())" "delivers env decodes fp (drop off (env_file env))" "\<not> fp_fallback_to_read fp"
        "fp_file fp = fd" "kMagicSize \<le> length (available fp) \<or> available fp = drop off (env_file env)"
      using Shift_first_granted [OF ok off(2) sz True refl] by blast
    have "stands env decodes fp (drop off (env_file env))" using fp(2) by (simp add: delivers_def)
    then obtain t where t: "d_rest fd = available fp @ t" unfolding off(3) by (rule stands_available)
    have magic: "kMagicSize \<le> length (available fp) \<and> DetectCompressedMagic (available fp) \<longleftrightarrow> DetectMagic (d_rest fd) \<noteq> UTIL_UNKNOWN"
    proof (cases "kMagicSize \<le> length (available fp)")
      case True
      then show ?thesis using DetectCompressedMagic_prefix [OF True, of t] by (simp add: t)
    next
      case False
      then have "d_rest fd = available fp" using fp(5) off(3) by simp
      then show ?thesis using False o by (simp only: opens_def) blast
    qed
    show ?thesis
    proof (cases "DetectMagic (d_rest fd) = UTIL_UNKNOWN")
      case True
      then have "content = drop off (env_file env)" using o off(3) by (simp add: opens_def file_content_def)
      then show ?thesis using fp magic True unfolding init by auto
    next
      case False
      have "0 < fp_default_map_size fp" using fp(2) by (simp add: delivers_def stands_def)
      then obtain fp2 where "TransitionToRead env (fp\<lparr>fp_at_end := False\<rparr>) = (fp2, Inr ())" "stands env decodes fp2 content" "fp_data fp2 = []"
        using TransitionToRead_good [of env decodes "fp\<lparr>fp_at_end := False\<rparr>" content] fp(4) o by (auto simp: opens_def)
      then show ?thesis using fp magic False unfolding init by (auto simp: delivers_def last_space_ok_def)
    qed
  qed
qed

text \<open>
  C1. A \<^verbatim>\<open>FilePiece\<close> delivers exactly the lines of its file: whatever the size of the buffer and of the
  pages, whether the file is mapped window by window, read because it is a pipe or cannot be
  mapped, or decompressed, and however the kernel cuts up the reads, the loop
  \<^verbatim>\<open>for (StringPiece l : in)\<close> ends and runs its body once for every line of the content, in order, with
  the carriage return before a newline left out and the unterminated last line included.
\<close>

theorem FilePiece_lines_correct:
  assumes "opens env decodes fd content"
  shows "\<exists>fp fp'. Initialize env min_buffer fd = Some (fp, Inr ()) \<and>
    for_lines (ReadLineOrEOF env newline True) f fp a = map_option (Pair fp') (fold_result f a (text_lines newline True content))"
proof -
  obtain fp where "Initialize env min_buffer fd = Some (fp, Inr ())" "delivers env decodes fp content"
    using Initialize_good [OF assms] by blast
  then show ?thesis using fp_lines.for_lines_fold [of env decodes fp content newline True f a] by auto
qed

subsection \<open>Words and numbers\<close>

lemma find_if_skip:
  assumes "skip \<le> length av" and "\<forall>c\<in>set (take skip av). \<not> p c"
  shows "skip + find_if p (drop skip av) = find_if p av"
proof -
  have "find_if p (take skip av @ drop skip av) = skip + find_if p (drop skip av)"
    using assms by (auto simp: find_if_append simp del: append_take_drop_id)
  then show ?thesis by simp
qed

lemma available_prefix:
  assumes "stands env decodes fp content" and "stands env decodes fp' content" and "progress fp fp'"
  shows "take (length (available fp)) (available fp') = available fp"
proof -
  obtain x y where "content = available fp @ x" "content = available fp' @ y" using assms(1,2) stands_available by metis
  moreover have "length (available fp) \<le> length (available fp')" using assms(3) by (simp only: progress_def)
  ultimately show ?thesis by (metis append_eq_conv_conj take_append diff_is_0_eq take0 append_Nil2)
qed

text \<open>The offset of the first delimiter, or of the end of the file, is found inside the window.\<close>

lemma FindDelimiterOrEOF_loop_good:
  assumes "stands env decodes fp content" and "content \<noteq> []"
  shows "last_space_ok fp \<Longrightarrow> skip \<le> length (available fp) \<Longrightarrow> \<forall>c\<in>set (take skip (available fp)). \<not> delim ! unat c \<Longrightarrow>
    \<exists>fp'. FindDelimiterOrEOF_loop env delim skip fp = Some (fp', Inr (find_if (\<lambda>c. delim ! unat c) content)) \<and>
      delivers env decodes fp' content \<and> find_if (\<lambda>c. delim ! unat c) content \<le> length (available fp')"
  using assms(1)
proof (induction arbitrary: skip rule: stands_shift_induct)
  case (at_end fp)
  have c: "content = available fp" using at_end(1,2) by (auto elim: stands_available)
  have "FindDelimiterOrEOF_loop env delim skip fp = Some (fp, Inr (find_if (\<lambda>c. delim ! unat c) content))"
    using at_end(2) assms(2) find_if_skip [OF at_end(4,5)]
    by (subst FindDelimiterOrEOF_loop.simps) (auto simp: c [symmetric] Let_def not_less intro: le_antisym)
  then show ?case using at_end(1,3) find_if_le [of "\<lambda>c. delim ! unat c" content] by (auto simp: delivers_def c)
next
  case (shift fp fp')
  let ?p = "\<lambda>c. delim ! unat c" and ?av = "available fp"
  note skip = find_if_skip [OF shift(8,9)]
  show ?case
  proof (cases "\<exists>c\<in>set ?av. ?p c")
    case True
    then have "find_if ?p ?av < length ?av" by (simp only: find_if_less_iff)
    moreover have "find_if ?p content = find_if ?p ?av"
      using shift(1) by (rule stands_available) (use True in \<open>simp add: find_if_append\<close>)
    ultimately show ?thesis using skip shift(1,7)
      by (subst FindDelimiterOrEOF_loop.simps) (auto simp: Let_def delivers_def simp del: length_drop)
  next
    case False
    then have "find_if ?p ?av = length ?av" by (simp only: find_if_eq_length_iff) blast
    then have run: "FindDelimiterOrEOF_loop env delim skip fp = FindDelimiterOrEOF_loop env delim (length ?av) fp'"
      using skip shift(2,3) by (subst FindDelimiterOrEOF_loop.simps) (simp add: Let_def del: length_drop)
    have st: "stands env decodes fp' content" "last_space_ok fp'" using shift(4) by (simp_all add: delivers_def)
    have len: "length ?av \<le> length (available fp')" using shift(5) by (simp only: progress_def)
    have "\<forall>c\<in>set (take (length ?av) (available fp')). \<not> ?p c"
      unfolding available_prefix [OF shift(1) st(1) shift(5)] using False by blast
    from shift(6) [OF st(2) len this] show ?thesis unfolding run .
  qed
qed

lemma FindDelimiterOrEOF_good:
  assumes "delivers env decodes fp content" and "content \<noteq> []"
  shows "\<exists>fp'. FindDelimiterOrEOF env delim fp = Some (fp', Inr (find_if (\<lambda>c. delim ! unat c) content)) \<and>
      delivers env decodes fp' content \<and> find_if (\<lambda>c. delim ! unat c) content \<le> length (available fp')"
proof -
  have "stands env decodes fp content" "last_space_ok fp" using assms(1) by (simp_all add: delivers_def)
  then show ?thesis unfolding FindDelimiterOrEOF_def using assms(2) by (intro FindDelimiterOrEOF_loop_good) simp_all
qed

lemma Shift_last_space:
  assumes "Shift env fp = Some (fp', Inr ())"
  shows "fp_last_space fp' = find_last_space fp'"
  using assms by (auto simp: Shift_def find_last_space_def Let_def split: if_splits prod.splits sum.splits option.splits)

text \<open>The window is filled where a loop looks at the next byte; at the end of the file it stays empty.\<close>

lemma refill:
  assumes "delivers env decodes fp content"
  obtains "content = []" and "fp_at_end fp" and "available fp = []" and "Shift env fp = Some (fp, Inl EndOfFileException)"
  | fp' where "(if fp_position fp = length (fp_data fp) then Shift env fp else Some (fp, Inr ())) = Some (fp', Inr ())"
      and "delivers env decodes fp' content" and "content = [] \<longrightarrow> fp_at_end fp' \<and> fp_last_space fp' < int (fp_position fp')"
      and "fp_position fp' = length (fp_data fp') \<longleftrightarrow> content = []"
      and "content \<noteq> [] \<longrightarrow> fp_data fp' ! fp_position fp' = hd content"
proof -
  have look: "fp_position f = length (fp_data f) \<longleftrightarrow> content = []" "content \<noteq> [] \<longrightarrow> fp_data f ! fp_position f = hd content"
    if st: "stands env decodes f content" and p: "available f \<noteq> [] \<or> fp_at_end f" for f
  proof -
    obtain t where t: "content = available f @ t" "fp_at_end f \<longrightarrow> t = []" using st by (rule stands_available)
    have le: "fp_position f \<le> length (fp_data f)" using st by (simp add: stands_def)
    show "fp_position f = length (fp_data f) \<longleftrightarrow> content = []" using t p le by auto
    show "content \<noteq> [] \<longrightarrow> fp_data f ! fp_position f = hd content" using t p le by (auto simp: hd_append hd_drop_conv_nth)
  qed
  have st: "stands env decodes fp content" using assms by (simp add: delivers_def)
  then have le: "fp_position fp \<le> length (fp_data fp)" by (simp add: stands_def)
  show thesis
  proof (cases "available fp = []")
    case False
    then show ?thesis using that(2) [of fp] assms look [OF st] le by simp
  next
    case empty: True
    show ?thesis
    proof (cases "fp_at_end fp")
      case True
      have "content = []" using st empty True by (auto elim!: stands_available)
      then show ?thesis using that(1) empty True by (simp add: Shift_def)
    next
      case False
      obtain fp' where fp': "Shift env fp = Some (fp', Inr ())" "delivers env decodes fp' content" "progress fp fp'"
        using Shift_good [OF st False] by blast
      have st': "stands env decodes fp' content" using fp'(2) by (simp add: delivers_def)
      have "available fp' \<noteq> [] \<or> fp_at_end fp'" using fp'(3) empty by (auto simp: progress_def)
      note l = look [OF st' this]
      have "content = [] \<longrightarrow> fp_at_end fp' \<and> fp_last_space fp' < int (fp_position fp')"
        using \<open>available fp' \<noteq> [] \<or> fp_at_end fp'\<close> l(1) Shift_last_space [OF fp'(1)] by (auto simp: find_last_space_def)
      then show ?thesis using that(2) [of fp'] fp' l empty le by simp
    qed
  qed
qed

text \<open>\<^verbatim>\<open>SkipSpaces\<close> stops at the next word; without one it throws, or returns with everything used up.\<close>

lemma SkipSpaces_good:
  "delivers env decodes fp content \<Longrightarrow>
    (\<exists>fp'. SkipSpaces env delim fp = Some (fp', Inr ()) \<and> delivers env decodes fp' (dropWhile (\<lambda>c. delim ! unat c) content) \<and>
       (if dropWhile (\<lambda>c. delim ! unat c) content = [] then fp_at_end fp' \<and> fp_last_space fp' < int (fp_position fp') else available fp' \<noteq> [])) \<or>
    dropWhile (\<lambda>c. delim ! unat c) content = [] \<and> (\<exists>fp'. SkipSpaces env delim fp = Some (fp', Inl EndOfFileException) \<and> delivers env decodes fp' [])"
proof (induction "length content" arbitrary: content fp rule: less_induct)
  case less
  from less.prems show ?case
  proof (cases rule: refill)
    case 1
    then have "fp_position fp = length (fp_data fp)" using less.prems by (simp add: delivers_def stands_def)
    then have "SkipSpaces env delim fp = Some (fp, Inl EndOfFileException)" using 1 by (subst SkipSpaces.simps) simp
    then show ?thesis using less.prems 1 by simp
  next
    case (2 fp')
    have step: "SkipSpaces env delim fp =
      (if content = [] then Some (fp', Inr ())
       else if \<not> delim ! unat (hd content) then Some (fp', Inr ())
       else SkipSpaces env delim (fp'\<lparr>fp_position := fp_position fp' + 1\<rparr>))"
      using 2 by (subst SkipSpaces.simps) simp
    show ?thesis
    proof (cases "content = [] \<or> \<not> delim ! unat (hd content)")
      case True
      then have "dropWhile (\<lambda>c. delim ! unat c) content = content" by (cases content) auto
      moreover have "content \<noteq> [] \<longrightarrow> available fp' \<noteq> []" using 2(2,4) by (auto simp: delivers_def stands_def)
      ultimately show ?thesis unfolding step using 2(2,3) True by auto
    next
      case False
      then obtain c cs where c: "content = c # cs" "delim ! unat c" by (cases content) auto
      have "1 \<le> length (available fp')" using 2(2,4) c by (auto simp: delivers_def stands_def)
      then have "delivers env decodes (fp'\<lparr>fp_position := fp_position fp' + 1\<rparr>) (drop 1 content)"
        using 2(2) by (intro delivers_advance)
      then show ?thesis unfolding step using less.hyps [of cs] c by simp
    qed
  qed
qed

lemma Consume_word:
  assumes "delivers env decodes fp content" and "find_if p content \<le> length (available fp)"
  shows "Consume fp (find_if p content) = (fp\<lparr>fp_position := fp_position fp + find_if p content\<rparr>, Inr (takeWhile (\<lambda>c. \<not> p c) content))"
    and "delivers env decodes (fp\<lparr>fp_position := fp_position fp + find_if p content\<rparr>) (dropWhile (\<lambda>c. \<not> p c) content)"
proof -
  have "stands env decodes fp content" using assms(1) by (simp add: delivers_def)
  then obtain t where t: "content = available fp @ t" by (rule stands_available)
  have "take (find_if p content) (available fp @ t) = take (find_if p content) (available fp)" using assms(2) by simp
  then show "Consume fp (find_if p content) = (fp\<lparr>fp_position := fp_position fp + find_if p content\<rparr>, Inr (takeWhile (\<lambda>c. \<not> p c) content))"
    unfolding t [symmetric] by (simp add: Consume_def)
  show "delivers env decodes (fp\<lparr>fp_position := fp_position fp + find_if p content\<rparr>) (dropWhile (\<lambda>c. \<not> p c) content)"
    using delivers_advance [OF assms] by simp
qed

lemma ReadDelimited_good:
  fixes delim :: "bool list"
  defines "p \<equiv> \<lambda>c :: byte. delim ! unat c"
  assumes "delivers env decodes fp content"
  shows "\<exists>fp'. (if dropWhile p content = [] then ReadDelimited env delim fp = Some (fp', Inl EndOfFileException)
     else ReadDelimited env delim fp = Some (fp', Inr (takeWhile (\<lambda>c. \<not> p c) (dropWhile p content)))) \<and>
     delivers env decodes fp' (dropWhile (\<lambda>c. \<not> p c) (dropWhile p content))"
  using SkipSpaces_good [OF assms(2), of delim] unfolding p_def [symmetric]
proof
  assume "dropWhile p content = [] \<and> (\<exists>fp'. SkipSpaces env delim fp = Some (fp', Inl EndOfFileException) \<and> delivers env decodes fp' [])"
  then obtain fp' where d: "dropWhile p content = []" and "SkipSpaces env delim fp = Some (fp', Inl EndOfFileException)" "delivers env decodes fp' []"
    by blast
  then show ?thesis unfolding d by (simp add: ReadDelimited_def)
next
  assume "\<exists>fp'. SkipSpaces env delim fp = Some (fp', Inr ()) \<and> delivers env decodes fp' (dropWhile p content) \<and>
       (if dropWhile p content = [] then fp_at_end fp' \<and> fp_last_space fp' < int (fp_position fp') else available fp' \<noteq> [])"
  then obtain fp1 where fp1: "SkipSpaces env delim fp = Some (fp1, Inr ())" "delivers env decodes fp1 (dropWhile p content)"
    "dropWhile p content = [] \<longrightarrow> fp_at_end fp1" by auto
  show ?thesis
  proof (cases "dropWhile p content = []")
    case True
    have "stands env decodes fp1 []" using fp1(2) unfolding True by (simp add: delivers_def)
    then have "available fp1 = []" by (auto elim: stands_available)
    then have "FindDelimiterOrEOF env delim fp1 = Some (fp1, Inl EndOfFileException)"
      using fp1(3) True unfolding FindDelimiterOrEOF_def by (subst FindDelimiterOrEOF_loop.simps) (simp add: Let_def)
    then show ?thesis using fp1(1,2) unfolding True by (simp add: ReadDelimited_def)
  next
    case False
    let ?n = "find_if p (dropWhile p content)"
    obtain fp2 where fp2: "FindDelimiterOrEOF env delim fp1 = Some (fp2, Inr ?n)" "delivers env decodes fp2 (dropWhile p content)" "?n \<le> length (available fp2)"
      using FindDelimiterOrEOF_good [OF fp1(2) False, of delim] unfolding p_def [symmetric] by blast
    show ?thesis using fp1(1) fp2 False Consume_word [OF fp2(2,3)] by (auto simp: ReadDelimited_def)
  qed
qed

subsubsection \<open>Parsers\<close>

text \<open>
  What \<^verbatim>\<open>ReadNumber\<close> needs from a parser: it looks no further than the space that ends a word.
\<close>

locale number_parser =
  fixes parse :: "bytes \<Rightarrow> ('n \<times> nat) result"
  assumes parse_word: "w \<noteq> [] \<Longrightarrow> \<forall>c\<in>set w. \<not> kSpaces ! unat c \<Longrightarrow> rest = [] \<or> kSpaces ! unat (hd rest) \<Longrightarrow>
      parse (w @ rest) = parse w"
    and parse_bounded: "w \<noteq> [] \<Longrightarrow> \<forall>c\<in>set w. \<not> kSpaces ! unat c \<Longrightarrow> parse w = Inr (v, n) \<Longrightarrow> n \<le> length w"
begin

lemma parse_available:
  assumes "content \<noteq> []" and "\<not> kSpaces ! unat (hd content)" and "content = av @ future"
    and "future = [] \<or> (\<exists>c\<in>set av. kSpaces ! unat c)"
  shows "parse av = parse (takeWhile (\<lambda>c. \<not> kSpaces ! unat c) content)"
    and "parse av = Inr (v, n) \<Longrightarrow> n \<le> length av"
proof -
  let ?p = "\<lambda>c :: byte. \<not> kSpaces ! unat c"
  have w: "takeWhile ?p content = takeWhile ?p av" using assms(3,4) by auto
  have ne: "takeWhile ?p av \<noteq> []" using w assms(1,2) by (cases content) auto
  have "parse (takeWhile ?p av @ dropWhile ?p av) = parse (takeWhile ?p av)"
    using ne hd_dropWhile [of ?p av] by (intro parse_word) (auto dest: set_takeWhileD)
  then show 1: "parse av = parse (takeWhile ?p content)" unfolding w by simp
  show "n \<le> length av" if "parse av = Inr (v, n)"
  proof -
    have "n \<le> length (takeWhile ?p av)" using that ne by (intro parse_bounded [of _ v]) (auto simp: 1 w dest: set_takeWhileD)
    then show ?thesis using length_takeWhile_le [of ?p av] by linarith
  qed
qed

lemma ReadNumber_parse:
  assumes dl: "delivers env decodes fp content" and c: "content \<noteq> []" "\<not> kSpaces ! unat (hd content)"
    and av: "fp_at_end fp \<or> (\<exists>c\<in>set (available fp). kSpaces ! unat c)"
    and run: "ReadNumber_loop parse env fp = Some (case parse (available fp) of
        Inl e \<Rightarrow> (fp, Inl e) | Inr (ret, n) \<Rightarrow> (fp\<lparr>fp_position := fp_position fp + n\<rparr>, Inr ret))"
  shows "\<exists>fp'. (case parse (takeWhile (\<lambda>c. \<not> kSpaces ! unat c) content) of
             Inl e \<Rightarrow> ReadNumber_loop parse env fp = Some (fp', Inl e) \<and> delivers env decodes fp' content
           | Inr (v, n) \<Rightarrow> ReadNumber_loop parse env fp = Some (fp', Inr v) \<and> delivers env decodes fp' (drop n content))"
proof -
  have "stands env decodes fp content" using dl by (simp add: delivers_def)
  then obtain t where t: "content = available fp @ t" "fp_at_end fp \<longrightarrow> t = []" by (rule stands_available)
  note pa = parse_available [OF c t(1)]
  have "t = [] \<or> (\<exists>c\<in>set (available fp). kSpaces ! unat c)" using t(2) av by blast
  note pa = pa(1) [OF this] pa(2) [OF this]
  show ?thesis
  proof (cases "parse (available fp)")
    case (Inl e)
    then show ?thesis using run dl pa(1) by auto
  next
    case (Inr vn)
    obtain v n where "vn = (v, n)" by fastforce
    then show ?thesis using run Inr pa delivers_advance [OF dl, of n] by auto
  qed
qed

lemma ReadNumber_loop_good:
  assumes "stands env decodes fp content" and c: "content \<noteq> []" "\<not> kSpaces ! unat (hd content)"
  shows "last_space_ok fp \<Longrightarrow> available fp \<noteq> [] \<Longrightarrow>
    \<exists>fp'. (case parse (takeWhile (\<lambda>c. \<not> kSpaces ! unat c) content) of
             Inl e \<Rightarrow> ReadNumber_loop parse env fp = Some (fp', Inl e) \<and> delivers env decodes fp' content
           | Inr (v, n) \<Rightarrow> ReadNumber_loop parse env fp = Some (fp', Inr v) \<and> delivers env decodes fp' (drop n content))"
  using assms(1)
proof (induction rule: stands_shift_induct)
  case (at_end fp)
  have "ReadNumber_loop parse env fp = Some (case parse (available fp) of
        Inl e \<Rightarrow> (fp, Inl e) | Inr (ret, n) \<Rightarrow> (fp\<lparr>fp_position := fp_position fp + n\<rparr>, Inr ret))"
    using at_end(2,4) by (subst ReadNumber_loop.simps) simp
  then show ?case using at_end by (intro ReadNumber_parse c) (simp_all add: delivers_def)
next
  case (shift fp fp')
  have dl: "delivers env decodes fp content" using shift by (simp add: delivers_def)
  have st: "stands env decodes fp' content" "last_space_ok fp'" using shift(4) by (simp_all add: delivers_def)
  show ?case
  proof (cases "fp_last_space fp < int (fp_position fp)")
    case True
    then have run: "ReadNumber_loop parse env fp = ReadNumber_loop parse env fp'"
      using shift(2,3) by (subst ReadNumber_loop.simps) simp
    have "available fp' \<noteq> []" using shift(5,8) by (auto simp: progress_def)
    with shift(6) [OF st(2)] show ?thesis unfolding run by blast
  next
    case False
    then have run: "ReadNumber_loop parse env fp = Some (case parse (available fp) of
        Inl e \<Rightarrow> (fp, Inl e) | Inr (ret, n) \<Rightarrow> (fp\<lparr>fp_position := fp_position fp + n\<rparr>, Inr ret))"
      by (subst ReadNumber_loop.simps) simp
    have le: "fp_last_space fp < int (length (fp_data fp))" and sp: "kSpaces ! unat (fp_data fp ! nat (fp_last_space fp))"
      using shift(7,8) False by (simp_all add: last_space_ok_def)
    have "fp_data fp ! nat (fp_last_space fp) = available fp ! (nat (fp_last_space fp) - fp_position fp)"
      using False shift(1) by (subst nth_drop) (simp_all add: stands_def)
    moreover have "nat (fp_last_space fp) - fp_position fp < length (available fp)" using le False by simp
    ultimately have "\<exists>c\<in>set (available fp). kSpaces ! unat c" using sp nth_mem by metis
    then show ?thesis using dl run by (intro ReadNumber_parse c) simp_all
  qed
qed

lemma ReadNumber_good:
  assumes "delivers env decodes fp content"
  shows "\<exists>fp'. (let rest = dropWhile (\<lambda>c. kSpaces ! unat c) content
     in if rest = [] then ReadNumber parse env fp = Some (fp', Inl EndOfFileException) \<and> delivers env decodes fp' []
        else case parse (takeWhile (\<lambda>c. \<not> kSpaces ! unat c) rest) of
               Inl e \<Rightarrow> ReadNumber parse env fp = Some (fp', Inl e) \<and> delivers env decodes fp' rest
             | Inr (v, n) \<Rightarrow> ReadNumber parse env fp = Some (fp', Inr v) \<and> delivers env decodes fp' (drop n rest))"
  using SkipSpaces_good [OF assms, of kSpaces]
proof (elim disjE exE conjE)
  fix fp1
  assume skip: "SkipSpaces env kSpaces fp = Some (fp1, Inr ())"
    and dl: "delivers env decodes fp1 (dropWhile (\<lambda>c. kSpaces ! unat c) content)"
    and e: "if dropWhile (\<lambda>c. kSpaces ! unat c) content = [] then fp_at_end fp1 \<and> fp_last_space fp1 < int (fp_position fp1) else available fp1 \<noteq> []"
  show ?thesis
  proof (cases "dropWhile (\<lambda>c. kSpaces ! unat c) content = []")
    case True
    have "stands env decodes fp1 []" using dl True by (simp add: delivers_def)
    then have "available fp1 = []" by (auto elim: stands_available)
    then have "ReadNumber_loop parse env fp1 = Some (fp1, Inl EndOfFileException)"
      using e True by (subst ReadNumber_loop.simps) simp
    then show ?thesis using skip dl True by (simp add: ReadNumber_def Let_def)
  next
    case False
    then have "\<not> kSpaces ! unat (hd (dropWhile (\<lambda>c. kSpaces ! unat c) content))" by (rule hd_dropWhile)
    moreover have run: "ReadNumber parse env fp = ReadNumber_loop parse env fp1" using skip by (simp add: ReadNumber_def)
    moreover have "available fp1 \<noteq> []" using e unfolding if_not_P [OF False] .
    ultimately show ?thesis unfolding Let_def if_not_P [OF False] run
      using dl False by (intro ReadNumber_loop_good) (simp_all only: delivers_def not_False_eq_True)
  qed
qed (auto simp: ReadNumber_def Let_def)

end

lemma isdigit_not_space: "isdigit c \<Longrightarrow> \<not> kSpaces ! unat c"
  by (auto simp: isdigit_def kSpaces_iff word_le_nat_alt word_less_nat_alt)

lemma strto_word:
  assumes "w \<noteq> []" and "\<forall>c\<in>set w. \<not> kSpaces ! unat c" and "rest = [] \<or> kSpaces ! unat (hd rest)"
  shows "strto (w @ rest) = strto w"
proof -
  obtain c cs where w: "w = c # cs" using assms(1) by (cases w) auto
  have "takeWhile isdigit (ds @ rest) = takeWhile isdigit ds" for ds
    using assms(3) isdigit_not_space by (cases rest) (auto intro: takeWhile_tail)
  from this [of cs] this [of w] show ?thesis using assms(2) by (simp add: strto_def Let_def w)
qed

lemma strto_bounded:
  assumes "strto w = (neg, ds, n)"
  shows "n \<le> length w"
proof -
  define ws where "ws = takeWhile (\<lambda>c. kSpaces ! unat (c :: byte)) w"
  define r where "r = drop (length ws) w"
  define k :: nat where "k = (if r \<noteq> [] \<and> (hd r = 43 \<or> hd r = 45) then 1 else 0)"
  have "w = ws @ r" unfolding r_def ws_def by (rule takeWhile_eq_take [THEN ssubst]) simp
  moreover have "k + length (takeWhile isdigit (drop k r)) \<le> length r"
    using length_takeWhile_le [of isdigit "drop k r"] by (cases r) (auto simp: k_def)
  moreover have "n \<le> length ws + (k + length (takeWhile isdigit (drop k r)))"
    using assms unfolding strto_def Let_def ws_def [symmetric] r_def [symmetric] k_def [symmetric] by (auto split: if_splits)
  ultimately show ?thesis by simp
qed

interpretation read_long: number_parser ParseNumber_long
proof
  fix w rest :: bytes and v n
  show "w \<noteq> [] \<Longrightarrow> \<forall>c\<in>set w. \<not> kSpaces ! unat c \<Longrightarrow> rest = [] \<or> kSpaces ! unat (hd rest) \<Longrightarrow>
      ParseNumber_long (w @ rest) = ParseNumber_long w"
    unfolding ParseNumber_long_def by (subst strto_word) (assumption | rule refl)+
  show "ParseNumber_long w = Inr (v, n) \<Longrightarrow> n \<le> length w"
    using strto_bounded [of w] by (auto simp: ParseNumber_long_def Let_def split: prod.splits if_splits)
qed

interpretation read_ulong: number_parser ParseNumber_ulong
proof
  fix w rest :: bytes and v n
  show "w \<noteq> [] \<Longrightarrow> \<forall>c\<in>set w. \<not> kSpaces ! unat c \<Longrightarrow> rest = [] \<or> kSpaces ! unat (hd rest) \<Longrightarrow>
      ParseNumber_ulong (w @ rest) = ParseNumber_ulong w"
    unfolding ParseNumber_ulong_def by (subst strto_word) (assumption | rule refl)+
  show "ParseNumber_ulong w = Inr (v, n) \<Longrightarrow> n \<le> length w"
    using strto_bounded [of w] by (auto simp: ParseNumber_ulong_def Let_def split: prod.splits if_splits)
qed

text \<open>
  What a number is, without reference to the parsers: the word \<open>w\<close> begins with \<open>n\<close> bytes that are an
  optional sign and as many digits as follow it, at least one, and \<open>v\<close> is their value.
\<close>

definition begins_with_number :: "bytes \<Rightarrow> int \<Rightarrow> nat \<Rightarrow> bool" where
  "begins_with_number w v n \<longleftrightarrow>
     (\<exists>sign ds tail. w = sign @ ds @ tail \<and> sign \<in> {[], [43], [45]} \<and> ds \<noteq> [] \<and> (\<forall>c\<in>set ds. isdigit c) \<and>
        (tail = [] \<or> \<not> isdigit (hd tail)) \<and> n = length sign + length ds \<and>
        v = (if sign = [45] then - int (dec_value ds) else int (dec_value ds)))"

lemma isdigit_not_sign: "\<not> isdigit 43" "\<not> isdigit 45"
  by (simp_all add: isdigit_def)

lemma takeWhile_digits:
  assumes "\<forall>c\<in>set ds. isdigit c" and "tail = [] \<or> \<not> isdigit (hd tail)"
  shows "takeWhile isdigit (ds @ tail) = ds"
  using assms by (cases tail) simp_all

lemma strto_number:
  assumes "w \<noteq> []" and "\<forall>c\<in>set w. \<not> kSpaces ! unat c" and s: "strto w = (neg, ds, k)"
  shows "begins_with_number w v n \<longleftrightarrow>
    k \<noteq> 0 \<and> n = k \<and> v = (if neg then - int (dec_value ds) else int (dec_value ds))"
proof -
  obtain a as where w: "w = a # as" using assms(1) by (cases w) auto
  define m :: nat where "m = (if a = 43 \<or> a = 45 then 1 else 0)"
  have st: "neg = (a = 45)" "ds = takeWhile isdigit (drop m w)" "k = (if ds = [] then 0 else m + length ds)"
    using s assms(2) by (auto simp: strto_def Let_def w m_def)
  show ?thesis
  proof
    assume "begins_with_number w v n"
    then obtain sign es tail where e: "w = sign @ es @ tail" "sign \<in> {[], [43], [45]}" "es \<noteq> []" "\<forall>c\<in>set es. isdigit c"
      "tail = [] \<or> \<not> isdigit (hd tail)" "n = length sign + length es"
      "v = (if sign = [45] then - int (dec_value es) else int (dec_value es))"
      unfolding begins_with_number_def by blast
    obtain b bs where es: "es = b # bs" "isdigit b" using e(3,4) by (cases es) auto
    have "b \<noteq> 43" "b \<noteq> 45" using es(2) isdigit_not_sign by auto
    then have "length sign = m" "(a = 45) = (sign = [45])" using e(1,2) w es(1) by (auto simp: m_def)
    moreover from this have "ds = es" unfolding st(2) e(1) using takeWhile_digits [OF e(4,5)] by simp
    ultimately show "k \<noteq> 0 \<and> n = k \<and> v = (if neg then - int (dec_value ds) else int (dec_value ds))"
      using st(1,3) e(3,6,7) by simp
  next
    assume k: "k \<noteq> 0 \<and> n = k \<and> v = (if neg then - int (dec_value ds) else int (dec_value ds))"
    then have ds: "ds \<noteq> []" "k = m + length ds" using st(3) by (auto split: if_splits)
    have "w = take m w @ ds @ dropWhile isdigit (drop m w)" unfolding st(2) by simp
    moreover have "take m w \<in> {[], [43], [45]}" "length (take m w) = m" "take m w = [45] \<longleftrightarrow> neg" using st(1) by (auto simp: m_def w)
    moreover have "\<forall>c\<in>set ds. isdigit c" unfolding st(2) by (auto dest: set_takeWhileD)
    moreover have "dropWhile isdigit (drop m w) = [] \<or> \<not> isdigit (hd (dropWhile isdigit (drop m w)))" using hd_dropWhile by blast
    ultimately show "begins_with_number w v n" unfolding begins_with_number_def using k ds by metis
  qed
qed

lemma ParseNumber_long_number:
  assumes "w \<noteq> []" and "\<forall>c\<in>set w. \<not> kSpaces ! unat c"
  shows "case ParseNumber_long w of
      Inl e \<Rightarrow> e = ParseNumberException \<and> (\<nexists>v n. begins_with_number w v n \<and> - (2 ^ 63) \<le> v \<and> v < 2 ^ 63)
    | Inr (v, n) \<Rightarrow> begins_with_number w v n \<and> - (2 ^ 63) \<le> v \<and> v < 2 ^ 63"
proof -
  obtain neg ds k where s: "strto w = (neg, ds, k)" by (cases "strto w") auto
  note num = strto_number [OF assms s]
  show ?thesis
    unfolding ParseNumber_long_def s Let_def prod.case num by (auto simp: not_less not_le)
qed

lemma ParseNumber_ulong_number:
  assumes "w \<noteq> []" and "\<forall>c\<in>set w. \<not> kSpaces ! unat c"
  shows "case ParseNumber_ulong w of
      Inl e \<Rightarrow> e = ParseNumberException \<and> (\<nexists>v n. begins_with_number w v n \<and> \<bar>v\<bar> < 2 ^ 64)
    | Inr (u, n) \<Rightarrow> \<exists>v. begins_with_number w v n \<and> \<bar>v\<bar> < 2 ^ 64 \<and> u = word_of_int v"
proof -
  obtain neg ds k where s: "strto w = (neg, ds, k)" by (cases "strto w") auto
  note num = strto_number [OF assms s]
  have "2 ^ 64 \<le> dec_value ds \<longleftrightarrow> 2 ^ 64 \<le> int (dec_value ds)" by simp
  then show ?thesis
    unfolding ParseNumber_ulong_def s Let_def prod.case num by (auto simp: not_less not_le)
qed

subsubsection \<open>Words of a line\<close>

abbreviation blank :: "bool list \<Rightarrow> byte \<Rightarrow> bool" where
  "blank delim c \<equiv> delim ! unat c \<and> c \<noteq> newline"

lemma SkipSameLine_good:
  assumes "delim ! unat newline"
  shows "delivers env decodes fp content \<Longrightarrow>
    \<exists>fp'. (let rest = dropWhile (blank delim) content
     in SkipSameLine env delim fp = Some (fp', Inr (rest \<noteq> [] \<and> hd rest \<noteq> newline)) \<and> delivers env decodes fp' rest)"
proof (induction "length content" arbitrary: content fp rule: less_induct)
  case less
  from less.prems show ?case
  proof (cases rule: refill)
    case 1
    then have "fp_position fp = length (fp_data fp)" using less.prems by (simp add: delivers_def stands_def)
    then have "SkipSameLine env delim fp = Some (fp, Inr False)" using 1 by (subst SkipSameLine.simps) simp
    then show ?thesis using less.prems 1 by simp
  next
    case (2 fp')
    have step: "SkipSameLine env delim fp =
      (if content = [] then Some (fp', Inr False)
       else if \<not> delim ! unat (hd content) then Some (fp', Inr True)
       else if hd content = newline then Some (fp', Inr False)
       else SkipSameLine env delim (fp'\<lparr>fp_position := fp_position fp' + 1\<rparr>))"
      using 2 by (subst SkipSameLine.simps) simp
    show ?thesis
    proof (cases "content = [] \<or> \<not> blank delim (hd content)")
      case True
      then have "dropWhile (blank delim) content = content" by (cases content) auto
      then show ?thesis unfolding step using 2(2) True assms by (auto simp: Let_def)
    next
      case False
      then obtain c cs where c: "content = c # cs" "blank delim c" by (cases content) auto
      have "1 \<le> length (available fp')" using 2(2,4) c by (auto simp: delivers_def stands_def)
      then have "delivers env decodes (fp'\<lparr>fp_position := fp_position fp' + 1\<rparr>) (drop 1 content)"
        using 2(2) by (intro delivers_advance)
      then show ?thesis unfolding step using less.hyps [of cs] c by simp
    qed
  qed
qed

lemma ReadWordSameLine_good:
  assumes "delim ! unat newline" and "delivers env decodes fp content"
  shows "\<exists>fp'. (let rest = dropWhile (blank delim) content
     in if rest = [] \<or> hd rest = newline then ReadWordSameLine env delim fp = Some (fp', Inr None) \<and> delivers env decodes fp' rest
        else ReadWordSameLine env delim fp = Some (fp', Inr (Some (takeWhile (\<lambda>c. \<not> delim ! unat c) rest))) \<and>
          delivers env decodes fp' (dropWhile (\<lambda>c. \<not> delim ! unat c) rest))"
proof -
  obtain rest where rest: "rest = dropWhile (blank delim) content" by simp
  obtain fp1 where fp1: "SkipSameLine env delim fp = Some (fp1, Inr (rest \<noteq> [] \<and> hd rest \<noteq> newline))" "delivers env decodes fp1 rest"
    using SkipSameLine_good [OF assms] unfolding Let_def rest [symmetric] by blast
  show ?thesis unfolding Let_def rest [symmetric]
  proof (cases "rest = [] \<or> hd rest = newline")
    case True
    then show "\<exists>fp'. if rest = [] \<or> hd rest = newline then ReadWordSameLine env delim fp = Some (fp', Inr None) \<and> delivers env decodes fp' rest
        else ReadWordSameLine env delim fp = Some (fp', Inr (Some (takeWhile (\<lambda>c. \<not> delim ! unat c) rest))) \<and>
          delivers env decodes fp' (dropWhile (\<lambda>c. \<not> delim ! unat c) rest)"
      using fp1 by (auto simp: ReadWordSameLine_def)
  next
    case False
    then obtain fp2 where fp2: "FindDelimiterOrEOF env delim fp1 = Some (fp2, Inr (find_if (\<lambda>c. delim ! unat c) rest))"
        "delivers env decodes fp2 rest" "find_if (\<lambda>c. delim ! unat c) rest \<le> length (available fp2)"
      using FindDelimiterOrEOF_good [OF fp1(2), of delim] by blast
    then show "\<exists>fp'. if rest = [] \<or> hd rest = newline then ReadWordSameLine env delim fp = Some (fp', Inr None) \<and> delivers env decodes fp' rest
        else ReadWordSameLine env delim fp = Some (fp', Inr (Some (takeWhile (\<lambda>c. \<not> delim ! unat c) rest))) \<and>
          delivers env decodes fp' (dropWhile (\<lambda>c. \<not> delim ! unat c) rest)"
      using fp1(1) False Consume_word [OF fp2(2,3)] by (auto simp: ReadWordSameLine_def)
  qed
qed

subsection \<open>A mapping that is refused late\<close>

lemma ReadFactory_header_only:
  assumes "fd_ok fd" and "kMagicSize < length (d_rest fd)" and "DetectMagic (d_rest fd) = UTIL_UNKNOWN"
  shows "\<exists>rc fd'. ReadCompressed_Reset lib fd = Inr rc \<and> rc_internal rc = UncompressedWithHeader (take kMagicSize (d_rest fd)) fd'"
proof -
  obtain fd' where "ReadOrEOF fd kMagicSize [] = Inr (take kMagicSize (d_rest fd), fd')"
    using ReadOrEOF_ok [OF assms(1)] by blast
  moreover have "DetectMagic (take kMagicSize (d_rest fd)) = UTIL_UNKNOWN" "take kMagicSize (d_rest fd) \<noteq> []"
    using DetectMagic_prefix [of "take kMagicSize (d_rest fd)" "drop kMagicSize (d_rest fd)"] assms(2,3)
    by (auto simp: kMagicSize_def)
  ultimately show ?thesis by (auto simp: ReadCompressed_Reset_def ReadFactory_def kMagicSize_def)
qed

lemma Shift_refused_late:
  assumes m: "\<not> fp_at_end fp" "\<not> fp_fallback_to_read fp" and refused: "\<forall>off sz. \<not> env_mmap env off sz"
    and fd: "fd_ok (fp_file fp)" "fp_position fp + fp_mapped_offset fp = 0 \<longrightarrow> d_rest (fp_file fp) = env_file env"
    and rest: "kMagicSize < length (drop (fp_position fp + fp_mapped_offset fp) (env_file env))"
      "DetectMagic (drop (fp_position fp + fp_mapped_offset fp) (env_file env)) = UTIL_UNKNOWN"
    and room: "kMagicSize < fp_default_map_size fp"
  shows "\<exists>fp'. Shift env fp = Some (fp', Inr ()) \<and> length (available fp') = kMagicSize"
proof -
  let ?d = "fp_position fp + fp_mapped_offset fp"
  let ?fd = "if ?d \<noteq> 0 then SeekOrThrow env (fp_file fp) ?d else fp_file fp"
  have fd': "d_rest ?fd = drop ?d (env_file env)" "fd_ok ?fd" using fd by (auto simp: SeekOrThrow_def)
  obtain rc fd2 where rc: "ReadCompressed_Reset (env_library env) ?fd = Inr rc" "rc_internal rc = UncompressedWithHeader (take kMagicSize (drop ?d (env_file env))) fd2"
    using ReadFactory_header_only [OF fd'(2), of "env_library env"] rest unfolding fd'(1) by blast
  define ms where "ms = (if fp_position fp = ?d mod env_kPageSize env \<and> \<not> fp_null fp then 2 * fp_default_map_size fp else fp_default_map_size fp)"
  let ?fp1 = "fp\<lparr>fp_default_map_size := ms, fp_at_end := False, fp_file := ?fd, fp_fallback_to_read := True, fp_data := [],
    fp_null := False, fp_position := 0, fp_fell_back := rc\<rparr>"
  have ms: "kMagicSize < ms" using room by (simp add: ms_def)
  have run: "MMapShift env ?d fp = (?fp1, Inr ())"
    using rc(1) m(1) refused unfolding MMapShift_def Let_def ms_def [symmetric]
    by (cases "?d = 0") (simp_all add: MapRead_def TransitionToRead_def)
  have len: "length (take kMagicSize (drop ?d (env_file env))) = kMagicSize" using rest(1) by simp
  have "take ms (take kMagicSize (drop ?d (env_file env))) = take kMagicSize (drop ?d (env_file env))" using ms by simp
  then obtain rc' where read: "ReadCompressed_Read (env_library env) rc ms = Some (Inr (take kMagicSize (drop ?d (env_file env)), rc'))"
    using rc(2) by (auto simp: ReadCompressed_Read_def Read_def Let_def)
  have "ReadShift env ?fp1 = Some (?fp1\<lparr>fp_mapped_offset := fp_mapped_offset fp, fp_fell_back := rc',
      fp_data := take kMagicSize (drop ?d (env_file env))\<rparr>, Inr ())"
    using read ms len by (auto simp: ReadShift_def kMagicSize_def)
  then show ?thesis using run m len by (auto simp: Shift_def)
qed

text \<open>
  C40. When a window has been mapped and the kernel refuses the next one, \<^verbatim>\<open>ReadLine\<close> falls back to
  reading but still skips as many bytes as the old window had: the search begins behind the six
  bytes that the first read returns, outside the buffer.
\<close>

theorem ReadLine_out_of_bounds:
  assumes "\<not> fp_at_end fp" and "\<not> fp_fallback_to_read fp" and "delim \<notin> set (available fp)"
    and "kMagicSize < length (available fp)" and "kMagicSize < fp_default_map_size fp"
    and "\<forall>off sz. \<not> env_mmap env off sz" and "fd_ok (fp_file fp)"
    and "fp_position fp + fp_mapped_offset fp = 0 \<longrightarrow> d_rest (fp_file fp) = env_file env"
    and "kMagicSize < length (drop (fp_position fp + fp_mapped_offset fp) (env_file env))"
    and "DetectMagic (drop (fp_position fp + fp_mapped_offset fp) (env_file env)) = UTIL_UNKNOWN"
  shows "\<exists>fp'. ReadLine env delim strip_cr fp = Some (fp', Inl OutOfBounds)"
proof -
  obtain fp' where fp': "Shift env fp = Some (fp', Inr ())" "length (available fp') = kMagicSize"
    using Shift_refused_late [OF assms(1,2,6-10,5)] by blast
  have "std_find delim (available fp) = length (available fp)" using assms(3) by (simp only: std_find_eq_length_iff not_False_eq_True)
  then have "ReadLine env delim strip_cr fp = ReadLine_loop env delim strip_cr (length (available fp)) fp'"
    using assms(1) fp'(1) unfolding ReadLine_def by (subst ReadLine_loop.simps) (simp add: Let_def del: length_drop)
  moreover have "ReadLine_loop env delim strip_cr (length (available fp)) fp' = Some (fp', Inl OutOfBounds)"
    using assms(4) fp'(2) by (subst ReadLine_loop.simps) (simp add: Let_def del: length_drop)
  ultimately show ?thesis by auto
qed

text \<open>
  \<^verbatim>\<open>ReadDelimited\<close> and \<^verbatim>\<open>ReadWordSameLine\<close> return the next word of the content whatever the windows
  are: the first skips delimiters and throws at the end of the file, the second skips only
  the delimiters of the current line and says whether there was a word. The delimiter that ends a
  word stays to be read.
\<close>

lemma FilePiece_words_correct:
  assumes "delivers env decodes fp content" and "delim ! unat newline"
  shows "(\<exists>fp'. (let p = (\<lambda>c. delim ! unat c); rest = dropWhile p content
     in ReadDelimited env delim fp =
          Some (fp', if rest = [] then Inl EndOfFileException else Inr (takeWhile (\<lambda>c. \<not> p c) rest)) \<and>
        delivers env decodes fp' (dropWhile (\<lambda>c. \<not> p c) rest))) \<and>
    (\<exists>fp'. (let rest = dropWhile (blank delim) content
     in if rest = [] \<or> hd rest = newline then ReadWordSameLine env delim fp = Some (fp', Inr None) \<and> delivers env decodes fp' rest
        else ReadWordSameLine env delim fp = Some (fp', Inr (Some (takeWhile (\<lambda>c. \<not> delim ! unat c) rest))) \<and>
          delivers env decodes fp' (dropWhile (\<lambda>c. \<not> delim ! unat c) rest)))"
  using ReadDelimited_good [OF assms(1), of delim] ReadWordSameLine_good [OF assms(2,1)] by (simp only: Let_def if_distrib)

lemma first_word:
  assumes "rest = dropWhile (\<lambda>c. kSpaces ! unat c) content" and "rest \<noteq> []"
  shows "takeWhile (\<lambda>c. \<not> kSpaces ! unat c) rest \<noteq> []" and "\<forall>c\<in>set (takeWhile (\<lambda>c. \<not> kSpaces ! unat c) rest). \<not> kSpaces ! unat c"
proof -
  have "\<not> kSpaces ! unat (hd rest)" using hd_dropWhile [of "\<lambda>c. kSpaces ! unat c" content] assms by simp
  then show "takeWhile (\<lambda>c. \<not> kSpaces ! unat c) rest \<noteq> []" using assms(2) by (cases rest) simp_all
qed (auto dest: set_takeWhileD)

text \<open>
  C35. \<^verbatim>\<open>ReadLong\<close> and \<^verbatim>\<open>ReadULong\<close> read the number at the beginning of the next word of the content, wherever
  the windows end: white space is skipped; when the word begins with an optional sign and digits whose value
  is in the range of the type, that value is returned and what follows the digits stays to be read;
  otherwise a \<^verbatim>\<open>ParseNumberException\<close> leaves the word in place. For \<^verbatim>\<open>ReadULong\<close> the range is that of the
  digits, below \<open>2 ^ 64\<close>, and a minus sign negates modulo \<open>2 ^ 64\<close>, as \<^verbatim>\<open>strtoul\<close> does.
\<close>

theorem FilePiece_numbers_correct:
  assumes "delivers env decodes fp content"
  defines "rest \<equiv> dropWhile (\<lambda>c. kSpaces ! unat c) content"
  defines "word \<equiv> takeWhile (\<lambda>c. \<not> kSpaces ! unat c) rest"
  shows "(\<exists>fp'. if rest = [] then ReadLong env fp = Some (fp', Inl EndOfFileException) \<and> delivers env decodes fp' []
        else if \<exists>v n. begins_with_number word v n \<and> - (2 ^ 63) \<le> v \<and> v < 2 ^ 63
        then \<exists>v n. begins_with_number word v n \<and> - (2 ^ 63) \<le> v \<and> v < 2 ^ 63 \<and>
               ReadLong env fp = Some (fp', Inr v) \<and> delivers env decodes fp' (drop n rest)
        else ReadLong env fp = Some (fp', Inl ParseNumberException) \<and> delivers env decodes fp' rest) \<and>
    (\<exists>fp'. if rest = [] then ReadULong env fp = Some (fp', Inl EndOfFileException) \<and> delivers env decodes fp' []
        else if \<exists>v n. begins_with_number word v n \<and> \<bar>v\<bar> < 2 ^ 64
        then \<exists>v n. begins_with_number word v n \<and> \<bar>v\<bar> < 2 ^ 64 \<and>
               ReadULong env fp = Some (fp', Inr (word_of_int v)) \<and> delivers env decodes fp' (drop n rest)
        else ReadULong env fp = Some (fp', Inl ParseNumberException) \<and> delivers env decodes fp' rest)"
proof (cases "rest = []")
  case True
  then show ?thesis
    using read_long.ReadNumber_good [OF assms(1)] read_ulong.ReadNumber_good [OF assms(1)]
    unfolding ReadLong_def ReadULong_def rest_def [symmetric] by simp
next
  case False
  note w = first_word [OF rest_def [THEN meta_eq_to_obj_eq] False, folded word_def]
  obtain fp1 where l: "case ParseNumber_long word of
       Inl e \<Rightarrow> ReadLong env fp = Some (fp1, Inl e) \<and> delivers env decodes fp1 rest
     | Inr (v, n) \<Rightarrow> ReadLong env fp = Some (fp1, Inr v) \<and> delivers env decodes fp1 (drop n rest)"
    using read_long.ReadNumber_good [OF assms(1)] False
    unfolding ReadLong_def rest_def [symmetric] Let_def word_def [symmetric] by auto
  obtain fp2 where u: "case ParseNumber_ulong word of
       Inl e \<Rightarrow> ReadULong env fp = Some (fp2, Inl e) \<and> delivers env decodes fp2 rest
     | Inr (v, n) \<Rightarrow> ReadULong env fp = Some (fp2, Inr v) \<and> delivers env decodes fp2 (drop n rest)"
    using read_ulong.ReadNumber_good [OF assms(1)] False
    unfolding ReadULong_def rest_def [symmetric] Let_def word_def [symmetric] by auto
  show ?thesis unfolding if_not_P [OF False]
  proof (rule conjI)
    show "\<exists>fp'. if \<exists>v n. begins_with_number word v n \<and> - (2 ^ 63) \<le> v \<and> v < 2 ^ 63
        then \<exists>v n. begins_with_number word v n \<and> - (2 ^ 63) \<le> v \<and> v < 2 ^ 63 \<and>
               ReadLong env fp = Some (fp', Inr v) \<and> delivers env decodes fp' (drop n rest)
        else ReadLong env fp = Some (fp', Inl ParseNumberException) \<and> delivers env decodes fp' rest"
      using ParseNumber_long_number [OF w] l by (cases "ParseNumber_long word") (auto intro!: exI [of _ fp1])
    show "\<exists>fp'. if \<exists>v n. begins_with_number word v n \<and> \<bar>v\<bar> < 2 ^ 64
        then \<exists>v n. begins_with_number word v n \<and> \<bar>v\<bar> < 2 ^ 64 \<and>
               ReadULong env fp = Some (fp', Inr (word_of_int v)) \<and> delivers env decodes fp' (drop n rest)
        else ReadULong env fp = Some (fp', Inl ParseNumberException) \<and> delivers env decodes fp' rest"
      using ParseNumber_ulong_number [OF w] u by (cases "ParseNumber_ulong word") (auto intro!: exI [of _ fp2])
  qed
qed

subsection \<open>A small file\<close>

text \<open>Pages of six bytes, so that the file takes several windows of twelve.\<close>

definition small_env :: "bytes \<Rightarrow> stored Environment" where
  "small_env file = \<lparr>env_kPageSize = 6, env_library = stored_library, env_file = file, env_SizeFile = length file,
     env_lseek = Some 0, env_mmap = (\<lambda>_ _. True)\<rparr>"

definition small_fd :: "bytes \<Rightarrow> Desc" where
  "small_fd file = \<lparr>d_rest = file, d_out = [], d_answers = [], d_syncs = []\<rparr>"

lemma small_opens: "DetectMagic file = UTIL_UNKNOWN \<Longrightarrow> length file < 100 \<Longrightarrow> opens (small_env file) (\<lambda>_. stored_decodes) (small_fd file) file"
  by (simp add: opens_def env_ok_def small_env_def small_fd_def stored_library_ok kMagicSize_def file_content_def kBadSize_def)

theorem FilePiece_lines_correct_witness:
  "\<exists>fp fp'. Initialize (small_env (lit ''one'' @ [13, 10, 10] @ lit ''a longer line'')) 1 (small_fd (lit ''one'' @ [13, 10, 10] @ lit ''a longer line'')) = Some (fp, Inr ()) \<and>
    for_lines (ReadLineOrEOF (small_env (lit ''one'' @ [13, 10, 10] @ lit ''a longer line'')) newline True) (\<lambda>a l. Some (Inr (a @ [l]))) fp [] =
      Some (fp', Inr [lit ''one'', [], lit ''a longer line''])"
proof -
  let ?f = "lit ''one'' @ [13, 10, 10] @ lit ''a longer line''"
  have "DetectMagic ?f = UTIL_UNKNOWN" "length ?f < 100" by code_simp+
  moreover have "fold_result (\<lambda>a l. Some (Inr (a @ [l]))) [] (text_lines newline True ?f) = Some (Inr [lit ''one'', [], lit ''a longer line''])" by code_simp
  ultimately show ?thesis
    using FilePiece_lines_correct [OF small_opens [of ?f], of 1 "\<lambda>a l. Some (Inr (a @ [l]))" "[]"] by fastforce
qed

lemma number_42: "begins_with_number (lit ''-42'') v n \<longleftrightarrow> v = - 42 \<and> n = 3"
proof -
  have "lit ''-42'' \<noteq> []" "\<forall>c\<in>set (lit ''-42''). \<not> kSpaces ! unat c" "strto (lit ''-42'') = (True, lit ''42'', 3)" by code_simp+
  from strto_number [OF this] show ?thesis by (auto simp: lit_def dec_value_def digit_value_def)
qed

theorem FilePiece_numbers_correct_witness:
  "\<exists>fp fp'. Initialize (small_env (lit '' -42 7'')) 1 (small_fd (lit '' -42 7'')) = Some (fp, Inr ()) \<and>
    ReadLong (small_env (lit '' -42 7'')) fp = Some (fp', Inr (- 42)) \<and>
    delivers (small_env (lit '' -42 7'')) (\<lambda>_. stored_decodes) fp' (lit '' 7'')"
proof -
  let ?f = "lit '' -42 7''"
  have "DetectMagic ?f = UTIL_UNKNOWN" "length ?f < 100" by code_simp+
  then obtain fp where fp: "Initialize (small_env ?f) 1 (small_fd ?f) = Some (fp, Inr ())" "delivers (small_env ?f) (\<lambda>_. stored_decodes) fp ?f"
    using Initialize_good [OF small_opens] by blast
  have w: "dropWhile (\<lambda>c. kSpaces ! unat c) ?f = lit ''-42 7''" "takeWhile (\<lambda>c. \<not> kSpaces ! unat c) (lit ''-42 7'') = lit ''-42''"
    "lit ''-42 7'' \<noteq> []" "drop 3 (lit ''-42 7'') = lit '' 7''" by code_simp+
  from FilePiece_numbers_correct [OF fp(2), THEN conjunct1] fp(1) show ?thesis
    unfolding w(1,2) number_42 if_not_P [OF w(3)] by (auto simp: w(4))
qed

theorem ReadLine_out_of_bounds_witness:
  "\<exists>fp'. ReadLine ((small_env (replicate 40 97))\<lparr>env_mmap := \<lambda>_ _. False\<rparr>) newline True
     \<lparr>fp_data = replicate 12 97, fp_null = False, fp_position = 0, fp_last_space = - 1, fp_file = small_fd (replicate 40 97),
      fp_total_size = 40, fp_default_map_size = 12, fp_mapped_offset = 0, fp_at_end = False, fp_fallback_to_read = False,
      fp_fell_back = \<lparr>rc_internal = Complete, rc_raw_amount = 0\<rparr>\<rparr> = Some (fp', Inl OutOfBounds)"
proof -
  have "DetectMagic (replicate 40 97) = UTIL_UNKNOWN" by code_simp
  then show ?thesis by (intro ReadLine_out_of_bounds) (simp_all add: small_env_def small_fd_def kMagicSize_def)
qed

end
