(* ===== verification/IntegerToString.thy ===== *)
theory IntegerToString
  imports Prelude
begin

text \<open>
  \<^verbatim>\<open>src/util/integer_to_string.cc\<close> and \<^verbatim>\<open>src/util/integer_to_string.hh\<close>: integers to decimal, in the SSE2
  version and in the portable one, signed integers, and pointers to hexadecimal. A function
  writes to a buffer and returns the end of the number; here it returns the bytes it writes,
  which may go beyond the end, and the length of the number.

  An \<^verbatim>\<open>__m128i\<close> is the list of its eight 16-bit lanes, the lowest first, or of its sixteen bytes for
  the intrinsics that work on bytes; the intrinsics are written with the wrap-around of their lane.
\<close>

subsection \<open>Lookup table\<close>

definition gDigitsLut :: bytes where
  "gDigitsLut = lit (
      ''00010203040506070809'' @
      ''10111213141516171819'' @
      ''20212223242526272829'' @
      ''30313233343536373839'' @
      ''40414243444546474849'' @
      ''50515253545556575859'' @
      ''60616263646566676869'' @
      ''70717273747576777879'' @
      ''80818283848586878889'' @
      ''90919293949596979899'')"

definition put_if :: "bool \<Rightarrow> byte \<Rightarrow> bytes" where
  "put_if b c = (if b then [c] else [])"

definition lut :: "u32 \<Rightarrow> byte" where
  "lut i = gDigitsLut ! unat i"

definition shl1 :: "u32 \<Rightarrow> u32" where
  "shl1 x = push_bit 1 x"

text \<open>The two branches that every version has for numbers of up to four and up to eight digits.\<close>

definition put_below_10000 :: "u32 \<Rightarrow> bytes" where
  "put_below_10000 v =
     (let d1 = shl1 (v div 100);
          d2 = shl1 (v mod 100)
      in put_if (v \<ge> 1000) (lut d1) @
         put_if (v \<ge> 100) (lut (d1 + 1)) @
         put_if (v \<ge> 10) (lut d2) @
         [lut (d2 + 1)])"

definition put_below_100000000 :: "'a::len word \<Rightarrow> u32 \<Rightarrow> bytes" where
  "put_below_100000000 value v =
     (let b = v div 10000;
          c = v mod 10000;
          d1 = shl1 (b div 100);
          d2 = shl1 (b mod 100);
          d3 = shl1 (c div 100);
          d4 = shl1 (c mod 100)
      in put_if (value \<ge> 10000000) (lut d1) @
         put_if (value \<ge> 1000000) (lut (d1 + 1)) @
         put_if (value \<ge> 100000) (lut d2) @
         [lut (d2 + 1), lut d3, lut (d3 + 1), lut d4, lut (d4 + 1)])"

text \<open>The leading two or four digits of a number of nine or ten, or of seventeen to twenty digits.\<close>

definition put_leading_2 :: "u32 \<Rightarrow> bytes" where
  "put_leading_2 a =
     (if a \<ge> 10 then (let i = shl1 a in [lut i, lut (i + 1)])
      else [48 + ucast a])"

definition put_leading_4 :: "u32 \<Rightarrow> bytes" where
  "put_leading_4 a =
     (if a < 10 then [48 + ucast a]
      else if a < 100 then (let i = shl1 a in [lut i, lut (i + 1)])
      else if a < 1000 then
        (let i = shl1 (a mod 100) in [48 + ucast (a div 100), lut i, lut (i + 1)])
      else
        (let i = shl1 (a div 100); j = shl1 (a mod 100)
         in [lut i, lut (i + 1), lut j, lut (j + 1)]))"

subsection \<open>SSE2\<close>

type_synonym m128i = "nat list"

fun lanes64 :: "m128i \<Rightarrow> nat list" where
  "lanes64 [a, b, c, d, e, f, g, h] =
     [a + 2 ^ 16 * b + 2 ^ 32 * c + 2 ^ 48 * d, e + 2 ^ 16 * f + 2 ^ 32 * g + 2 ^ 48 * h]"
| "lanes64 _ = []"

fun of_lanes64 :: "nat list \<Rightarrow> m128i" where
  "of_lanes64 [x, y] =
     [x mod 2 ^ 16, x div 2 ^ 16 mod 2 ^ 16, x div 2 ^ 32 mod 2 ^ 16, x div 2 ^ 48 mod 2 ^ 16,
      y mod 2 ^ 16, y div 2 ^ 16 mod 2 ^ 16, y div 2 ^ 32 mod 2 ^ 16, y div 2 ^ 48 mod 2 ^ 16]"
| "of_lanes64 _ = []"

fun lanes32 :: "m128i \<Rightarrow> nat list" where
  "lanes32 [a, b, c, d, e, f, g, h] = [a + 2 ^ 16 * b, c + 2 ^ 16 * d, e + 2 ^ 16 * f, g + 2 ^ 16 * h]"
| "lanes32 _ = []"

fun of_lanes32 :: "nat list \<Rightarrow> m128i" where
  "of_lanes32 [x, y, z, w] =
     [x mod 2 ^ 16, x div 2 ^ 16 mod 2 ^ 16, y mod 2 ^ 16, y div 2 ^ 16 mod 2 ^ 16,
      z mod 2 ^ 16, z div 2 ^ 16 mod 2 ^ 16, w mod 2 ^ 16, w div 2 ^ 16 mod 2 ^ 16]"
| "of_lanes32 _ = []"

definition mm_cvtsi32_si128 :: "u32 \<Rightarrow> m128i" where
  "mm_cvtsi32_si128 v = of_lanes64 [unat v, 0]"

definition mm_mul_epu32 :: "m128i \<Rightarrow> m128i \<Rightarrow> m128i" where
  "mm_mul_epu32 a b = of_lanes64 (map2 (\<lambda>x y. (x mod 2 ^ 32) * (y mod 2 ^ 32)) (lanes64 a) (lanes64 b))"

definition mm_srli_epi64 :: "m128i \<Rightarrow> nat \<Rightarrow> m128i" where
  "mm_srli_epi64 a n = of_lanes64 (map (\<lambda>x. x div 2 ^ n) (lanes64 a))"

definition mm_slli_epi64 :: "m128i \<Rightarrow> nat \<Rightarrow> m128i" where
  "mm_slli_epi64 a n = of_lanes64 (map (\<lambda>x. x * 2 ^ n mod 2 ^ 64) (lanes64 a))"

definition mm_sub_epi32 :: "m128i \<Rightarrow> m128i \<Rightarrow> m128i" where
  "mm_sub_epi32 a b = of_lanes32 (map2 (\<lambda>x y. (x + 2 ^ 32 - y) mod 2 ^ 32) (lanes32 a) (lanes32 b))"

definition mm_sub_epi16 :: "m128i \<Rightarrow> m128i \<Rightarrow> m128i" where
  "mm_sub_epi16 = map2 (\<lambda>x y. (x + 2 ^ 16 - y) mod 2 ^ 16)"

definition mm_mulhi_epu16 :: "m128i \<Rightarrow> m128i \<Rightarrow> m128i" where
  "mm_mulhi_epu16 = map2 (\<lambda>x y. x * y div 2 ^ 16)"

definition mm_mullo_epi16 :: "m128i \<Rightarrow> m128i \<Rightarrow> m128i" where
  "mm_mullo_epi16 = map2 (\<lambda>x y. x * y mod 2 ^ 16)"

fun mm_unpacklo_epi16 :: "m128i \<Rightarrow> m128i \<Rightarrow> m128i" where
  "mm_unpacklo_epi16 (a # b # c # d # _) (a' # b' # c' # d' # _) = [a, a', b, b', c, c', d, d']"
| "mm_unpacklo_epi16 _ _ = []"

fun mm_unpacklo_epi32 :: "m128i \<Rightarrow> m128i \<Rightarrow> m128i" where
  "mm_unpacklo_epi32 (a # b # c # d # _) (a' # b' # c' # d' # _) = [a, b, a', b', c, d, c', d']"
| "mm_unpacklo_epi32 _ _ = []"

text \<open>Signed 16-bit lanes to bytes with saturation; then the intrinsics on bytes.\<close>

definition saturate :: "nat \<Rightarrow> byte" where
  "saturate x = (if x \<ge> 2 ^ 15 then 0 else if x > 255 then 255 else of_nat x)"

definition mm_packus_epi16 :: "m128i \<Rightarrow> m128i \<Rightarrow> bytes" where
  "mm_packus_epi16 a b = map saturate (a @ b)"

definition mm_add_epi8 :: "bytes \<Rightarrow> bytes \<Rightarrow> bytes" where
  "mm_add_epi8 = map2 (+)"

definition mm_cmpeq_epi8 :: "bytes \<Rightarrow> bytes \<Rightarrow> bytes" where
  "mm_cmpeq_epi8 = map2 (\<lambda>x y. if x = y then 255 else 0)"

primrec mm_movemask_epi8 :: "bytes \<Rightarrow> u32" where
  "mm_movemask_epi8 [] = 0"
| "mm_movemask_epi8 (x # xs) = (if bit x 7 then 1 else 0) OR push_bit 1 (mm_movemask_epi8 xs)"

definition mm_srli_si128 :: "bytes \<Rightarrow> nat \<Rightarrow> bytes" where
  "mm_srli_si128 a n = drop n a @ replicate (min n 16) 0"

definition mm_setzero_si128 :: m128i where
  "mm_setzero_si128 = replicate 8 0"

definition builtin_ctz :: "u32 \<Rightarrow> nat" where
  "builtin_ctz w = find_if (\<lambda>i. bit w i) [0..<32]"

definition kDiv10000Vector :: m128i where
  "kDiv10000Vector = of_lanes32 [0xd1b71759, 0xd1b71759, 0xd1b71759, 0xd1b71759]"

definition k10000Vector :: m128i where
  "k10000Vector = of_lanes32 [10000, 10000, 10000, 10000]"

definition kDivPowersVector :: m128i where
  "kDivPowersVector = [8389, 5243, 13108, 32768, 8389, 5243, 13108, 32768]"

definition kShiftPowersVector :: m128i where
  "kShiftPowersVector =
     [2 ^ (16 - (23 + 2 - 16)), 2 ^ (16 - (19 + 2 - 16)), 2 ^ (16 - 1 - 2), 2 ^ 15,
      2 ^ (16 - (23 + 2 - 16)), 2 ^ (16 - (19 + 2 - 16)), 2 ^ (16 - 1 - 2), 2 ^ 15]"

definition k10Vector :: m128i where
  "k10Vector = [10, 10, 10, 10, 10, 10, 10, 10]"

definition kAsciiZero :: bytes where
  "kAsciiZero = replicate 16 48"

definition Convert8DigitsSSE2 :: "u32 \<Rightarrow> m128i" where
  "Convert8DigitsSSE2 value =
     (let abcdefgh = mm_cvtsi32_si128 value;
          abcd = mm_srli_epi64 (mm_mul_epu32 abcdefgh kDiv10000Vector) 45;
          efgh = mm_sub_epi32 abcdefgh (mm_mul_epu32 abcd k10000Vector);
          v1 = mm_unpacklo_epi16 abcd efgh;
          v1a = mm_slli_epi64 v1 2;
          v2a = mm_unpacklo_epi16 v1a v1a;
          v2 = mm_unpacklo_epi32 v2a v2a;
          v3 = mm_mulhi_epu16 v2 kDivPowersVector;
          v4 = mm_mulhi_epu16 v3 kShiftPowersVector;
          v5 = mm_mullo_epi16 v4 k10Vector;
          v6 = mm_slli_epi64 v5 16;
          v7 = mm_sub_epi16 v4 v6
      in v7)"

text \<open>The \<^verbatim>\<open>switch\<close> shifts by at most eight bytes and leaves its argument alone otherwise.\<close>

definition ShiftDigits_SSE2 :: "bytes \<Rightarrow> nat \<Rightarrow> bytes" where
  "ShiftDigits_SSE2 a digit = (if digit = 0 then a else if digit \<le> 8 then mm_srli_si128 a digit else a)"

definition whole :: "bytes \<Rightarrow> bytes \<times> nat" where
  "whole s = (s, length s)"

definition ToString_u32_SSE2 :: "u32 \<Rightarrow> bytes \<times> nat" where
  "ToString_u32_SSE2 value =
     (if value < 10000 then whole (put_below_10000 value)
      else if value < 100000000 then whole (put_below_100000000 value value)
      else
        (let a = value div 100000000;
             value = value mod 100000000;
             b = Convert8DigitsSSE2 value;
             ba = mm_add_epi8 (mm_packus_epi16 mm_setzero_si128 b) kAsciiZero;
             result = mm_srli_si128 ba 8
         in whole (put_leading_2 a @ take 8 result)))"

definition ToString_u64_SSE2 :: "u64 \<Rightarrow> bytes \<times> nat" where
  "ToString_u64_SSE2 value =
     (if value < 100000000 then
        (let v = ucast value :: u32
         in if v < 10000 then whole (put_below_10000 v) else whole (put_below_100000000 value v))
      else if value < 10000000000000000 then
        (let v0 = ucast (value div 100000000);
             v1 = ucast (value mod 100000000);
             a0 = Convert8DigitsSSE2 v0;
             a1 = Convert8DigitsSSE2 v1;
             va = mm_add_epi8 (mm_packus_epi16 a0 a1) kAsciiZero;
             mask1 = mm_movemask_epi8 (mm_cmpeq_epi8 va kAsciiZero);
             digit = builtin_ctz (NOT mask1 OR 0x8000);
             result = ShiftDigits_SSE2 va digit
         in (result, 16 - digit))
      else
        (let a = ucast (value div 10000000000000000);
             value = value mod 10000000000000000;
             v0 = ucast (value div 100000000);
             v1 = ucast (value mod 100000000);
             a0 = Convert8DigitsSSE2 v0;
             a1 = Convert8DigitsSSE2 v1;
             va = mm_add_epi8 (mm_packus_epi16 a0 a1) kAsciiZero
         in whole (put_leading_4 a @ va)))"

subsection \<open>Portable version\<close>

definition put_8 :: "u32 \<Rightarrow> bytes" where
  "put_8 v =
     (let b = v div 10000;
          c = v mod 10000;
          d1 = shl1 (b div 100);
          d2 = shl1 (b mod 100);
          d3 = shl1 (c div 100);
          d4 = shl1 (c mod 100)
      in [lut d1, lut (d1 + 1), lut d2, lut (d2 + 1), lut d3, lut (d3 + 1), lut d4, lut (d4 + 1)])"

definition ToString_u32 :: "u32 \<Rightarrow> bytes \<times> nat" where
  "ToString_u32 value =
     (if value < 10000 then whole (put_below_10000 value)
      else if value < 100000000 then whole (put_below_100000000 value value)
      else
        (let a = value div 100000000;
             value = value mod 100000000
         in whole (put_leading_2 a @ put_8 value)))"

definition ToString_u64 :: "u64 \<Rightarrow> bytes \<times> nat" where
  "ToString_u64 value =
     (if value < 100000000 then
        (let v = ucast value :: u32
         in if v < 10000 then whole (put_below_10000 v) else whole (put_below_100000000 value v))
      else if value < 10000000000000000 then
        (let v0 = ucast (value div 100000000) :: u32;
             v1 = ucast (value mod 100000000) :: u32;
             b0 = v0 div 10000;
             c0 = v0 mod 10000;
             d1 = shl1 (b0 div 100);
             d2 = shl1 (b0 mod 100);
             d3 = shl1 (c0 div 100);
             d4 = shl1 (c0 mod 100)
         in whole
             (put_if (value \<ge> 1000000000000000) (lut d1) @
              put_if (value \<ge> 100000000000000) (lut (d1 + 1)) @
              put_if (value \<ge> 10000000000000) (lut d2) @
              put_if (value \<ge> 1000000000000) (lut (d2 + 1)) @
              put_if (value \<ge> 100000000000) (lut d3) @
              put_if (value \<ge> 10000000000) (lut (d3 + 1)) @
              put_if (value \<ge> 1000000000) (lut d4) @
              put_if (value \<ge> 100000000) (lut (d4 + 1)) @
              put_8 v1))
      else
        (let a = ucast (value div 10000000000000000);
             value = value mod 10000000000000000;
             v0 = ucast (value div 100000000);
             v1 = ucast (value mod 100000000)
         in whole (put_leading_4 a @ put_8 v0 @ put_8 v1)))"

subsection \<open>Signed integers, short integers and pointers\<close>

text \<open>Over the unsigned version that the architecture selects.\<close>

definition put_sign :: "bytes \<times> nat \<Rightarrow> bytes \<times> nat" where
  "put_sign r = (case r of (s, n) \<Rightarrow> (45 # s, n + 1))"

definition ToString_i32 :: "(u32 \<Rightarrow> bytes \<times> nat) \<Rightarrow> u32 \<Rightarrow> bytes \<times> nat" where
  "ToString_i32 to_string value = (if sint value < 0 then put_sign (to_string (- value)) else to_string value)"

definition ToString_i64 :: "(u64 \<Rightarrow> bytes \<times> nat) \<Rightarrow> u64 \<Rightarrow> bytes \<times> nat" where
  "ToString_i64 to_string value = (if sint value < 0 then put_sign (to_string (- value)) else to_string value)"

definition ToString_i16 :: "(u32 \<Rightarrow> bytes \<times> nat) \<Rightarrow> u16 \<Rightarrow> bytes \<times> nat" where
  "ToString_i16 to_string value = ToString_i32 to_string (scast value)"

definition ToString_u16 :: "(u32 \<Rightarrow> bytes \<times> nat) \<Rightarrow> u16 \<Rightarrow> bytes \<times> nat" where
  "ToString_u16 to_string value = to_string (ucast value)"

definition ToString_bool :: "bool \<Rightarrow> bytes \<times> nat" where
  "ToString_bool b = whole [48 + (if b then 1 else 0)]"

definition kHexDigits :: bytes where
  "kHexDigits = lit ''0123456789abcdef''"

text \<open>\<open>n\<close> nibbles remain, so \<^verbatim>\<open>shift\<close> is \<open>4 * (n - 1)\<close>.\<close>

primrec hex_skip :: "u64 \<Rightarrow> nat \<Rightarrow> nat" where
  "hex_skip value 0 = 0"
| "hex_skip value (Suc n) = (if drop_bit (4 * n) value = 0 then hex_skip value n else Suc n)"

primrec hex_digits :: "u64 \<Rightarrow> nat \<Rightarrow> bytes" where
  "hex_digits value 0 = []"
| "hex_digits value (Suc n) = kHexDigits ! unat (drop_bit (4 * n) value AND 0xf) # hex_digits value n"

definition ToString_pointer :: "u64 \<Rightarrow> bytes \<times> nat" where
  "ToString_pointer value =
     whole (lit ''0x'' @ (if value = 0 then [48] else hex_digits value (hex_skip value 16)))"

text \<open>\<^verbatim>\<open>ToStringBuf<T>::kBytes\<close>, the room a caller has to provide.\<close>

datatype printed = PBool | PU16 | PI16 | PU32 | PI32 | PU64 | PI64 | PPointer

fun kBytes :: "printed \<Rightarrow> nat" where
  "kBytes PBool = 1"
| "kBytes PU16 = 5"
| "kBytes PI16 = 6"
| "kBytes PU32 = 10"
| "kBytes PI32 = 11"
| "kBytes PU64 = 20"
| "kBytes PI64 = 20"
| "kBytes PPointer = 18"

definition kToStringMaxBytes :: nat where
  "kToStringMaxBytes = 20"

subsection \<open>Digits\<close>

definition digit :: "nat \<Rightarrow> nat \<Rightarrow> byte" where
  "digit j n = of_nat (48 + n div 10 ^ j mod 10)"

definition pad :: "nat \<Rightarrow> nat \<Rightarrow> bytes" where
  "pad k n = map (\<lambda>j. digit j n) (rev [0..<k])"

lemma pad_0 [simp]: "pad 0 n = []"
  by (simp add: pad_def)

lemma pad_Suc: "pad (Suc k) n = digit k n # pad k n"
  by (simp add: pad_def)

lemma length_pad [simp]: "length (pad k n) = k"
  by (simp add: pad_def)

lemma pad_snoc: "pad (Suc k) n = pad k (n div 10) @ [digit 0 n]"
  by (induction k) (simp_all add: pad_Suc digit_def div_mult2_eq [symmetric] del: of_nat_add)

lemma digit_div: "digit j (n div 10 ^ k) = digit (k + j) n"
  by (simp add: digit_def div_mult2_eq [symmetric] power_add)

lemma digit_mod: "j < k \<Longrightarrow> digit j (n mod 10 ^ k) = digit j n"
proof -
  assume "j < k"
  then obtain d where k: "k = j + Suc d" using less_imp_Suc_add by (metis add_Suc_right)
  have "n mod 10 ^ k div 10 ^ j = n div 10 ^ j mod 10 ^ Suc d"
    unfolding k power_add by (simp add: mod_mult2_eq)
  then have "n mod 10 ^ k div 10 ^ j mod 10 = n div 10 ^ j mod 10"
    by (simp add: mod_mod_cancel)
  then show ?thesis by (simp add: digit_def)
qed

lemma pad_add: "pad (k + l) n = pad k (n div 10 ^ l) @ pad l (n mod 10 ^ l)"
proof -
  have "pad (k + l) n = pad k (n div 10 ^ l) @ pad l n"
    by (induction k) (simp_all add: pad_Suc digit_div add.commute)
  moreover have "pad l n = pad l (n mod 10 ^ l)"
    by (auto simp: pad_def digit_mod)
  ultimately show ?thesis by simp
qed

lemma dec_step: "10 \<le> n \<Longrightarrow> dec n = dec (n div 10) @ [digit 0 n]"
  by (subst dec.simps) (simp add: digit_def)

lemma dec_single: "n < 10 \<Longrightarrow> dec n = [digit 0 n]"
  by (subst dec.simps) (simp add: digit_def)

lemma dec_pad: "10 ^ k \<le> n \<Longrightarrow> dec n = dec (n div 10 ^ k) @ pad k (n mod 10 ^ k)"
proof (induction k arbitrary: n)
  case (Suc k)
  have "10 ^ k \<le> n div 10" using Suc.prems by (simp add: less_eq_div_iff_mult_less_eq mult.commute)
  from Suc.IH [OF this] have "dec (n div 10) = dec (n div 10 ^ Suc k) @ pad k (n div 10 mod 10 ^ k)"
    by (simp add: div_mult2_eq [symmetric])
  moreover have "10 \<le> n" using Suc.prems by (meson le_trans self_le_power one_le_numeral zero_less_Suc)
  moreover have "n mod 10 ^ Suc k div 10 = n div 10 mod 10 ^ k"
    using mod_mult2_eq [of n 10 "10 ^ k"] by simp
  moreover have "digit 0 (n mod 10 ^ Suc k) = digit 0 n" by (rule digit_mod) simp
  ultimately show ?case by (simp add: dec_step pad_snoc)
qed simp

text \<open>Printing the digits that are significant, one test for each.\<close>

definition significant :: "nat \<Rightarrow> nat \<Rightarrow> bytes" where
  "significant k n = concat (map (\<lambda>j. put_if (10 ^ j \<le> n) (digit j n)) (rev [1..<k])) @ [digit 0 n]"

lemma put_if_False [simp]: "\<not> b \<Longrightarrow> put_if b c = []"
  by (simp add: put_if_def)

lemma put_if_True [simp]: "b \<Longrightarrow> put_if b c = [c]"
  by (simp add: put_if_def)

lemma significant_dec: "n < 10 ^ k \<Longrightarrow> significant k n = dec n"
proof (induction k arbitrary: n)
  case (Suc k)
  have pre: "rev [1..<Suc k] = map Suc (rev [0..<k])" by (simp only: One_nat_def map_Suc_upt [symmetric] rev_map)
  show ?case
  proof (cases "n < 10")
    case True
    have "put_if (10 ^ j \<le> n) (digit j n) = []" if "j \<in> set [1..<Suc k]" for j
    proof -
      have "10 ^ 1 \<le> (10::nat) ^ j" using that by (intro power_increasing) auto
      then show ?thesis using True by simp
    qed
    then have "concat (map (\<lambda>j. put_if (10 ^ j \<le> n) (digit j n)) (rev [1..<Suc k])) = []"
      by (simp only: concat_eq_Nil_conv set_map set_rev) blast
    then show ?thesis unfolding significant_def using dec_single [OF True] by (simp only: append_Nil)
  next
    case False
    then have "k \<noteq> 0" using Suc.prems by (cases k) auto
    have "n div 10 < 10 ^ k" using Suc.prems by (simp add: div_less_iff_less_mult mult.commute)
    from Suc.IH [OF this] have IH: "significant k (n div 10) = dec (n div 10)" .
    have "put_if (10 ^ Suc j \<le> n) (digit (Suc j) n) = put_if (10 ^ j \<le> n div 10) (digit j (n div 10))" for j
      using digit_div [of j n 1] by (simp add: less_eq_div_iff_mult_less_eq mult.commute)
    then have "significant (Suc k) n =
        concat (map (\<lambda>j. put_if (10 ^ j \<le> n div 10) (digit j (n div 10))) (rev [0..<k])) @ [digit 0 n]"
      unfolding significant_def pre by (simp add: comp_def)
    also have "rev [0..<k] = rev [1..<k] @ [0]" using \<open>k \<noteq> 0\<close> by (simp add: upt_conv_Cons)
    also have "concat (map (\<lambda>j. put_if (10 ^ j \<le> n div 10) (digit j (n div 10))) (rev [1..<k] @ [0])) = significant k (n div 10)"
      using False by (simp add: significant_def)
    finally show ?thesis using IH dec_step [of n] False by simp
  qed
qed (simp add: significant_def dec_single)


subsection \<open>The table and the branches\<close>

lemma nth_pairs:
  "i < length xs \<Longrightarrow> concat (map (\<lambda>i. [f i, g i]) xs) ! (2 * i) = f (xs ! i) \<and>
     concat (map (\<lambda>i. [f i, g i]) xs) ! (2 * i + 1) = g (xs ! i)"
proof (induction xs arbitrary: i)
  case (Cons x xs)
  then show ?case by (cases i) auto
qed simp

lemma gDigitsLut_pairs:
  "gDigitsLut = concat (map (\<lambda>i. [of_nat (48 + i div 10), of_nat (48 + i mod 10)]) [0..<100])"
  by (simp add: gDigitsLut_def lit_def upt_conv_Cons of_char_def)

lemma gDigitsLut_nth:
  assumes "i < 100"
  shows "gDigitsLut ! (2 * i) = digit 1 i" "gDigitsLut ! (2 * i + 1) = digit 0 i"
proof -
  have "i div 10 mod 10 = i div 10" using assms by simp
  then show "gDigitsLut ! (2 * i) = digit 1 i" "gDigitsLut ! (2 * i + 1) = digit 0 i"
    using nth_pairs [of i "[0..<100]" "\<lambda>i. of_nat (48 + i div 10) :: byte" "\<lambda>i. of_nat (48 + i mod 10) :: byte"] assms
    unfolding gDigitsLut_pairs by (simp_all add: digit_def)
qed

lemma lut_pair:
  assumes "unat x < 100"
  shows "lut (shl1 x) = digit 1 (unat x)" "lut (shl1 x + 1) = digit 0 (unat x)"
proof -
  have e: "unat (shl1 x) = 2 * unat x"
    using assms by (simp add: shl1_def push_bit_eq_mult unat_word_ariths mult.commute)
  moreover have "unat (shl1 x + 1) = 2 * unat x + 1"
    using assms e by (simp only: unat_word_ariths e) simp
  ultimately show "lut (shl1 x) = digit 1 (unat x)" "lut (shl1 x + 1) = digit 0 (unat x)"
    using gDigitsLut_nth [OF assms] by (simp_all only: lut_def)
qed

lemma lut_quad:
  assumes "unat b < 10000"
  shows "lut (shl1 (b div 100)) = digit 3 (unat b)"
    and "lut (shl1 (b div 100) + 1) = digit 2 (unat b)"
    and "lut (shl1 (b mod 100)) = digit 1 (unat b)"
    and "lut (shl1 (b mod 100) + 1) = digit 0 (unat b)"
proof -
  have d: "unat (b div 100) = unat b div 10 ^ 2" and m: "unat (b mod 100) = unat b mod 10 ^ 2"
    by (simp_all add: unat_div_distrib unat_mod_distrib)
  have "unat (b div 100) < 100" "unat (b mod 100) < 100"
    unfolding d m using assms by simp_all
  then show "lut (shl1 (b div 100)) = digit 3 (unat b)"
    and "lut (shl1 (b div 100) + 1) = digit 2 (unat b)"
    and "lut (shl1 (b mod 100)) = digit 1 (unat b)"
    and "lut (shl1 (b mod 100) + 1) = digit 0 (unat b)"
    using digit_mod [of 1 2 "unat b"] digit_mod [of 0 2 "unat b"] digit_div [of _ "unat b" 2]
    by (simp_all add: lut_pair d m numeral_3_eq_3 numeral_2_eq_2 del: power_Suc)
qed

lemma significant_Suc:
  "significant (Suc k) n = (if k = 0 then [digit 0 n] else put_if (10 ^ k \<le> n) (digit k n) @ significant k n)"
  by (simp add: significant_def)

lemma pad_numeral: "pad (numeral k) n = digit (pred_numeral k) n # pad (pred_numeral k) n"
  by (simp add: numeral_eq_Suc pad_Suc)

lemma significant_numeral:
  "significant (numeral v) n =
     (let k = pred_numeral v in if k = 0 then [digit 0 n] else put_if (10 ^ k \<le> n) (digit k n) @ significant k n)"
  by (simp add: numeral_eq_Suc significant_Suc Let_def del: power_Suc)

lemma put_below_10000_dec:
  assumes "unat v < 10000"
  shows "put_below_10000 v = dec (unat v)"
proof -
  have "put_below_10000 v = significant 4 (unat v)"
    by (simp add: put_below_10000_def significant_numeral significant_Suc lut_quad [OF assms] Let_def word_le_nat_alt)
  then show ?thesis using significant_dec [of "unat v" 4] assms by simp
qed

lemma quads_less:
  assumes "unat (v :: u32) < 100000000"
  shows "unat (v div 10000) < 10000" "unat (v mod 10000) < 10000"
  using assms by (simp_all add: unat_div_distrib unat_mod_distrib less_mult_imp_div_less)

lemma digit_quads:
  assumes "j < 4"
  shows "digit j (unat ((v :: u32) div 10000)) = digit (4 + j) (unat v)" "digit j (unat (v mod 10000)) = digit j (unat v)"
  using digit_div [of j "unat v" 4] digit_mod [of j 4 "unat v"] assms
  by (simp_all add: unat_div_distrib unat_mod_distrib)

lemma lut_eight:
  assumes "unat v < 100000000"
  shows "lut (shl1 (v div 10000 div 100)) = digit 7 (unat v)" "lut (shl1 (v div 10000 div 100) + 1) = digit 6 (unat v)"
    "lut (shl1 (v div 10000 mod 100)) = digit 5 (unat v)" "lut (shl1 (v div 10000 mod 100) + 1) = digit 4 (unat v)"
    "lut (shl1 (v mod 10000 div 100)) = digit 3 (unat v)" "lut (shl1 (v mod 10000 div 100) + 1) = digit 2 (unat v)"
    "lut (shl1 (v mod 10000 mod 100)) = digit 1 (unat v)" "lut (shl1 (v mod 10000 mod 100) + 1) = digit 0 (unat v)"
  by (simp_all add: lut_quad [OF quads_less(1) [OF assms]] lut_quad [OF quads_less(2) [OF assms]] digit_quads)

lemma put_8_pad:
  assumes "unat v < 100000000"
  shows "put_8 v = pad 8 (unat v)"
  by (simp add: put_8_def Let_def lut_eight [OF assms] pad_numeral pad_Suc)

lemma put_below_100000000_dec:
  assumes "unat v < 100000000" and "10000 \<le> unat v"
    and "(10000000 \<le> value) = (10000000 \<le> unat v)" "(1000000 \<le> value) = (1000000 \<le> unat v)" "(100000 \<le> value) = (100000 \<le> unat v)"
  shows "put_below_100000000 value v = dec (unat v)"
proof -
  have "put_below_100000000 value v = significant 8 (unat v)"
    using assms(2) by (simp add: put_below_100000000_def significant_numeral significant_Suc lut_eight [OF assms(1)] Let_def assms(3-5))
  then show ?thesis using significant_dec [of "unat v" 8] assms by simp
qed

lemma put_one_digit: "unat (a :: u32) < 10 \<Longrightarrow> [48 + ucast a] = dec (unat a)"
proof -
  assume "unat a < 10"
  moreover have "(ucast a :: byte) = of_nat (unat a)" by (simp add: unsigned_word_eqI)
  ultimately show ?thesis by (simp add: dec_single digit_def)
qed

lemma put_leading_2_dec:
  assumes "unat a < 100"
  shows "put_leading_2 a = dec (unat a)"
proof (cases "unat a < 10")
  case True
  then show ?thesis using put_one_digit [OF True] by (simp add: put_leading_2_def word_le_nat_alt)
next
  case False
  then have "dec (unat a) = significant 2 (unat a)" using significant_dec [of "unat a" 2] assms by simp
  then show ?thesis
    using False lut_pair [OF assms] by (simp add: put_leading_2_def word_le_nat_alt Let_def significant_numeral significant_Suc)
qed

lemma put_leading_4_dec:
  assumes "unat a < 10000"
  shows "put_leading_4 a = dec (unat a)"
proof -
  have s: "dec (unat a) = significant 4 (unat a)" using significant_dec [of "unat a" 4] assms by simp
  consider "unat a < 10" | "10 \<le> unat a" "unat a < 100" | "100 \<le> unat a" "unat a < 1000" | "1000 \<le> unat a" by linarith
  then show ?thesis
  proof cases
    case 1
    then show ?thesis using put_one_digit [OF 1] by (simp add: put_leading_4_def word_less_nat_alt)
  next
    case 2
    then show ?thesis using s lut_pair [of a]
      by (simp add: put_leading_4_def word_less_nat_alt Let_def significant_numeral significant_Suc)
  next
    case 3
    then have "unat (a div 100) < 10" by (simp add: unat_div_distrib less_mult_imp_div_less)
    moreover from this have "dec (unat (a div 100)) = [digit 2 (unat a)]"
      using digit_div [of 0 "unat a" 2] by (simp add: dec_single unat_div_distrib)
    ultimately have "[48 + ucast (a div 100)] = [digit 2 (unat a)]" using put_one_digit [of "a div 100"] by simp
    with 3 show ?thesis using s lut_quad [OF assms]
      by (simp add: put_leading_4_def word_less_nat_alt Let_def significant_numeral significant_Suc)
  next
    case 4
    then show ?thesis using s lut_quad [OF assms]
      by (simp add: put_leading_4_def word_less_nat_alt Let_def significant_numeral significant_Suc)
  qed
qed

subsection \<open>Division by multiplication\<close>

lemma magic_div:
  fixes x :: nat
  assumes "x div d < q" and "0 < d" and "m * d = s + e" and "q * e + (d - 1) * m < s + e" 
  shows "x * m div s = x div d"
proof (rule div_nat_eqI)
  have x: "x * m = (x div d) * (s + e) + (x mod d) * m"
    by (metis add_mult_distrib assms(3) div_mult_mod_eq mult.assoc mult.commute)
  then show "s * (x div d) \<le> x * m" by (simp add: algebra_simps)
  have "(x mod d) * m \<le> (d - 1) * m" using assms(2) by (intro mult_right_mono) (simp_all add: less_Suc_eq_le [symmetric])
  moreover have "(x div d) * e + e \<le> q * e" using assms(1) by (metis Suc_leI mult_Suc mult_le_mono1 add.commute)
  ultimately have "(x div d) * e + (x mod d) * m < s" using assms(4) by linarith
  then show "x * m < s * Suc (x div d)" unfolding x by (simp add: algebra_simps)
qed

lemma div_10000: "(x :: nat) < 100000000 \<Longrightarrow> x * 0xd1b71759 div 2 ^ 45 = x div 10000"
  by (rule magic_div [where q = 10000 and e = 1168]) (simp_all add: less_mult_imp_div_less)

lemma lane_div:
  assumes "x < (10000 :: nat)"
  shows "x * 4 * 8389 div 2 ^ 16 * 2 ^ 7 div 2 ^ 16 = x div 1000"
    and "x * 4 * 5243 div 2 ^ 16 * 2 ^ 11 div 2 ^ 16 = x div 100"
    and "x * 4 * 13108 div 2 ^ 16 * 2 ^ 13 div 2 ^ 16 = x div 10"
    and "x * 4 * 32768 div 2 ^ 16 * 2 ^ 15 div 2 ^ 16 = x"
proof -
  have sh: "y * 2 ^ k div 2 ^ 16 = y div 2 ^ (16 - k)" if "k \<le> 16" for y k :: nat
    using div_mult_mult1 [of "2 ^ k" y "2 ^ (16 - k)"] that by (simp add: mult.commute flip: power_add)
  have "x * (4 * 8389) div 2 ^ 25 = x div 1000"
    by (rule magic_div [where q = 10 and e = 1568]) (use assms in \<open>simp_all add: less_mult_imp_div_less\<close>)
  then show "x * 4 * 8389 div 2 ^ 16 * 2 ^ 7 div 2 ^ 16 = x div 1000"
    by (simp add: sh div_mult2_eq [symmetric] mult.assoc)
  have "x * (4 * 5243) div 2 ^ 21 = x div 100"
    by (rule magic_div [where q = 100 and e = 48]) (use assms in \<open>simp_all add: less_mult_imp_div_less\<close>)
  then show "x * 4 * 5243 div 2 ^ 16 * 2 ^ 11 div 2 ^ 16 = x div 100"
    by (simp add: sh div_mult2_eq [symmetric] mult.assoc)
  have "x * (4 * 13108) div 2 ^ 19 = x div 10"
    by (rule magic_div [where q = 1000 and e = 32]) (use assms in \<open>simp_all add: less_mult_imp_div_less\<close>)
  then show "x * 4 * 13108 div 2 ^ 16 * 2 ^ 13 div 2 ^ 16 = x div 10"
    by (simp add: sh div_mult2_eq [symmetric] mult.assoc)
  show "x * 4 * 32768 div 2 ^ 16 * 2 ^ 15 div 2 ^ 16 = x" by simp
qed

subsection \<open>Eight digits at once\<close>

lemma lanes_Horner:
  "a + 2 ^ 16 * b + 2 ^ 32 * c + 2 ^ 48 * d = a + 2 ^ 16 * (b + 2 ^ 16 * (c + 2 ^ 16 * (d :: nat)))"
  by (simp add: algebra_simps)

lemma of_lanes64_nested:
  "of_lanes64 [x, y] =
     [x mod 2 ^ 16, x div 2 ^ 16 mod 2 ^ 16, x div 2 ^ 16 div 2 ^ 16 mod 2 ^ 16, x div 2 ^ 16 div 2 ^ 16 div 2 ^ 16 mod 2 ^ 16,
      y mod 2 ^ 16, y div 2 ^ 16 mod 2 ^ 16, y div 2 ^ 16 div 2 ^ 16 mod 2 ^ 16, y div 2 ^ 16 div 2 ^ 16 div 2 ^ 16 mod 2 ^ 16]"
  by (simp add: div_mult2_eq [symmetric])

lemma of_lanes64_lanes:
  assumes "a < 2 ^ 16" "b < 2 ^ 16" "c < 2 ^ 16" "d < 2 ^ 16" "e < 2 ^ 16" "f < 2 ^ 16" "g < 2 ^ 16" "h < 2 ^ 16"
  shows "of_lanes64 [a + 2 ^ 16 * b + 2 ^ 32 * c + 2 ^ 48 * d, e + 2 ^ 16 * f + 2 ^ 32 * g + 2 ^ 48 * h] = [a, b, c, d, e, f, g, h]"
proof -
  have "(a + 2 ^ 16 * z) mod 2 ^ 16 = a" "(a + 2 ^ 16 * z) div 2 ^ 16 = z" if "a < 2 ^ 16" for a z :: nat
    using that by simp_all
  then show ?thesis
    unfolding lanes_Horner of_lanes64_nested using assms by (simp only: mod_less)
qed

lemma lanes64_of_lanes64: "lanes64 (of_lanes64 [x, y]) = [x mod 2 ^ 64, y mod 2 ^ 64]"
proof -
  have "z mod 2 ^ 16 + 2 ^ 16 * (z div 2 ^ 16 mod 2 ^ 16) + 2 ^ 32 * (z div 2 ^ 32 mod 2 ^ 16) + 2 ^ 48 * (z div 2 ^ 48 mod 2 ^ 16) = z mod 2 ^ 64" for z :: nat
    using mod_mult2_eq [of z "2 ^ 16" "2 ^ 48"] mod_mult2_eq [of "z div 2 ^ 16" "2 ^ 16" "2 ^ 32"]
      mod_mult2_eq [of "z div 2 ^ 32" "2 ^ 16" "2 ^ 16"]
    by (simp add: div_mult2_eq [symmetric] algebra_simps)
  then show ?thesis unfolding of_lanes64.simps(1) lanes64.simps(1) by presburger
qed

lemma lanes32_of_lanes64: "x < 2 ^ 32 \<Longrightarrow> lanes32 (of_lanes64 [x, 0]) = [x, 0, 0, 0]"
  using mod_mult2_eq [of x "2 ^ 16" "2 ^ 16"] by (simp add: algebra_simps)

lemma mm_mul_epu32_const:
  assumes "lanes64 b = [k + 2 ^ 32 * k, k + 2 ^ 32 * k]" and "k < 2 ^ 32" and "x < 2 ^ 32"
  shows "mm_mul_epu32 (of_lanes64 [x, 0]) b = of_lanes64 [x * k, 0]"
proof -
  have "(k + 2 ^ 32 * k) mod 2 ^ 32 = k" using assms(2) by (metis mod_mult_self2 mod_less)
  moreover have "x mod 2 ^ 64 mod 2 ^ 32 = x" using assms(3) by simp
  ultimately have "map2 (\<lambda>x y. (x mod 2 ^ 32) * (y mod 2 ^ 32)) [x mod 2 ^ 64, 0 mod 2 ^ 64] [k + 2 ^ 32 * k, k + 2 ^ 32 * k] = [x * k, 0]"
    by (simp only: zip_Cons_Cons zip_Nil list.map prod.case) simp
  then show ?thesis unfolding mm_mul_epu32_def lanes64_of_lanes64 assms(1) by (simp only:)
qed

lemma Convert8Digits_halves:
  assumes "unat v < 100000000"
  shows "mm_srli_epi64 (mm_mul_epu32 (mm_cvtsi32_si128 v) kDiv10000Vector) 45 = of_lanes64 [unat v div 10000, 0]"
    and "mm_sub_epi32 (mm_cvtsi32_si128 v) (mm_mul_epu32 (of_lanes64 [unat v div 10000, 0]) k10000Vector) =
      [unat v mod 10000, 0, 0, 0, 0, 0, 0, 0]"
proof -
  have v: "unat v < 2 ^ 32" using assms by simp
  have "mm_mul_epu32 (mm_cvtsi32_si128 v) kDiv10000Vector = of_lanes64 [unat v * 0xd1b71759, 0]"
    unfolding mm_cvtsi32_si128_def by (rule mm_mul_epu32_const [OF _ _ v]) (simp_all add: kDiv10000Vector_def)
  moreover have "unat v * 0xd1b71759 < 2 ^ 64" using assms by simp
  then have "unat v * 0xd1b71759 mod 2 ^ 64 div 2 ^ 45 = unat v div 10000"
    using div_10000 [OF assms] by (simp only: mod_less)
  ultimately show "mm_srli_epi64 (mm_mul_epu32 (mm_cvtsi32_si128 v) kDiv10000Vector) 45 = of_lanes64 [unat v div 10000, 0]"
    by (simp only: mm_srli_epi64_def lanes64_of_lanes64 list.map) simp
  have "mm_mul_epu32 (of_lanes64 [unat v div 10000, 0]) k10000Vector = of_lanes64 [unat v div 10000 * 10000, 0]"
    by (rule mm_mul_epu32_const) (use v in \<open>simp_all add: k10000Vector_def div_less_dividend less_mult_imp_div_less\<close>)
  moreover have "unat v div 10000 * 10000 < 2 ^ 32" using v by (meson div_times_less_eq_dividend le_less_trans)
  moreover have "(unat v + 2 ^ 32 - unat v div 10000 * 10000) mod 2 ^ 32 = unat v mod 10000"
  proof -
    have "unat v + 2 ^ 32 - unat v div 10000 * 10000 = unat v mod 10000 + 2 ^ 32"
      using div_mult_mod_eq [of "unat v" 10000] by linarith
    then show ?thesis by simp
  qed
  ultimately show "mm_sub_epi32 (mm_cvtsi32_si128 v) (mm_mul_epu32 (of_lanes64 [unat v div 10000, 0]) k10000Vector) =
      [unat v mod 10000, 0, 0, 0, 0, 0, 0, 0]"
    by (simp only: mm_sub_epi32_def mm_cvtsi32_si128_def lanes32_of_lanes64 [OF v] lanes32_of_lanes64) simp
qed

lemma mm_sub_lane: "y \<le> x \<Longrightarrow> x < 2 ^ 16 \<Longrightarrow> (x + 2 ^ 16 - y) mod 2 ^ 16 = x - (y :: nat)"
proof -
  assume "y \<le> x" "x < 2 ^ 16"
  then have "x + 2 ^ 16 - y = (x - y) + 2 ^ 16" and "x - y < 2 ^ 16" by (simp_all only: add_diff_assoc2 less_imp_diff_less)
  then show ?thesis by (simp only: mod_add_self2 mod_less)
qed

lemma digits_from_quotients:
  assumes "q < (10000 :: nat)"
  shows "q div 100 - q div 1000 * 10 = q div 100 mod 10" "q div 1000 * 10 \<le> q div 100"
    "q div 10 - q div 100 * 10 = q div 10 mod 10" "q div 100 * 10 \<le> q div 10"
    "q - q div 10 * 10 = q mod 10" "q div 10 * 10 \<le> q"
  using div_mult2_eq [of q 100 10] div_mult2_eq [of q 10 10]
  by (simp_all add: minus_div_mult_eq_mod)

definition quad :: "nat \<Rightarrow> nat list" where
  "quad q = [q div 1000, q div 100 mod 10, q div 10 mod 10, q mod 10]"

lemma Convert8Digits_quotients:
  assumes "q < 10000" "r < 10000"
  shows "mm_mulhi_epu16 (mm_mulhi_epu16 [q * 4, q * 4, q * 4, q * 4, r * 4, r * 4, r * 4, r * 4] kDivPowersVector) kShiftPowersVector =
    [q div 1000, q div 100, q div 10, q, r div 1000, r div 100, r div 10, r]"
proof -
  have k: "kShiftPowersVector = [2 ^ 7, 2 ^ 11, 2 ^ 13, 2 ^ 15, 2 ^ 7, 2 ^ 11, 2 ^ 13, 2 ^ 15]"
    by (simp add: kShiftPowersVector_def)
  show ?thesis
    unfolding mm_mulhi_epu16_def kDivPowersVector_def k
    by (simp only: zip_Cons_Cons zip_Nil list.map prod.case lane_div [OF assms(1)] lane_div [OF assms(2)])
qed

lemma mm_slli_16:
  assumes "a < 2 ^ 16" "b < 2 ^ 16" "c < 2 ^ 16" "d < 2 ^ 16" "e < 2 ^ 16" "f < 2 ^ 16" "g < 2 ^ 16" "h < 2 ^ 16"
  shows "mm_slli_epi64 [a, b, c, d, e, f, g, h] 16 = [0, a, b, c, 0, e, f, g]"
proof -
  have sh: "(a + 2 ^ 16 * b + 2 ^ 32 * c + 2 ^ 48 * d) * 2 ^ 16 mod 2 ^ 64 = 0 + 2 ^ 16 * a + 2 ^ 32 * b + 2 ^ 48 * c"
    if "a < 2 ^ 16" "b < 2 ^ 16" "c < 2 ^ 16" for a b c d :: nat
  proof -
    have "(a + 2 ^ 16 * b + 2 ^ 32 * c + 2 ^ 48 * d) * 2 ^ 16 = (2 ^ 16 * a + 2 ^ 32 * b + 2 ^ 48 * c) + 2 ^ 64 * d"
      by (simp add: algebra_simps)
    moreover have "2 ^ 16 * a + 2 ^ 32 * b + 2 ^ 48 * c < 2 ^ 64" using that by simp
    ultimately show ?thesis by (metis add_0 mod_less mod_mult_self2)
  qed
  show ?thesis
    unfolding mm_slli_epi64_def lanes64.simps list.map sh [OF assms(1-3)] sh [OF assms(5-7)]
    by (rule of_lanes64_lanes) (use assms in simp_all)
qed

lemma Convert8DigitsSSE2_quads:
  assumes "unat v < 100000000"
  shows "Convert8DigitsSSE2 v = quad (unat v div 10000) @ quad (unat v mod 10000)"
proof -
  let ?q = "unat v div 10000" and ?r = "unat v mod 10000"
  have q: "?q < 10000" using assms by (simp add: less_mult_imp_div_less)
  have r: "?r < 10000" by simp
  have abcd: "of_lanes64 [?q, 0] = [?q, 0, 0, 0, 0, 0, 0, 0]"
    using of_lanes64_lanes [of ?q 0 0 0 0 0 0 0] q by simp
  have v1a: "mm_slli_epi64 (mm_unpacklo_epi16 [?q, 0, 0, 0, 0, 0, 0, 0] [?r, 0, 0, 0, 0, 0, 0, 0]) 2 = [?q * 4, ?r * 4, 0, 0, 0, 0, 0, 0]"
  proof -
    have "(?q + 2 ^ 16 * ?r + 2 ^ 32 * 0 + 2 ^ 48 * 0) * 2 ^ 2 mod 2 ^ 64 = ?q * 4 + 2 ^ 16 * (?r * 4) + 2 ^ 32 * 0 + 2 ^ 48 * 0"
      using q r by simp
    then show ?thesis
      using of_lanes64_lanes [of "?q * 4" "?r * 4" 0 0 0 0 0 0] q r
      by (simp add: mm_slli_epi64_def del: of_lanes64.simps)
  qed
  have small: "x div d * 10 < 2 ^ 16" if "x < 10000" "10 \<le> d" for x d :: nat
  proof -
    have "x div d * 10 \<le> x div 10 * 10" using that(2) by (simp add: div_le_mono2)
    also have "\<dots> \<le> x" by simp
    finally show ?thesis using that(1) by simp
  qed
  have ten: "(10::nat) \<le> 1000" "(10::nat) \<le> 100" "(10::nat) \<le> 10" by simp_all
  note sm = small [OF q ten(1)] small [OF q ten(2)] small [OF q ten(3)] small [OF r ten(1)] small [OF r ten(2)] small [OF r ten(3)]
  have v6: "mm_slli_epi64 (mm_mullo_epi16 [?q div 1000, ?q div 100, ?q div 10, ?q, ?r div 1000, ?r div 100, ?r div 10, ?r] k10Vector) 16 =
     [0, ?q div 1000 * 10, ?q div 100 * 10, ?q div 10 * 10, 0, ?r div 1000 * 10, ?r div 100 * 10, ?r div 10 * 10]"
  proof -
    have "mm_mullo_epi16 [?q div 1000, ?q div 100, ?q div 10, ?q, ?r div 1000, ?r div 100, ?r div 10, ?r] k10Vector =
      [?q div 1000 * 10, ?q div 100 * 10, ?q div 10 * 10, ?q * 10 mod 2 ^ 16,
       ?r div 1000 * 10, ?r div 100 * 10, ?r div 10 * 10, ?r * 10 mod 2 ^ 16]"
      unfolding mm_mullo_epi16_def k10Vector_def
      by (simp only: zip_Cons_Cons zip_Nil list.map prod.case mod_less sm)
    then show ?thesis
      by (simp only:) (rule mm_slli_16, simp_all only: sm mod_less_divisor zero_less_power zero_less_numeral)
  qed
  note lanes = digits_from_quotients [OF q] digits_from_quotients [OF r]
  have le: "x div d < 2 ^ 16" if "x < 10000" for x d :: nat
    using le_less_trans [OF div_le_dividend [of x d] that] by simp
  have lt: "?q < 2 ^ 16" "?r < 2 ^ 16" using q r by simp_all
  show ?thesis
    unfolding Convert8DigitsSSE2_def Let_def Convert8Digits_halves [OF assms, unfolded abcd] v1a [unfolded mm_unpacklo_epi16.simps]
      mm_unpacklo_epi16.simps mm_unpacklo_epi32.simps Convert8Digits_quotients [OF q r] v6 mm_sub_epi16_def quad_def
    by (simp only: zip_Cons_Cons zip_Nil list.map prod.case mm_sub_lane lanes le [OF q] le [OF r] lt le0 diff_zero append.simps mod_add_self2 mod_less)
qed

subsection \<open>The conversions are correct\<close>

lemma saturate_digit: "d < 10 \<Longrightarrow> 48 + saturate d = of_nat (48 + d)"
  by (simp add: saturate_def)

lemma quad_pad: "q < 10000 \<Longrightarrow> map (\<lambda>d. 48 + saturate d) (quad q) = pad 4 q"
  by (simp add: quad_def pad_numeral pad_Suc digit_def saturate_digit less_mult_imp_div_less)

lemma length_quad [simp]: "length (quad q) = 4"
  by (simp add: quad_def)

lemma Convert8DigitsSSE2_pad:
  assumes "unat v < 100000000"
  shows "map (\<lambda>d. 48 + saturate d) (Convert8DigitsSSE2 v) = pad 8 (unat v)" "length (Convert8DigitsSSE2 v) = 8"
proof -
  have "unat v div 10000 < 10000" using assms by (simp add: less_mult_imp_div_less)
  then show "map (\<lambda>d. 48 + saturate d) (Convert8DigitsSSE2 v) = pad 8 (unat v)"
    using pad_add [of 4 4 "unat v"] quad_pad [of "unat v div 10000"] quad_pad [of "unat v mod 10000"]
    by (simp add: Convert8DigitsSSE2_quads [OF assms])
qed (simp add: Convert8DigitsSSE2_quads [OF assms])

lemma ascii_digits:
  "length ds = 16 \<Longrightarrow> mm_add_epi8 (map saturate ds) kAsciiZero = map (\<lambda>d. 48 + saturate d) ds"
  by (rule nth_equalityI) (simp_all add: mm_add_epi8_def kAsciiZero_def add.commute)

lemma ascii_packed:
  assumes "unat v0 < 100000000" "unat v1 < 100000000"
  shows "mm_add_epi8 (mm_packus_epi16 (Convert8DigitsSSE2 v0) (Convert8DigitsSSE2 v1)) kAsciiZero = pad 8 (unat v0) @ pad 8 (unat v1)"
  using ascii_digits [of "Convert8DigitsSSE2 v0 @ Convert8DigitsSSE2 v1"] assms
  by (simp add: mm_packus_epi16_def Convert8DigitsSSE2_pad)

lemma ascii_packed_low:
  assumes "unat v < 100000000"
  shows "take 8 (mm_srli_si128 (mm_add_epi8 (mm_packus_epi16 mm_setzero_si128 (Convert8DigitsSSE2 v)) kAsciiZero) 8) = pad 8 (unat v)"
  using ascii_digits [of "replicate 8 0 @ Convert8DigitsSSE2 v"] assms
  by (simp add: mm_packus_epi16_def mm_setzero_si128_def mm_srli_si128_def Convert8DigitsSSE2_pad)

text \<open>Counting the leading zeros.\<close>

lemma bit_movemask: "length xs \<le> 32 \<Longrightarrow> bit (mm_movemask_epi8 xs) i \<longleftrightarrow> i < length xs \<and> bit (xs ! i) 7"
proof (induction xs arbitrary: i)
  case (Cons x xs)
  show ?case
  proof (cases i)
    case 0
    then show ?thesis by (simp add: bit_0 even_or_iff)
  next
    case (Suc j)
    have "bit (mm_movemask_epi8 (x # xs)) (Suc j) \<longleftrightarrow> Suc j < 32 \<and> bit (mm_movemask_epi8 xs) j"
      by (simp only: mm_movemask_epi8.simps bit_or_iff bit_push_bit_iff) (auto simp: bit_1_iff)
    then show ?thesis using Cons.IH [of j] Cons.prems Suc by auto
  qed
qed simp

lemma find_if_upt: "k < m \<Longrightarrow> p k \<Longrightarrow> (\<And>j. j < k \<Longrightarrow> \<not> p j) \<Longrightarrow> find_if p [0..<m] = k"
proof -
  assume k: "k < m" "p k" "\<And>j. j < k \<Longrightarrow> \<not> p j"
  have "[0..<m] = [0..<k] @ k # [Suc k..<m]"
    using k(1) by (metis le0 less_imp_le_nat upt_add_eq_append upt_conv_Cons le_add_diff_inverse)
  then show ?thesis using k(2,3) by (auto simp: find_if_append)
qed

lemma leading_zeros:
  assumes "length xs = 16" "find_if (\<lambda>c. c \<noteq> 48) xs < 16"
  shows "builtin_ctz (NOT (mm_movemask_epi8 (mm_cmpeq_epi8 xs kAsciiZero)) OR 0x8000) = find_if (\<lambda>c. c \<noteq> 48) xs"
proof -
  let ?z = "find_if (\<lambda>c. c \<noteq> 48) xs"
  let ?m = "mm_movemask_epi8 (mm_cmpeq_epi8 xs kAsciiZero)"
  have l: "length (mm_cmpeq_epi8 xs kAsciiZero) = 16" using assms(1) by (simp add: mm_cmpeq_epi8_def kAsciiZero_def)
  have "mm_cmpeq_epi8 xs kAsciiZero ! i = (if xs ! i = 48 then 255 else 0)" if "i < 16" for i
    using assms(1) that by (simp add: mm_cmpeq_epi8_def kAsciiZero_def)
  moreover have "bit (255 :: byte) 7" by simp
  ultimately have m: "bit ?m i \<longleftrightarrow> i < 16 \<and> xs ! i = 48" for i
    using bit_movemask [of "mm_cmpeq_epi8 xs kAsciiZero" i] l by (auto split: if_splits)
  have b15: "bit (0x8000 :: u32) i \<longleftrightarrow> i = 15" if "i < 32" for i
    using bit_exp_iff [where 'a = u32, of 15 i] that by (auto simp: possible_bit_def)
  have w: "bit (NOT ?m OR 0x8000) i \<longleftrightarrow> \<not> (i < 16 \<and> xs ! i = 48) \<or> i = 15" if "i < 32" for i
    unfolding bit_or_iff bit_not_iff m b15 [OF that] using that by (simp add: possible_bit_def)
  show ?thesis
    unfolding builtin_ctz_def
  proof (rule find_if_upt)
    have "xs ! ?z \<noteq> 48" using find_if_nth [of "\<lambda>c. c \<noteq> 48" xs] assms by simp
    then show "bit (NOT ?m OR 0x8000) ?z" using w [of ?z] assms(2) by simp
    fix j assume j: "j < ?z"
    then have "xs ! j = 48" using find_if_before by blast
    then show "\<not> bit (NOT ?m OR 0x8000) j" using w [of j] j assms(2) by simp
  qed (use assms(2) in simp)
qed

lemma pad_leading_zeros: "0 < n \<Longrightarrow> n < 10 ^ k \<Longrightarrow> dropWhile (\<lambda>c. \<not> c \<noteq> 48) (pad k n) = dec n"
proof (induction k)
  case (Suc k)
  show ?case
  proof (cases "n < 10 ^ k")
    case True
    then have "digit k n = 48" by (simp add: digit_def)
    then show ?thesis using Suc.IH Suc.prems True by (simp add: pad_Suc)
  next
    case False
    define d where "d = n div 10 ^ k"
    have "d < 10" using Suc.prems(2) by (simp add: d_def less_mult_imp_div_less mult.commute)
    moreover have "0 < d" using False by (simp add: d_def div_greater_zero_iff)
    ultimately have "digit k n \<noteq> 48" "dec d = [digit k n]"
      using digit_div [of 0 n k] by (auto simp: d_def [symmetric] dec_single digit_def word_unat_eq_iff unat_of_nat simp del: of_nat_add)
    then show ?thesis
      using dec_pad [of k n] pad_add [of 1 k n] False digit_div [of 0 n k] by (simp add: pad_Suc d_def)
  qed
qed simp

lemma pad_shifted:
  assumes "100000000 \<le> n" "n < 10000000000000000"
  defines "z \<equiv> find_if (\<lambda>c. c \<noteq> 48) (pad 16 n)"
  shows "z \<le> 7" "drop z (pad 16 n) = dec n"
proof -
  show d: "drop z (pad 16 n) = dec n"
    using pad_leading_zeros [of n 16] assms(1,2) by (simp add: z_def)
  have "dec n = dec (n div 10 ^ 8) @ pad 8 (n mod 10 ^ 8)" using dec_pad [of 8 n] assms(1) by simp
  then have "9 \<le> length (dec n)" by (simp add: Suc_le_eq)
  moreover have "length (dec n) = 16 - z" using arg_cong [OF d, of length] by simp
  ultimately show "z \<le> 7" by simp
qed

text \<open>
  What a caller sees: the text up to the returned end, and all the bytes that were stored, which
  have to fit in the room provided.
\<close>

definition prints :: "bytes \<times> nat \<Rightarrow> bytes \<Rightarrow> nat \<Rightarrow> bool" where
  "prints r text room \<longleftrightarrow> take (snd r) (fst r) = text \<and> snd r = length text \<and> snd r \<le> length (fst r) \<and> length (fst r) \<le> room"

lemma prints_whole: "prints (whole s) t room \<longleftrightarrow> s = t \<and> length t \<le> room"
  by (auto simp: prints_def whole_def)

lemma length_dec: "n < 10 ^ k \<Longrightarrow> 0 < k \<Longrightarrow> length (dec n) \<le> k"
proof (induction k arbitrary: n)
  case (Suc k)
  show ?case
  proof (cases "n < 10")
    case False
    then have "0 < k" using Suc.prems by (cases k) auto
    then show ?thesis
      using False Suc.IH [of "n div 10"] Suc.prems by (simp add: dec_step less_mult_imp_div_less mult.commute)
  qed (simp add: dec_single)
qed simp

lemma unat_ucast_small: "unat (x :: u64) < 2 ^ 32 \<Longrightarrow> unat (ucast x :: u32) = unat x"
  by (simp add: unsigned_ucast_eq take_bit_nat_eq_self)

lemma u64_parts:
  fixes v :: u64
  assumes "unat v < 10000000000000000"
  shows "unat (ucast (v div 100000000) :: u32) = unat v div 10 ^ 8" "unat (ucast (v mod 100000000) :: u32) = unat v mod 10 ^ 8"
    "unat v div 10 ^ 8 < 100000000" "unat v mod 10 ^ 8 < 100000000"
proof -
  show d: "unat v div 10 ^ 8 < 100000000" and m: "unat v mod 10 ^ 8 < 100000000"
    using assms by (simp_all add: less_mult_imp_div_less)
  show "unat (ucast (v div 100000000) :: u32) = unat v div 10 ^ 8"
    using d by (subst unat_ucast_small) (simp_all add: unat_div_distrib)
  show "unat (ucast (v mod 100000000) :: u32) = unat v mod 10 ^ 8"
    using m by (subst unat_ucast_small) (simp_all add: unat_mod_distrib)
qed

lemma ToString_u32_whole: "ToString_u32_SSE2 v = whole (dec (unat v))" "ToString_u32 v = whole (dec (unat v))"
proof -
  have v: "unat v < 10 ^ 10" using unsigned_less [of v, where 'a = nat] by simp
  have "ToString_u32_SSE2 v = whole (dec (unat v)) \<and> ToString_u32 v = whole (dec (unat v))"
  proof (cases "unat v < 100000000")
    case True
    have "put_below_100000000 v v = dec (unat v)" if "10000 \<le> unat v"
      using put_below_100000000_dec [OF True that, of v] by (simp add: word_le_nat_alt)
    then show ?thesis
      using True put_below_10000_dec [of v]
      by (auto simp: ToString_u32_SSE2_def ToString_u32_def word_less_nat_alt not_less)
  next
    case False
    have p: "unat (v div 100000000) = unat v div 10 ^ 8" "unat (v mod 100000000) = unat v mod 10 ^ 8"
      by (simp_all add: unat_div_distrib unat_mod_distrib)
    have "dec (unat v) = dec (unat (v div 100000000)) @ pad 8 (unat (v mod 100000000))"
      using dec_pad [of 8 "unat v"] False unfolding p by simp
    moreover have "unat (v div 100000000) < 100" "unat (v mod 100000000) < 100000000"
      unfolding p using v by (simp_all add: less_mult_imp_div_less)
    ultimately show ?thesis
      using False by (simp add: ToString_u32_SSE2_def ToString_u32_def word_less_nat_alt Let_def
        put_leading_2_dec put_8_pad ascii_packed_low)
  qed
  then show "ToString_u32_SSE2 v = whole (dec (unat v))" "ToString_u32 v = whole (dec (unat v))" by simp_all
qed

lemma length_dec_u32: "length (dec (unat (v :: u32))) \<le> 10"
  using unsigned_less [of v, where 'a = nat] by (intro length_dec) simp_all

lemma ToString_u64_small:
  fixes v :: u64
  assumes "unat v < 100000000"
  shows "ToString_u64_SSE2 v = whole (dec (unat v))" "ToString_u64 v = whole (dec (unat v))"
proof -
  have u: "unat (ucast v :: u32) = unat v" using assms by (simp add: unat_ucast_small)
  have "put_below_100000000 v (ucast v) = dec (unat v)" if "10000 \<le> unat v"
    using put_below_100000000_dec [of "ucast v" v] that assms by (simp add: u word_le_nat_alt)
  moreover have "put_below_10000 (ucast v) = dec (unat v)" if "unat v < 10000"
    using put_below_10000_dec [of "ucast v"] that by (simp add: u)
  ultimately show "ToString_u64_SSE2 v = whole (dec (unat v))" "ToString_u64 v = whole (dec (unat v))"
    using assms by (auto simp: ToString_u64_SSE2_def ToString_u64_def word_less_nat_alt Let_def u not_less)
qed

lemma ToString_u64_middle:
  fixes v :: u64
  assumes "100000000 \<le> unat v" "unat v < 10000000000000000"
  shows "prints (ToString_u64_SSE2 v) (dec (unat v)) 16" "ToString_u64 v = whole (dec (unat v))"
proof -
  let ?n = "unat v"
  note p = u64_parts [OF assms(2)]
  define z where "z = find_if (\<lambda>c. c \<noteq> 48) (pad 16 ?n)"
  have z: "z \<le> 7" "drop z (pad 16 ?n) = dec ?n" using pad_shifted [OF assms] by (simp_all add: z_def)
  have "pad 8 (?n div 10 ^ 8) @ pad 8 (?n mod 10 ^ 8) = pad 16 ?n" using pad_add [of 8 8 ?n] by simp
  then have va: "mm_add_epi8 (mm_packus_epi16 (Convert8DigitsSSE2 (ucast (v div 100000000))) (Convert8DigitsSSE2 (ucast (v mod 100000000)))) kAsciiZero =
      pad 16 ?n"
    using ascii_packed [of "ucast (v div 100000000)" "ucast (v mod 100000000)"] p by simp
  have ctz: "builtin_ctz (NOT (mm_movemask_epi8 (mm_cmpeq_epi8 (pad 16 ?n) kAsciiZero)) OR 0x8000) = z"
    unfolding z_def using z(1) by (intro leading_zeros) (simp_all add: z_def)
  have "ToString_u64_SSE2 v = (ShiftDigits_SSE2 (pad 16 ?n) z, 16 - z)"
    using assms by (simp add: ToString_u64_SSE2_def Let_def word_less_nat_alt va ctz)
  moreover have "ShiftDigits_SSE2 (pad 16 ?n) z = dec ?n @ replicate z 0"
    using z by (auto simp: ShiftDigits_SSE2_def mm_srli_si128_def)
  moreover have "length (dec ?n) = 16 - z" using arg_cong [OF z(2), of length] by simp
  ultimately show "prints (ToString_u64_SSE2 v) (dec ?n) 16" using z(1) by (simp add: prints_def)
  let ?w = "ucast (v div 100000000) :: u32"
  have w: "unat ?w < 100000000" using p by simp
  have le: "(l * 10 ^ 8 \<le> ?n) = (l \<le> unat ?w)" for l
    using p by (simp add: less_eq_div_iff_mult_less_eq)
  note le8 = le [of 10000000] le [of 1000000] le [of 100000] le [of 10000] le [of 1000] le [of 100] le [of 10] le [of 1]
  have "significant 8 (unat ?w) @ pad 8 (?n mod 10 ^ 8) = dec ?n"
    using significant_dec [of "unat ?w" 8] w dec_pad [of 8 ?n] assms(1) p by simp
  then show "ToString_u64 v = whole (dec ?n)"
    using assms le8 p put_8_pad [of "ucast (v mod 100000000)"]
    by (simp add: ToString_u64_def Let_def word_less_nat_alt word_le_nat_alt lut_eight [OF w] significant_numeral significant_Suc)
qed

lemma ToString_u64_large:
  fixes v :: u64
  assumes "10000000000000000 \<le> unat v"
  shows "ToString_u64_SSE2 v = whole (dec (unat v))" "ToString_u64 v = whole (dec (unat v))"
proof -
  let ?n = "unat v"
  let ?r = "v mod 10000000000000000"
  have n: "?n < 2 ^ 64" using unsigned_less [of v, where 'a = nat] by simp
  have "?n div 10 ^ 16 \<le> 2 ^ 64 div 10 ^ 16" using n by (intro div_le_mono less_imp_le)
  then have d: "?n div 10 ^ 16 < 10000" by simp
  then have a: "unat (ucast (v div 10000000000000000) :: u32) = ?n div 10 ^ 16"
    by (subst unat_ucast_small) (simp_all add: unat_div_distrib)
  have r: "unat ?r = ?n mod 10 ^ 16" "unat ?r < 10000000000000000" by (simp_all add: unat_mod_distrib)
  note p = u64_parts [OF r(2)]
  have "pad 16 (?n mod 10 ^ 16) = pad 8 (unat ?r div 10 ^ 8) @ pad 8 (unat ?r mod 10 ^ 8)"
    using pad_add [of 8 8 "unat ?r"] r(1) by simp
  then have "dec ?n = dec (?n div 10 ^ 16) @ pad 8 (unat ?r div 10 ^ 8) @ pad 8 (unat ?r mod 10 ^ 8)"
    using dec_pad [of 16 ?n] assms by simp
  then show "ToString_u64_SSE2 v = whole (dec (unat v))" "ToString_u64 v = whole (dec (unat v))"
    using assms p put_leading_4_dec [of "ucast (v div 10000000000000000)"] a d
      ascii_packed [of "ucast (?r div 100000000)" "ucast (?r mod 100000000)"]
      put_8_pad [of "ucast (?r div 100000000)"] put_8_pad [of "ucast (?r mod 100000000)"]
    by (simp_all only: ToString_u64_SSE2_def ToString_u64_def Let_def) (simp_all add: word_less_nat_alt)
qed

lemma ToString_u64_prints:
  assumes "length (dec (unat v)) \<le> k" and "16 \<le> k"
  shows "prints (ToString_u64_SSE2 v) (dec (unat v)) k" "prints (ToString_u64 v) (dec (unat v)) k"
proof -
  consider "unat v < 100000000" | "100000000 \<le> unat v" "unat v < 10000000000000000" | "10000000000000000 \<le> unat v"
    by linarith
  then have "prints (ToString_u64_SSE2 v) (dec (unat v)) k \<and> prints (ToString_u64 v) (dec (unat v)) k"
  proof cases
    case 1
    then show ?thesis using ToString_u64_small [OF 1] assms by (simp add: prints_whole)
  next
    case 2
    then show ?thesis using ToString_u64_middle [OF 2] assms by (auto simp: prints_whole prints_def [of "ToString_u64_SSE2 v"])
  next
    case 3
    then show ?thesis using ToString_u64_large [OF 3] assms by (simp add: prints_whole)
  qed
  then show "prints (ToString_u64_SSE2 v) (dec (unat v)) k" "prints (ToString_u64 v) (dec (unat v)) k" by simp_all
qed

lemma length_dec_u64: "length (dec (unat (v :: u64))) \<le> 20"
  using unsigned_less [of v, where 'a = nat] by (intro length_dec) simp_all

text \<open>
  C2. Unsigned integers are printed in decimal by the SSE2 code, which divides by multiplying
  with magic constants in the lanes of a register and skips leading zeros with a bit mask, and
  by the portable code, which looks up pairs of digits: both write exactly the decimal numeral up
  to the pointer they return, for every value, and store no byte beyond the room they document.
\<close>

theorem ToString_unsigned_correct:
  "prints (ToString_u32_SSE2 v) (dec (unat v)) (kBytes PU32) \<and> prints (ToString_u32 v) (dec (unat v)) (kBytes PU32) \<and>
   prints (ToString_u64_SSE2 w) (dec (unat w)) (kBytes PU64) \<and> prints (ToString_u64 w) (dec (unat w)) (kBytes PU64)"
  using length_dec_u32 [of v] length_dec_u64 [of w] ToString_u64_prints [of w 20]
  by (simp add: ToString_u32_whole prints_whole)

subsection \<open>Signed integers and pointers\<close>

definition signed_dec :: "int \<Rightarrow> bytes" where
  "signed_dec i = (if i < 0 then 45 # dec (nat (- i)) else dec (nat i))"

lemma unat_uminus_negative:
  assumes "sint (v :: 'a::len word) < 0"
  shows "int (unat (- v)) = - sint v"
proof -
  have "uint (- v) = (- sint v) mod 2 ^ LENGTH('a)"
    by (metis uint_word_ariths(4) mod_minus_eq uint_sint take_bit_eq_mod)
  moreover have "- sint v \<le> 2 ^ (LENGTH('a) - 1)" using sint_greater_eq [of v] by simp
  moreover have "(2::int) ^ (LENGTH('a) - 1) < 2 ^ LENGTH('a)" by simp
  ultimately show ?thesis using assms by (simp add: mod_pos_pos_trivial)
qed

lemma unat_nonnegative:
  assumes "0 \<le> sint (v :: 'a::len word)"
  shows "int (unat v) = sint v"
proof -
  have "uint v = sint v mod 2 ^ LENGTH('a)" by (metis uint_sint take_bit_eq_mod)
  moreover have "sint v < 2 ^ (LENGTH('a) - 1)" by (rule sint_lt)
  moreover have "(2::int) ^ (LENGTH('a) - 1) < 2 ^ LENGTH('a)" by simp
  ultimately show ?thesis using assms by simp
qed

lemma signed_dec_word:
  "signed_dec (sint (v :: 'a::len word)) = (if sint v < 0 then 45 # dec (unat (- v)) else dec (unat v))"
  using unat_uminus_negative [of v] unat_nonnegative [of v] unfolding signed_dec_def by (metis nat_int not_less)

lemma prints_sign: "prints r s n \<Longrightarrow> prints (put_sign r) (45 # s) (Suc n)"
  by (auto simp: prints_def put_sign_def split: prod.splits)

lemma magnitude_le:
  fixes v :: "'a::len word"
  shows "sint v < 0 \<Longrightarrow> unat (- v) \<le> 2 ^ (LENGTH('a) - 1)" "0 \<le> sint v \<Longrightarrow> unat v \<le> 2 ^ (LENGTH('a) - 1)"
proof -
  assume "sint v < 0"
  then have "int (unat (- v)) \<le> int (2 ^ (LENGTH('a) - 1))"
    using unat_uminus_negative [of v] sint_greater_eq [of v] by simp
  then show "unat (- v) \<le> 2 ^ (LENGTH('a) - 1)" by linarith
next
  assume "0 \<le> sint v"
  then have "int (unat v) \<le> int (2 ^ (LENGTH('a) - 1))"
    using unat_nonnegative [of v] sint_lt [of v] by simp
  then show "unat v \<le> 2 ^ (LENGTH('a) - 1)" by linarith
qed

lemma ToString_i32_prints:
  assumes "to_string \<in> {ToString_u32_SSE2, ToString_u32}"
    and "sint v < 0 \<Longrightarrow> unat (- v) < 10 ^ k" and "0 \<le> sint v \<Longrightarrow> unat v < 10 ^ k" and "0 < k"
  shows "prints (ToString_i32 to_string v) (signed_dec (sint v)) (Suc k)"
proof -
  have "to_string w = whole (dec (unat w))" for w using assms(1) ToString_u32_whole by auto
  then have p: "prints (to_string w) (dec (unat w)) k" if "unat w < 10 ^ k" for w
    using length_dec [OF that assms(4)] by (simp add: prints_whole)
  show ?thesis
    using prints_sign [OF p [of "- v"]] p [of v] assms(2,3)
    by (auto simp: ToString_i32_def signed_dec_word prints_def not_less)
qed

lemma ToString_signed_prints:
  "prints (ToString_i16 ToString_u32_SSE2 a) (signed_dec (sint a)) (kBytes PI16) \<and>
   prints (ToString_i32 ToString_u32_SSE2 b) (signed_dec (sint b)) (kBytes PI32) \<and>
   prints (ToString_i64 ToString_u64_SSE2 c) (signed_dec (sint c)) (kBytes PI64) \<and>
   prints (ToString_i16 ToString_u32 a) (signed_dec (sint a)) (kBytes PI16) \<and>
   prints (ToString_i32 ToString_u32 b) (signed_dec (sint b)) (kBytes PI32) \<and>
   prints (ToString_i64 ToString_u64 c) (signed_dec (sint c)) (kBytes PI64)"
proof -
  have a: "prints (ToString_i16 f a) (signed_dec (sint a)) 6" if "f \<in> {ToString_u32_SSE2, ToString_u32}" for f
  proof -
    let ?v = "scast a :: u32"
    have s: "sint ?v = sint a" using sint_greater_eq [of a] sint_lt [of a]
      by (simp add: signed_scast_eq signed_take_bit_int_eq_self_iff)
    have "int (unat (- ?v)) \<le> int (2 ^ 15)" if "sint ?v < 0"
      using that unat_uminus_negative [of ?v] sint_greater_eq [of a] by (simp add: s)
    then have "unat (- ?v) \<le> 2 ^ 15" if "sint ?v < 0" using that unfolding of_nat_le_iff by blast
    moreover have "int (unat ?v) \<le> int (2 ^ 15)" if "0 \<le> sint ?v"
      using that unat_nonnegative [of ?v] sint_lt [of a] by (simp add: s)
    then have "unat ?v \<le> 2 ^ 15" if "0 \<le> sint ?v" using that unfolding of_nat_le_iff by blast
    ultimately have "prints (ToString_i32 f ?v) (signed_dec (sint ?v)) (Suc 5)"
      by (intro ToString_i32_prints [OF that]) fastforce+
    then show ?thesis by (simp add: ToString_i16_def s)
  qed
  have b: "prints (ToString_i32 f b) (signed_dec (sint b)) 11" if "f \<in> {ToString_u32_SSE2, ToString_u32}" for f
  proof -
    have "prints (ToString_i32 f b) (signed_dec (sint b)) (Suc 10)"
      using magnitude_le [of b] by (intro ToString_i32_prints [OF that]) fastforce+
    then show ?thesis by simp
  qed
  have p: "prints (f w) (dec (unat w)) 19" if "f \<in> {ToString_u64_SSE2, ToString_u64}" "unat w \<le> 2 ^ 63" for f w
  proof -
    have "length (dec (unat w)) \<le> 19" using that(2) by (intro length_dec) simp_all
    then show ?thesis using ToString_u64_prints [of w 19] that(1) by auto
  qed
  have c: "prints (ToString_i64 f c) (signed_dec (sint c)) 20" if "f \<in> {ToString_u64_SSE2, ToString_u64}" for f
    using prints_sign [OF p [OF that, of "- c"]] p [OF that, of c] magnitude_le [of c]
    by (auto simp: ToString_i64_def signed_dec_word prints_def not_less)
  show ?thesis using a b c by simp
qed

text \<open>
  Signed and short integers are printed as a minus sign if they are negative and the
  decimal numeral of the magnitude, the least integer of each width included, whose negation is
  done on the unsigned type; and what is stored fits in the documented room.
\<close>

lemma ToString_signed_correct:
  "prints (ToString_i16 ToString_u32_SSE2 a) (signed_dec (sint a)) (kBytes PI16) \<and>
   prints (ToString_i32 ToString_u32_SSE2 b) (signed_dec (sint b)) (kBytes PI32) \<and>
   prints (ToString_i64 ToString_u64_SSE2 c) (signed_dec (sint c)) (kBytes PI64) \<and>
   prints (ToString_i16 ToString_u32 a) (signed_dec (sint a)) (kBytes PI16) \<and>
   prints (ToString_i32 ToString_u32 b) (signed_dec (sint b)) (kBytes PI32) \<and>
   prints (ToString_i64 ToString_u64 c) (signed_dec (sint c)) (kBytes PI64)"
  by (rule ToString_signed_prints)

text \<open>Pointers: reading the digits back gives the address, and there is no superfluous zero.\<close>

definition hex_digit_value :: "byte \<Rightarrow> nat" where
  "hex_digit_value c = std_find c kHexDigits"

lemma hex_digit_value_nth: "i < 16 \<Longrightarrow> hex_digit_value (kHexDigits ! i) = i"
proof -
  have "\<forall>i\<in>set [0..<16]. hex_digit_value (kHexDigits ! i) = i"
    unfolding hex_digit_value_def kHexDigits_def by code_simp
  then show "i < 16 \<Longrightarrow> ?thesis" by simp
qed

lemma hex_digits_value:
  "foldl (\<lambda>n c. 16 * n + hex_digit_value c) m (hex_digits v n) = m * 16 ^ n + unat v mod 16 ^ n"
proof (induction n arbitrary: m)
  case (Suc n)
  let ?d = "unat (drop_bit (4 * n) v AND 0xf)"
  have "drop_bit (4 * n) v AND 0xf = take_bit 4 (drop_bit (4 * n) v)" by (simp add: take_bit_eq_mask mask_eq_exp_minus_1)
  then have d: "?d = unat v div 16 ^ n mod 16"
    by (simp only: unsigned_take_bit_eq unat_drop_bit_eq) (simp add: take_bit_eq_mod drop_bit_eq_div power_mult)
  have "foldl (\<lambda>n c. 16 * n + hex_digit_value c) m (hex_digits v (Suc n)) = (16 * m + ?d) * 16 ^ n + unat v mod 16 ^ n"
    using Suc.IH [of "16 * m + ?d"] hex_digit_value_nth [of ?d] d by simp
  moreover have "unat v mod 16 ^ Suc n = 16 ^ n * (unat v div 16 ^ n mod 16) + unat v mod 16 ^ n"
    using mod_mult2_eq [of "unat v" "16 ^ n" 16] by (simp add: mult.commute)
  ultimately show ?case using d by (simp add: algebra_simps)
qed simp

lemma drop_bit_zero_less: "drop_bit k (v :: u64) = 0 \<longleftrightarrow> unat v < 2 ^ k"
  by (simp only: word_unat_eq_iff unat_drop_bit_eq) (simp add: drop_bit_eq_div div_eq_0_iff)

lemma hex_skip_bounds: "unat v < 16 ^ n \<Longrightarrow> unat v < 16 ^ hex_skip v n \<and> hex_skip v n \<le> n"
  by (induction n) (auto simp: drop_bit_zero_less power_mult)

lemma hex_digits_length [simp]: "length (hex_digits v n) = n"
  by (induction n) auto

lemma ToString_pointer_prints:
  "\<exists>ds. prints (ToString_pointer v) (lit ''0x'' @ ds) (kBytes PPointer) \<and>
     foldl (\<lambda>n c. 16 * n + hex_digit_value c) 0 ds = unat v"
proof (cases "v = 0")
  case True
  then show ?thesis
    using hex_digit_value_nth [of 0] by (intro exI [of _ "[48]"]) (simp add: ToString_pointer_def prints_whole lit_def kHexDigits_def of_char_def)
next
  case False
  have "unat v < 16 ^ 16" using unsigned_less [of v, where 'a = nat] by simp
  then show ?thesis
    using False hex_skip_bounds [of v 16] hex_digits_value [of 0 v "hex_skip v 16"]
    by (intro exI [of _ "hex_digits v (hex_skip v 16)"]) (simp add: ToString_pointer_def prints_whole lit_def)
qed

end
