(* ===== verification/Streams.thy ===== *)
theory Streams
  imports FileIO IntegerToString
begin

text \<open>
  The output streams: the interface \<^verbatim>\<open>FakeOStream\<close> of \<^verbatim>\<open>src/util/fake_ostream.hh\<close> that formats values, and
  the two classes that inherit from it here, \<^verbatim>\<open>BufferedStream\<close> of \<^verbatim>\<open>src/util/buffered_stream.hh\<close> over
  a writer (\<^verbatim>\<open>FileStream\<close> of \<^verbatim>\<open>src/util/file_stream.hh\<close> is the one over \<^verbatim>\<open>FileWriter\<close>) and
  \<^verbatim>\<open>StringStream\<close> of \<^verbatim>\<open>src/util/string_stream.hh\<close>. An operation that may throw returns the state it
  leaves beside the result.
\<close>

subsection \<open>\<open>FakeOStream\<close>\<close>

text \<open>
  What a derived class provides. \<^verbatim>\<open>Ensure\<close> returns the position to write at; \<^verbatim>\<open>AdvanceTo\<close> is given
  that position, the bytes that were stored from it on, and how far the value goes.
\<close>

record 's FakeOStream =
  fo_write :: "'s \<Rightarrow> bytes \<Rightarrow> 's \<times> unit result"
  fo_flush :: "'s \<Rightarrow> 's \<times> unit result"
  fo_Ensure :: "'s \<Rightarrow> nat \<Rightarrow> 's \<times> nat result"
  fo_AdvanceTo :: "'s \<Rightarrow> nat \<Rightarrow> bytes \<Rightarrow> nat \<Rightarrow> 's"

definition CallToString :: "'s FakeOStream \<Rightarrow> 's \<Rightarrow> nat \<Rightarrow> bytes \<times> nat \<Rightarrow> 's \<times> unit result" where
  "CallToString ops s room value =
     (case fo_Ensure ops s room of
        (s, Inl e) \<Rightarrow> (s, Inl e)
      | (s, Inr to) \<Rightarrow> (fo_AdvanceTo ops s to (fst value) (snd value), Inr ()))"

definition put :: "'s FakeOStream \<Rightarrow> 's \<Rightarrow> byte \<Rightarrow> 's \<times> unit result" where
  "put ops s val = CallToString ops s 1 ([val], 1)"

text \<open>The values that \<^verbatim>\<open>operator<<\<close> takes, floating point apart.\<close>

datatype item =
    Str bytes
  | Chr byte
  | Boolean bool
  | U16 u16
  | I16 u16
  | U32 u32
  | I32 u32
  | U64 u64
  | I64 u64
  | Pointer u64

fun insert_item :: "'s FakeOStream \<Rightarrow> 's \<Rightarrow> item \<Rightarrow> 's \<times> unit result" where
  "insert_item ops s (Str str) = fo_write ops s str"
| "insert_item ops s (Chr val) = put ops s val"
| "insert_item ops s (Boolean val) = put ops s ((if val then 1 else 0) + 48)"
| "insert_item ops s (U16 val) = CallToString ops s (kBytes PU16) (ToString_u16 ToString_u32_SSE2 val)"
| "insert_item ops s (I16 val) = CallToString ops s (kBytes PI16) (ToString_i16 ToString_u32_SSE2 val)"
| "insert_item ops s (U32 val) = CallToString ops s (kBytes PU32) (ToString_u32_SSE2 val)"
| "insert_item ops s (I32 val) = CallToString ops s (kBytes PI32) (ToString_i32 ToString_u32_SSE2 val)"
| "insert_item ops s (U64 val) = CallToString ops s (kBytes PU64) (ToString_u64_SSE2 val)"
| "insert_item ops s (I64 val) = CallToString ops s (kBytes PI64) (ToString_i64 ToString_u64_SSE2 val)"
| "insert_item ops s (Pointer val) = CallToString ops s (kBytes PPointer) (ToString_pointer val)"

text \<open>A chain \<^verbatim>\<open>out << a << b << c\<close>, which an exception cuts short.\<close>

fun insert_items :: "'s FakeOStream \<Rightarrow> 's \<Rightarrow> item list \<Rightarrow> 's \<times> unit result" where
  "insert_items ops s [] = (s, Inr ())"
| "insert_items ops s (x # xs) =
     (case insert_item ops s x of (s, Inl e) \<Rightarrow> (s, Inl e) | (s, Inr _) \<Rightarrow> insert_items ops s xs)"

subsection \<open>\<open>BufferedStream\<close>\<close>

record 'w Writer =
  w_write :: "'w \<Rightarrow> bytes \<Rightarrow> 'w \<times> unit result"
  w_flush :: "'w \<Rightarrow> 'w \<times> unit result"

text \<open>The bytes from \<^verbatim>\<open>buf_\<close> to \<^verbatim>\<open>current_\<close>, and the writer.\<close>

record 'w BufferedStream =
  bs_buf :: bytes
  bs_writer :: 'w

definition kBufferSize :: nat where
  "kBufferSize = max 8192 kToStringMaxBytes"

definition BufferedStream_new :: "'w \<Rightarrow> 'w BufferedStream" where
  "BufferedStream_new w = \<lparr>bs_buf = [], bs_writer = w\<rparr>"

definition SpillBuffer :: "'w Writer \<Rightarrow> 'w BufferedStream \<Rightarrow> 'w BufferedStream \<times> unit result" where
  "SpillBuffer wr s =
     (if bs_buf s \<noteq> [] then
        (case w_write wr (bs_writer s) (bs_buf s) of
           (w, Inl e) \<Rightarrow> (s\<lparr>bs_writer := w\<rparr>, Inl e)
         | (w, Inr _) \<Rightarrow> (s\<lparr>bs_buf := [], bs_writer := w\<rparr>, Inr ()))
      else (s, Inr ()))"

definition bs_flush :: "'w Writer \<Rightarrow> 'w BufferedStream \<Rightarrow> 'w BufferedStream \<times> unit result" where
  "bs_flush wr s =
     (case SpillBuffer wr s of
        (s, Inl e) \<Rightarrow> (s, Inl e)
      | (s, Inr _) \<Rightarrow> (case w_flush wr (bs_writer s) of (w, r) \<Rightarrow> (s\<lparr>bs_writer := w\<rparr>, r)))"

definition bs_write :: "'w Writer \<Rightarrow> 'w BufferedStream \<Rightarrow> bytes \<Rightarrow> 'w BufferedStream \<times> unit result" where
  "bs_write wr s data =
     (if length (bs_buf s) + length data \<le> kBufferSize then (s\<lparr>bs_buf := bs_buf s @ data\<rparr>, Inr ())
      else case SpillBuffer wr s of
             (s, Inl e) \<Rightarrow> (s, Inl e)
           | (s, Inr _) \<Rightarrow>
               if length (bs_buf s) + length data \<le> kBufferSize then (s\<lparr>bs_buf := bs_buf s @ data\<rparr>, Inr ())
               else (case w_write wr (bs_writer s) data of (w, r) \<Rightarrow> (s\<lparr>bs_writer := w\<rparr>, r)))"

definition bs_Ensure :: "'w Writer \<Rightarrow> 'w BufferedStream \<Rightarrow> nat \<Rightarrow> 'w BufferedStream \<times> nat result" where
  "bs_Ensure wr s amount =
     (if length (bs_buf s) + amount > kBufferSize then
        (case SpillBuffer wr s of (s, Inl e) \<Rightarrow> (s, Inl e) | (s, Inr _) \<Rightarrow> (s, Inr (length (bs_buf s))))
      else (s, Inr (length (bs_buf s))))"

definition bs_AdvanceTo :: "'w BufferedStream \<Rightarrow> nat \<Rightarrow> bytes \<Rightarrow> nat \<Rightarrow> 'w BufferedStream" where
  "bs_AdvanceTo s to stored n = s\<lparr>bs_buf := take to (bs_buf s) @ take n stored\<rparr>"

definition BufferedStream_ops :: "'w Writer \<Rightarrow> 'w BufferedStream FakeOStream" where
  "BufferedStream_ops wr =
     \<lparr>fo_write = bs_write wr, fo_flush = bs_flush wr, fo_Ensure = bs_Ensure wr, fo_AdvanceTo = bs_AdvanceTo\<rparr>"

text \<open>\<^verbatim>\<open>FileStream\<close>.\<close>

definition FileWriter :: "Desc Writer" where
  "FileWriter = \<lparr>w_write = FileWriter_write, w_flush = FileWriter_flush\<rparr>"

abbreviation FileStream_ops :: "Desc BufferedStream FakeOStream" where
  "FileStream_ops \<equiv> BufferedStream_ops FileWriter"

subsection \<open>\<open>StringStream\<close>\<close>

type_synonym StringStream = bytes

definition ss_write :: "StringStream \<Rightarrow> bytes \<Rightarrow> StringStream \<times> unit result" where
  "ss_write out data = (out @ data, Inr ())"

definition ss_flush :: "StringStream \<Rightarrow> StringStream \<times> unit result" where
  "ss_flush out = (out, Inr ())"

definition ss_Ensure :: "StringStream \<Rightarrow> nat \<Rightarrow> StringStream \<times> nat result" where
  "ss_Ensure out amount = (out @ replicate amount 0, Inr (length out))"

definition ss_AdvanceTo :: "StringStream \<Rightarrow> nat \<Rightarrow> bytes \<Rightarrow> nat \<Rightarrow> StringStream" where
  "ss_AdvanceTo out to stored n = take (to + n) (take to out @ stored @ drop (to + length stored) out)"

definition StringStream_ops :: "StringStream FakeOStream" where
  "StringStream_ops =
     \<lparr>fo_write = ss_write, fo_flush = ss_flush, fo_Ensure = ss_Ensure, fo_AdvanceTo = ss_AdvanceTo\<rparr>"

subsection \<open>The contracts\<close>

text \<open>
  A writer appends what it is given, a prefix of it if it throws. \<open>reliable\<close> describes the
  states from which no call will throw.
\<close>

locale writer =
  fixes wr :: "'w Writer" and out :: "'w \<Rightarrow> bytes" and reliable :: "'w \<Rightarrow> bool"
  assumes write_prefix: "\<exists>k. out (fst (w_write wr w d)) = out w @ take k d \<and> (snd (w_write wr w d) = Inr () \<longrightarrow> length d \<le> k)"
    and flush_out: "out (fst (w_flush wr w)) = out w"
    and write_reliable: "reliable w \<Longrightarrow> snd (w_write wr w d) = Inr () \<and> reliable (fst (w_write wr w d))"
    and flush_reliable: "reliable w \<Longrightarrow> snd (w_flush wr w) = Inr () \<and> reliable (fst (w_flush wr w))"

text \<open>
  A stream: \<open>sent\<close> is what has left it, \<open>content\<close> also what it holds back. An operation that
  returns adds exactly its text to the content; one that throws has sent a prefix of it.
\<close>

locale ostream =
  fixes ops :: "'s FakeOStream" and content :: "'s \<Rightarrow> bytes" and sent :: "'s \<Rightarrow> bytes"
    and ok :: "'s \<Rightarrow> bool" and dependable :: "'s \<Rightarrow> bool"
  assumes sent_content: "ok s \<Longrightarrow> prefix (sent s) (content s)"
    and write_content: "ok s \<Longrightarrow> fo_write ops s d = (s', Inr u) \<Longrightarrow> ok s' \<and> content s' = content s @ d"
    and write_sent: "ok s \<Longrightarrow> fo_write ops s d = (s', Inl e) \<Longrightarrow> prefix (sent s') (content s @ d)"
    and in_place_content: "ok s \<Longrightarrow> prints v t room \<Longrightarrow> room \<le> kToStringMaxBytes \<Longrightarrow>
      CallToString ops s room v = (s', Inr u) \<Longrightarrow> ok s' \<and> content s' = content s @ t"
    and in_place_sent: "ok s \<Longrightarrow> CallToString ops s room v = (s', Inl e) \<Longrightarrow> prefix (sent s') (content s)"
    and flush_content: "ok s \<Longrightarrow> fo_flush ops s = (s', Inr u) \<Longrightarrow> ok s' \<and> content s' = content s \<and> sent s' = content s"
    and flush_sent: "ok s \<Longrightarrow> fo_flush ops s = (s', Inl e) \<Longrightarrow> prefix (sent s') (content s)"
    and write_dependable: "dependable s \<Longrightarrow> snd (fo_write ops s d) = Inr () \<and> dependable (fst (fo_write ops s d))"
    and in_place_dependable: "dependable s \<Longrightarrow> snd (CallToString ops s room v) = Inr () \<and> dependable (fst (CallToString ops s room v))"
    and flush_dependable: "dependable s \<Longrightarrow> snd (fo_flush ops s) = Inr () \<and> dependable (fst (fo_flush ops s))"

text \<open>The text of a value.\<close>

fun item_text :: "item \<Rightarrow> bytes" where
  "item_text (Str s) = s"
| "item_text (Chr c) = [c]"
| "item_text (Boolean b) = lit (if b then ''1'' else ''0'')"
| "item_text (U16 v) = dec (unat v)"
| "item_text (I16 v) = signed_dec (sint v)"
| "item_text (U32 v) = dec (unat v)"
| "item_text (I32 v) = signed_dec (sint v)"
| "item_text (U64 v) = dec (unat v)"
| "item_text (I64 v) = signed_dec (sint v)"
| "item_text (Pointer v) = fst (ToString_pointer v)"

abbreviation items_text :: "item list \<Rightarrow> bytes" where
  "items_text xs \<equiv> concat (map item_text xs)"

subsection \<open>Formatted output through the contract\<close>

lemma put_prints: "prints ([c], 1) [c] 1"
  by (simp add: prints_def)

lemma ToString_u16_prints: "prints (ToString_u16 ToString_u32_SSE2 v) (dec (unat v)) 5"
proof -
  have "unat (ucast v :: u32) = unat v" using unsigned_less [of v, where 'a = nat]
    by (simp add: unsigned_ucast_eq take_bit_nat_eq_self_iff)
  moreover have "length (dec (unat v)) \<le> 5"
    using unsigned_less [of v, where 'a = nat] by (intro length_dec) simp_all
  ultimately show ?thesis by (simp add: ToString_u16_def ToString_u32_whole prints_whole)
qed

lemma ToString_pointer_room: "prints (ToString_pointer v) (fst (ToString_pointer v)) 18"
proof -
  obtain w where w: "ToString_pointer v = whole w" by (simp add: ToString_pointer_def)
  then show ?thesis using ToString_pointer_prints [of v] unfolding w prints_whole by (auto simp: whole_def prints_def)
qed

lemma in_place_room [simp]: "kBytes p \<le> kToStringMaxBytes"
  by (cases p) (simp_all add: kToStringMaxBytes_def)

text \<open>An item is either written or formatted in place.\<close>

lemma insert_item_cases:
  fixes ops :: "'s FakeOStream"
  obtains "\<And>s. insert_item ops s x = fo_write ops s (item_text x)"
  | room v where "\<And>s. insert_item ops s x = CallToString ops s room v" and "prints v (item_text x) room"
      and "room \<le> kToStringMaxBytes"
proof (cases x)
  case (Str s)
  then show ?thesis by (intro that(1)) simp
next
  case (Chr c)
  then show ?thesis using put_prints by (intro that(2) [of 1 "([c], 1)"]) (simp_all add: put_def kToStringMaxBytes_def)
next
  case (Boolean b)
  then show ?thesis using put_prints
    by (intro that(2) [of 1 "([(if b then 1 else 0) + 48], 1)"]) (simp_all add: put_def kToStringMaxBytes_def lit_def of_char_def)
next
  case (U16 v)
  then show ?thesis using ToString_u16_prints by (intro that(2) [of "kBytes PU16" "ToString_u16 ToString_u32_SSE2 v"]) (simp_all add: kToStringMaxBytes_def)
next
  case (I16 v)
  then show ?thesis using ToString_signed_prints
    by (intro that(2) [of "kBytes PI16" "ToString_i16 ToString_u32_SSE2 v"]) (auto simp del: kBytes.simps)
next
  case (U32 v)
  then show ?thesis using length_dec_u32 [of v]
    by (intro that(2) [of "kBytes PU32" "ToString_u32_SSE2 v"]) (simp_all add: ToString_u32_whole prints_whole kToStringMaxBytes_def)
next
  case (I32 v)
  then show ?thesis using ToString_signed_prints
    by (intro that(2) [of "kBytes PI32" "ToString_i32 ToString_u32_SSE2 v"]) (auto simp del: kBytes.simps)
next
  case (U64 v)
  then show ?thesis using length_dec_u64 [of v] ToString_u64_prints [of v 20]
    by (intro that(2) [of "kBytes PU64" "ToString_u64_SSE2 v"]) (simp_all add: kToStringMaxBytes_def)
next
  case (I64 v)
  then show ?thesis using ToString_signed_prints
    by (intro that(2) [of "kBytes PI64" "ToString_i64 ToString_u64_SSE2 v"]) (auto simp del: kBytes.simps)
next
  case (Pointer v)
  then show ?thesis using ToString_pointer_room by (intro that(2) [of "kBytes PPointer" "ToString_pointer v"]) (simp_all add: kToStringMaxBytes_def)
qed

context ostream
begin

lemma insert_item_content:
  assumes "ok s" and "insert_item ops s x = (s', Inr u)"
  shows "ok s' \<and> content s' = content s @ item_text x"
proof (cases x rule: insert_item_cases [where ops = ops])
  case 1
  then show ?thesis using write_content [OF assms(1)] assms(2) by simp
next
  case (2 room v)
  then show ?thesis using in_place_content [OF assms(1) 2(2,3)] assms(2) by simp
qed

lemma insert_item_sent:
  assumes "ok s" and "insert_item ops s x = (s', Inl e)"
  shows "prefix (sent s') (content s @ item_text x)"
proof (cases x rule: insert_item_cases [where ops = ops])
  case 1
  then show ?thesis using write_sent [OF assms(1)] assms(2) by simp
next
  case (2 room v)
  then have "prefix (sent s') (content s)" using in_place_sent [OF assms(1)] assms(2) by simp
  then show ?thesis by (rule prefix_prefix)
qed

lemma insert_item_dependable:
  "dependable s \<Longrightarrow> snd (insert_item ops s x) = Inr () \<and> dependable (fst (insert_item ops s x))"
  by (cases x rule: insert_item_cases [where ops = ops]) (simp_all add: write_dependable in_place_dependable)

lemma insert_items_content:
  "ok s \<Longrightarrow> insert_items ops s xs = (s', Inr u) \<Longrightarrow> ok s' \<and> content s' = content s @ items_text xs"
proof (induction xs arbitrary: s)
  case (Cons x xs)
  then obtain t where t: "insert_item ops s x = (t, Inr ())" "insert_items ops t xs = (s', Inr u)"
    by (auto split: prod.splits sum.splits)
  have "ok t" "content t = content s @ item_text x" using insert_item_content [OF Cons.prems(1) t(1)] by auto
  with Cons.IH [OF _ t(2)] show ?case by simp
qed simp

lemma insert_items_sent:
  "ok s \<Longrightarrow> insert_items ops s xs = (s', Inl e) \<Longrightarrow> prefix (sent s') (content s @ items_text xs)"
proof (induction xs arbitrary: s)
  case (Cons x xs)
  obtain t r where t: "insert_item ops s x = (t, r)" by fastforce
  show ?case
  proof (cases r)
    case (Inl e')
    then have "prefix (sent s') (content s @ item_text x)"
      using Cons.prems t insert_item_sent [of s x t e'] by auto
    then have "prefix (sent s') ((content s @ item_text x) @ items_text xs)" by (rule prefix_prefix)
    then show ?thesis by simp
  next
    case (Inr u)
    then have "ok t" "content t = content s @ item_text x" "insert_items ops t xs = (s', Inl e)"
      using Cons.prems t insert_item_content [of s x t u] by auto
    then show ?thesis using Cons.IH [of t] by simp
  qed
qed simp

lemma insert_items_dependable:
  "dependable s \<Longrightarrow> snd (insert_items ops s xs) = Inr () \<and> dependable (fst (insert_items ops s xs))"
proof (induction xs arbitrary: s)
  case (Cons x xs)
  obtain t where "insert_item ops s x = (t, Inr ())" "dependable t"
    using insert_item_dependable [OF Cons.prems, of x] by (metis prod.collapse)
  then show ?case using Cons.IH [of t] by simp
qed simp

lemma print_and_flush:
  assumes "ok s" and "insert_items ops s xs = (t, r)"
  shows "prefix (sent t) (content s @ items_text xs) \<and>
    (r = Inr () \<longrightarrow> prefix (sent (fst (fo_flush ops t))) (content s @ items_text xs) \<and>
       (snd (fo_flush ops t) = Inr () \<longrightarrow> sent (fst (fo_flush ops t)) = content s @ items_text xs)) \<and>
    (dependable s \<longrightarrow> r = Inr () \<and> snd (fo_flush ops t) = Inr ())"
proof (cases r)
  case (Inl e)
  then show ?thesis using insert_items_sent [OF assms(1)] insert_items_dependable [of s xs] assms(2) by auto
next
  case (Inr u)
  then have t: "ok t" "content t = content s @ items_text xs" using insert_items_content [OF assms(1)] assms(2) by auto
  obtain t' r' where f: "fo_flush ops t = (t', r')" by fastforce
  have "prefix (sent t') (content t) \<and> (r' = Inr () \<longrightarrow> sent t' = content t)"
    using flush_content [OF t(1)] flush_sent [OF t(1)] f by (cases r') auto
  moreover have "snd (fo_flush ops t) = Inr ()" if "dependable s"
    using insert_items_dependable [OF that, of xs] flush_dependable [of t] assms(2) by simp
  ultimately show ?thesis using sent_content [OF t(1)] t(2) f Inr by auto
qed

end

subsection \<open>The streams satisfy it\<close>

interpretation file_writer: writer FileWriter d_out "\<lambda>fd. no_failure (d_answers fd) \<and> SyncFailed \<notin> set (d_syncs fd)"
proof
  fix fd :: Desc and d
  have w: "w_write FileWriter fd d = WriteOrThrow fd d" by (simp add: FileWriter_def FileWriter_write_def)
  obtain k where "d_out (fst (WriteOrThrow fd d)) = d_out fd @ take k d"
    and "snd (WriteOrThrow fd d) = Inr () \<Longrightarrow> length d \<le> k"
    using WriteOrThrow_spec [of fd d] by blast
  then show "\<exists>k. d_out (fst (w_write FileWriter fd d)) = d_out fd @ take k d \<and>
      (snd (w_write FileWriter fd d) = Inr () \<longrightarrow> length d \<le> k)"
    unfolding w by blast
  show "d_out (fst (w_flush FileWriter fd)) = d_out fd"
    by (auto simp: FileWriter_def FileWriter_flush_def FSyncIgnoreUnsupported_def fsync_def split: list.splits)
next
  fix fd :: Desc and d
  assume r: "no_failure (d_answers fd) \<and> SyncFailed \<notin> set (d_syncs fd)"
  have "d_syncs (fst (WriteOrThrow fd d)) = d_syncs fd" by (simp add: WriteOrThrow_def split: prod.splits)
  moreover have "snd (WriteOrThrow fd d) = Inr () \<and> no_failure (d_answers (fst (WriteOrThrow fd d)))"
    using WriteOrThrow_spec [of fd d] r by blast
  moreover have "w_write FileWriter fd d = WriteOrThrow fd d" by (simp add: FileWriter_def FileWriter_write_def)
  ultimately show "snd (w_write FileWriter fd d) = Inr () \<and>
      no_failure (d_answers (fst (w_write FileWriter fd d))) \<and> SyncFailed \<notin> set (d_syncs (fst (w_write FileWriter fd d)))"
    using r by simp
  have "s = Synced \<or> s = SyncUnsupported" if "s \<noteq> SyncFailed" for s using that by (cases s) auto
  then obtain fd' where "w_flush FileWriter fd = (fd', Inr ())" "d_answers fd' = d_answers fd" "set (d_syncs fd') \<subseteq> set (d_syncs fd)"
    using r by (cases "d_syncs fd")
      (auto simp: FileWriter_def FileWriter_flush_def FSyncIgnoreUnsupported_def fsync_def subset_insertI)
  then show "snd (w_flush FileWriter fd) = Inr () \<and>
      no_failure (d_answers (fst (w_flush FileWriter fd))) \<and> SyncFailed \<notin> set (d_syncs (fst (w_flush FileWriter fd)))"
    using r by auto
qed

context writer
begin

lemma SpillBuffer_returns:
  assumes "SpillBuffer wr s = (s', Inr u)"
  shows "bs_buf s' = [] \<and> out (bs_writer s') = out (bs_writer s) @ bs_buf s"
  using assms write_prefix [of "bs_writer s" "bs_buf s"]
  by (auto simp: SpillBuffer_def split: if_splits prod.splits sum.splits)

lemma SpillBuffer_throws:
  assumes "SpillBuffer wr s = (s', Inl e)"
  shows "prefix (out (bs_writer s')) (out (bs_writer s) @ bs_buf s)"
  using assms write_prefix [of "bs_writer s" "bs_buf s"]
  by (auto simp: SpillBuffer_def take_is_prefix split: if_splits prod.splits sum.splits)

lemma SpillBuffer_reliable:
  "reliable (bs_writer s) \<Longrightarrow> snd (SpillBuffer wr s) = Inr () \<and> reliable (bs_writer (fst (SpillBuffer wr s)))"
  using write_reliable [of "bs_writer s" "bs_buf s"] by (auto simp: SpillBuffer_def split: prod.splits sum.splits)

lemma bs_Ensure_cases:
  assumes "length (bs_buf s) \<le> kBufferSize" and "room \<le> kToStringMaxBytes" and "bs_Ensure wr s room = (s', Inr to)"
  shows "to = length (bs_buf s') \<and> length (bs_buf s') + room \<le> kBufferSize \<and>
    out (bs_writer s') @ bs_buf s' = out (bs_writer s) @ bs_buf s"
  using assms SpillBuffer_returns [of s]
  by (auto simp: bs_Ensure_def kBufferSize_def split: if_splits prod.splits sum.splits)

lemma bs_write_returns:
  assumes "length (bs_buf s) \<le> kBufferSize" and "bs_write wr s d = (s', Inr u)"
  shows "length (bs_buf s') \<le> kBufferSize \<and> out (bs_writer s') @ bs_buf s' = (out (bs_writer s) @ bs_buf s) @ d"
proof (cases "length (bs_buf s) + length d \<le> kBufferSize")
  case True
  then show ?thesis using assms(2) by (auto simp: bs_write_def)
next
  case False
  then obtain t where t: "SpillBuffer wr s = (t, Inr ())" using assms(2) by (auto simp: bs_write_def split: prod.splits sum.splits)
  note sp = SpillBuffer_returns [OF t]
  show ?thesis
  proof (cases "length d \<le> kBufferSize")
    case True
    then show ?thesis using assms(2) False t sp by (auto simp: bs_write_def)
  next
    case big: False
    obtain k where "out (fst (w_write wr (bs_writer t) d)) = out (bs_writer t) @ take k d"
      "snd (w_write wr (bs_writer t) d) = Inr () \<longrightarrow> length d \<le> k"
      using write_prefix by blast
    then show ?thesis using assms(2) False big t sp by (auto simp: bs_write_def split: prod.splits)
  qed
qed

lemma bs_write_throws:
  assumes "bs_write wr s d = (s', Inl e)"
  shows "prefix (out (bs_writer s')) ((out (bs_writer s) @ bs_buf s) @ d)"
proof (cases "SpillBuffer wr s")
  case (Pair t r)
  have big: "\<not> length (bs_buf s) + length d \<le> kBufferSize" using assms by (auto simp: bs_write_def)
  show ?thesis
  proof (cases r)
    case (Inl e')
    then have "s' = t" using assms Pair big by (simp add: bs_write_def)
    then have "prefix (out (bs_writer s')) (out (bs_writer s) @ bs_buf s)" using SpillBuffer_throws Pair Inl by blast
    then show ?thesis by (rule prefix_prefix)
  next
    case (Inr u)
    note sp = SpillBuffer_returns [OF Pair [unfolded Inr]]
    obtain k where "out (fst (w_write wr (bs_writer t) d)) = out (bs_writer t) @ take k d"
      using write_prefix by blast
    then show ?thesis
      using assms Pair Inr sp big by (auto simp: bs_write_def take_is_prefix split: prod.splits if_splits)
  qed
qed

lemma bs_write_reliable:
  "reliable (bs_writer s) \<Longrightarrow> snd (bs_write wr s d) = Inr () \<and> reliable (bs_writer (fst (bs_write wr s d)))"
  using SpillBuffer_reliable [of s] write_reliable [of "bs_writer (fst (SpillBuffer wr s))" d]
  by (auto simp: bs_write_def split: prod.splits sum.splits)

end

text \<open>Buffering is invisible: a stream over a writer is a stream.\<close>

sublocale writer \<subseteq> buffered: ostream "BufferedStream_ops wr" "\<lambda>s. out (bs_writer s) @ bs_buf s" "\<lambda>s. out (bs_writer s)"
  "\<lambda>s. length (bs_buf s) \<le> kBufferSize" "\<lambda>s. reliable (bs_writer s)"
proof
  fix s s' :: "'w BufferedStream" and d u e v t room
  show "prefix (out (bs_writer s)) (out (bs_writer s) @ bs_buf s)" by simp
  assume ok: "length (bs_buf s) \<le> kBufferSize"
  show "length (bs_buf s') \<le> kBufferSize \<and> out (bs_writer s') @ bs_buf s' = (out (bs_writer s) @ bs_buf s) @ d"
    if "fo_write (BufferedStream_ops wr) s d = (s', Inr u)"
    using bs_write_returns [OF ok] that by (simp add: BufferedStream_ops_def)
  show "prefix (out (bs_writer s')) ((out (bs_writer s) @ bs_buf s) @ d)"
    if "fo_write (BufferedStream_ops wr) s d = (s', Inl e)"
    using bs_write_throws that by (simp add: BufferedStream_ops_def)
  show "length (bs_buf s') \<le> kBufferSize \<and> out (bs_writer s') @ bs_buf s' = (out (bs_writer s) @ bs_buf s) @ t"
    if p: "prints v t room" and m: "room \<le> kToStringMaxBytes" and c: "CallToString (BufferedStream_ops wr) s room v = (s', Inr u)"
  proof -
    obtain r to where r: "bs_Ensure wr s room = (r, Inr to)" "s' = bs_AdvanceTo r to (fst v) (snd v)"
      using c by (auto simp: CallToString_def BufferedStream_ops_def split: prod.splits sum.splits)
    note e = bs_Ensure_cases [OF ok m r(1)]
    then show ?thesis using p r(2) by (auto simp: bs_AdvanceTo_def prints_def)
  qed
  show "prefix (out (bs_writer s')) (out (bs_writer s) @ bs_buf s)"
    if "CallToString (BufferedStream_ops wr) s room v = (s', Inl e)"
    using that SpillBuffer_throws [of s]
    by (auto simp: CallToString_def BufferedStream_ops_def bs_Ensure_def split: prod.splits sum.splits if_splits)
  show "length (bs_buf s') \<le> kBufferSize \<and> out (bs_writer s') @ bs_buf s' = out (bs_writer s) @ bs_buf s \<and>
      out (bs_writer s') = out (bs_writer s) @ bs_buf s"
    if f: "fo_flush (BufferedStream_ops wr) s = (s', Inr u)"
  proof -
    obtain t where t: "SpillBuffer wr s = (t, Inr ())" "s' = t\<lparr>bs_writer := fst (w_flush wr (bs_writer t))\<rparr>"
      using f by (auto simp: BufferedStream_ops_def bs_flush_def split: prod.splits sum.splits)
    then show ?thesis using SpillBuffer_returns [OF t(1)] flush_out [of "bs_writer t"] by simp
  qed
  show "prefix (out (bs_writer s')) (out (bs_writer s) @ bs_buf s)"
    if "fo_flush (BufferedStream_ops wr) s = (s', Inl e)"
  proof (cases "SpillBuffer wr s")
    case (Pair t r)
    then show ?thesis
      using that SpillBuffer_throws [of s] SpillBuffer_returns [of s] flush_out [of "bs_writer t"]
      by (cases r) (auto simp: BufferedStream_ops_def bs_flush_def split: prod.splits)
  qed
next
  fix s :: "'w BufferedStream" and d v room
  assume r: "reliable (bs_writer s)"
  show "snd (fo_write (BufferedStream_ops wr) s d) = Inr () \<and> reliable (bs_writer (fst (fo_write (BufferedStream_ops wr) s d)))"
    using bs_write_reliable [OF r] by (simp add: BufferedStream_ops_def)
  show "snd (CallToString (BufferedStream_ops wr) s room v) = Inr () \<and>
      reliable (bs_writer (fst (CallToString (BufferedStream_ops wr) s room v)))"
    using SpillBuffer_reliable [OF r] r
    by (auto simp: CallToString_def BufferedStream_ops_def bs_Ensure_def bs_AdvanceTo_def split: prod.splits sum.splits)
  show "snd (fo_flush (BufferedStream_ops wr) s) = Inr () \<and> reliable (bs_writer (fst (fo_flush (BufferedStream_ops wr) s)))"
    using SpillBuffer_reliable [OF r] flush_reliable [of "bs_writer (fst (SpillBuffer wr s))"]
    by (auto simp: BufferedStream_ops_def bs_flush_def split: prod.splits sum.splits)
qed

interpretation string_stream: ostream StringStream_ops "\<lambda>out. out" "\<lambda>out. out" "\<lambda>_. True" "\<lambda>_. True"
proof
  fix s s' d u and v :: "bytes \<times> nat" and t room
  assume p: "prints v t room" "CallToString StringStream_ops s room v = (s', Inr u)"
  have "s' = take (length s + snd v) (s @ fst v @ drop (length s + length (fst v)) (s @ replicate room 0))"
    using p(2) by (simp add: CallToString_def StringStream_ops_def ss_Ensure_def ss_AdvanceTo_def)
  then show "True \<and> s' = s @ t" using p(1) by (auto simp: prints_def)
qed (auto simp: CallToString_def StringStream_ops_def ss_Ensure_def ss_write_def ss_flush_def)

subsection \<open>What arrives\<close>

text \<open>
  C29. What is inserted into a \<^verbatim>\<open>FileStream\<close> reaches the descriptor in order and unchanged by the
  buffering: at every moment the descriptor holds a prefix of the text, an exception included,
  and after a flush that returns it holds all of it. When the kernel reports no error nothing
  throws, however short its writes are.
\<close>

theorem FileStream_correct:
  assumes "insert_items FileStream_ops (BufferedStream_new fd) xs = (t, r)"
  shows "prefix (d_out (bs_writer t)) (d_out fd @ items_text xs) \<and>
    (r = Inr () \<and> snd (fo_flush FileStream_ops t) = Inr () \<longrightarrow>
       d_out (bs_writer (fst (fo_flush FileStream_ops t))) = d_out fd @ items_text xs) \<and>
    (no_failure (d_answers fd) \<and> SyncFailed \<notin> set (d_syncs fd) \<longrightarrow>
       r = Inr () \<and> snd (fo_flush FileStream_ops t) = Inr ())"
  using file_writer.buffered.print_and_flush [OF _ assms] by (simp add: BufferedStream_new_def)

theorem FileStream_correct_witness:
  "\<exists>t. insert_items FileStream_ops (BufferedStream_new \<lparr>d_rest = [], d_out = [], d_answers = [Transfer 1], d_syncs = []\<rparr>)
       [U32 42, Chr 10] = (t, Inr ()) \<and>
     d_out (bs_writer (fst (fo_flush FileStream_ops t))) = dec 42 @ [10]"
proof -
  let ?fd = "\<lparr>d_rest = [], d_out = [], d_answers = [Transfer 1], d_syncs = []\<rparr> :: Desc"
  obtain t r where t: "insert_items FileStream_ops (BufferedStream_new ?fd) [U32 42, Chr 10] = (t, r)" by fastforce
  then show ?thesis using FileStream_correct [OF t] by (simp add: no_failure_def)
qed

text \<open>
  Inserting into a \<^verbatim>\<open>StringStream\<close>, which formats in the string itself and cuts off what was
  stored too much, appends exactly the text of the values.
\<close>

lemma StringStream_correct: "insert_items StringStream_ops out xs = (out @ items_text xs, Inr ())"
proof -
  have "snd (insert_items StringStream_ops out xs) = Inr ()"
    using string_stream.insert_items_dependable [of out xs] by simp
  then obtain s where "insert_items StringStream_ops out xs = (s, Inr ())" by (metis prod.collapse)
  then show ?thesis using string_stream.insert_items_content [of out xs s] by simp
qed

end
