(* ===== verification/LinePrograms.thy ===== *)
theory LinePrograms
  imports FilePiece Streams FieldSelection ProbingHash Utf8 Base64 MurmurHash
begin

text \<open>
  The programs that read lines from standard input, decide about each and print: \<^verbatim>\<open>dedupe\<close>,
  \<^verbatim>\<open>commoncrawl_dedupe\<close>, \<^verbatim>\<open>subtract_lines\<close>, \<^verbatim>\<open>remove_long_lines\<close>, \<^verbatim>\<open>remove_invalid_utf8\<close>,
  \<^verbatim>\<open>remove_invalid_utf8_base64\<close> and \<^verbatim>\<open>order_independent_hash\<close>, and
  \<^verbatim>\<open>FilterParallel\<close> of \<^verbatim>\<open>src/preprocess/parallel.hh\<close> on two files at once. Each program's loop body is a step from its
  state and a line to the new state and the values it inserts into the output; the loop, the
  input and the output are those of \<open>FilePiece\<close> and \<open>Streams\<close>. The interface \<open>line_program\<close> says what
  a body does, and what the whole program prints is proved once from it. Options are
  arguments: parsing the command line is left to boost.
\<close>

type_synonym 'p step = "'p \<Rightarrow> bytes \<Rightarrow> ('p \<times> item list) result option"

subsection \<open>The loop\<close>

definition print_line ::
  "'p step \<Rightarrow> 'p \<times> Desc BufferedStream \<Rightarrow> bytes \<Rightarrow> ('p \<times> Desc BufferedStream) result option"
where
  "print_line step = (\<lambda>(p, out) line.
     case step p line of
       None \<Rightarrow> None
     | Some (Inl e) \<Rightarrow> Some (Inl e)
     | Some (Inr (p, xs)) \<Rightarrow>
         Some (case insert_items FileStream_ops out xs of
                 (_, Inl e) \<Rightarrow> Inl e
               | (out, Inr _) \<Rightarrow> Inr (p, out)))"

text \<open>\<^verbatim>\<open>FilePiece in(0); FileStream out(1); while (in.ReadLineOrEOF(line)) ...\<close>; leaving the scope flushes the output.\<close>

definition run_program :: "'z Environment \<Rightarrow> 'p step \<Rightarrow> 'p \<Rightarrow> Desc \<Rightarrow> Desc \<Rightarrow> ('p \<times> Desc) result option" where
  "run_program env step p stdin stdout =
     (case Initialize env 1048576 stdin of
        None \<Rightarrow> None
      | Some (_, Inl e) \<Rightarrow> Some (Inl e)
      | Some (fp, Inr _) \<Rightarrow>
          (case for_lines (ReadLineOrEOF env newline True) (print_line step) fp (p, BufferedStream_new stdout) of
             None \<Rightarrow> None
           | Some (_, Inl e) \<Rightarrow> Some (Inl e)
           | Some (_, Inr (p, out)) \<Rightarrow>
               Some (case fo_flush FileStream_ops out of
                       (_, Inl e) \<Rightarrow> Inl e
                     | (out, Inr _) \<Rightarrow> Inr (p, bs_writer out))))"

subsection \<open>Deduplication\<close>

definition Dedupe_new :: "(u64, u64) AutoProbing result" where
  "Dedupe_new = AutoProbing_new u64_ops True 0 5 7 0"

definition Dedupe_key :: "(u64, u64) AutoProbing \<Rightarrow> u64 \<Rightarrow> ((u64, u64) AutoProbing \<times> bool) result option" where
  "Dedupe_key table key =
     (case auto_FindOrInsert u64_ops True 0 table key of
        None \<Rightarrow> None
      | Some (_, Inl e) \<Rightarrow> Some (Inl e)
      | Some (table, Inr (found, _)) \<Rightarrow> Some (Inr (table, \<not> found)))"

definition Dedupe :: "(u64, u64) AutoProbing \<Rightarrow> bytes \<Rightarrow> ((u64, u64) AutoProbing \<times> bool) result option" where
  "Dedupe table line = Dedupe_key table (MurmurHashNative line 1)"

record Options =
  key_fields :: "FieldRange list"
  delim :: byte

definition FieldDedupe :: "Options \<Rightarrow> (u64, u64) AutoProbing \<Rightarrow> bytes \<Rightarrow> ((u64, u64) AutoProbing \<times> bool) result option" where
  "FieldDedupe options table line =
     (case RangeFields line (key_fields options) (delim options) HashCallback_call (HashCallback_init 1) of
        None \<Rightarrow> None
      | Some hasher \<Rightarrow> Dedupe_key table (hc_hash hasher))"

text \<open>The choice that \<^verbatim>\<open>main\<close> makes.\<close>

definition dedupe_pass :: "Options \<Rightarrow> (u64, u64) AutoProbing \<Rightarrow> bytes \<Rightarrow> ((u64, u64) AutoProbing \<times> bool) result option" where
  "dedupe_pass options =
     (if length (key_fields options) = 1 \<and> fr_begin (key_fields options ! 0) = 0 \<and> fr_end (key_fields options ! 0) = kInfiniteEnd
      then Dedupe else FieldDedupe options)"

subsection \<open>\<^verbatim>\<open>FilterParallel\<close>\<close>

text \<open>The state has the counters \<^verbatim>\<open>input\<close> and \<^verbatim>\<open>output\<close> of the report that goes to standard error.\<close>

definition filter_step :: "('p \<Rightarrow> bytes \<Rightarrow> ('p \<times> bool) result option) \<Rightarrow> ('p \<times> u64 \<times> u64) step" where
  "filter_step pass = (\<lambda>(p, input, output) line.
     map_option (map_sum id (\<lambda>(p, keep).
         if keep then ((p, input + 1, output + 1), [Str line, Chr newline]) else ((p, input + 1, output), [])))
       (pass p line))"

definition FilterParallel_stdin ::
  "'z Environment \<Rightarrow> ('p \<Rightarrow> bytes \<Rightarrow> ('p \<times> bool) result option) \<Rightarrow> 'p \<Rightarrow> Desc \<Rightarrow> Desc \<Rightarrow> (('p \<times> u64 \<times> u64) \<times> Desc) result option"
where
  "FilterParallel_stdin env pass p = run_program env (filter_step pass) (p, 0, 0)"

text \<open>Two files in step: the second must not end before the first.\<close>

partial_function (option) for_line_pairs ::
  "('s \<Rightarrow> ('s \<times> bytes option result) option) \<Rightarrow> ('t \<Rightarrow> ('t \<times> bytes option result) option) \<Rightarrow>
     ('a \<Rightarrow> bytes \<Rightarrow> bytes \<Rightarrow> 'a result option) \<Rightarrow> 's \<Rightarrow> 't \<Rightarrow> 'a \<Rightarrow> ('t \<times> 'a result) option"
where
  "for_line_pairs next0 next1 f s t a =
     (case next0 s of
        None \<Rightarrow> None
      | Some (_, Inl e) \<Rightarrow> Some (t, Inl e)
      | Some (_, Inr None) \<Rightarrow> Some (t, Inr a)
      | Some (s, Inr (Some line0)) \<Rightarrow>
          (case next1 t of
             None \<Rightarrow> None
           | Some (t, Inl e) \<Rightarrow> Some (t, Inl e)
           | Some (t, Inr None) \<Rightarrow> Some (t, Inl EndOfFileException)
           | Some (t, Inr (Some line1)) \<Rightarrow>
               (case f a line0 line1 of
                  None \<Rightarrow> None
                | Some (Inl e) \<Rightarrow> Some (t, Inl e)
                | Some (Inr a) \<Rightarrow> for_line_pairs next0 next1 f s t a)))"

record 'p Parallel =
  pass0 :: 'p
  pass1 :: 'p
  out0 :: "Desc BufferedStream"
  out1 :: "Desc BufferedStream"
  n_input :: u64
  n_output :: u64

definition pair_body ::
  "('p \<Rightarrow> bytes \<Rightarrow> ('p \<times> bool) result option) \<Rightarrow> 'p Parallel \<Rightarrow> bytes \<Rightarrow> bytes \<Rightarrow> 'p Parallel result option"
where
  "pair_body pass a0 line0 line1 =
     (let a = a0\<lparr>n_input := n_input a0 + 1\<rparr>
      in case pass (pass0 a) line0 of
        None \<Rightarrow> None
      | Some (Inl e) \<Rightarrow> Some (Inl e)
      | Some (Inr (p0, False)) \<Rightarrow> Some (Inr (a\<lparr>pass0 := p0\<rparr>))
      | Some (Inr (p0, True)) \<Rightarrow>
          (case pass (pass1 a) line1 of
             None \<Rightarrow> None
           | Some (Inl e) \<Rightarrow> Some (Inl e)
           | Some (Inr (p1, False)) \<Rightarrow> Some (Inr (a\<lparr>pass0 := p0, pass1 := p1\<rparr>))
           | Some (Inr (p1, True)) \<Rightarrow>
               Some (case insert_items FileStream_ops (out0 a) [Str line0, Chr newline] of
                       (_, Inl e) \<Rightarrow> Inl e
                     | (o0, Inr _) \<Rightarrow>
                         (case insert_items FileStream_ops (out1 a) [Str line1, Chr newline] of
                            (_, Inl e) \<Rightarrow> Inl e
                          | (o1, Inr _) \<Rightarrow> Inr (a\<lparr>pass0 := p0, pass1 := p1, out0 := o0, out1 := o1, n_output := n_output a + 1\<rparr>)))))"

text \<open>The exit status is 2 when the second file has lines left.\<close>

definition FilterParallel_files ::
  "'z Environment \<Rightarrow> 'z Environment \<Rightarrow> ('p \<Rightarrow> bytes \<Rightarrow> ('p \<times> bool) result option) \<Rightarrow> 'p \<Rightarrow>
     Desc \<Rightarrow> Desc \<Rightarrow> Desc \<Rightarrow> Desc \<Rightarrow> (Desc \<times> Desc \<times> nat) result option"
where
  "FilterParallel_files env0 env1 pass p file0 file1 file2 file3 =
     (case Initialize env0 1048576 file0 of
        None \<Rightarrow> None
      | Some (_, Inl e) \<Rightarrow> Some (Inl e)
      | Some (in0, Inr _) \<Rightarrow>
     (case Initialize env1 1048576 file1 of
        None \<Rightarrow> None
      | Some (_, Inl e) \<Rightarrow> Some (Inl e)
      | Some (in1, Inr _) \<Rightarrow>
     (case for_line_pairs (ReadLineOrEOF env0 newline True) (ReadLineOrEOF env1 newline True) (pair_body pass) in0 in1
             \<lparr>pass0 = p, pass1 = p, out0 = BufferedStream_new file2, out1 = BufferedStream_new file3, n_input = 0, n_output = 0\<rparr> of
        None \<Rightarrow> None
      | Some (_, Inl e) \<Rightarrow> Some (Inl e)
      | Some (in1, Inr a) \<Rightarrow>
     (case ReadLineOrEOF env1 newline True in1 of
        None \<Rightarrow> None
      | Some (_, Inl e) \<Rightarrow> Some (Inl e)
      | Some (_, Inr rest) \<Rightarrow>
          Some (case fo_flush FileStream_ops (out0 a) of
                  (_, Inl e) \<Rightarrow> Inl e
                | (o0, Inr _) \<Rightarrow>
                    (case fo_flush FileStream_ops (out1 a) of
                       (_, Inl e) \<Rightarrow> Inl e
                     | (o1, Inr _) \<Rightarrow> Inr (bs_writer o0, bs_writer o1, case rest of None \<Rightarrow> 0 | Some _ \<Rightarrow> 2)))))))"

subsection \<open>The other programs\<close>

text \<open>\<^verbatim>\<open>commoncrawl_dedupe\<close>.\<close>

definition IsNewLine :: "(u64, u64) AutoProbing \<Rightarrow> bytes \<Rightarrow> ((u64, u64) AutoProbing \<times> bool) result option" where
  "IsNewLine table l = Dedupe_key table (MurmurHashNative l 1)"

fun strip_front :: "bytes \<Rightarrow> bytes" where
  "strip_front ret = (if ret \<noteq> [] \<and> kSpaces ! unat (hd ret) then strip_front (tl ret) else ret)"

fun strip_back :: "bytes \<Rightarrow> bytes" where
  "strip_back ret = (if ret \<noteq> [] \<and> kSpaces ! unat (ret ! (length ret - 1)) then strip_back (take (length ret - 1) ret) else ret)"

declare strip_front.simps [simp del] strip_back.simps [simp del]

definition StripSpaces :: "bytes \<Rightarrow> bytes" where
  "StripSpaces ret = strip_back (strip_front ret)"

definition remove_line :: bytes where
  "remove_line = lit ''df6fa1abb58549287111ba8d776733e9''"

definition remember_line :: "(u64, u64) AutoProbing \<Rightarrow> bytes \<Rightarrow> (u64, u64) AutoProbing result option" where
  "remember_line table l = map_option (map_sum id fst) (IsNewLine table (StripSpaces l))"

definition commoncrawl_step :: "(u64, u64) AutoProbing step" where
  "commoncrawl_step table line =
     (let l = StripSpaces line
      in if starts_with l remove_line then Some (Inr (table, []))
         else map_option (map_sum id (\<lambda>(table, fresh). (table, if fresh \<and> IsUTF8 l then [Str l, Chr newline] else [])))
                (IsNewLine table l))"

text \<open>\<^verbatim>\<open>subtract_lines\<close>: the lines of one file are hashed, those of the input looked up.\<close>

definition subtract_load :: "(u64, u64) AutoProbing \<Rightarrow> bytes \<Rightarrow> (u64, u64) AutoProbing result option" where
  "subtract_load table line = map_option (map_sum id fst) (Dedupe_key table (MurmurHashNative line 1))"

definition subtract_step :: "(u64, u64) AutoProbing step" where
  "subtract_step table line =
     map_option (\<lambda>(found, _). Inr (table, if \<not> found then [Str line, Chr newline] else []))
       (auto_Find u64_ops table (MurmurHashNative line 1))"

definition remove_long_step :: "nat \<Rightarrow> unit step" where
  "remove_long_step limit _ l = Some (Inr ((), if length l \<le> limit then [Str l, Chr newline] else []))"

definition remove_invalid_utf8_step :: "unit step" where
  "remove_invalid_utf8_step _ line = Some (Inr ((), if IsUTF8 line then [Str line, Chr newline] else []))"

definition remove_invalid_utf8_base64_step :: "unit step" where
  "remove_invalid_utf8_base64_step _ line =
     Some (case base64_decode line of
             Inl e \<Rightarrow> Inl e
           | Inr decoded \<Rightarrow> Inr ((), if IsUTF8 decoded then [Str line, Chr newline] else [Str (base64_encode []), Chr newline]))"

definition order_independent_hash_body :: "u64 \<Rightarrow> bytes \<Rightarrow> u64 result option" where
  "order_independent_hash_body acc line = Some (Inr (acc + MurmurHash64A line 0))"

text \<open>A loop that only reads a file: the loading of a table, or a checksum.\<close>

definition load_lines :: "'z Environment \<Rightarrow> ('a \<Rightarrow> bytes \<Rightarrow> 'a result option) \<Rightarrow> 'a \<Rightarrow> Desc \<Rightarrow> 'a result option" where
  "load_lines env body a fd =
     (case Initialize env 1048576 fd of
        None \<Rightarrow> None
      | Some (_, Inl e) \<Rightarrow> Some (Inl e)
      | Some (fp, Inr _) \<Rightarrow> map_option snd (for_lines (ReadLineOrEOF env newline True) body fp a))"

definition dedupe_main :: "'z Environment \<Rightarrow> Options \<Rightarrow> Desc \<Rightarrow> Desc \<Rightarrow> Desc result option" where
  "dedupe_main env options stdin stdout =
     (case Dedupe_new of
        Inl e \<Rightarrow> Some (Inl e)
      | Inr table \<Rightarrow> map_option (map_sum id snd) (FilterParallel_stdin env (dedupe_pass options) table stdin stdout))"

definition dedupe_main_files ::
  "'z Environment \<Rightarrow> 'z Environment \<Rightarrow> Options \<Rightarrow> Desc \<Rightarrow> Desc \<Rightarrow> Desc \<Rightarrow> Desc \<Rightarrow> (Desc \<times> Desc \<times> nat) result option"
where
  "dedupe_main_files env0 env1 options file0 file1 file2 file3 =
     (case Dedupe_new of
        Inl e \<Rightarrow> Some (Inl e)
      | Inr table \<Rightarrow> FilterParallel_files env0 env1 (dedupe_pass options) table file0 file1 file2 file3)"

definition with_table ::
  "(u64, u64) AutoProbing result option \<Rightarrow> ((u64, u64) AutoProbing \<Rightarrow> ('p \<times> Desc) result option) \<Rightarrow> Desc result option"
where
  "with_table t f =
     (case t of
        None \<Rightarrow> None
      | Some (Inl e) \<Rightarrow> Some (Inl e)
      | Some (Inr table) \<Rightarrow> map_option (map_sum id snd) (f table))"

text \<open>The file of lines to remove is optional.\<close>

definition commoncrawl_dedupe_main ::
  "'z Environment \<Rightarrow> ('z Environment \<times> Desc) option \<Rightarrow> Desc \<Rightarrow> Desc \<Rightarrow> Desc result option"
where
  "commoncrawl_dedupe_main env removing stdin stdout =
     with_table
       (case Dedupe_new of
          Inl e \<Rightarrow> Some (Inl e)
        | Inr table \<Rightarrow>
            (case removing of
               None \<Rightarrow> Some (Inr table)
             | Some (env1, fd) \<Rightarrow> load_lines env1 remember_line table fd))
       (\<lambda>table. run_program env commoncrawl_step table stdin stdout)"

definition subtract_lines_main :: "'z Environment \<Rightarrow> 'z Environment \<Rightarrow> Desc \<Rightarrow> Desc \<Rightarrow> Desc \<Rightarrow> Desc result option" where
  "subtract_lines_main env0 env1 subtract stdin stdout =
     with_table
       (case Dedupe_new of
          Inl e \<Rightarrow> Some (Inl e)
        | Inr table \<Rightarrow> load_lines env0 subtract_load table subtract)
       (\<lambda>table. run_program env1 subtract_step table stdin stdout)"

definition remove_long_lines_main :: "'z Environment \<Rightarrow> nat option \<Rightarrow> Desc \<Rightarrow> Desc \<Rightarrow> Desc result option" where
  "remove_long_lines_main env argument stdin stdout =
     map_option (map_sum id snd)
       (run_program env (remove_long_step (case argument of None \<Rightarrow> 2000 | Some limit \<Rightarrow> limit)) () stdin stdout)"

definition remove_invalid_utf8_main :: "'z Environment \<Rightarrow> Desc \<Rightarrow> Desc \<Rightarrow> Desc result option" where
  "remove_invalid_utf8_main env stdin stdout =
     map_option (map_sum id snd) (run_program env remove_invalid_utf8_step () stdin stdout)"

definition remove_invalid_utf8_base64_main :: "'z Environment \<Rightarrow> Desc \<Rightarrow> Desc \<Rightarrow> Desc result option" where
  "remove_invalid_utf8_base64_main env stdin stdout =
     map_option (map_sum id snd) (run_program env remove_invalid_utf8_base64_step () stdin stdout)"

definition order_independent_hash_main :: "'z Environment \<Rightarrow> Desc \<Rightarrow> bytes result option" where
  "order_independent_hash_main env stdin =
     map_option (map_sum id (\<lambda>acc. dec (unat acc) @ [newline])) (load_lines env order_independent_hash_body 0 stdin)"

subsection \<open>What a program prints\<close>

text \<open>
  An abstract program reads a line and prints a text: \<open>emit\<close>. The interface relates the states of the
  code to those of the abstract program, with the number of lines they can still take.
\<close>

primrec printed :: "('s \<Rightarrow> bytes \<Rightarrow> 's \<times> bytes) \<Rightarrow> 's \<Rightarrow> bytes list \<Rightarrow> 's \<times> bytes" where
  "printed emit s [] = (s, [])"
| "printed emit s (l # ls) = (let (s, t) = emit s l; (s, ts) = printed emit s ls in (s, t @ ts))"

abbreviation dependable :: "Desc \<Rightarrow> bool" where
  "dependable fd \<equiv> no_failure (d_answers fd) \<and> SyncFailed \<notin> set (d_syncs fd)"

abbreviation stream_text :: "Desc BufferedStream \<Rightarrow> bytes" where
  "stream_text out \<equiv> d_out (bs_writer out) @ bs_buf out"

abbreviation stream_ok :: "Desc BufferedStream \<Rightarrow> bool" where
  "stream_ok out \<equiv> length (bs_buf out) \<le> kBufferSize \<and> dependable (bs_writer out)"

lemma insert_items_good:
  assumes "stream_ok out"
  shows "\<exists>out'. insert_items FileStream_ops out xs = (out', Inr ()) \<and> stream_ok out' \<and> stream_text out' = stream_text out @ items_text xs"
proof -
  obtain out' where out': "insert_items FileStream_ops out xs = (out', Inr ())" "dependable (bs_writer out')"
    using file_writer.buffered.insert_items_dependable [of out xs] assms by (metis prod.collapse)
  then show ?thesis using file_writer.buffered.insert_items_content [of out xs out'] assms by auto
qed

lemma flush_good:
  assumes "stream_ok out"
  shows "\<exists>out'. fo_flush FileStream_ops out = (out', Inr ()) \<and> d_out (bs_writer out') = stream_text out"
proof -
  obtain out' where out': "fo_flush FileStream_ops out = (out', Inr ())"
    using file_writer.buffered.flush_dependable [of out] assms by (metis prod.collapse)
  then show ?thesis using file_writer.buffered.flush_content [of out out'] assms by auto
qed

locale line_program =
  fixes step :: "'p step"
    and state :: "'p \<Rightarrow> 's \<Rightarrow> nat \<Rightarrow> bool"
    and emit :: "'s \<Rightarrow> bytes \<Rightarrow> 's \<times> bytes"
    and accepts :: "bytes \<Rightarrow> bool"
  assumes step_ok: "state p s (Suc n) \<Longrightarrow> accepts l \<Longrightarrow>
    \<exists>p' xs. step p l = Some (Inr (p', xs)) \<and> items_text xs = snd (emit s l) \<and> state p' (fst (emit s l)) n"
begin

lemma fold_print_line:
  "state p s (length ls) \<Longrightarrow> \<forall>l\<in>set ls. accepts l \<Longrightarrow> stream_ok out \<Longrightarrow>
    \<exists>p' out'. fold_result (print_line step) (p, out) ls = Some (Inr (p', out')) \<and> stream_ok out' \<and>
      stream_text out' = stream_text out @ snd (printed emit s ls) \<and> state p' (fst (printed emit s ls)) 0"
proof (induction ls arbitrary: p s out)
  case (Cons l ls)
  obtain p1 xs where p1: "step p l = Some (Inr (p1, xs))" "items_text xs = snd (emit s l)" "state p1 (fst (emit s l)) (length ls)"
    using step_ok [of p s "length ls" l] Cons.prems(1,2) by auto
  obtain out1 where out1: "insert_items FileStream_ops out xs = (out1, Inr ())" "stream_ok out1"
      "stream_text out1 = stream_text out @ items_text xs"
    using insert_items_good [OF Cons.prems(3)] by blast
  obtain p' out' where "fold_result (print_line step) (p1, out1) ls = Some (Inr (p', out'))" "stream_ok out'"
      "stream_text out' = stream_text out1 @ snd (printed emit (fst (emit s l)) ls)" "state p' (fst (printed emit (fst (emit s l)) ls)) 0"
    using Cons.IH [OF p1(3) _ out1(2)] Cons.prems(2) by auto
  moreover have "print_line step (p, out) l = Some (Inr (p1, out1))" using p1(1) out1(1) by (simp add: print_line_def)
  ultimately show ?case using p1 out1 by (simp add: case_prod_beta Let_def)
qed simp

lemma run_program_prints:
  assumes "opens env decodes stdin content" and "dependable stdout"
    and "state p s (length (text_lines newline True content))" and "\<forall>l\<in>set (text_lines newline True content). accepts l"
  shows "\<exists>p' stdout'. run_program env step p stdin stdout = Some (Inr (p', stdout')) \<and>
    d_out stdout' = d_out stdout @ snd (printed emit s (text_lines newline True content)) \<and>
    state p' (fst (printed emit s (text_lines newline True content))) 0"
proof -
  let ?ls = "text_lines newline True content"
  obtain fp where fp: "Initialize env 1048576 stdin = Some (fp, Inr ())" "delivers env decodes fp content"
    using Initialize_good [OF assms(1)] by blast
  have "stream_ok (BufferedStream_new stdout)" using assms(2) by (simp add: BufferedStream_new_def)
  then obtain p' out' where out': "fold_result (print_line step) (p, BufferedStream_new stdout) ?ls = Some (Inr (p', out'))"
      "stream_ok out'" "stream_text out' = d_out stdout @ snd (printed emit s ?ls)" "state p' (fst (printed emit s ?ls)) 0"
    using fold_print_line [OF assms(3,4)] by (force simp: BufferedStream_new_def)
  obtain out2 where "fo_flush FileStream_ops out' = (out2, Inr ())" "d_out (bs_writer out2) = stream_text out'"
    using flush_good [OF out'(2)] by blast
  then show ?thesis
    using fp(1) fp_lines.for_lines_fold [OF fp(2), where delim = newline and strip_cr = True and f = "print_line step" and a = "(p, BufferedStream_new stdout)"] out'
    by (auto simp: run_program_def)
qed

end

lemma load_lines_fold:
  assumes "opens env decodes fd content"
  shows "load_lines env body a fd = fold_result body a (text_lines newline True content)"
proof -
  obtain fp where fp: "Initialize env 1048576 fd = Some (fp, Inr ())" "delivers env decodes fp content"
    using Initialize_good [OF assms] by blast
  then show ?thesis
    using fp_lines.for_lines_fold [OF fp(2), where delim = newline and strip_cr = True and f = body and a = a]
    by (auto simp: load_lines_def option.map_comp comp_def option.map_ident)
qed

subsection \<open>The set of keys\<close>

definition table_state :: "(u64, u64) AutoProbing \<Rightarrow> u64 set \<Rightarrow> nat \<Rightarrow> bool" where
  "table_state t seen n \<longleftrightarrow>
     auto_ok u64_ops t \<and> pt_invalid (ap_backend t) = 0 \<and> seen = insert 0 (dom (auto_map u64_ops t)) \<and>
     pt_entries (ap_backend t) + n \<le> 2 ^ 61"

lemma table_probe_invalid:
  assumes "table_ok tr t" and "size (contents tr t) < pt_size t"
  shows "\<exists>i. table_probe tr t {pt_invalid t, pt_invalid t} (pt_invalid t) = Some i \<and> key_at tr t i = pt_invalid t"
proof -
  have m: "mod_ok (pt_mod t) (pt_size t)" using assms(1) by (simp add: table_ok_def)
  obtain d where "table_probe tr t {pt_invalid t} (pt_invalid t) = Some ((table_Ideal tr t (pt_invalid t) + d) mod pt_size t)"
      "key_at tr t ((table_Ideal tr t (pt_invalid t) + d) mod pt_size t) \<in> {pt_invalid t}"
    using table_probe_cyclic [OF m assms(2), of "{pt_invalid t}" "pt_invalid t"] by blast
  then show ?thesis by simp
qed

text \<open>The key 0 marks a free bucket: it counts as present.\<close>

lemma auto_FindOrInsert_zero:
  assumes "auto_ok u64_ops t" and "pt_invalid (ap_backend t) = 0" and "pt_entries (ap_backend t) < 2 ^ 61"
  shows "\<exists>t' i. auto_FindOrInsert u64_ops True 0 t 0 = Some (t', Inr (True, i)) \<and> auto_ok u64_ops t' \<and>
    auto_map u64_ops t' = auto_map u64_ops t \<and> pt_invalid (ap_backend t') = 0 \<and> pt_entries (ap_backend t') = pt_entries (ap_backend t)"
proof -
  obtain b where b: "DoubleIfNeeded u64_ops True 0 t = Some b" "auto_ok u64_ops b" "auto_map u64_ops b = auto_map u64_ops t"
    "pt_entries (ap_backend b) < ap_threshold b" "pt_invalid (ap_backend b) = pt_invalid (ap_backend t)"
    "pt_entries (ap_backend b) = pt_entries (ap_backend t)"
    using DoubleIfNeeded_ok [OF assms(1,3)] zero_ok_u64 assms(2) by metis
  have ok: "table_ok u64_ops (ap_backend b)" "size (contents u64_ops (ap_backend b)) < pt_size (ap_backend b)"
    using b(2,4) threshold_room [of "pt_entries (ap_backend b)" "pt_size (ap_backend b)"] by (auto simp: auto_ok_def table_ok_core)
  obtain i where "table_probe u64_ops (ap_backend b) {0, 0} 0 = Some i" "key_at u64_ops (ap_backend b) i = 0"
    using table_probe_invalid [OF ok] b(5) assms(2) by auto
  then show ?thesis using b assms(2)
    by (simp add: auto_FindOrInsert_def table_FindOrInsert_def u64_ops_def)
qed

interpretation table_set: growing_set "\<lambda>t k. case Dedupe_key t k of Some (Inr (t', fresh)) \<Rightarrow> Some (t', \<not> fresh) | _ \<Rightarrow> None"
  "\<lambda>t. insert 0 (dom (auto_map u64_ops t))" "\<lambda>t. auto_ok u64_ops t \<and> pt_invalid (ap_backend t) = 0"
  "\<lambda>t. pt_entries (ap_backend t)" "2 ^ 61"
proof
  fix t :: "(u64, u64) AutoProbing" and k :: u64
  assume t: "auto_ok u64_ops t \<and> pt_invalid (ap_backend t) = 0" "pt_entries (ap_backend t) < 2 ^ 61"
  show "\<exists>t'. (case Dedupe_key t k of Some (Inr (t', fresh)) \<Rightarrow> Some (t', \<not> fresh) | _ \<Rightarrow> None) =
      Some (t', k \<in> insert 0 (dom (auto_map u64_ops t))) \<and> (auto_ok u64_ops t' \<and> pt_invalid (ap_backend t') = 0) \<and>
      insert 0 (dom (auto_map u64_ops t')) = insert k (insert 0 (dom (auto_map u64_ops t))) \<and>
      pt_entries (ap_backend t') \<le> pt_entries (ap_backend t) + 1"
  proof (cases "k = 0")
    case True
    then show ?thesis using auto_FindOrInsert_zero [of t] t by (auto simp: Dedupe_key_def)
  next
    case False
    then show ?thesis using auto_FindOrInsert_spec [of u64_ops t True 0 k] t zero_ok_u64
      by (auto simp: Dedupe_key_def u64_ops_def)
  qed
qed

lemma Dedupe_key_ok:
  assumes "table_state t seen (Suc n)"
  shows "\<exists>t'. Dedupe_key t k = Some (Inr (t', k \<notin> seen)) \<and> table_state t' (insert k seen) n"
proof -
  have t: "auto_ok u64_ops t \<and> pt_invalid (ap_backend t) = 0" "pt_entries (ap_backend t) < 2 ^ 61" "seen = insert 0 (dom (auto_map u64_ops t))"
    using assms by (auto simp: table_state_def)
  obtain t' where "(case Dedupe_key t k of Some (Inr (t', fresh)) \<Rightarrow> Some (t', \<not> fresh) | _ \<Rightarrow> None) = Some (t', k \<in> seen)"
      "auto_ok u64_ops t'" "pt_invalid (ap_backend t') = 0" "insert 0 (dom (auto_map u64_ops t')) = insert k seen"
      "pt_entries (ap_backend t') \<le> pt_entries (ap_backend t) + 1"
    using table_set.find_or_insert [OF t(1,2), of k] t(3) by auto
  then show ?thesis using assms by (auto simp: table_state_def split: option.splits sum.splits)
qed

lemma Dedupe_new_ok: "\<exists>t. Dedupe_new = Inr t \<and> table_state t {0} (2 ^ 61)"
  using AutoProbing_new_ok [of 5 7 u64_ops True 0 0] zero_ok_u64 by (auto simp: Dedupe_new_def table_state_def)

lemma auto_Find_ok:
  assumes "table_state t seen n"
  shows "\<exists>i. auto_Find u64_ops t k = Some (k \<in> seen, i)"
proof -
  let ?t = "ap_backend t"
  have t: "table_ok u64_ops ?t" "pt_invalid ?t = 0" "seen = insert 0 (dom (table_map u64_ops ?t))"
    using assms by (auto simp: table_state_def auto_ok_def)
  show ?thesis
  proof (cases "k = 0")
    case True
    have "0 < pt_size ?t" using t(1) mod_ok_pos by (auto simp: table_ok_def)
    then have "size (contents u64_ops ?t) < pt_size ?t"
      using assms by (auto simp: table_state_def auto_ok_def table_ok_def threshold_for_def)
    then show ?thesis using table_probe_invalid [OF t(1)] t True by (auto simp: auto_Find_def table_Find_def)
  next
    case False
    then have "k \<noteq> pt_invalid ?t" using t(2) by simp
    with t(1) show ?thesis
    proof (cases rule: table_probe_key)
      case (found i)
      then show ?thesis using t(3) by (auto simp: auto_Find_def table_Find_def)
    next
      case (missing i)
      then have "key_at u64_ops ?t i \<noteq> k" using False t(2) by (auto simp: belongs_at_def is_free_def)
      then show ?thesis using missing t(3) False by (auto simp: auto_Find_def table_Find_def)
    qed
  qed
qed

subsection \<open>The bodies satisfy the interface\<close>

definition unlines :: "bytes list \<Rightarrow> bytes" where
  "unlines ls = concat (map (\<lambda>l. l @ [newline]) ls)"

lemma unlines_simps [simp]: "unlines [] = []" "unlines (l # ls) = l @ newline # unlines ls"
  by (simp_all add: unlines_def)

text \<open>The key of a line under the options of \<^verbatim>\<open>dedupe\<close>: the hash of the texts of the chosen ranges.\<close>

definition line_key :: "Options \<Rightarrow> bytes \<Rightarrow> u64" where
  "line_key options line =
     (if length (key_fields options) = 1 \<and> fr_begin (key_fields options ! 0) = 0 \<and> fr_end (key_fields options ! 0) = kInfiniteEnd
      then MurmurHashNative line 1
      else hash_texts 1 (range_texts (delim options) line (key_fields options)))"

definition emit_new :: "(bytes \<Rightarrow> u64) \<Rightarrow> u64 set \<Rightarrow> bytes \<Rightarrow> u64 set \<times> bytes" where
  "emit_new key seen l = (insert (key l) seen, if key l \<in> seen then [] else l @ [newline])"

definition emit_if :: "(bytes \<Rightarrow> bool) \<Rightarrow> 's \<Rightarrow> bytes \<Rightarrow> 's \<times> bytes" where
  "emit_if p s l = (s, if p l then l @ [newline] else [])"

definition emit_crawl :: "u64 set \<Rightarrow> bytes \<Rightarrow> u64 set \<times> bytes" where
  "emit_crawl seen line =
     (let l = StripSpaces line; k = MurmurHashNative l 1
      in if prefix remove_line l then (seen, [])
         else (insert k seen, if k \<notin> seen \<and> IsUTF8 l then l @ [newline] else []))"

lemma dedupe_pass_key:
  assumes "proper_ranges (key_fields options)"
  shows "dedupe_pass options t l = Dedupe_key t (line_key options l)"
  using RangeFields_hash [OF assms, of l "delim options" 1]
  by (auto simp: dedupe_pass_def line_key_def Dedupe_def FieldDedupe_def)

interpretation dedupe: line_program "filter_step (dedupe_pass options)" "\<lambda>(t, _, _). table_state t" "emit_new (line_key options)" "\<lambda>_. proper_ranges (key_fields options)" for options
proof
  fix c :: "(u64, u64) AutoProbing \<times> u64 \<times> u64" and s n and l :: bytes
  obtain p i j where c: "c = (p, i, j)" by (cases c)
  assume r: "proper_ranges (key_fields options)"
  assume "(case c of (t, _, _) \<Rightarrow> table_state t) s (Suc n)"
  then have "table_state p s (Suc n)" by (simp add: c)
  from Dedupe_key_ok [OF this] obtain t where "Dedupe_key p (line_key options l) = Some (Inr (t, line_key options l \<notin> s))"
      and t: "table_state t (insert (line_key options l) s) n" by blast
  then have "filter_step (dedupe_pass options) c l =
      Some (Inr (if line_key options l \<notin> s then ((t, i + 1, j + 1), [Str l, Chr newline]) else ((t, i + 1, j), [])))"
    by (simp add: filter_step_def dedupe_pass_key [OF r] c)
  then show "\<exists>p' xs. filter_step (dedupe_pass options) c l = Some (Inr (p', xs)) \<and>
      items_text xs = snd (emit_new (line_key options) s l) \<and> (case p' of (t, _, _) \<Rightarrow> table_state t) (fst (emit_new (line_key options) s l)) n"
    using t by (auto simp: emit_new_def)
qed

interpretation crawl: line_program commoncrawl_step table_state emit_crawl "\<lambda>_. True"
proof
  fix p s n and l :: bytes
  assume t: "table_state p s (Suc n)"
  let ?l = "StripSpaces l" and ?k = "MurmurHashNative (StripSpaces l) 1"
  have same: "table_state p s n" using t by (simp add: table_state_def)
  obtain u where u: "Dedupe_key p ?k = Some (Inr (u, ?k \<notin> s))" "table_state u (insert ?k s) n" using Dedupe_key_ok [OF t] by blast
  have "commoncrawl_step p l = Some (Inr (if prefix remove_line ?l then (p, [])
      else (u, if ?k \<notin> s \<and> IsUTF8 ?l then [Str ?l, Chr newline] else [])))"
    using u(1) by (simp add: commoncrawl_step_def Let_def IsNewLine_def starts_with_iff)
  then show "\<exists>p' xs. commoncrawl_step p l = Some (Inr (p', xs)) \<and> items_text xs = snd (emit_crawl s l) \<and> table_state p' (fst (emit_crawl s l)) n"
    using same u(2) by (auto simp: emit_crawl_def Let_def)
qed

interpretation subtract: line_program subtract_step "\<lambda>t seen _. table_state t seen 0" "\<lambda>seen. emit_if (\<lambda>l. MurmurHashNative l 1 \<notin> seen) seen" "\<lambda>_. True"
proof
  fix p s and l :: bytes
  assume t: "table_state p s 0"
  obtain i where "auto_Find u64_ops p (MurmurHashNative l 1) = Some (MurmurHashNative l 1 \<in> s, i)" using auto_Find_ok [OF t] by blast
  then have "subtract_step p l = Some (Inr (p, if MurmurHashNative l 1 \<notin> s then [Str l, Chr newline] else []))"
    by (simp add: subtract_step_def)
  then show "\<exists>p' xs. subtract_step p l = Some (Inr (p', xs)) \<and>
      items_text xs = snd (emit_if (\<lambda>l. MurmurHashNative l 1 \<notin> s) s l) \<and> table_state p' (fst (emit_if (\<lambda>l. MurmurHashNative l 1 \<notin> s) s l)) 0"
    using t by (auto simp: emit_if_def)
qed

interpretation remove_long: line_program "remove_long_step limit" "\<lambda>_ _ _. True" "emit_if (\<lambda>l. length l \<le> limit)" "\<lambda>_. True" for limit
  by unfold_locales (simp add: remove_long_step_def emit_if_def)

interpretation remove_invalid: line_program remove_invalid_utf8_step "\<lambda>_ _ _. True" "emit_if IsUTF8" "\<lambda>_. True"
  by unfold_locales (simp add: remove_invalid_utf8_step_def emit_if_def)

interpretation remove_invalid_base64: line_program remove_invalid_utf8_base64_step "\<lambda>_ _ _. True"
  "\<lambda>s l. (s, (if IsUTF8 (projr (base64_decode l)) then l else base64_encode []) @ [newline])" "\<lambda>l. \<exists>d. base64_decode l = Inr d"
  by unfold_locales (auto simp: remove_invalid_utf8_base64_step_def)

lemma printed_new: "printed (emit_new key) seen ls = (seen \<union> key ` set ls, unlines (first_new key seen ls))"
  by (induction ls arbitrary: seen) (auto simp: emit_new_def Let_def insert_absorb)

lemma printed_if: "printed (emit_if p) s ls = (s, unlines (filter p ls))"
  by (induction ls) (simp_all add: emit_if_def)

lemma printed_map: "printed (\<lambda>s l. (s, f l @ [newline])) s ls = (s, unlines (map f ls))"
  by (induction ls) simp_all

lemma printed_if_seen: "printed (\<lambda>seen. emit_if (p seen) seen) s ls = (s, unlines (filter (p s) ls))"
  by (induction ls) (simp_all add: emit_if_def)

lemma fold_remember:
  "table_state t seen (length ls + n) \<Longrightarrow>
    \<exists>t'. fold_result (\<lambda>t l. map_option (map_sum id fst) (Dedupe_key t (key l))) t ls = Some (Inr t') \<and> table_state t' (seen \<union> key ` set ls) n"
proof (induction ls arbitrary: t seen)
  case (Cons l ls)
  obtain t1 where t1: "Dedupe_key t (key l) = Some (Inr (t1, key l \<notin> seen))" "table_state t1 (insert (key l) seen) (length ls + n)"
    using Dedupe_key_ok [of t seen "length ls + n" "key l"] Cons.prems by auto
  show ?case using Cons.IH [OF t1(2)] t1(1) by auto
qed auto

text \<open>
  C4. \<^verbatim>\<open>dedupe\<close> prints, for every key that occurs in the input, the first line that has it, in the
  order of the input and nothing else. The key is the 64-bit hash of the line or of the chosen
  fields: the hash of the line, or of the texts of the ranges chained from the seed 1. The ranges are
  in order and none is empty, as every specification without column 0 gives them (a specification
  such as \<^verbatim>\<open>5-,0\<close> does not, see \<open>RangeFields_zero_column\<close>); a line whose key is 0, the mark of a
  free bucket, is never printed.
\<close>

theorem dedupe_main_correct:
  assumes "opens env decodes stdin content" and "dependable stdout"
    and "length (text_lines newline True content) \<le> 2 ^ 61"
    and "ordered_ranges (key_fields options)" and "nonempty_ranges (key_fields options)"
  shows "\<exists>stdout'. dedupe_main env options stdin stdout = Some (Inr stdout') \<and>
    (let ls = text_lines newline True content; kept = first_new (line_key options) {0} ls
     in d_out stdout' = d_out stdout @ unlines kept \<and> subseq kept ls \<and> distinct (map (line_key options) kept) \<and>
        set (map (line_key options) kept) = line_key options ` set ls - {0})"
proof -
  obtain t where t: "Dedupe_new = Inr t" "table_state t {0} (2 ^ 61)" using Dedupe_new_ok by blast
  then have "table_state t {0} (length (text_lines newline True content))" using assms(3) by (simp add: table_state_def)
  then have st: "(case (t, 0, 0) of (t, _, _) \<Rightarrow> table_state t) {0} (length (text_lines newline True content))" by simp
  obtain p' stdout' where "run_program env (filter_step (dedupe_pass options)) (t, 0, 0) stdin stdout = Some (Inr (p', stdout'))"
      "d_out stdout' = d_out stdout @ unlines (first_new (line_key options) {0} (text_lines newline True content))"
    using dedupe.run_program_prints [OF assms(1,2) st, of options] assms(4,5) unfolding printed_new by auto
  moreover from this have "dedupe_main env options stdin stdout = Some (Inr stdout')"
    unfolding dedupe_main_def t(1) by (simp add: FilterParallel_stdin_def)
  ultimately show ?thesis unfolding Let_def
    using first_new_subseq first_new_distinct [of "line_key options" "{0}" "text_lines newline True content"] by blast
qed

definition trimmed :: "bytes \<Rightarrow> bytes" where
  "trimmed l = rev (dropWhile (\<lambda>c. kSpaces ! unat c) (rev (dropWhile (\<lambda>c. kSpaces ! unat c) l)))"

lemma strip_front_eq: "strip_front l = dropWhile (\<lambda>c. kSpaces ! unat c) l"
  by (induction l) (subst strip_front.simps, simp)+

lemma strip_back_eq: "strip_back l = rev (dropWhile (\<lambda>c. kSpaces ! unat c) (rev l))"
  by (induction l rule: rev_induct) (subst strip_back.simps, simp)+

lemma StripSpaces_eq: "StripSpaces l = trimmed l"
  by (simp add: StripSpaces_def strip_front_eq strip_back_eq trimmed_def)

lemma printed_crawl:
  "snd (printed emit_crawl seen ls) =
     unlines (filter IsUTF8 (first_new (\<lambda>l. MurmurHashNative l 1) seen (filter (\<lambda>l. \<not> prefix remove_line l) (map trimmed ls))))"
  by (induction ls arbitrary: seen) (auto simp: emit_crawl_def Let_def StripSpaces_eq case_prod_beta insert_absorb)

text \<open>
  \<^verbatim>\<open>commoncrawl_dedupe\<close> prints the lines of the input without the white space around them, except
  the document separators, the lines whose hash has been seen before, in the input or in the
  file of lines to remove, and those that are not valid UTF-8, in the order of the input.
\<close>

lemma commoncrawl_dedupe_main_correct:
  assumes "opens env decodes stdin content" and "dependable stdout" and "opens env1 decodes fd removed"
    and "length (text_lines newline True content) + length (text_lines newline True removed) \<le> 2 ^ 61"
  shows "\<exists>stdout'. commoncrawl_dedupe_main env (Some (env1, fd)) stdin stdout = Some (Inr stdout') \<and>
    d_out stdout' = d_out stdout @ unlines (filter IsUTF8
      (first_new (\<lambda>l. MurmurHashNative l 1) (insert 0 ((\<lambda>l. MurmurHashNative (trimmed l) 1) ` set (text_lines newline True removed)))
        (filter (\<lambda>l. \<not> prefix remove_line l) (map trimmed (text_lines newline True content)))))"
proof -
  let ?ls = "text_lines newline True content" and ?rs = "text_lines newline True removed"
  let ?seen = "insert 0 ((\<lambda>l. MurmurHashNative (trimmed l) 1) ` set ?rs)"
  obtain t where t: "Dedupe_new = Inr t" "table_state t {0} (2 ^ 61)" using Dedupe_new_ok by blast
  then have "table_state t {0} (length ?rs + length ?ls)" using assms(4) by (simp add: table_state_def)
  then obtain t' where "fold_result (\<lambda>t l. map_option (map_sum id fst) (Dedupe_key t (MurmurHashNative (trimmed l) 1))) t ?rs = Some (Inr t')"
      and st: "table_state t' ?seen (length ?ls)"
    using fold_remember [of t "{0}" ?rs "length ?ls" "\<lambda>l. MurmurHashNative (trimmed l) 1"] by auto
  then have load: "load_lines env1 remember_line t fd = Some (Inr t')"
    unfolding load_lines_fold [OF assms(3)] remember_line_def [abs_def] IsNewLine_def StripSpaces_eq by simp
  obtain p' stdout' where "run_program env commoncrawl_step t' stdin stdout = Some (Inr (p', stdout'))"
      "d_out stdout' = d_out stdout @ snd (printed emit_crawl ?seen ?ls)"
    using crawl.run_program_prints [OF assms(1,2) st] by auto
  moreover from this have "commoncrawl_dedupe_main env (Some (env1, fd)) stdin stdout = Some (Inr stdout')"
    unfolding commoncrawl_dedupe_main_def t(1) using load by (simp add: with_table_def)
  ultimately show ?thesis by (simp add: printed_crawl)
qed

text \<open>
  \<^verbatim>\<open>subtract_lines\<close> prints the lines of its input whose hash is that of no line of the other file (and
  not 0), all copies and in order.
\<close>

lemma subtract_lines_main_correct:
  assumes "opens env0 decodes subtract removed" and "opens env1 decodes stdin content" and "dependable stdout"
    and "length (text_lines newline True removed) \<le> 2 ^ 61"
  shows "\<exists>stdout'. subtract_lines_main env0 env1 subtract stdin stdout = Some (Inr stdout') \<and>
    d_out stdout' = d_out stdout @ unlines (filter
      (\<lambda>l. MurmurHashNative l 1 \<notin> insert 0 ((\<lambda>l. MurmurHashNative l 1) ` set (text_lines newline True removed))) (text_lines newline True content))"
proof -
  let ?rs = "text_lines newline True removed"
  let ?seen = "insert 0 ((\<lambda>l. MurmurHashNative l 1) ` set ?rs)"
  obtain t where t: "Dedupe_new = Inr t" "table_state t {0} (2 ^ 61)" using Dedupe_new_ok by blast
  then have "table_state t {0} (length ?rs + 0)" using assms(4) by (simp add: table_state_def)
  then obtain t' where "fold_result (\<lambda>t l. map_option (map_sum id fst) (Dedupe_key t (MurmurHashNative l 1))) t ?rs = Some (Inr t')"
      and st: "table_state t' ?seen 0"
    using fold_remember [of t "{0}" ?rs 0 "\<lambda>l. MurmurHashNative l 1"] by auto
  then have load: "load_lines env0 subtract_load t subtract = Some (Inr t')"
    unfolding load_lines_fold [OF assms(1)] subtract_load_def [abs_def] by simp
  obtain p' stdout' where "run_program env1 subtract_step t' stdin stdout = Some (Inr (p', stdout'))"
      "d_out stdout' = d_out stdout @ snd (printed (\<lambda>seen. emit_if (\<lambda>l. MurmurHashNative l 1 \<notin> seen) seen) ?seen (text_lines newline True content))"
    using subtract.run_program_prints [OF assms(2,3) st] by auto
  moreover from this have "subtract_lines_main env0 env1 subtract stdin stdout = Some (Inr stdout')"
    unfolding subtract_lines_main_def t(1) using load by (simp add: with_table_def)
  ultimately show ?thesis by (simp add: printed_if_seen)
qed

text \<open>
  \<^verbatim>\<open>remove_long_lines\<close>, \<^verbatim>\<open>remove_invalid_utf8\<close> and \<^verbatim>\<open>remove_invalid_utf8_base64\<close> print exactly the lines
  they are meant to keep; the last one keeps the number of lines, with an empty document in
  the place of an invalid one.
\<close>

lemma line_filters_correct:
  assumes "opens env decodes stdin content" and "dependable stdout"
  shows "(\<exists>stdout'. remove_long_lines_main env argument stdin stdout = Some (Inr stdout') \<and>
      d_out stdout' = d_out stdout @ unlines (filter (\<lambda>l. length l \<le> (case argument of None \<Rightarrow> 2000 | Some n \<Rightarrow> n)) (text_lines newline True content))) \<and>
    (\<exists>stdout'. remove_invalid_utf8_main env stdin stdout = Some (Inr stdout') \<and>
      d_out stdout' = d_out stdout @ unlines (filter IsUTF8 (text_lines newline True content))) \<and>
    ((\<forall>l\<in>set (text_lines newline True content). \<exists>d. base64_decode l = Inr d) \<longrightarrow>
      (\<exists>stdout'. remove_invalid_utf8_base64_main env stdin stdout = Some (Inr stdout') \<and>
        d_out stdout' = d_out stdout @
          unlines (map (\<lambda>l. if IsUTF8 (projr (base64_decode l)) then l else base64_encode []) (text_lines newline True content))))"
proof (intro conjI impI)
  let ?limit = "case argument of None \<Rightarrow> 2000 | Some n \<Rightarrow> n" and ?ls = "text_lines newline True content"
  show "\<exists>stdout'. remove_long_lines_main env argument stdin stdout = Some (Inr stdout') \<and>
      d_out stdout' = d_out stdout @ unlines (filter (\<lambda>l. length l \<le> ?limit) ?ls)"
    using remove_long.run_program_prints [OF assms, where limit = ?limit] by (auto simp: remove_long_lines_main_def printed_if)
  show "\<exists>stdout'. remove_invalid_utf8_main env stdin stdout = Some (Inr stdout') \<and> d_out stdout' = d_out stdout @ unlines (filter IsUTF8 ?ls)"
    using remove_invalid.run_program_prints [OF assms] by (auto simp: remove_invalid_utf8_main_def printed_if)
  assume acc: "\<forall>l\<in>set ?ls. \<exists>d. base64_decode l = Inr d"
  show "\<exists>stdout'. remove_invalid_utf8_base64_main env stdin stdout = Some (Inr stdout') \<and>
      d_out stdout' = d_out stdout @ unlines (map (\<lambda>l. if IsUTF8 (projr (base64_decode l)) then l else base64_encode []) ?ls)"
    using remove_invalid_base64.run_program_prints [OF assms _ acc]
    by (auto simp: remove_invalid_utf8_base64_main_def printed_map)
qed

subsection \<open>Two files in step\<close>

primrec fold_pairs :: "('a \<Rightarrow> bytes \<Rightarrow> bytes \<Rightarrow> 'a result option) \<Rightarrow> 'a \<Rightarrow> (bytes \<times> bytes) list \<Rightarrow> 'a result option" where
  "fold_pairs f a [] = Some (Inr a)"
| "fold_pairs f a (p # ps) =
     (case f a (fst p) (snd p) of
        None \<Rightarrow> None
      | Some (Inl e) \<Rightarrow> Some (Inl e)
      | Some (Inr a) \<Rightarrow> fold_pairs f a ps)"

locale line_sources = left: line_source next0 content0 delim strip_cr + right: line_source next1 content1 delim strip_cr
  for next0 :: "'s \<Rightarrow> ('s \<times> bytes option result) option" and content0 :: "'s \<Rightarrow> bytes \<Rightarrow> bool"
    and next1 :: "'t \<Rightarrow> ('t \<times> bytes option result) option" and content1 :: "'t \<Rightarrow> bytes \<Rightarrow> bool" and delim strip_cr
begin

text \<open>When the body returns on every pair, the loop ends where the first file ends.\<close>

lemma for_line_pairs_fold:
  "content0 s str0 \<Longrightarrow> content1 t str1 \<Longrightarrow>
    fold_pairs f a (zip (text_lines delim strip_cr str0) (text_lines delim strip_cr str1)) = Some (Inr a') \<Longrightarrow>
    \<exists>t' str'. (if length (text_lines delim strip_cr str0) \<le> length (text_lines delim strip_cr str1)
       then for_line_pairs next0 next1 f s t a = Some (t', Inr a') \<and> content1 t' str' \<and>
         text_lines delim strip_cr str' = drop (length (text_lines delim strip_cr str0)) (text_lines delim strip_cr str1)
       else for_line_pairs next0 next1 f s t a = Some (t', Inl EndOfFileException))"
proof (induction "length str0" arbitrary: str0 str1 s t a rule: less_induct)
  case less
  show ?case
  proof (cases "str0 = []")
    case True
    then show ?thesis using left.next_line_end [of s] less.prems by (subst (1 2) for_line_pairs.simps) (auto simp: text_lines.simps [of _ _ "[]"])
  next
    case s0: False
    let ?f0 = "first_line delim strip_cr str0" and ?f1 = "first_line delim strip_cr str1"
    obtain s1 where s1: "next0 s = Some (s1, Inr (Some (fst ?f0)))" "content0 s1 (snd ?f0)"
      using left.next_line_more [OF less.prems(1) s0] by blast
    have l0: "text_lines delim strip_cr str0 = fst ?f0 # text_lines delim strip_cr (snd ?f0)"
      using s0 by (subst text_lines.simps) simp
    show ?thesis
    proof (cases "str1 = []")
      case True
      then show ?thesis using right.next_line_end [of t] less.prems(2) s1 l0
        by (subst (1 2) for_line_pairs.simps) (auto simp: text_lines.simps [of _ _ "[]"])
    next
      case False
      obtain t1 where t1: "next1 t = Some (t1, Inr (Some (fst ?f1)))" "content1 t1 (snd ?f1)"
        using right.next_line_more [OF less.prems(2) False] by blast
      have l1: "text_lines delim strip_cr str1 = fst ?f1 # text_lines delim strip_cr (snd ?f1)"
        using False by (subst text_lines.simps) simp
      obtain a1 where a1: "f a (fst ?f0) (fst ?f1) = Some (Inr a1)"
          "fold_pairs f a1 (zip (text_lines delim strip_cr (snd ?f0)) (text_lines delim strip_cr (snd ?f1))) = Some (Inr a')"
        using less.prems(3) by (auto simp: l0 l1 split: option.splits sum.splits)
      have run: "for_line_pairs next0 next1 f s t a = for_line_pairs next0 next1 f s1 t1 a1"
        using s1(1) t1(1) a1(1) by (subst for_line_pairs.simps) simp
      show ?thesis using less.hyps [OF length_first_line [OF s0] s1(2) t1(2) a1(2)]
        unfolding run l0 l1 by (simp only: length_Cons Suc_le_mono drop_Suc_Cons)
    qed
  qed
qed

end

interpretation fp_pairs: line_sources "ReadLineOrEOF env0 delim strip_cr" "delivers env0 decodes" "ReadLineOrEOF env1 delim strip_cr"
  "delivers env1 decodes" delim strip_cr for env0 env1 decodes delim strip_cr
  by unfold_locales

text \<open>The pairs that \<^verbatim>\<open>dedupe\<close> keeps: the second file is consulted only where the first has something new.\<close>

primrec first_pairs :: "(bytes \<Rightarrow> u64) \<Rightarrow> u64 set \<Rightarrow> u64 set \<Rightarrow> (bytes \<times> bytes) list \<Rightarrow> (bytes \<times> bytes) list" where
  "first_pairs key seen0 seen1 [] = []"
| "first_pairs key seen0 seen1 (p # ps) =
     (if key (fst p) \<in> seen0 then first_pairs key seen0 seen1 ps
      else if key (snd p) \<in> seen1 then first_pairs key (insert (key (fst p)) seen0) seen1 ps
      else p # first_pairs key (insert (key (fst p)) seen0) (insert (key (snd p)) seen1) ps)"

lemma first_pairs_subseq: "subseq (first_pairs key seen0 seen1 ps) ps"
  by (induction ps arbitrary: seen0 seen1) auto

lemma first_pairs_distinct:
  "distinct (map (key \<circ> fst) (first_pairs key seen0 seen1 ps)) \<and> distinct (map (key \<circ> snd) (first_pairs key seen0 seen1 ps)) \<and>
   (key \<circ> fst) ` set (first_pairs key seen0 seen1 ps) \<inter> seen0 = {} \<and> (key \<circ> snd) ` set (first_pairs key seen0 seen1 ps) \<inter> seen1 = {}"
proof (induction ps arbitrary: seen0 seen1)
  case (Cons p ps)
  show ?case
    using Cons [of seen0 seen1] Cons [of "insert (key (fst p)) seen0" seen1]
      Cons [of "insert (key (fst p)) seen0" "insert (key (snd p)) seen1"] by auto
qed simp

lemma fold_pair_body:
  assumes "table_state (pass0 a) seen0 (length ps)" and "table_state (pass1 a) seen1 (length ps)"
    and "stream_ok (out0 a)" and "stream_ok (out1 a)" and r: "proper_ranges (key_fields options)"
  shows "\<exists>a'. fold_pairs (pair_body (dedupe_pass options)) a ps = Some (Inr a') \<and> stream_ok (out0 a') \<and> stream_ok (out1 a') \<and>
    stream_text (out0 a') = stream_text (out0 a) @ unlines (map fst (first_pairs (line_key options) seen0 seen1 ps)) \<and>
    stream_text (out1 a') = stream_text (out1 a) @ unlines (map snd (first_pairs (line_key options) seen0 seen1 ps))"
  using assms(1-4)
proof (induction ps arbitrary: a seen0 seen1)
  case (Cons p ps)
  let ?k0 = "line_key options (fst p)" and ?k1 = "line_key options (snd p)"
  obtain t0 where t0: "dedupe_pass options (pass0 a) (fst p) = Some (Inr (t0, ?k0 \<notin> seen0))" "table_state t0 (insert ?k0 seen0) (length ps)"
    using Dedupe_key_ok [of "pass0 a" seen0 "length ps" ?k0] Cons.prems(1) by (auto simp: dedupe_pass_key [OF r])
  obtain t1 where t1: "dedupe_pass options (pass1 a) (snd p) = Some (Inr (t1, ?k1 \<notin> seen1))" "table_state t1 (insert ?k1 seen1) (length ps)"
    using Dedupe_key_ok [of "pass1 a" seen1 "length ps" ?k1] Cons.prems(2) by (auto simp: dedupe_pass_key [OF r])
  have less: "table_state (pass1 a) seen1 (length ps)" using Cons.prems(2) by (simp add: table_state_def)
  consider "?k0 \<in> seen0" | "?k0 \<notin> seen0" "?k1 \<in> seen1" | "?k0 \<notin> seen0" "?k1 \<notin> seen1" by blast
  then show ?case
  proof cases
    case 1
    then have "insert ?k0 seen0 = seen0" by blast
    then show ?thesis using 1 t0 less Cons.prems(3,4) Cons.IH [of "a\<lparr>n_input := n_input a + 1, pass0 := t0\<rparr>" seen0 seen1] by (simp add: pair_body_def Let_def)
  next
    case 2
    then have "insert ?k1 seen1 = seen1" by blast
    then show ?thesis using 2 t0 t1 Cons.prems(3,4) Cons.IH [of "a\<lparr>n_input := n_input a + 1, pass0 := t0, pass1 := t1\<rparr>" "insert ?k0 seen0" seen1]
      by (simp add: pair_body_def Let_def)
  next
    case 3
    obtain o0 where o0: "insert_items FileStream_ops (out0 a) [Str (fst p), Chr newline] = (o0, Inr ())" "stream_ok o0"
        "stream_text o0 = stream_text (out0 a) @ fst p @ [newline]"
      using insert_items_good [OF Cons.prems(3), of "[Str (fst p), Chr newline]"] by auto
    obtain o1 where o1: "insert_items FileStream_ops (out1 a) [Str (snd p), Chr newline] = (o1, Inr ())" "stream_ok o1"
        "stream_text o1 = stream_text (out1 a) @ snd p @ [newline]"
      using insert_items_good [OF Cons.prems(4), of "[Str (snd p), Chr newline]"] by auto
    show ?thesis
      using 3 t0 t1 o0 o1 Cons.IH [of "a\<lparr>n_input := n_input a + 1, pass0 := t0, pass1 := t1, out0 := o0, out1 := o1, n_output := n_output a + 1\<rparr>" "insert ?k0 seen0" "insert ?k1 seen1"]
      by (simp add: pair_body_def Let_def del: insert_items.simps)
  qed
qed auto

lemma ReadLineOrEOF_more:
  assumes "delivers env decodes fp str"
  shows "\<exists>fp' rest. ReadLineOrEOF env newline True fp = Some (fp', Inr rest) \<and> (rest = None \<longleftrightarrow> str = [])"
  using fp_lines.next_line_end [of env decodes fp newline True] fp_lines.next_line_more [OF assms, of newline True] assms
  by (cases "str = []") auto

text \<open>
  C30. \<^verbatim>\<open>dedupe\<close> on parallel files: when the second file has at least as many lines as the first, both
  outputs have the same lines kept, in order: a pair goes when its first line has a key that an
  earlier first line had, or its second line the key of the second line of a pair that was
  looked at; no key occurs twice on either side of the output. The status is 2 when
  the second file is longer. When it is shorter the program ends with an exception. The ranges that
  make the key are in order and none is empty.
\<close>

theorem dedupe_main_files_correct:
  assumes "opens env0 decodes file0 content0" and "opens env1 decodes file1 content1" and "dependable file2" and "dependable file3"
  defines "ls0 \<equiv> text_lines newline True content0" and "ls1 \<equiv> text_lines newline True content1"
  assumes "length ls0 \<le> 2 ^ 61" and "ordered_ranges (key_fields options)" and "nonempty_ranges (key_fields options)"
  shows "\<exists>out2 out3. dedupe_main_files env0 env1 options file0 file1 file2 file3 =
      (if length ls0 \<le> length ls1 then Some (Inr (out2, out3, if length ls0 = length ls1 then 0 else 2))
       else Some (Inl EndOfFileException)) \<and>
    (let kept = first_pairs (line_key options) {0} {0} (zip ls0 ls1)
     in (length ls0 \<le> length ls1 \<longrightarrow>
           d_out out2 = d_out file2 @ unlines (map fst kept) \<and> d_out out3 = d_out file3 @ unlines (map snd kept)) \<and>
        subseq kept (zip ls0 ls1) \<and> distinct (map (line_key options \<circ> fst) kept) \<and> distinct (map (line_key options \<circ> snd) kept))"
proof -
  let ?kept = "first_pairs (line_key options) {0} {0} (zip ls0 ls1)"
  obtain t where t: "Dedupe_new = Inr t" "table_state t {0} (2 ^ 61)" using Dedupe_new_ok by blast
  have st: "table_state t {0} (length (zip ls0 ls1))" using t(2) assms(7) by (simp add: table_state_def)
  obtain in0 where in0: "Initialize env0 1048576 file0 = Some (in0, Inr ())" "delivers env0 decodes in0 content0"
    using Initialize_good [OF assms(1)] by blast
  obtain in1 where in1: "Initialize env1 1048576 file1 = Some (in1, Inr ())" "delivers env1 decodes in1 content1"
    using Initialize_good [OF assms(2)] by blast
  let ?a = "\<lparr>pass0 = t, pass1 = t, out0 = BufferedStream_new file2, out1 = BufferedStream_new file3, n_input = 0, n_output = 0\<rparr>"
  obtain a where a: "fold_pairs (pair_body (dedupe_pass options)) ?a (zip ls0 ls1) = Some (Inr a)" "stream_ok (out0 a)" "stream_ok (out1 a)"
      "stream_text (out0 a) = d_out file2 @ unlines (map fst ?kept)" "stream_text (out1 a) = d_out file3 @ unlines (map snd ?kept)"
    using fold_pair_body [of ?a "{0}" "zip ls0 ls1" "{0}" options] st assms(3,4,8,9) by (auto simp: BufferedStream_new_def)
  obtain o0 where o0: "fo_flush FileStream_ops (out0 a) = (o0, Inr ())" "d_out (bs_writer o0) = stream_text (out0 a)" using flush_good [OF a(2)] by blast
  obtain o1 where o1: "fo_flush FileStream_ops (out1 a) = (o1, Inr ())" "d_out (bs_writer o1) = stream_text (out1 a)" using flush_good [OF a(3)] by blast
  obtain t' str' where loop: "if length ls0 \<le> length ls1
       then for_line_pairs (ReadLineOrEOF env0 newline True) (ReadLineOrEOF env1 newline True) (pair_body (dedupe_pass options)) in0 in1 ?a = Some (t', Inr a) \<and>
         delivers env1 decodes t' str' \<and> text_lines newline True str' = drop (length ls0) ls1
       else for_line_pairs (ReadLineOrEOF env0 newline True) (ReadLineOrEOF env1 newline True) (pair_body (dedupe_pass options)) in0 in1 ?a = Some (t', Inl EndOfFileException)"
    using fp_pairs.for_line_pairs_fold [OF in0(2) in1(2) a(1) [unfolded ls0_def ls1_def]] unfolding ls0_def ls1_def by blast
  have facts: "subseq ?kept (zip ls0 ls1)" "distinct (map (line_key options \<circ> fst) ?kept)" "distinct (map (line_key options \<circ> snd) ?kept)"
    using first_pairs_subseq first_pairs_distinct by blast+
  show ?thesis
  proof (cases "length ls0 \<le> length ls1")
    case False
    then show ?thesis using loop in0(1) in1(1) facts unfolding dedupe_main_files_def t(1) by (auto simp: FilterParallel_files_def Let_def)
  next
    case True
    then have "str' = [] \<longleftrightarrow> length ls0 = length ls1" using loop by (auto simp: text_lines.simps [of _ _ str'] split: if_splits)
    moreover have "delivers env1 decodes t' str'" using loop True by simp
    ultimately obtain t'' rest where r: "ReadLineOrEOF env1 newline True t' = Some (t'', Inr rest)" "rest = None \<longleftrightarrow> length ls0 = length ls1"
      using ReadLineOrEOF_more by blast
    have "dedupe_main_files env0 env1 options file0 file1 file2 file3 =
        Some (Inr (bs_writer o0, bs_writer o1, case rest of None \<Rightarrow> 0 | Some _ \<Rightarrow> 2))"
      using True loop in0(1) in1(1) r(1) o0(1) o1(1) unfolding dedupe_main_files_def t(1) by (simp add: FilterParallel_files_def)
    moreover have "(case rest of None \<Rightarrow> 0 | Some _ \<Rightarrow> 2) = (if length ls0 = length ls1 then 0 else 2 :: nat)"
      using r(2) by (cases rest) auto
    ultimately show ?thesis using True facts o0(2) o1(2) a(4,5) by (auto simp: Let_def)
  qed
qed

text \<open>
  \<^verbatim>\<open>order_independent_hash\<close> prints the sum of the hashes of the lines, and inputs with the same lines
  in another order give the same output.
\<close>

lemma order_independent_hash_correct:
  assumes "opens env decodes stdin content" and "opens env' decodes' stdin' content'"
    and "mset (text_lines newline True content) = mset (text_lines newline True content')"
  shows "order_independent_hash_main env stdin =
      Some (Inr (dec (unat (sum_list (map (\<lambda>l. MurmurHash64A l 0) (text_lines newline True content)))) @ [newline])) \<and>
    order_independent_hash_main env' stdin' = order_independent_hash_main env stdin"
proof -
  have fold: "fold_result order_independent_hash_body s ls = Some (Inr (s + sum_list (map (\<lambda>l. MurmurHash64A l 0) ls)))" for s ls
    by (induction ls arbitrary: s) (simp_all add: order_independent_hash_body_def)
  have "sum_list (map (\<lambda>l. MurmurHash64A l 0) ls) = (\<Sum>l\<in>#mset ls. MurmurHash64A l 0)" for ls
    by (metis mset_map sum_mset_sum_list)
  then show ?thesis
    using assms(3) by (simp add: order_independent_hash_main_def load_lines_fold [OF assms(1)] load_lines_fold [OF assms(2)] fold)
qed

subsection \<open>Small inputs\<close>

definition small_file :: bytes where
  "small_file = lit ''a'' @ [10] @ lit ''b'' @ [10] @ lit ''a''"

definition small_out :: Desc where
  "small_out = \<lparr>d_rest = [], d_out = [], d_answers = [], d_syncs = []\<rparr>"

lemma small_lines: "text_lines newline True small_file = [lit ''a'', lit ''b'', lit ''a'']"
  by code_simp

lemma small_file_opens: "opens (small_env small_file) (\<lambda>_. stored_decodes) (small_fd small_file) small_file"
proof (rule small_opens)
  show "DetectMagic small_file = UTIL_UNKNOWN" "length small_file < 100" by code_simp+
qed

lemma small_out_ok: "dependable small_out" "d_out small_out = []"
  by (simp_all add: small_out_def no_failure_def)

lemma small_first_new: "first_new (\<lambda>l. MurmurHashNative l 1) {0} [lit ''a'', lit ''b'', lit ''a''] = [lit ''a'', lit ''b'']"
  by code_simp

lemma whole_line_ranges: "proper_ranges [\<lparr>fr_begin = 0, fr_end = kInfiniteEnd\<rparr>]"
  by (simp add: ordered_ranges_def kInfiniteEnd_def word_gt_0)

theorem dedupe_main_correct_witness:
  "\<exists>stdout'. dedupe_main (small_env small_file) \<lparr>key_fields = [\<lparr>fr_begin = 0, fr_end = kInfiniteEnd\<rparr>], delim = tab\<rparr> (small_fd small_file) small_out = Some (Inr stdout') \<and>
    d_out stdout' = lit ''a'' @ [10] @ lit ''b'' @ [10]"
proof -
  let ?o = "\<lparr>key_fields = [\<lparr>fr_begin = 0, fr_end = kInfiniteEnd\<rparr>], delim = tab\<rparr> :: Options"
  have key: "line_key ?o = (\<lambda>l. MurmurHashNative l 1)" by (simp add: line_key_def fun_eq_iff)
  show ?thesis using dedupe_main_correct [OF small_file_opens small_out_ok(1), of ?o]
    whole_line_ranges
    unfolding key small_lines Let_def small_first_new small_out_ok(2) by auto
qed

theorem dedupe_main_files_correct_witness:
  "\<exists>out2 out3. dedupe_main_files (small_env small_file) (small_env small_file) \<lparr>key_fields = [\<lparr>fr_begin = 0, fr_end = kInfiniteEnd\<rparr>], delim = tab\<rparr>
      (small_fd small_file) (small_fd small_file) small_out small_out = Some (Inr (out2, out3, 0)) \<and>
    d_out out2 = lit ''a'' @ [10] @ lit ''b'' @ [10] \<and> d_out out3 = lit ''a'' @ [10] @ lit ''b'' @ [10]"
proof -
  let ?o = "\<lparr>key_fields = [\<lparr>fr_begin = 0, fr_end = kInfiniteEnd\<rparr>], delim = tab\<rparr> :: Options"
  let ?ls = "[lit ''a'', lit ''b'', lit ''a'']"
  have key: "line_key ?o = (\<lambda>l. MurmurHashNative l 1)" by (simp add: line_key_def fun_eq_iff)
  have kept: "first_pairs (\<lambda>l. MurmurHashNative l 1) {0} {0} (zip ?ls ?ls) = [(lit ''a'', lit ''a''), (lit ''b'', lit ''b'')]" by code_simp
  show ?thesis
    using dedupe_main_files_correct [OF small_file_opens small_file_opens small_out_ok(1) small_out_ok(1), of ?o]
      whole_line_ranges
    unfolding key small_lines Let_def kept small_out_ok(2) by auto
qed

end
