(* ===== verification/ProducerConsumer.thy ===== *)
theory ProducerConsumer
  imports Prelude
begin

text \<open>
  \<^verbatim>\<open>PCQueue\<close> of \<^verbatim>\<open>src/util/pcqueue.hh\<close>: a ring buffer for several producing and consuming threads. Each thread
  is at a point of \<^verbatim>\<open>Produce\<close> or \<^verbatim>\<open>Consume\<close>, and a step moves one of them over one operation: a
  semaphore, a mutex, the assignment of the value, the advance of the pointer. The threads
  interleave in any order. \<open>produced\<close> and \<open>consumed\<close> record the values in the order in which the
  pointers passed over them. An assignment may throw.
\<close>

text \<open>
  Where a thread is; the value a producer brings, the value a consumer has taken. A consumer
  that swaps (\<^verbatim>\<open>ConsumeSwap\<close>) leaves its old value in the buffer. \<^verbatim>\<open>ProduceSwap\<close> stores like
  \<^verbatim>\<open>Produce\<close>.
\<close>

datatype 'a pc =
    Idle
  | Produce_wait 'a | Produce_lock 'a | Produce_store 'a | Produce_advance 'a | Produce_unlock | Produce_post | Produce_unwind
  | Consume_wait "'a option" | Consume_lock "'a option" | Consume_load "'a option" | Consume_advance 'a | Consume_unlock | Consume_post | Consume_unwind

record 'a PCQueue =
  empty :: nat
  used :: nat
  storage :: "'a list"
  produce_at :: nat
  consume_at :: nat
  produce_at_mutex :: "nat option"
  consume_at_mutex :: "nat option"
  threads :: "'a pc list"
  produced :: "'a list"
  consumed :: "'a list"

definition PCQueue_new :: "'a list \<Rightarrow> nat \<Rightarrow> 'a PCQueue" where
  "PCQueue_new storage0 n_threads =
     \<lparr>empty = length storage0, used = 0, storage = storage0, produce_at = 0, consume_at = 0, produce_at_mutex = None,
      consume_at_mutex = None, threads = replicate n_threads Idle, produced = [], consumed = []\<rparr>"

definition advance :: "nat \<Rightarrow> nat \<Rightarrow> nat" where
  "advance n at = (if at + 1 = n then 0 else at + 1)"

abbreviation goto :: "'a PCQueue \<Rightarrow> nat \<Rightarrow> 'a pc \<Rightarrow> 'a PCQueue" where
  "goto s i p \<equiv> s\<lparr>threads := (threads s)[i := p]\<rparr>"

abbreviation at_pc :: "'a PCQueue \<Rightarrow> nat \<Rightarrow> 'a pc \<Rightarrow> bool" where
  "at_pc s i p \<equiv> i < length (threads s) \<and> threads s ! i = p"

inductive step :: "'a PCQueue \<Rightarrow> 'a PCQueue \<Rightarrow> bool" where
  call_produce: "at_pc s i Idle \<Longrightarrow> step s (goto s i (Produce_wait v))"
| call_consume: "at_pc s i Idle \<Longrightarrow> step s (goto s i (Consume_wait x))"
| produce_wait: "at_pc s i (Produce_wait v) \<Longrightarrow> 0 < empty s \<Longrightarrow> step s ((goto s i (Produce_lock v))\<lparr>empty := empty s - 1\<rparr>)"
| produce_lock: "at_pc s i (Produce_lock v) \<Longrightarrow> produce_at_mutex s = None \<Longrightarrow>
    step s ((goto s i (Produce_store v))\<lparr>produce_at_mutex := Some i\<rparr>)"
| produce_store: "at_pc s i (Produce_store v) \<Longrightarrow>
    step s ((goto s i (Produce_advance v))\<lparr>storage := (storage s)[produce_at s := v]\<rparr>)"
| produce_throw: "at_pc s i (Produce_store v) \<Longrightarrow> step s ((goto s i Produce_unwind)\<lparr>empty := empty s + 1\<rparr>)"
| produce_unwind: "at_pc s i Produce_unwind \<Longrightarrow> step s ((goto s i Idle)\<lparr>produce_at_mutex := None\<rparr>)"
| produce_advance: "at_pc s i (Produce_advance v) \<Longrightarrow>
    step s ((goto s i Produce_unlock)\<lparr>produce_at := advance (length (storage s)) (produce_at s), produced := produced s @ [v]\<rparr>)"
| produce_unlock: "at_pc s i Produce_unlock \<Longrightarrow> step s ((goto s i Produce_post)\<lparr>produce_at_mutex := None\<rparr>)"
| produce_post: "at_pc s i Produce_post \<Longrightarrow> step s ((goto s i Idle)\<lparr>used := used s + 1\<rparr>)"
| consume_wait: "at_pc s i (Consume_wait x) \<Longrightarrow> 0 < used s \<Longrightarrow> step s ((goto s i (Consume_lock x))\<lparr>used := used s - 1\<rparr>)"
| consume_lock: "at_pc s i (Consume_lock x) \<Longrightarrow> consume_at_mutex s = None \<Longrightarrow>
    step s ((goto s i (Consume_load x))\<lparr>consume_at_mutex := Some i\<rparr>)"
| consume_load: "at_pc s i (Consume_load x) \<Longrightarrow>
    step s ((goto s i (Consume_advance (storage s ! consume_at s)))
      \<lparr>storage := (case x of None \<Rightarrow> storage s | Some out \<Rightarrow> (storage s)[consume_at s := out])\<rparr>)"
| consume_throw: "at_pc s i (Consume_load x) \<Longrightarrow> step s ((goto s i Consume_unwind)\<lparr>used := used s + 1\<rparr>)"
| consume_unwind: "at_pc s i Consume_unwind \<Longrightarrow> step s ((goto s i Idle)\<lparr>consume_at_mutex := None\<rparr>)"
| consume_advance: "at_pc s i (Consume_advance v) \<Longrightarrow>
    step s ((goto s i Consume_unlock)\<lparr>consume_at := advance (length (storage s)) (consume_at s), consumed := consumed s @ [v]\<rparr>)"
| consume_unlock: "at_pc s i Consume_unlock \<Longrightarrow> step s ((goto s i Consume_post)\<lparr>consume_at_mutex := None\<rparr>)"
| consume_post: "at_pc s i Consume_post \<Longrightarrow> step s ((goto s i Idle)\<lparr>empty := empty s + 1\<rparr>)"

inductive reachable :: "'a list \<Rightarrow> nat \<Rightarrow> 'a PCQueue \<Rightarrow> bool" for storage0 n_threads where
  reachable_start: "reachable storage0 n_threads (PCQueue_new storage0 n_threads)"
| reachable_step: "reachable storage0 n_threads s \<Longrightarrow> step s s' \<Longrightarrow> reachable storage0 n_threads s'"

subsection \<open>Counting the threads\<close>

text \<open>
  A producer reserves a place from \<^verbatim>\<open>empty_.wait()\<close> to the advance and owes a post to \<^verbatim>\<open>used_\<close> after it;
  a consumer the other way round.
\<close>

fun reserves :: "'a pc \<Rightarrow> nat" where
  "reserves (Produce_lock _) = 1" | "reserves (Produce_store _) = 1" | "reserves (Produce_advance _) = 1" | "reserves _ = 0"

fun owes_used :: "'a pc \<Rightarrow> nat" where
  "owes_used Produce_unlock = 1" | "owes_used Produce_post = 1" | "owes_used _ = 0"

fun claims :: "'a pc \<Rightarrow> nat" where
  "claims (Consume_lock _) = 1" | "claims (Consume_load _) = 1" | "claims (Consume_advance _) = 1" | "claims _ = 0"

fun owes_empty :: "'a pc \<Rightarrow> nat" where
  "owes_empty Consume_unlock = 1" | "owes_empty Consume_post = 1" | "owes_empty _ = 0"

fun loaded :: "'a pc \<Rightarrow> nat" where
  "loaded (Consume_advance _) = 1" | "loaded _ = 0"

abbreviation total_of :: "('a pc \<Rightarrow> nat) \<Rightarrow> 'a PCQueue \<Rightarrow> nat" where
  "total_of f s \<equiv> sum_list (map f (threads s))"

definition balanced :: "'a PCQueue \<Rightarrow> bool" where
  "balanced s \<longleftrightarrow>
     length (consumed s) \<le> length (produced s) \<and>
     empty s + total_of reserves s + (length (produced s) - length (consumed s)) + total_of owes_empty s = length (storage s) \<and>
     length (produced s) - length (consumed s) = used s + total_of owes_used s + total_of claims s"

lemma sum_list_update_nat: "i < length xs \<Longrightarrow> sum_list (map f (xs[i := x])) + f (xs ! i) = sum_list (map f xs) + (f x :: nat)"
  by (induction xs arbitrary: i) (auto split: nat.splits)

lemma total_pos: "i < length xs \<Longrightarrow> f (xs ! i) \<le> sum_list (map f xs :: nat list)"
  by (induction xs arbitrary: i) (auto simp: nth_Cons split: nat.splits intro: trans_le_add2)

abbreviation in_queue :: "'a PCQueue \<Rightarrow> nat" where
  "in_queue s \<equiv> length (produced s) - length (consumed s)"

lemma balanced_goto:
  assumes "balanced s" and "at_pc s i p" and "threads s' = (threads s)[i := q]" and "length (storage s') = length (storage s)"
    and "length (consumed s') \<le> length (produced s')"
    and "empty s' + reserves q + in_queue s' + owes_empty q = empty s + reserves p + in_queue s + owes_empty p"
    and "in_queue s' + used s + owes_used p + claims p = in_queue s + used s' + owes_used q + claims q"
  shows "balanced s'"
proof -
  have t: "sum_list (map f ((threads s)[i := q])) + f p = total_of f s + f q" for f :: "'a pc \<Rightarrow> nat"
    using sum_list_update_nat [of i "threads s" f q] assms(2) by simp
  show ?thesis
    using assms(1,4-7) t [of reserves] t [of owes_empty] t [of owes_used] t [of claims]
    unfolding balanced_def assms(3) by linarith
qed

lemma claims_in_queue: "balanced s \<Longrightarrow> at_pc s i p \<Longrightarrow> claims p = 1 \<Longrightarrow> length (consumed s) < length (produced s)"
  using total_pos [of i "threads s" claims] by (auto simp: balanced_def)

lemma reserves_in_queue: "balanced s \<Longrightarrow> at_pc s i p \<Longrightarrow> reserves p = 1 \<Longrightarrow> in_queue s < length (storage s)"
  using total_pos [of i "threads s" reserves] by (auto simp: balanced_def)

lemma balanced_le: "balanced s \<Longrightarrow> length (consumed s) \<le> length (produced s)"
  by (simp add: balanced_def)

lemma balanced_step:
  assumes "step s s'" and "balanced s"
  shows "balanced s'"
  using assms(1)
proof cases
  case (consume_advance i v)
  then show ?thesis using claims_in_queue [OF assms(2) consume_advance(2)] by (intro balanced_goto [OF assms(2) consume_advance(2)]) auto
qed ((rule balanced_goto [OF assms(2)], assumption, use balanced_le [OF assms(2)] in \<open>auto split: option.splits\<close>)[1])+

subsection \<open>Mutual exclusion\<close>

fun in_produce :: "'a pc \<Rightarrow> bool" where
  "in_produce (Produce_store _) = True" | "in_produce (Produce_advance _) = True" | "in_produce Produce_unlock = True"
| "in_produce Produce_unwind = True" | "in_produce _ = False"

fun in_consume :: "'a pc \<Rightarrow> bool" where
  "in_consume (Consume_load _) = True" | "in_consume (Consume_advance _) = True" | "in_consume Consume_unlock = True"
| "in_consume Consume_unwind = True" | "in_consume _ = False"

definition exclusive :: "'a PCQueue \<Rightarrow> bool" where
  "exclusive s \<longleftrightarrow>
     (\<forall>i. produce_at_mutex s = Some i \<longleftrightarrow> i < length (threads s) \<and> in_produce (threads s ! i)) \<and>
     (\<forall>i. consume_at_mutex s = Some i \<longleftrightarrow> i < length (threads s) \<and> in_consume (threads s ! i))"

lemma owner_goto:
  assumes "\<forall>j. m = Some j \<longleftrightarrow> j < length ts \<and> P (ts ! j)" and "i < length ts"
    and "m' = (if P q then Some i else if P (ts ! i) then None else m)" and "P q \<longrightarrow> P (ts ! i) \<or> m = None"
  shows "m' = Some j \<longleftrightarrow> j < length (ts[i := q]) \<and> P (ts[i := q] ! j)"
proof (cases "i = j")
  case True
  then show ?thesis using assms(2-4) assms(1) [rule_format, of j] by auto
next
  case False
  then have "ts[i := q] ! j = ts ! j" by simp
  moreover have "m = Some j \<longrightarrow> \<not> P (ts ! i) \<and> \<not> P q"
    using False assms(1) [rule_format, of i] assms(2,4) by auto
  ultimately show ?thesis using assms(1) [rule_format, of j] assms(2-4) False by auto
qed

lemma exclusive_goto:
  assumes "exclusive s" and "at_pc s i p" and "threads s' = (threads s)[i := q]"
    and "produce_at_mutex s' = (if in_produce q then Some i else if in_produce p then None else produce_at_mutex s)"
    and "in_produce q \<longrightarrow> in_produce p \<or> produce_at_mutex s = None"
    and "consume_at_mutex s' = (if in_consume q then Some i else if in_consume p then None else consume_at_mutex s)"
    and "in_consume q \<longrightarrow> in_consume p \<or> consume_at_mutex s = None"
  shows "exclusive s'"
  unfolding exclusive_def assms(3)
proof (intro conjI allI)
  fix j
  show "produce_at_mutex s' = Some j \<longleftrightarrow> j < length ((threads s)[i := q]) \<and> in_produce ((threads s)[i := q] ! j)"
    using assms(1,2,4,5) by (intro owner_goto [where m = "produce_at_mutex s"]) (simp_all add: exclusive_def)
  show "consume_at_mutex s' = Some j \<longleftrightarrow> j < length ((threads s)[i := q]) \<and> in_consume ((threads s)[i := q] ! j)"
    using assms(1,2,6,7) by (intro owner_goto [where m = "consume_at_mutex s"]) (simp_all add: exclusive_def)
qed

lemma exclusive_holds:
  assumes "exclusive s" and "at_pc s i p"
  shows "in_produce p \<Longrightarrow> produce_at_mutex s = Some i" and "in_consume p \<Longrightarrow> consume_at_mutex s = Some i"
  using assms by (auto simp: exclusive_def)

lemma exclusive_step:
  assumes "step s s'" and "exclusive s"
  shows "exclusive s'"
  using assms(1)
  by cases ((rule exclusive_goto [OF assms(2)], assumption, use exclusive_holds [OF assms(2)] in \<open>force+\<close>)[1])+

lemma exclusive_consume: "exclusive s \<Longrightarrow> at_pc s i p \<Longrightarrow> in_consume p \<Longrightarrow> at_pc s j q \<Longrightarrow> in_consume q \<Longrightarrow> i = j"
  unfolding exclusive_def by (metis option.inject)

lemma exclusive_produce: "exclusive s \<Longrightarrow> at_pc s i p \<Longrightarrow> in_produce p \<Longrightarrow> at_pc s j q \<Longrightarrow> in_produce q \<Longrightarrow> i = j"
  unfolding exclusive_def by (metis option.inject)

lemma loaded_in_consume: "\<not> in_consume p \<Longrightarrow> loaded p = 0"
  by (cases p) auto

text \<open>Only the consumer in the critical section can have loaded a value.\<close>

lemma total_loaded:
  assumes "exclusive s" and "at_pc s i p" and "in_consume p"
  shows "total_of loaded s = loaded p"
proof -
  have "\<forall>x\<in>set ((threads s)[i := Idle]). loaded x = 0"
  proof
    fix x assume "x \<in> set ((threads s)[i := Idle])"
    then obtain j where j: "j < length (threads s)" "x = (threads s)[i := Idle] ! j" by (auto simp: in_set_conv_nth)
    show "loaded x = 0"
      using exclusive_consume [OF assms, of j "threads s ! j"] j loaded_in_consume [of "threads s ! j"] by (cases "i = j") auto
  qed
  then have "sum_list (map loaded ((threads s)[i := Idle])) = 0" by (simp add: sum_list_eq_0_iff)
  then show ?thesis using sum_list_update_nat [of i "threads s" loaded Idle] assms(2) by (simp del: sum_list_eq_0_iff)
qed

subsection \<open>The ring\<close>

definition ring :: "'a PCQueue \<Rightarrow> bool" where
  "ring s \<longleftrightarrow>
     0 < length (storage s) \<and>
     produce_at s = length (produced s) mod length (storage s) \<and> consume_at s = length (consumed s) mod length (storage s) \<and>
     consumed s = take (length (consumed s)) (produced s) \<and>
     (\<forall>k. length (consumed s) + total_of loaded s \<le> k \<and> k < length (produced s) \<longrightarrow>
        storage s ! (k mod length (storage s)) = produced s ! k) \<and>
     (\<forall>i v. at_pc s i (Produce_advance v) \<longrightarrow> storage s ! produce_at s = v) \<and>
     (\<forall>i v. at_pc s i (Consume_advance v) \<longrightarrow> v = produced s ! length (consumed s))"

lemma mod_distinct: "a < b \<Longrightarrow> b - a < n \<Longrightarrow> a mod n \<noteq> b mod (n :: nat)"
proof
  assume ab: "a < b" "b - a < n" and "a mod n = b mod n"
  then have "n dvd b - a" by (metis mod_eq_dvd_iff_nat less_imp_le)
  then show False using ab by (auto dest: dvd_imp_le)
qed

lemma advance_mod: "0 < n \<Longrightarrow> advance n (k mod n) = Suc k mod n"
  by (simp add: advance_def mod_Suc)

text \<open>A step that leaves the buffer, the pointers and the histories alone.\<close>

lemma ring_goto:
  assumes "ring s" and "at_pc s i p" and "threads s' = (threads s)[i := q]"
    and "storage s' = storage s" "produce_at s' = produce_at s" "consume_at s' = consume_at s" "produced s' = produced s" "consumed s' = consumed s"
    and "loaded p = 0" "loaded q = 0" and "\<forall>v. q \<noteq> Produce_advance v"
  shows "ring s'"
proof -
  have tl: "total_of loaded s' = total_of loaded s" using sum_list_update_nat [of i "threads s" loaded q] assms(2,3,9,10) by simp
  have "at_pc s' j (Produce_advance v) \<Longrightarrow> at_pc s j (Produce_advance v)" for j v using assms(2,3,11) by (auto simp: nth_list_update split: if_splits)
  moreover have "at_pc s' j (Consume_advance v) \<Longrightarrow> at_pc s j (Consume_advance v)" for j v using assms(2,3,10) by (auto simp: nth_list_update split: if_splits)
  ultimately show ?thesis using assms(1) unfolding ring_def assms(4-8) tl by blast
qed

lemma ringI:
  assumes "0 < n" and "length (storage s) = n" and "produce_at s = length (produced s) mod n" and "consume_at s = length (consumed s) mod n"
    and "consumed s = take (length (consumed s)) (produced s)"
    and "\<And>k. length (consumed s) + total_of loaded s \<le> k \<Longrightarrow> k < length (produced s) \<Longrightarrow> storage s ! (k mod n) = produced s ! k"
    and "\<And>i v. at_pc s i (Produce_advance v) \<Longrightarrow> storage s ! produce_at s = v"
    and "\<And>i v. at_pc s i (Consume_advance v) \<Longrightarrow> v = produced s ! length (consumed s)"
  shows "ring s"
  using assms unfolding ring_def by blast

lemma ringD:
  assumes "ring s"
  shows "0 < length (storage s)" and "produce_at s = length (produced s) mod length (storage s)"
    and "consume_at s = length (consumed s) mod length (storage s)" and "consumed s = take (length (consumed s)) (produced s)"
    and "length (consumed s) + total_of loaded s \<le> k \<Longrightarrow> k < length (produced s) \<Longrightarrow> storage s ! (k mod length (storage s)) = produced s ! k"
    and "at_pc s i (Produce_advance v) \<Longrightarrow> storage s ! produce_at s = v"
    and "at_pc s i (Consume_advance v) \<Longrightarrow> v = produced s ! length (consumed s)"
  using assms unfolding ring_def by blast+

lemma goto_other:
  assumes "threads s' = (threads s)[i := q]" and "at_pc s' j p" and "p \<noteq> q"
  shows "at_pc s j p" and "j \<noteq> i"
  using assms by (cases "j = i"; auto)+

lemma ring_produce_store:
  assumes r: "ring s" and b: "balanced s" and x: "exclusive s" and i: "at_pc s i (Produce_store v)"
  shows "ring ((goto s i (Produce_advance v))\<lparr>storage := (storage s)[produce_at s := v]\<rparr>)" (is "ring ?s'")
proof (rule ringI [OF ringD(1) [OF r]])
  let ?n = "length (storage s)"
  have q: "in_queue s < ?n" using reserves_in_queue [OF b i] by simp
  have at: "produce_at s < ?n" using ringD(1,2) [OF r] by simp
  have tl: "total_of loaded ?s' = total_of loaded s" using sum_list_update_nat [of i "threads s" loaded "Produce_advance v"] i by simp
  show "storage ?s' ! (k mod ?n) = produced ?s' ! k" if "length (consumed ?s') + total_of loaded ?s' \<le> k" "k < length (produced ?s')" for k
  proof -
    have k: "length (consumed s) + total_of loaded s \<le> k" "k < length (produced s)" using that unfolding tl by simp_all
    then have "k mod ?n \<noteq> produce_at s" using mod_distinct [OF k(2), of ?n] q unfolding ringD(2) [OF r] by simp
    then show ?thesis using ringD(5) [OF r k] by simp
  qed
  show "storage ?s' ! produce_at ?s' = w" if "at_pc ?s' j (Produce_advance w)" for j w
  proof (cases "w = v")
    case False
    then have "at_pc s j (Produce_advance w)" "j \<noteq> i" using goto_other [OF _ that] by simp_all
    then show ?thesis using exclusive_produce [OF x i, of j "Produce_advance w"] by simp
  qed (use at in simp)
  show "w = produced ?s' ! length (consumed ?s')" if "at_pc ?s' j (Consume_advance w)" for j w
    using ringD(7) [OF r goto_other(1) [OF _ that]] by simp
qed (use ringD(2-4) [OF r] in simp_all)

lemma ring_produce_advance:
  assumes r: "ring s" and b: "balanced s" and x: "exclusive s" and i: "at_pc s i (Produce_advance v)"
  shows "ring ((goto s i Produce_unlock)\<lparr>produce_at := advance (length (storage s)) (produce_at s), produced := produced s @ [v]\<rparr>)" (is "ring ?s'")
proof (rule ringI [OF ringD(1) [OF r]])
  let ?n = "length (storage s)"
  have tl: "total_of loaded ?s' = total_of loaded s" using sum_list_update_nat [of i "threads s" loaded Produce_unlock] i by simp
  show "storage ?s' ! (k mod ?n) = produced ?s' ! k" if "length (consumed ?s') + total_of loaded ?s' \<le> k" "k < length (produced ?s')" for k
  proof (cases "k = length (produced s)")
    case True
    then show ?thesis using ringD(2) [OF r] ringD(6) [OF r i] by simp
  next
    case False
    then show ?thesis using ringD(5) [OF r, of k] that unfolding tl by (simp add: nth_append)
  qed
  show "produce_at ?s' = length (produced ?s') mod ?n" using ringD(1,2) [OF r] by (simp add: advance_mod)
  show "consumed ?s' = take (length (consumed ?s')) (produced ?s')" using ringD(4) [OF r] balanced_le [OF b] by simp
  show "storage ?s' ! produce_at ?s' = w" if "at_pc ?s' j (Produce_advance w)" for j w
  proof -
    have "at_pc s j (Produce_advance w)" "j \<noteq> i" using goto_other [OF _ that] by simp_all
    then show ?thesis using exclusive_produce [OF x i, of j "Produce_advance w"] by simp
  qed
  show "w = produced ?s' ! length (consumed ?s')" if "at_pc ?s' j (Consume_advance w)" for j w
    using ringD(7) [OF r goto_other(1) [OF _ that]] claims_in_queue [OF b goto_other(1) [OF _ that]] by (simp add: nth_append)
qed (use ringD(3) [OF r] in simp_all)

lemma ring_consume_load:
  assumes r: "ring s" and b: "balanced s" and x: "exclusive s" and i: "at_pc s i (Consume_load y)"
  shows "ring ((goto s i (Consume_advance (storage s ! consume_at s)))
           \<lparr>storage := (case y of None \<Rightarrow> storage s | Some out \<Rightarrow> (storage s)[consume_at s := out])\<rparr>)" (is "ring ?s'")
proof (rule ringI [OF ringD(1) [OF r]])
  let ?n = "length (storage s)" and ?c = "length (consumed s)"
  have c: "?c < length (produced s)" using claims_in_queue [OF b i] by simp
  have l: "total_of loaded s = 0" using total_loaded [OF x i] by simp
  have tl: "total_of loaded ?s' = 1" using sum_list_update_nat [of i "threads s" loaded "Consume_advance (storage s ! consume_at s)"] i l by simp
  have same: "j \<noteq> consume_at s \<Longrightarrow> storage ?s' ! j = storage s ! j" for j by (cases y) simp_all
  have n: "in_queue s \<le> ?n" using b by (simp add: balanced_def)
  show "storage ?s' ! (k mod ?n) = produced ?s' ! k" if "length (consumed ?s') + total_of loaded ?s' \<le> k" "k < length (produced ?s')" for k
  proof -
    have k: "?c < k" "k < length (produced s)" using that unfolding tl by simp_all
    have "k - ?c < ?n" using k n by linarith
    then have "k mod ?n \<noteq> consume_at s" using mod_distinct [OF k(1), of ?n] ringD(3) [OF r] by metis
    then show ?thesis using ringD(5) [OF r, of k] k l same by simp
  qed
  show "storage ?s' ! produce_at ?s' = w" if "at_pc ?s' j (Produce_advance w)" for j w
  proof -
    have p: "at_pc s j (Produce_advance w)" using goto_other(1) [OF _ that] by simp
    have "produce_at s \<noteq> consume_at s"
      using mod_distinct [OF c, of ?n] reserves_in_queue [OF b p] unfolding ringD(2,3) [OF r] by simp
    then show ?thesis using ringD(6) [OF r p] same by simp
  qed
  show "w = produced ?s' ! length (consumed ?s')" if "at_pc ?s' j (Consume_advance w)" for j w
  proof (cases "j = i")
    case True
    then show ?thesis using that i ringD(3) [OF r] ringD(5) [OF r, of ?c] c l by simp
  next
    case False
    then have "at_pc s j (Consume_advance w)" using that by simp
    then show ?thesis using exclusive_consume [OF x i, of j "Consume_advance w"] False by simp
  qed
qed (use ringD(2-4) [OF r] in \<open>simp_all split: option.splits\<close>)

lemma ring_consume_advance:
  assumes r: "ring s" and b: "balanced s" and x: "exclusive s" and i: "at_pc s i (Consume_advance v)"
  shows "ring ((goto s i Consume_unlock)\<lparr>consume_at := advance (length (storage s)) (consume_at s), consumed := consumed s @ [v]\<rparr>)" (is "ring ?s'")
proof (rule ringI [OF ringD(1) [OF r]])
  let ?n = "length (storage s)"
  have l: "total_of loaded s = 1" using total_loaded [OF x i] by simp
  have tl: "total_of loaded ?s' = 0" using sum_list_update_nat [of i "threads s" loaded Consume_unlock] i l by simp
  show "storage ?s' ! (k mod ?n) = produced ?s' ! k" if "length (consumed ?s') + total_of loaded ?s' \<le> k" "k < length (produced ?s')" for k
    using ringD(5) [OF r, of k] that l unfolding tl by simp
  show "consume_at ?s' = length (consumed ?s') mod ?n" using ringD(1,3) [OF r] by (simp add: advance_mod)
  show "consumed ?s' = take (length (consumed ?s')) (produced ?s')"
    using ringD(4) [OF r] ringD(7) [OF r i] claims_in_queue [OF b i] by (simp add: take_Suc_conv_app_nth)
  show "storage ?s' ! produce_at ?s' = w" if "at_pc ?s' j (Produce_advance w)" for j w
    using ringD(6) [OF r goto_other(1) [OF _ that]] by simp
  show "w = produced ?s' ! length (consumed ?s')" if "at_pc ?s' j (Consume_advance w)" for j w
  proof -
    have "at_pc s j (Consume_advance w)" "j \<noteq> i" using goto_other [OF _ that] by simp_all
    then show ?thesis using exclusive_consume [OF x i, of j "Consume_advance w"] by simp
  qed
qed (use ringD(2) [OF r] in simp_all)

lemma ring_step:
  assumes "step s s'" and r: "ring s" and b: "balanced s" and x: "exclusive s"
  shows "ring s'"
  using assms(1)
proof cases
  case (produce_store i v)
  then show ?thesis using ring_produce_store [OF r b x] by blast
next
  case (produce_advance i v)
  then show ?thesis using ring_produce_advance [OF r b x] by blast
next
  case (consume_load i y)
  then show ?thesis using ring_consume_load [OF r b x] by blast
next
  case (consume_advance i v)
  then show ?thesis using ring_consume_advance [OF r b x] by blast
qed ((rule ring_goto [OF r], assumption, auto)[1])+

subsection \<open>Every reachable state\<close>

lemma total_of_replicate: "sum_list (map f (replicate n p)) = n * (f p :: nat)"
  by (simp add: sum_list_replicate)

lemma reachable_invariant:
  assumes "reachable storage0 n s" and "storage0 \<noteq> []"
  shows "balanced s \<and> exclusive s \<and> ring s \<and> length (storage s) = length storage0 \<and> length (threads s) = n"
  using assms(1)
proof induction
  case reachable_start
  show ?case using assms(2)
    by (auto simp: PCQueue_new_def balanced_def exclusive_def ring_def sum_list_replicate)
next
  case (reachable_step s s')
  have "length (storage s') = length (storage s) \<and> length (threads s') = length (threads s)"
    using reachable_step.hyps(2) by cases (auto split: option.splits)
  then show ?case using reachable_step balanced_step exclusive_step ring_step by metis
qed

text \<open>A call that no other thread disturbs: what \<^verbatim>\<open>Produce\<close> and \<^verbatim>\<open>Consume\<close> do as a whole.\<close>

lemma step_then: "step s s' \<Longrightarrow> step\<^sup>*\<^sup>* s' t \<Longrightarrow> step\<^sup>*\<^sup>* s t"
  by (rule converse_rtranclp_into_rtranclp)

lemma step_end: "s = t \<Longrightarrow> step\<^sup>*\<^sup>* s t"
  by simp

lemma reachable_steps: "step\<^sup>*\<^sup>* s t \<Longrightarrow> reachable storage0 n s \<Longrightarrow> reachable storage0 n t"
  by (induction rule: rtranclp_induct) (auto intro: reachable_step)

lemma Produce_alone:
  assumes "reachable storage0 n s" and i: "at_pc s i Idle" and e: "0 < empty s" and m: "produce_at_mutex s = None"
  shows "reachable storage0 n (s\<lparr>empty := empty s - 1, used := used s + 1, storage := (storage s)[produce_at s := v],
           produce_at := advance (length (storage s)) (produce_at s), produced := produced s @ [v]\<rparr>)" (is "reachable _ _ ?s'")
proof -
  have "step\<^sup>*\<^sup>* s ?s'"
    apply (rule step_then [OF call_produce [OF i, of v]])
    apply (rule step_then, rule produce_wait [of i], use i e in simp, use e in simp)
    apply (rule step_then, rule produce_lock [of i], use i in simp, use m in simp)
    apply (rule step_then, rule produce_store [of i], use i in simp)
    apply (rule step_then, rule produce_advance [of i], use i in simp)
    apply (rule step_then, rule produce_unlock [of i], use i in simp)
    apply (rule step_then, rule produce_post [of i], use i in simp)
    apply (rule step_end, rule PCQueue.equality, use i m list_update_id [of "threads s" i] in simp_all)
    done
  then show ?thesis using assms(1) by (rule reachable_steps)
qed

lemma Consume_alone:
  assumes "reachable storage0 n s" and i: "at_pc s i Idle" and e: "0 < used s" and m: "consume_at_mutex s = None"
  shows "reachable storage0 n (s\<lparr>empty := empty s + 1, used := used s - 1,
           storage := (case x of None \<Rightarrow> storage s | Some out \<Rightarrow> (storage s)[consume_at s := out]),
           consume_at := advance (length (storage s)) (consume_at s), consumed := consumed s @ [storage s ! consume_at s]\<rparr>)"
    (is "reachable _ _ ?s'")
proof -
  have "step\<^sup>*\<^sup>* s ?s'"
    apply (rule step_then [OF call_consume [OF i, of x]])
    apply (rule step_then, rule consume_wait [of i], use i e in simp, use e in simp)
    apply (rule step_then, rule consume_lock [of i], use i in simp, use m in simp)
    apply (rule step_then, rule consume_load [of i], use i in simp)
    apply (rule step_then, rule consume_advance [of i], use i in simp)
    apply (rule step_then, rule consume_unlock [of i], use i in simp)
    apply (rule step_then, rule consume_post [of i], use i in simp)
    apply (rule step_end, rule PCQueue.equality, use i m list_update_id [of "threads s" i] in \<open>simp_all split: option.splits\<close>)
    done
  then show ?thesis using assms(1) by (rule reachable_steps)
qed

subsection \<open>Progress\<close>

text \<open>The steps a call has left; a step of a thread that is inside a call.\<close>

fun steps_left :: "'a pc \<Rightarrow> nat" where
  "steps_left Idle = 0"
| "steps_left (Produce_wait _) = 6" | "steps_left (Produce_lock _) = 5" | "steps_left (Produce_store _) = 4"
| "steps_left (Produce_advance _) = 3" | "steps_left Produce_unlock = 2" | "steps_left Produce_post = 1" | "steps_left Produce_unwind = 1"
| "steps_left (Consume_wait _) = 6" | "steps_left (Consume_lock _) = 5" | "steps_left (Consume_load _) = 4"
| "steps_left (Consume_advance _) = 3" | "steps_left Consume_unlock = 2" | "steps_left Consume_post = 1" | "steps_left Consume_unwind = 1"

definition works :: "'a PCQueue \<Rightarrow> 'a PCQueue \<Rightarrow> bool" where
  "works s s' \<longleftrightarrow> step s s' \<and> (\<exists>i<length (threads s). threads s ! i \<noteq> Idle \<and> threads s' ! i \<noteq> threads s ! i)"

lemma steps_left_le: "steps_left p \<le> 6"
  by (cases p) auto

lemma works_idle: "works s s' \<Longrightarrow> threads s' = (threads s)[i := q] \<Longrightarrow> threads s ! i \<noteq> Idle"
  unfolding works_def by (metis nth_list_update_neq)

lemma works_decreases:
  assumes "works s s'"
  shows "total_of steps_left s' < total_of steps_left s"
proof -
  have "step s s'" using assms by (simp add: works_def)
  then obtain i p q where i: "at_pc s i p" "threads s' = (threads s)[i := q]" "p = Idle \<or> steps_left q < steps_left p"
    by cases force+
  then have "steps_left q < steps_left p" using works_idle [OF assms i(2)] by auto
  then show ?thesis using sum_list_update_nat [of i "threads s" steps_left q] i(1,2) by simp
qed

lemma works_bound: "(works ^^ k) s s' \<Longrightarrow> k + total_of steps_left s' \<le> total_of steps_left s"
  by (induction k arbitrary: s') (auto dest!: works_decreases, fastforce)

lemma total_le: "(\<And>p. f p \<le> m) \<Longrightarrow> sum_list (map f ps) \<le> m * length ps" for f :: "'a pc \<Rightarrow> nat"
  by (induction ps) (auto simp: add_mono)

text \<open>A thread inside a call is stopped only by a semaphore or a mutex.\<close>

fun stopped_at :: "'a PCQueue \<Rightarrow> 'a pc \<Rightarrow> bool" where
  "stopped_at s Idle = True"
| "stopped_at s (Produce_wait _) = (empty s = 0)" | "stopped_at s (Produce_lock _) = (produce_at_mutex s \<noteq> None)"
| "stopped_at s (Consume_wait _) = (used s = 0)" | "stopped_at s (Consume_lock _) = (consume_at_mutex s \<noteq> None)"
| "stopped_at s _ = False"

lemma worksI: "step s s' \<Longrightarrow> at_pc s i p \<Longrightarrow> p \<noteq> Idle \<Longrightarrow> threads s' = (threads s)[i := q] \<Longrightarrow> q \<noteq> p \<Longrightarrow> works s s'"
  unfolding works_def by fastforce

lemma not_stopped:
  assumes i: "at_pc s i p" and "\<not> stopped_at s p"
  shows "\<exists>s'. works s s'"
proof -
  have "\<exists>s' q. step s s' \<and> threads s' = (threads s)[i := q] \<and> q \<noteq> p"
  proof (cases p)
    case (Produce_wait v) then show ?thesis using produce_wait [of i s v] assms by fastforce
  next
    case (Produce_lock v) then show ?thesis using produce_lock [of i s v] assms by fastforce
  next
    case (Produce_store v) then show ?thesis using produce_store [of i s v] i by fastforce
  next
    case (Produce_advance v) then show ?thesis using produce_advance [of i s v] i by fastforce
  next
    case Produce_unlock then show ?thesis using produce_unlock [of i s] i by fastforce
  next
    case Produce_post then show ?thesis using produce_post [of i s] i by fastforce
  next
    case Produce_unwind then show ?thesis using produce_unwind [of i s] i by fastforce
  next
    case (Consume_wait v) then show ?thesis using consume_wait [of i s v] assms by fastforce
  next
    case (Consume_lock v) then show ?thesis using consume_lock [of i s v] assms by fastforce
  next
    case (Consume_load v) then show ?thesis using consume_load [of i s v] i by fastforce
  next
    case (Consume_advance v) then show ?thesis using consume_advance [of i s v] i by fastforce
  next
    case Consume_unlock then show ?thesis using consume_unlock [of i s] i by fastforce
  next
    case Consume_post then show ?thesis using consume_post [of i s] i by fastforce
  next
    case Consume_unwind then show ?thesis using consume_unwind [of i s] i by fastforce
  qed (use assms in auto)
  moreover have "p \<noteq> Idle" using assms by auto
  ultimately show ?thesis using worksI [OF _ i] by blast
qed

text \<open>What the threads may be doing when none of them can go on: nothing, or all wait at a full or an empty queue.\<close>

definition at_rest :: "'a PCQueue \<Rightarrow> bool" where
  "at_rest s \<longleftrightarrow> set (threads s) \<subseteq> {Idle} \<or>
     (in_queue s = length (storage s) \<and> set (threads s) \<subseteq> insert Idle (range Produce_wait)) \<or>
     (in_queue s = 0 \<and> set (threads s) \<subseteq> insert Idle (range Consume_wait))"

lemma stopped_waits:
  assumes x: "exclusive s" and st: "\<forall>p\<in>set (threads s). stopped_at s p" and p: "p \<in> set (threads s)"
  shows "p = Idle \<or> (empty s = 0 \<and> p \<in> range Produce_wait) \<or> (used s = 0 \<and> p \<in> range Consume_wait)"
proof -
  have none: "produce_at_mutex s = None" "consume_at_mutex s = None"
  proof -
    have "\<not> in_produce p" "\<not> in_consume p" if "p \<in> set (threads s)" for p using st that by (cases p; auto)+
    then show "produce_at_mutex s = None" "consume_at_mutex s = None"
      using x unfolding exclusive_def by (metis nth_mem not_None_eq)+
  qed
  show ?thesis using st p none by (cases p) auto
qed

lemma stopped_at_rest:
  assumes b: "balanced s" and x: "exclusive s" and n: "storage s \<noteq> []" and st: "\<forall>p\<in>set (threads s). stopped_at s p"
  shows "at_rest s"
proof -
  note w = stopped_waits [OF x st]
  have z: "total_of f s = 0" if "\<And>v. f (Produce_wait v) = 0" "\<And>x. f (Consume_wait x) = 0" "f Idle = 0" for f :: "'a pc \<Rightarrow> nat"
    using that w by fastforce
  have t: "empty s + in_queue s = length (storage s)" "in_queue s = used s"
    using b z [of reserves] z [of owes_used] z [of claims] z [of owes_empty] by (simp_all add: balanced_def del: sum_list_eq_0_iff)
  consider "empty s = 0" | "used s = 0" | "empty s \<noteq> 0" "used s \<noteq> 0" by blast
  then show ?thesis
  proof cases
    case 1
    then have "used s \<noteq> 0" using t n by auto
    then show ?thesis using 1 t w unfolding at_rest_def by auto
  next
    case 2
    then have "empty s \<noteq> 0" using t n by auto
    then show ?thesis using 2 t w unfolding at_rest_def by auto
  next
    case 3
    then show ?thesis using w unfolding at_rest_def by auto
  qed
qed

subsection \<open>Properties\<close>

text \<open>
  C25. However the threads interleave, and whichever assignments throw: what was taken from the
  queue is a prefix of what was put in, in that order; never more values are in it than it has
  places; two threads are never inside the produce section or the consume section together; and
  the values still queued lie in the ring from the read pointer on.
\<close>

theorem PCQueue_fifo:
  assumes "reachable storage0 n_threads s" and "storage0 \<noteq> []"
  shows "(\<exists>queued. produced s = consumed s @ queued \<and> length queued \<le> length storage0 \<and>
           (total_of loaded s = 0 \<longrightarrow>
             queued = map (\<lambda>k. storage s ! ((consume_at s + k) mod length storage0)) [0..<length queued])) \<and>
         (\<forall>i j. i < n_threads \<and> j < n_threads \<and> in_produce (threads s ! i) \<and> in_produce (threads s ! j) \<longrightarrow> i = j) \<and>
         (\<forall>i j. i < n_threads \<and> j < n_threads \<and> in_consume (threads s ! i) \<and> in_consume (threads s ! j) \<longrightarrow> i = j)"
proof (intro conjI exI allI impI)
  let ?queued = "drop (length (consumed s)) (produced s)"
  have b: "balanced s" and x: "exclusive s" and r: "ring s" and n: "length (storage s) = length storage0" "length (threads s) = n_threads"
    using reachable_invariant [OF assms] by simp_all
  show "produced s = consumed s @ ?queued" using ringD(4) [OF r] by (metis append_take_drop_id)
  show "length ?queued \<le> length storage0" using b n by (simp add: balanced_def)
  show "?queued = map (\<lambda>k. storage s ! ((consume_at s + k) mod length storage0)) [0..<length ?queued]" if l: "total_of loaded s = 0"
  proof (rule nth_equalityI)
    fix k assume k: "k < length ?queued"
    have "storage s ! ((length (consumed s) + k) mod length storage0) = produced s ! (length (consumed s) + k)"
      using ringD(5) [OF r, of "length (consumed s) + k"] k l n by simp
    then show "?queued ! k = map (\<lambda>k. storage s ! ((consume_at s + k) mod length storage0)) [0..<length ?queued] ! k"
      using k ringD(3) [OF r] n by (simp add: mod_simps)
  qed simp
  show "i = j" if "i < n_threads \<and> j < n_threads \<and> in_produce (threads s ! i) \<and> in_produce (threads s ! j)" for i j
    using exclusive_produce [OF x, of i _ j] that n by blast
  show "i = j" if "i < n_threads \<and> j < n_threads \<and> in_consume (threads s ! i) \<and> in_consume (threads s ! j)" for i j
    using exclusive_consume [OF x, of i _ j] that n by blast
qed

text \<open>
  C26. No deadlock and no endless waiting inside the queue: if no new call comes, the threads make at
  most six steps each, and as long as none of them can be made, either no thread is inside a call,
  or all that are wait for a place in a full queue, or all that are wait for a value in an empty one.
\<close>

theorem PCQueue_progress:
  assumes "reachable storage0 n_threads s" and "storage0 \<noteq> []"
  shows "(\<forall>k s'. (works ^^ k) s s' \<longrightarrow> k \<le> 6 * n_threads) \<and> ((\<exists>s'. works s s') \<or> at_rest s)"
proof (intro conjI allI impI)
  have b: "balanced s" and x: "exclusive s" and n: "length (storage s) = length storage0" "length (threads s) = n_threads"
    using reachable_invariant [OF assms] by simp_all
  show "k \<le> 6 * n_threads" if "(works ^^ k) s s'" for k s'
    using works_bound [OF that] total_le [where f = steps_left and ps = "threads s", OF steps_left_le] n by linarith
  show "(\<exists>s'. works s s') \<or> at_rest s"
    using stopped_at_rest [OF b x] not_stopped [of _ s] n assms(2) by (metis in_set_conv_nth length_0_conv)
qed

subsection \<open>A queue of one place\<close>

text \<open>Two threads: one has put in a value, the other has taken it and waits for the next one.\<close>

definition queue_example :: "nat PCQueue" where
  "queue_example = \<lparr>empty = 1, used = 0, storage = [7], produce_at = 0, consume_at = 0, produce_at_mutex = None,
     consume_at_mutex = None, threads = [Idle, Consume_wait None], produced = [7], consumed = [7]\<rparr>"

lemma queue_example_reachable: "reachable [0] 2 queue_example"
proof -
  let ?s = "PCQueue_new [0 :: nat] 2"
  have t: "threads ?s = [Idle, Idle]" by (simp add: PCQueue_new_def numeral_2_eq_2)
  note 1 = Produce_alone [OF reachable_start, of 0 "[0]" 2 "7 :: nat", simplified, unfolded PCQueue_new_def, simplified]
  note 2 = Consume_alone [OF 1, of 1 None, simplified]
  note 3 = reachable_step [OF 2 call_consume [of 1 _ None], simplified]
  show ?thesis using 3 by (simp add: queue_example_def advance_def numeral_2_eq_2)
qed

theorem PCQueue_fifo_witness:
  "reachable [0] 2 queue_example \<and> (\<exists>queued. produced queue_example = consumed queue_example @ queued \<and> length queued \<le> 1)"
  using PCQueue_fifo [OF queue_example_reachable] queue_example_reachable by auto

theorem PCQueue_progress_witness:
  "reachable [0] 2 queue_example \<and> ((\<exists>s'. works queue_example s') \<or> at_rest queue_example) \<and> \<not> (works ^^ 13) queue_example queue_example"
  using PCQueue_progress [OF queue_example_reachable] queue_example_reachable by auto

end
