(* ===== verification/UnboundedQueue.thy ===== *)
theory UnboundedQueue
  imports Prelude
begin

text \<open>
  \<^verbatim>\<open>UnboundedSingleQueue\<close> of \<^verbatim>\<open>src/util/pcqueue.hh\<close>: a queue between one producing and one consuming
  thread, kept in a chain of pages of 1023 entries. The memory is explicit: \<open>pages\<close> holds every page
  that was ever allocated, at its address, and \<^term>\<open>None\<close> once it is freed; an access to a freed page or
  through a null pointer sets \<open>fault\<close>. The two threads interleave at every operation on shared
  memory. \<open>produced\<close> and \<open>consumed\<close> record the values stored and taken.
\<close>

definition kEntries :: nat where
  "kEntries = 1023"

record 'a UnboundedPage =
  next_page :: "nat option"
  entries :: "'a list"

definition UnboundedPage_new :: "'a \<Rightarrow> 'a UnboundedPage" where
  "UnboundedPage_new dflt = \<lparr>next_page = None, entries = replicate kEntries dflt\<rparr>"

datatype 'a producer = Produce_idle | Produce_check 'a | Produce_set 'a nat | Produce_move 'a | Produce_done
datatype consumer = Consume_idle | Consume_valid | Consume_page | Consume_move

record 'a UnboundedSingleQueue =
  valid :: nat
  pages :: "'a UnboundedPage option list"
  filling :: nat
  filling_current :: nat
  reading :: nat
  reading_current :: nat
  producing :: "'a producer"
  consuming :: consumer
  fault :: bool
  stored :: "'a list"
  taken :: "'a list"

text \<open>The \<^verbatim>\<open>_end_\<close> pointers lie \<^term>\<open>kEntries\<close> behind the first entry of the page. Resetting \<^verbatim>\<open>reading_\<close> frees its page.\<close>

definition SetFilling :: "nat \<Rightarrow> 'a UnboundedSingleQueue \<Rightarrow> 'a UnboundedSingleQueue" where
  "SetFilling to q = q\<lparr>filling := to, filling_current := 0\<rparr>"

definition SetReading :: "nat \<Rightarrow> 'a UnboundedSingleQueue \<Rightarrow> 'a UnboundedSingleQueue" where
  "SetReading to q = q\<lparr>pages := (pages q)[reading q := None], reading := to, reading_current := 0\<rparr>"

definition UnboundedSingleQueue_new :: "'a \<Rightarrow> 'a UnboundedSingleQueue" where
  "UnboundedSingleQueue_new dflt =
     \<lparr>valid = 0, pages = [Some (UnboundedPage_new dflt)], filling = 0, filling_current = 0, reading = 0, reading_current = 0,
      producing = Produce_idle, consuming = Consume_idle, fault = False, stored = [], taken = []\<rparr>"

definition page_at :: "'a UnboundedSingleQueue \<Rightarrow> nat \<Rightarrow> 'a UnboundedPage option" where
  "page_at q a = (if a < length (pages q) then pages q ! a else None)"

text \<open>\<^verbatim>\<open>Produce\<close>: allocate and link a page when the last one is full, move the value in, post.\<close>

definition allocate_page :: "'a \<Rightarrow> 'a \<Rightarrow> 'a UnboundedSingleQueue \<Rightarrow> 'a UnboundedSingleQueue" where
  "allocate_page dflt v q =
     (case page_at q (filling q) of
        None \<Rightarrow> q\<lparr>fault := True\<rparr>
      | Some page \<Rightarrow>
          q\<lparr>pages := (pages q)[filling q := Some (page\<lparr>next_page := Some (length (pages q))\<rparr>)] @ [Some (UnboundedPage_new dflt)],
            producing := Produce_set v (length (pages q))\<rparr>)"

definition produce_check_step :: "'a \<Rightarrow> 'a \<Rightarrow> 'a UnboundedSingleQueue \<Rightarrow> 'a UnboundedSingleQueue" where
  "produce_check_step dflt v q =
     (if filling_current q = kEntries then allocate_page dflt v q else q\<lparr>producing := Produce_move v\<rparr>)"

definition produce_move_step :: "'a \<Rightarrow> 'a UnboundedSingleQueue \<Rightarrow> 'a UnboundedSingleQueue" where
  "produce_move_step v q =
     (case page_at q (filling q) of
        None \<Rightarrow> q\<lparr>fault := True\<rparr>
      | Some page \<Rightarrow>
          if filling_current q < length (entries page)
          then q\<lparr>pages := (pages q)[filling q := Some (page\<lparr>entries := (entries page)[filling_current q := v]\<rparr>)],
                 filling_current := filling_current q + 1, stored := stored q @ [v], producing := Produce_done\<rparr>
          else q\<lparr>fault := True\<rparr>)"

text \<open>\<^verbatim>\<open>Consume\<close>: wait, go to the next page at the end of this one, take the value.\<close>

definition consume_page_step :: "'a UnboundedSingleQueue \<Rightarrow> 'a UnboundedSingleQueue" where
  "consume_page_step q =
     (if reading_current q = kEntries then
        (case page_at q (reading q) of
           None \<Rightarrow> q\<lparr>fault := True\<rparr>
         | Some page \<Rightarrow>
             (case next_page page of
                None \<Rightarrow> q\<lparr>fault := True\<rparr>
              | Some to \<Rightarrow> (SetReading to q)\<lparr>consuming := Consume_move\<rparr>))
      else q\<lparr>consuming := Consume_move\<rparr>)"

definition consume_move_step :: "'a UnboundedSingleQueue \<Rightarrow> 'a UnboundedSingleQueue" where
  "consume_move_step q =
     (case page_at q (reading q) of
        None \<Rightarrow> q\<lparr>fault := True\<rparr>
      | Some page \<Rightarrow>
          if reading_current q < length (entries page)
          then q\<lparr>reading_current := reading_current q + 1, taken := taken q @ [entries page ! reading_current q], consuming := Consume_idle\<rparr>
          else q\<lparr>fault := True\<rparr>)"

definition Empty :: "'a UnboundedSingleQueue \<Rightarrow> bool" where
  "Empty q \<longleftrightarrow> (reading q, reading_current q) = (filling q, filling_current q)"

inductive queue_step :: "'a \<Rightarrow> 'a UnboundedSingleQueue \<Rightarrow> 'a UnboundedSingleQueue \<Rightarrow> bool" for dflt where
  call_produce: "producing q = Produce_idle \<Longrightarrow> queue_step dflt q (q\<lparr>producing := Produce_check v\<rparr>)"
| produce_check: "producing q = Produce_check v \<Longrightarrow> queue_step dflt q (produce_check_step dflt v q)"
| produce_set: "producing q = Produce_set v to \<Longrightarrow> queue_step dflt q ((SetFilling to q)\<lparr>producing := Produce_move v\<rparr>)"
| produce_move: "producing q = Produce_move v \<Longrightarrow> queue_step dflt q (produce_move_step v q)"
| produce_post: "producing q = Produce_done \<Longrightarrow> queue_step dflt q (q\<lparr>valid := valid q + 1, producing := Produce_idle\<rparr>)"
| call_consume: "consuming q = Consume_idle \<Longrightarrow> queue_step dflt q (q\<lparr>consuming := Consume_valid\<rparr>)"
| consume_wait: "consuming q = Consume_valid \<Longrightarrow> 0 < valid q \<Longrightarrow> queue_step dflt q (q\<lparr>valid := valid q - 1, consuming := Consume_page\<rparr>)"
| consume_page: "consuming q = Consume_page \<Longrightarrow> queue_step dflt q (consume_page_step q)"
| consume_move: "consuming q = Consume_move \<Longrightarrow> queue_step dflt q (consume_move_step q)"

inductive queue_reachable :: "'a \<Rightarrow> 'a UnboundedSingleQueue \<Rightarrow> bool" for dflt where
  queue_start: "queue_reachable dflt (UnboundedSingleQueue_new dflt)"
| queue_continue: "queue_reachable dflt q \<Longrightarrow> queue_step dflt q q' \<Longrightarrow> queue_reachable dflt q'"

subsection \<open>The chain of pages\<close>

text \<open>The pages from the one being read on are there, each linked to the next one; the ones before are freed.\<close>

definition chained :: "'a UnboundedSingleQueue \<Rightarrow> bool" where
  "chained q \<longleftrightarrow>
     reading q \<le> filling q \<and> filling q < length (pages q) \<and>
     (\<forall>a<length (pages q). if a < reading q then pages q ! a = None
        else \<exists>page. pages q ! a = Some page \<and> length (entries page) = kEntries \<and>
               (Suc a < length (pages q) \<longrightarrow> next_page page = Some (Suc a)))"

fun entry_at :: "'a UnboundedSingleQueue \<Rightarrow> nat \<Rightarrow> 'a" where
  "entry_at q k = entries (the (pages q ! (k div kEntries))) ! (k mod kEntries)"

fun moved :: "'a producer \<Rightarrow> nat" where
  "moved Produce_done = 1" | "moved _ = 0"

fun granted :: "consumer \<Rightarrow> nat" where
  "granted Consume_page = 1" | "granted Consume_move = 1" | "granted _ = 0"

definition counted :: "'a UnboundedSingleQueue \<Rightarrow> bool" where
  "counted q \<longleftrightarrow>
     length (stored q) = length (taken q) + valid q + moved (producing q) + granted (consuming q) \<and>
     length (stored q) = filling q * kEntries + filling_current q \<and> filling_current q \<le> kEntries \<and>
     length (taken q) = reading q * kEntries + reading_current q \<and> reading_current q \<le> kEntries"

definition contents :: "'a UnboundedSingleQueue \<Rightarrow> bool" where
  "contents q \<longleftrightarrow>
     taken q = take (length (taken q)) (stored q) \<and>
     (\<forall>k. length (taken q) \<le> k \<and> k < length (stored q) \<longrightarrow> entry_at q k = stored q ! k)"

fun placed :: "'a UnboundedSingleQueue \<Rightarrow> 'a producer \<Rightarrow> bool" where
  "placed q (Produce_set v to) \<longleftrightarrow> length (pages q) = filling q + 2 \<and> to = filling q + 1 \<and> filling_current q = kEntries"
| "placed q (Produce_move v) \<longleftrightarrow> length (pages q) = filling q + 1 \<and> filling_current q < kEntries"
| "placed q _ \<longleftrightarrow> length (pages q) = filling q + 1 \<and> (filling q = 0 \<or> 0 < filling_current q)"

definition queue_inv :: "'a UnboundedSingleQueue \<Rightarrow> bool" where
  "queue_inv q \<longleftrightarrow> \<not> fault q \<and> chained q \<and> counted q \<and> contents q \<and> placed q (producing q) \<and>
     (consuming q = Consume_move \<longrightarrow> reading_current q < kEntries)"

lemma kEntries_pos: "0 < kEntries"
  by (simp add: kEntries_def)

lemma chained_page:
  assumes "chained q" and "reading q \<le> a" and "a < length (pages q)"
  obtains page where "page_at q a = Some page" and "pages q ! a = Some page" and "length (entries page) = kEntries"
    and "Suc a < length (pages q) \<Longrightarrow> next_page page = Some (Suc a)"
proof -
  have "if a < reading q then pages q ! a = None
        else \<exists>page. pages q ! a = Some page \<and> length (entries page) = kEntries \<and>
               (Suc a < length (pages q) \<longrightarrow> next_page page = Some (Suc a))"
    using assms(1,3) unfolding chained_def by blast
  then show thesis using that assms(2,3) by (auto simp: page_at_def)
qed

lemma queue_invD:
  assumes "queue_inv q"
  shows "\<not> fault q" "chained q" "counted q" "contents q" "placed q (producing q)"
    "consuming q = Consume_move \<Longrightarrow> reading_current q < kEntries"
  using assms by (simp_all add: queue_inv_def)

text \<open>A page that is changed but keeps its size and its link keeps the chain.\<close>

lemma chained_update:
  assumes c: "chained q" and a: "reading q \<le> a" "a < length (pages q)" and p: "pages q ! a = Some page"
    and "pages q' = (pages q)[a := Some page']" and "length (entries page') = kEntries" and "next_page page' = next_page page"
    and "reading q' = reading q" "filling q' = filling q"
  shows "chained q'"
  using assms unfolding chained_def by (auto simp: nth_list_update split: if_splits)

lemma div_mod_page: "r < K \<Longrightarrow> (p * K + r) div K = p \<and> (p * K + r) mod K = (r :: nat)"
  by simp

lemma entry_in_page: "k < p * K + r \<Longrightarrow> r \<le> K \<Longrightarrow> 0 < K \<Longrightarrow> k div K \<le> (p :: nat)"
  by (metis add.commute add_le_cancel_left less_Suc_eq_le less_mult_imp_div_less mult.commute mult_Suc_right order_less_le_trans)

lemma placed_same:
  "length (pages q') = length (pages q) \<Longrightarrow> filling q' = filling q \<Longrightarrow> filling_current q' = filling_current q \<Longrightarrow> placed q' p = placed q p"
  by (cases p) simp_all

lemma memory_same:
  "pages q' = pages q \<Longrightarrow> filling q' = filling q \<Longrightarrow> reading q' = reading q \<Longrightarrow> stored q' = stored q \<Longrightarrow> taken q' = taken q \<Longrightarrow>
   chained q' = chained q \<and> contents q' = contents q"
  by (simp add: chained_def contents_def)

lemmas inv_defs = queue_inv_def chained_def counted_def contents_def

lemma inv_allocate:
  assumes v: "queue_inv q" and p: "producing q = Produce_check v" and full: "filling_current q = kEntries"
  shows "queue_inv (allocate_page dflt v q)"
proof -
  have n: "length (pages q) = filling q + 1" using queue_invD(5) [OF v] p by simp
  have rf: "reading q \<le> filling q" using queue_invD(2) [OF v] by (simp add: chained_def)
  obtain page where page: "page_at q (filling q) = Some page" "pages q ! filling q = Some page" "length (entries page) = kEntries"
    using chained_page [OF queue_invD(2) [OF v] rf] n by auto
  let ?q = "allocate_page dflt v q"
  have q: "?q = q\<lparr>pages := (pages q)[filling q := Some (page\<lparr>next_page := Some (length (pages q))\<rparr>)] @ [Some (UnboundedPage_new dflt)],
      producing := Produce_set v (length (pages q))\<rparr>"
    by (simp add: allocate_page_def page)
  have at: "pages ?q ! a = (if a = filling q then Some (page\<lparr>next_page := Some (Suc a)\<rparr>) else pages q ! a)" if "a < length (pages q)" for a
    using that n by (auto simp: q nth_append)
  have "chained ?q"
    unfolding chained_def
  proof (intro conjI allI impI)
    fix a assume a: "a < length (pages ?q)"
    show "if a < reading ?q then pages ?q ! a = None
          else \<exists>page. pages ?q ! a = Some page \<and> length (entries page) = kEntries \<and> (Suc a < length (pages ?q) \<longrightarrow> next_page page = Some (Suc a))"
    proof (cases "a < length (pages q)")
      case True
      show ?thesis
        using queue_invD(2) [OF v] True n rf page(3) unfolding at [OF True] chained_def by (auto simp: q)
    next
      case False
      then have "a = Suc (filling q)" using a n by (simp add: q)
      then show ?thesis using n rf by (simp add: q nth_append UnboundedPage_new_def)
    qed
  qed (use n rf in \<open>simp_all add: q\<close>)
  moreover have "contents ?q"
  proof -
    have "entry_at ?q k = entry_at q k" if "k < length (stored q)" for k
    proof -
      have "k div kEntries \<le> filling q"
        using queue_invD(3) [OF v] that entry_in_page [OF _ _ kEntries_pos, of k "filling q" "filling_current q"] by (simp add: counted_def)
      then show ?thesis using at [of "k div kEntries"] page(2) n by simp
    qed
    then show ?thesis using queue_invD(4) [OF v] unfolding contents_def by (simp add: q)
  qed
  ultimately show ?thesis using v full n p by (simp add: queue_inv_def q counted_def)
qed

lemma inv_produce_move:
  assumes v: "queue_inv q" and p: "producing q = Produce_move w"
  shows "queue_inv (produce_move_step w q)"
proof -
  have n: "length (pages q) = filling q + 1" "filling_current q < kEntries" using queue_invD(5) [OF v] p by simp_all
  have rf: "reading q \<le> filling q" using queue_invD(2) [OF v] by (simp add: chained_def)
  obtain page where page: "page_at q (filling q) = Some page" "pages q ! filling q = Some page" "length (entries page) = kEntries"
    using chained_page [OF queue_invD(2) [OF v] rf] n by auto
  let ?q = "produce_move_step w q"
  have q: "?q = q\<lparr>pages := (pages q)[filling q := Some (page\<lparr>entries := (entries page)[filling_current q := w]\<rparr>)],
      filling_current := filling_current q + 1, stored := stored q @ [w], producing := Produce_done\<rparr>"
    using n(2) page by (simp add: produce_move_step_def)
  have len: "length (stored q) = filling q * kEntries + filling_current q" using queue_invD(3) [OF v] by (simp add: counted_def)
  have "chained ?q"
    by (rule chained_update [OF queue_invD(2) [OF v] rf _ page(2), where page' = "page\<lparr>entries := (entries page)[filling_current q := w]\<rparr>"]) (use n page in \<open>simp_all add: q\<close>)
  moreover have "contents ?q"
  proof -
    have new: "entry_at ?q (length (stored q)) = w"
      using n page unfolding len by (simp add: q)
    have old: "entry_at ?q k = entry_at q k" if "k < length (stored q)" for k
    proof (cases "k div kEntries = filling q")
      case True
      then have "k mod kEntries \<noteq> filling_current q" using that len by (metis div_mult_mod_eq nat_neq_iff)
      then show ?thesis using True n page by (simp add: q)
    qed (simp add: q)
    have le: "length (taken q) \<le> length (stored q)" using queue_invD(3) [OF v] by (simp add: counted_def)
    have "entry_at ?q k = stored ?q ! k" if "length (taken ?q) \<le> k" "k < length (stored ?q)" for k
    proof (cases "k = length (stored q)")
      case True
      then show ?thesis unfolding True new by (simp add: q)
    next
      case False
      then have k: "length (taken q) \<le> k" "k < length (stored q)" using that by (simp_all add: q)
      have "stored ?q ! k = stored q ! k" using k(2) by (simp add: q nth_append)
      then show ?thesis using k queue_invD(4) [OF v] unfolding contents_def old [OF k(2)] by simp
    qed
    moreover have "taken ?q = take (length (taken ?q)) (stored ?q)" using queue_invD(4) [OF v] le by (simp add: contents_def q)
    ultimately show ?thesis unfolding contents_def by blast
  qed
  ultimately show ?thesis using v n p by (simp add: queue_inv_def q counted_def)
qed

lemma inv_consume_page:
  assumes v: "queue_inv q" and p: "consuming q = Consume_page"
  shows "queue_inv (consume_page_step q)"
proof (cases "reading_current q = kEntries")
  case False
  then show ?thesis using v p placed_same [of "consume_page_step q" q] memory_same [of "consume_page_step q" q]
    by (simp add: consume_page_step_def queue_inv_def counted_def)
next
  case True
  have "length (taken q) = reading q * kEntries + kEntries" "length (taken q) < length (stored q)"
    "length (stored q) \<le> filling q * kEntries + kEntries"
    using queue_invD(3) [OF v] True p by (auto simp: counted_def)
  then have "reading q * kEntries < filling q * kEntries" by linarith
  then have rf: "reading q < filling q" by simp
  have n: "filling q < length (pages q)" using queue_invD(2) [OF v] by (simp add: chained_def)
  obtain page where page: "page_at q (reading q) = Some page" "next_page page = Some (Suc (reading q))"
    using chained_page [OF queue_invD(2) [OF v], of "reading q"] rf n by auto
  let ?q = "consume_page_step q"
  have q: "?q = q\<lparr>pages := (pages q)[reading q := None], reading := Suc (reading q), reading_current := 0, consuming := Consume_move\<rparr>"
    using True page by (simp add: consume_page_step_def SetReading_def)
  have "chained ?q"
    using queue_invD(2) [OF v] rf unfolding chained_def by (auto simp: q nth_list_update less_Suc_eq)
  moreover have "contents ?q"
  proof -
    have "entry_at ?q k = entry_at q k" if "length (taken q) \<le> k" for k
    proof -
      have "Suc (reading q) * kEntries \<le> k" using queue_invD(3) [OF v] True that by (simp add: counted_def)
      then have "k div kEntries \<noteq> reading q" using div_le_mono [of "Suc (reading q) * kEntries" k kEntries] kEntries_pos by simp
      then show ?thesis by (simp add: q)
    qed
    then show ?thesis using queue_invD(4) [OF v] unfolding contents_def by (simp add: q)
  qed
  moreover have "placed ?q (producing ?q)" using queue_invD(5) [OF v] placed_same [of ?q q] by (simp add: q)
  ultimately show ?thesis using v True p kEntries_pos by (simp add: queue_inv_def q counted_def)
qed

lemma inv_consume_move:
  assumes v: "queue_inv q" and p: "consuming q = Consume_move"
  shows "queue_inv (consume_move_step q)"
proof -
  have r: "reading_current q < kEntries" using queue_invD(6) [OF v p] .
  have c: "length (taken q) = reading q * kEntries + reading_current q" "length (taken q) < length (stored q)"
    using queue_invD(3) [OF v] p by (simp_all add: counted_def)
  have n: "reading q < length (pages q)" using queue_invD(2) [OF v] by (simp add: chained_def)
  obtain page where page: "page_at q (reading q) = Some page" "pages q ! reading q = Some page" "length (entries page) = kEntries"
    using chained_page [OF queue_invD(2) [OF v] _ n] by auto
  have "entry_at q (length (taken q)) = entries page ! reading_current q" using c(1) r page(2) by simp
  then have e: "entries page ! reading_current q = stored q ! length (taken q)"
    using queue_invD(4) [OF v] c(2) by (simp add: contents_def)
  let ?q = "consume_move_step q"
  have q: "?q = q\<lparr>reading_current := reading_current q + 1, taken := taken q @ [stored q ! length (taken q)], consuming := Consume_idle\<rparr>"
    using r page e by (simp add: consume_move_step_def)
  have "contents ?q" using queue_invD(4) [OF v] c(2) by (simp add: contents_def q take_Suc_conv_app_nth)
  moreover have "placed ?q (producing ?q)" using queue_invD(5) [OF v] placed_same [of ?q q] by (simp add: q)
  ultimately show ?thesis using v p r by (simp add: queue_inv_def q counted_def chained_def)
qed

lemma inv_step:
  assumes "queue_step dflt q q'" and v: "queue_inv q"
  shows "queue_inv q'"
  using assms(1)
proof cases
  case (produce_check v)
  show ?thesis
  proof (cases "filling_current q = kEntries")
    case True
    then show ?thesis using inv_allocate [OF assms(2) produce_check(2)] produce_check(1) by (simp add: produce_check_step_def)
  next
    case False
    then show ?thesis using assms(2) produce_check by (auto simp: produce_check_step_def inv_defs)
  qed
next
  case (produce_set v to)
  then show ?thesis using assms(2) kEntries_pos by (auto simp: SetFilling_def inv_defs)
next
  case (produce_move v)
  then show ?thesis using inv_produce_move [OF assms(2)] by simp
next
  case consume_page
  then show ?thesis using inv_consume_page [OF assms(2)] by simp
next
  case consume_move
  then show ?thesis using inv_consume_move [OF assms(2)] by simp
next
  case call_consume
  then show ?thesis using v placed_same [of q' q] memory_same [of q' q] by (simp add: queue_inv_def counted_def)
next
  case consume_wait
  then show ?thesis using v placed_same [of q' q] memory_same [of q' q] by (simp add: queue_inv_def counted_def)
qed (use v memory_same [of q' q] in \<open>simp_all add: queue_inv_def counted_def\<close>)

lemma queue_reachable_inv: "queue_reachable dflt q \<Longrightarrow> queue_inv q"
proof (induction rule: queue_reachable.induct)
  case queue_start
  show ?case by (simp add: UnboundedSingleQueue_new_def UnboundedPage_new_def inv_defs)
qed (rule inv_step)

text \<open>
  The pointers compare equal when the counts do: a new page is made only for a value that is then
  stored in it.
\<close>

lemma empty_iff_counts:
  assumes "queue_inv q" and "producing q = Produce_idle"
  shows "Empty q \<longleftrightarrow> length (stored q) = length (taken q)"
proof -
  have f: "filling q = 0 \<or> 0 < filling_current q" using queue_invD(5) [OF assms(1)] assms(2) by simp
  have r: "reading q \<le> filling q" using queue_invD(2) [OF assms(1)] by (simp add: chained_def)
  have c: "length (stored q) = filling q * kEntries + filling_current q" "filling_current q \<le> kEntries"
    "length (taken q) = reading q * kEntries + reading_current q" "reading_current q \<le> kEntries"
    using queue_invD(3) [OF assms(1)] by (simp_all add: counted_def)
  have "reading q = filling q" if "length (stored q) = length (taken q)"
  proof (rule ccontr)
    assume "reading q \<noteq> filling q"
    then have "Suc (reading q) \<le> filling q" "0 < filling_current q" using r f by auto
    moreover have "Suc (reading q) * kEntries \<le> filling q * kEntries" using calculation(1) by (rule mult_right_mono) simp
    ultimately show False using c that by simp
  qed
  then show ?thesis using c by (auto simp: Empty_def)
qed

subsection \<open>Properties\<close>

text \<open>
  C32. However the two threads interleave, no freed page and no null pointer is used, no entry outside
  a page is touched, and what is taken is a prefix of what was stored, in order. The pages before the
  one being read are freed and all others are allocated. When both threads are between calls,
  \<^verbatim>\<open>Empty\<close> says whether all values have been taken.
\<close>

theorem UnboundedSingleQueue_safe:
  assumes "queue_reachable dflt q"
  shows "\<not> fault q \<and> (\<exists>queued. stored q = taken q @ queued \<and>
           (producing q = Produce_idle \<and> consuming q = Consume_idle \<longrightarrow> (Empty q \<longleftrightarrow> queued = []) \<and> valid q = length queued)) \<and>
         (\<forall>a<length (pages q). pages q ! a = None \<longleftrightarrow> a < reading q)"
proof (intro conjI exI allI impI)
  let ?queued = "drop (length (taken q)) (stored q)"
  note v = queue_reachable_inv [OF assms]
  show "\<not> fault q" by (rule queue_invD(1) [OF v])
  show "stored q = taken q @ ?queued" using queue_invD(4) [OF v] unfolding contents_def by (metis append_take_drop_id)
  show "pages q ! a = None \<longleftrightarrow> a < reading q" if a: "a < length (pages q)" for a
  proof (cases "a < reading q")
    case True
    then show ?thesis using queue_invD(2) [OF v] a unfolding chained_def by auto
  next
    case False
    then show ?thesis using chained_page [OF queue_invD(2) [OF v] _ a] by (metis leI option.distinct(1))
  qed
  assume idle: "producing q = Produce_idle \<and> consuming q = Consume_idle"
  show "valid q = length ?queued" using queue_invD(3) [OF v] idle by (simp add: counted_def)
  show "Empty q \<longleftrightarrow> ?queued = []"
    using empty_iff_counts [OF v] idle queue_invD(3) [OF v] by (simp add: counted_def)
qed

text \<open>One value stored and taken, the next call of \<^verbatim>\<open>Consume\<close> waiting.\<close>

definition queue_run_example :: "nat UnboundedSingleQueue" where
  "queue_run_example =
     (consume_move_step (consume_page_step
        ((produce_move_step 7 ((UnboundedSingleQueue_new 0)\<lparr>producing := Produce_move 7\<rparr>))
           \<lparr>producing := Produce_idle, consuming := Consume_page\<rparr>)))\<lparr>consuming := Consume_valid\<rparr>"

lemma queue_run_example_reachable: "queue_reachable 0 queue_run_example"
proof -
  let ?q0 = "UnboundedSingleQueue_new (0 :: nat)"
  let ?q1 = "?q0\<lparr>producing := Produce_check 7\<rparr>" and ?q2 = "?q0\<lparr>producing := Produce_move 7\<rparr>"
  let ?q3 = "produce_move_step 7 ?q2"
  have s: "queue_step 0 ?q0 ?q1" by (rule call_produce) (simp add: UnboundedSingleQueue_new_def)
  have "produce_check_step 0 7 ?q1 = ?q2"
    using kEntries_pos by (simp add: produce_check_step_def UnboundedSingleQueue_new_def)
  then have "queue_step 0 ?q1 ?q2" using produce_check [of ?q1 7 0] by simp
  then have 2: "queue_reachable 0 ?q2" using s queue_start queue_continue by metis
  have q3: "queue_reachable 0 ?q3" by (rule queue_continue [OF 2 produce_move]) simp
  have f: "producing ?q3 = Produce_done" "consuming ?q3 = Consume_idle" "valid ?q3 = 0"
    using kEntries_pos
    by (simp_all add: produce_move_step_def UnboundedSingleQueue_new_def page_at_def UnboundedPage_new_def)
  note 4 = queue_continue [OF q3 produce_post [OF f(1)]]
  note 5 = queue_continue [OF 4 call_consume, simplified, OF f(2)]
  note 6 = queue_continue [OF 5 consume_wait, simplified]
  have 7: "queue_reachable 0 (?q3\<lparr>producing := Produce_idle, consuming := Consume_page\<rparr>)" (is "queue_reachable 0 ?q4") using 6 f by simp
  have 8: "queue_reachable 0 (consume_page_step ?q4)" by (rule queue_continue [OF 7 consume_page]) simp
  have m: "consuming (consume_page_step ?q4) = Consume_move"
    using kEntries_pos by (simp add: consume_page_step_def produce_move_step_def UnboundedSingleQueue_new_def page_at_def UnboundedPage_new_def)
  have 9: "queue_reachable 0 (consume_move_step (consume_page_step ?q4))" by (rule queue_continue [OF 8 consume_move [OF m]])
  have "consuming (consume_move_step (consume_page_step ?q4)) = Consume_idle"
    using kEntries_pos by (simp add: consume_move_step_def consume_page_step_def produce_move_step_def UnboundedSingleQueue_new_def page_at_def UnboundedPage_new_def)
  then show ?thesis using queue_continue [OF 9 call_consume] by (simp add: queue_run_example_def)
qed

theorem UnboundedSingleQueue_safe_witness:
  "queue_reachable 0 queue_run_example \<and> \<not> fault queue_run_example \<and> (\<exists>queued. stored queue_run_example = taken queue_run_example @ queued)"
  using UnboundedSingleQueue_safe [OF queue_run_example_reachable] queue_run_example_reachable by blast

end
