(* ===== verification/CompressWrite.thy ===== *)
theory CompressWrite
  imports Compress Streams
begin

text \<open>
  The writing half of \<^verbatim>\<open>src/util/compress.cc\<close>: \<^verbatim>\<open>GZipWrite\<close> and \<^verbatim>\<open>BZipWrite\<close> over the libraries, which are
  parameters as in the reading half, \<^verbatim>\<open>WriteStream\<close> with its buffer of compressed data,
  \<^verbatim>\<open>WriteUncompressed\<close>, \<^verbatim>\<open>WriteCompressed\<close> that chooses among them, and \<^verbatim>\<open>GZCompress\<close> into a string. The
  loops that call a library until it is done return \<^term>\<open>None\<close> when they do not end.
\<close>

datatype Compression = NONE | GZIP | BZIP | XZIP

record 'c WriteLibrary =
  deflateInit2 :: "int \<Rightarrow> zlib_code \<times> 'c"
  deflate :: "'c \<Rightarrow> bool \<Rightarrow> bytes \<Rightarrow> nat \<Rightarrow> 'c \<times> bytes \<times> bytes \<times> zlib_code"
  deflateReset :: "'c \<Rightarrow> zlib_code \<times> 'c"
  BZ2_bzCompressInit :: "int \<Rightarrow> bz_code \<times> 'c"
  BZ2_bzCompress :: "'c \<Rightarrow> bool \<Rightarrow> bytes \<Rightarrow> nat \<Rightarrow> 'c \<times> bytes \<times> bytes \<times> bz_code"
  BZ2_bzCompressEnd :: "'c \<Rightarrow> bz_code"

subsection \<open>The compressors\<close>

text \<open>
  The stream structure of the library: the input not yet taken, the room left in the output
  buffer. \<^verbatim>\<open>Process\<close> and \<^verbatim>\<open>Finish\<close> return what they appended to the output buffer. \<open>cz_input_set\<close> says
  whether \<^verbatim>\<open>next_in\<close> and \<^verbatim>\<open>avail_in\<close> have a value: \<^verbatim>\<open>BZip()\<close> clears the whole structure, but neither \<^verbatim>\<open>GZip()\<close>
  nor \<^verbatim>\<open>GZipWrite\<close> sets them, and before the first \<^verbatim>\<open>SetInput\<close> \<^verbatim>\<open>deflate\<close> would read indeterminate
  fields: the result of such a call is \<^term>\<open>None\<close>, and \<open>cz_input\<close> is not looked at.
\<close>

record 'c Compressor =
  cz_state :: 'c
  cz_input :: bytes
  cz_input_set :: bool
  cz_avail_out :: nat
  cz_level :: int

definition cz_SetOutput :: "'c Compressor \<Rightarrow> nat \<Rightarrow> 'c Compressor" where
  "cz_SetOutput c amount = c\<lparr>cz_avail_out := min kSizeMax amount\<rparr>"

text \<open>The length is stored in 32 bits.\<close>

definition cz_SetInput :: "'c Compressor \<Rightarrow> bytes \<Rightarrow> 'c Compressor" where
  "cz_SetInput c base = c\<lparr>cz_input := take (length base mod 2 ^ 32) base, cz_input_set := True\<rparr>"

fun kMinOutput :: "Compression \<Rightarrow> nat" where
  "kMinOutput GZIP = 6"
| "kMinOutput _ = 1"

definition EnoughOutput :: "Compression \<Rightarrow> 'c Compressor \<Rightarrow> bool" where
  "EnoughOutput fmt c \<longleftrightarrow> kMinOutput fmt \<le> cz_avail_out c"

definition after_call :: "'c Compressor \<Rightarrow> 'c \<Rightarrow> bytes \<Rightarrow> bytes \<Rightarrow> 'c Compressor" where
  "after_call c z inp out = c\<lparr>cz_state := z, cz_input := inp, cz_avail_out := cz_avail_out c - length out\<rparr>"

definition GZipWrite_new :: "'c WriteLibrary \<Rightarrow> int \<Rightarrow> 'c Compressor result" where
  "GZipWrite_new lib level =
     (case deflateInit2 lib level of
        (code, z) \<Rightarrow>
          if code \<noteq> Z_OK then Inl GZException
          else Inr \<lparr>cz_state = z, cz_input = [], cz_input_set = False, cz_avail_out = 0, cz_level = level\<rparr>)"

definition GZipWrite_Reset :: "'c WriteLibrary \<Rightarrow> 'c Compressor \<Rightarrow> 'c Compressor result" where
  "GZipWrite_Reset lib c =
     (case deflateReset lib (cz_state c) of (code, z) \<Rightarrow> if code \<noteq> Z_OK then Inl GZException else Inr (c\<lparr>cz_state := z\<rparr>))"

definition GZipWrite_Process :: "'c WriteLibrary \<Rightarrow> 'c Compressor \<Rightarrow> ('c Compressor \<times> bytes) result option" where
  "GZipWrite_Process lib c =
     (if \<not> cz_input_set c then None
      else case deflate lib (cz_state c) False (cz_input c) (cz_avail_out c) of
        (z, inp, out, code) \<Rightarrow> Some (if code \<noteq> Z_OK then Inl GZException else Inr (after_call c z inp out, out)))"

definition GZipWrite_Finish :: "'c WriteLibrary \<Rightarrow> 'c Compressor \<Rightarrow> ('c Compressor \<times> bytes \<times> bool) result option" where
  "GZipWrite_Finish lib c =
     (if \<not> cz_input_set c then None
      else case deflate lib (cz_state c) True (cz_input c) (cz_avail_out c) of
        (z, inp, out, code) \<Rightarrow>
          Some (case code of
             Z_STREAM_END \<Rightarrow> Inr (after_call c z inp out, out, True)
           | Z_OK \<Rightarrow> Inr (after_call c z inp out, out, False)
           | Z_BUF_ERROR \<Rightarrow> Inr (after_call c z inp out, out, False)
           | _ \<Rightarrow> Inl GZException))"

definition BZipWrite_new :: "'c WriteLibrary \<Rightarrow> int \<Rightarrow> 'c Compressor result" where
  "BZipWrite_new lib level0 =
     (let level = min (max level0 1) 9
      in case BZ2_bzCompressInit lib level of
           (code, z) \<Rightarrow>
             map_sum id (\<lambda>_. \<lparr>cz_state = z, cz_input = [], cz_input_set = True, cz_avail_out = 0, cz_level = level\<rparr>) (BZip_HandleError code))"

definition BZipWrite_Reset :: "'c WriteLibrary \<Rightarrow> 'c Compressor \<Rightarrow> 'c Compressor result" where
  "BZipWrite_Reset lib c =
     (case BZip_HandleError (BZ2_bzCompressEnd lib (cz_state c)) of
        Inl e \<Rightarrow> Inl e
      | Inr _ \<Rightarrow>
          (case BZ2_bzCompressInit lib (cz_level c) of
             (code, z) \<Rightarrow> map_sum id (\<lambda>_. c\<lparr>cz_state := z\<rparr>) (BZip_HandleError code)))"

definition BZipWrite_Process :: "'c WriteLibrary \<Rightarrow> 'c Compressor \<Rightarrow> ('c Compressor \<times> bytes) result" where
  "BZipWrite_Process lib c =
     (case BZ2_bzCompress lib (cz_state c) False (cz_input c) (cz_avail_out c) of
        (z, inp, out, code) \<Rightarrow> map_sum id (\<lambda>_. (after_call c z inp out, out)) (BZip_HandleError code))"

definition BZipWrite_Finish :: "'c WriteLibrary \<Rightarrow> 'c Compressor \<Rightarrow> ('c Compressor \<times> bytes \<times> bool) result" where
  "BZipWrite_Finish lib c =
     (case BZ2_bzCompress lib (cz_state c) True (cz_input c) (cz_avail_out c) of
        (z, inp, out, code) \<Rightarrow>
          (case code of
             BZ_STREAM_END \<Rightarrow> Inr (after_call c z inp out, out, True)
           | BZ_FINISH_OK \<Rightarrow> Inr (after_call c z inp out, out, False)
           | _ \<Rightarrow> (case BZip_HandleError code of Inl e \<Rightarrow> Inl e | Inr _ \<Rightarrow> Inl BZException)))"

text \<open>The template parameter of \<^verbatim>\<open>WriteStream\<close> is one of the two classes.\<close>

fun cz_new :: "'c WriteLibrary \<Rightarrow> Compression \<Rightarrow> int \<Rightarrow> 'c Compressor result" where
  "cz_new lib GZIP = GZipWrite_new lib"
| "cz_new lib _ = BZipWrite_new lib"

fun cz_Reset :: "'c WriteLibrary \<Rightarrow> Compression \<Rightarrow> 'c Compressor \<Rightarrow> 'c Compressor result" where
  "cz_Reset lib GZIP = GZipWrite_Reset lib"
| "cz_Reset lib _ = BZipWrite_Reset lib"

fun cz_Process :: "'c WriteLibrary \<Rightarrow> Compression \<Rightarrow> 'c Compressor \<Rightarrow> ('c Compressor \<times> bytes) result option" where
  "cz_Process lib GZIP c = GZipWrite_Process lib c"
| "cz_Process lib _ c = Some (BZipWrite_Process lib c)"

fun cz_Finish :: "'c WriteLibrary \<Rightarrow> Compression \<Rightarrow> 'c Compressor \<Rightarrow> ('c Compressor \<times> bytes \<times> bool) result option" where
  "cz_Finish lib GZIP c = GZipWrite_Finish lib c"
| "cz_Finish lib _ c = Some (BZipWrite_Finish lib c)"

subsection \<open>\<open>WriteStream\<close>\<close>

text \<open>\<open>ws_buf\<close> is the part of \<^verbatim>\<open>buf_\<close> before \<^verbatim>\<open>NextOutput()\<close>.\<close>

record 'c WriteStream =
  ws_format :: Compression
  ws_buf_size :: nat
  ws_buf :: bytes
  ws_writer :: Desc
  ws_dirty :: bool
  ws_compressor :: "'c Compressor"

definition WriteStream_new :: "'c WriteLibrary \<Rightarrow> Compression \<Rightarrow> Desc \<Rightarrow> int \<Rightarrow> nat \<Rightarrow> 'c WriteStream result" where
  "WriteStream_new lib fmt out level compressed_buffer =
     (let buf_size = max (kMinOutput fmt) compressed_buffer
      in map_sum id
           (\<lambda>c. \<lparr>ws_format = fmt, ws_buf_size = buf_size, ws_buf = [], ws_writer = out, ws_dirty = True,
                 ws_compressor = cz_SetOutput c buf_size\<rparr>)
           (cz_new lib fmt level))"

definition ws_spill :: "'c WriteStream \<Rightarrow> 'c WriteStream result" where
  "ws_spill ws =
     (case FileWriter_write (ws_writer ws) (ws_buf ws) of
        (fd, Inl e) \<Rightarrow> Inl e
      | (fd, Inr _) \<Rightarrow>
          Inr (ws\<lparr>ws_writer := fd, ws_buf := [], ws_compressor := cz_SetOutput (ws_compressor ws) (ws_buf_size ws)\<rparr>))"

definition ws_room :: "'c WriteStream \<Rightarrow> 'c WriteStream result" where
  "ws_room ws = (if EnoughOutput (ws_format ws) (ws_compressor ws) then Inr ws else ws_spill ws)"

partial_function (option) ws_compress :: "'c WriteLibrary \<Rightarrow> 'c WriteStream \<Rightarrow> 'c WriteStream result option" where
  "ws_compress lib ws =
     (if cz_input (ws_compressor ws) = [] then Some (Inr ws)
      else case ws_room ws of
             Inl e \<Rightarrow> Some (Inl e)
           | Inr ws \<Rightarrow>
               (case cz_Process lib (ws_format ws) (ws_compressor ws) of
                  None \<Rightarrow> None
                | Some (Inl e) \<Rightarrow> Some (Inl e)
                | Some (Inr (c, out)) \<Rightarrow> ws_compress lib (ws\<lparr>ws_compressor := c, ws_buf := ws_buf ws @ out\<rparr>)))"

definition ws_write_chunk :: "'c WriteLibrary \<Rightarrow> 'c WriteStream \<Rightarrow> bytes \<Rightarrow> 'c WriteStream result option" where
  "ws_write_chunk lib ws data =
     map_option (map_sum id (\<lambda>ws. ws\<lparr>ws_dirty := True\<rparr>))
       (ws_compress lib (ws\<lparr>ws_compressor := cz_SetInput (ws_compressor ws) data\<rparr>))"

function WriteStream_write :: "'c WriteLibrary \<Rightarrow> 'c WriteStream \<Rightarrow> bytes \<Rightarrow> 'c WriteStream result option" where
  "WriteStream_write lib ws data =
     (if length data > kSizeMax then
        (case ws_write_chunk lib ws (take kSizeMax data) of
           Some (Inr ws) \<Rightarrow> WriteStream_write lib ws (drop kSizeMax data)
         | r \<Rightarrow> r)
      else ws_write_chunk lib ws data)"
  by pat_completeness auto
termination
  by (relation "measure (\<lambda>(_, _, data). length data)") (auto simp: kSizeMax_def)

declare WriteStream_write.simps [simp del]

partial_function (option) ws_finish :: "'c WriteLibrary \<Rightarrow> 'c WriteStream \<Rightarrow> 'c WriteStream result option" where
  "ws_finish lib ws =
     (case ws_room ws of
        Inl e \<Rightarrow> Some (Inl e)
      | Inr ws \<Rightarrow>
          (case cz_Finish lib (ws_format ws) (ws_compressor ws) of
             None \<Rightarrow> None
           | Some (Inl e) \<Rightarrow> Some (Inl e)
           | Some (Inr (c, out, fin)) \<Rightarrow>
               if fin then Some (Inr (ws\<lparr>ws_compressor := c, ws_buf := ws_buf ws @ out\<rparr>))
               else ws_finish lib (ws\<lparr>ws_compressor := c, ws_buf := ws_buf ws @ out\<rparr>)))"

text \<open>After the last call: write out the rest, flush, reset the compressor for the next member.\<close>

definition ws_close_member :: "'c WriteLibrary \<Rightarrow> 'c WriteStream \<Rightarrow> 'c WriteStream result" where
  "ws_close_member lib ws =
     (case (if ws_buf ws \<noteq> [] then FileWriter_write (ws_writer ws) (ws_buf ws) else (ws_writer ws, Inr ())) of
        (fd, Inl e) \<Rightarrow> Inl e
      | (fd, Inr _) \<Rightarrow>
          (case FileWriter_flush fd of
             (fd, Inl e) \<Rightarrow> Inl e
           | (fd, Inr _) \<Rightarrow>
               map_sum id
                 (\<lambda>c. ws\<lparr>ws_writer := fd, ws_buf := [], ws_compressor := cz_SetOutput c (ws_buf_size ws), ws_dirty := False\<rparr>)
                 (cz_Reset lib (ws_format ws) (ws_compressor ws))))"

definition WriteStream_flush :: "'c WriteLibrary \<Rightarrow> 'c WriteStream \<Rightarrow> 'c WriteStream result option" where
  "WriteStream_flush lib ws =
     (if \<not> ws_dirty ws then Some (Inr ws)
      else map_option (\<lambda>r. case r of Inl e \<Rightarrow> Inl e | Inr ws \<Rightarrow> ws_close_member lib ws) (ws_finish lib ws))"

subsection \<open>\<open>WriteCompressed\<close>\<close>

datatype 'c WriteBase = WriteUncompressed Desc | Stream "'c WriteStream"

definition kCompressedBuffer :: nat where
  "kCompressedBuffer = 4096"

fun WriteCompressed_new :: "'c WriteLibrary \<Rightarrow> Desc \<Rightarrow> Compression \<Rightarrow> 'c WriteBase result" where
  "WriteCompressed_new lib fd NONE = Inr (WriteUncompressed fd)"
| "WriteCompressed_new lib fd GZIP = map_sum id Stream (WriteStream_new lib GZIP fd 9 kCompressedBuffer)"
| "WriteCompressed_new lib fd BZIP = map_sum id Stream (WriteStream_new lib BZIP fd 9 kCompressedBuffer)"
| "WriteCompressed_new lib fd XZIP = Inl CompressedException"

fun plain_result :: "Desc \<times> unit result \<Rightarrow> 'c WriteBase result" where
  "plain_result (fd, r) = map_sum id (\<lambda>_. WriteUncompressed fd) r"

fun WriteCompressed_write :: "'c WriteLibrary \<Rightarrow> 'c WriteBase \<Rightarrow> bytes \<Rightarrow> 'c WriteBase result option" where
  "WriteCompressed_write lib (WriteUncompressed fd) data = Some (plain_result (FileWriter_write fd data))"
| "WriteCompressed_write lib (Stream ws) data = map_option (map_sum id Stream) (WriteStream_write lib ws data)"

fun WriteCompressed_flush :: "'c WriteLibrary \<Rightarrow> 'c WriteBase \<Rightarrow> 'c WriteBase result option" where
  "WriteCompressed_flush lib (WriteUncompressed fd) = Some (plain_result (FileWriter_flush fd))"
| "WriteCompressed_flush lib (Stream ws) = map_option (map_sum id Stream) (WriteStream_flush lib ws)"

text \<open>A client's calls; the destructor flushes.\<close>

datatype call = Write bytes | Flush

fun do_call :: "'c WriteLibrary \<Rightarrow> 'c WriteBase \<Rightarrow> call \<Rightarrow> 'c WriteBase result option" where
  "do_call lib w (Write data) = WriteCompressed_write lib w data"
| "do_call lib w Flush = WriteCompressed_flush lib w"

fun do_calls :: "'c WriteLibrary \<Rightarrow> 'c WriteBase \<Rightarrow> call list \<Rightarrow> 'c WriteBase result option" where
  "do_calls lib w [] = WriteCompressed_flush lib w"
| "do_calls lib w (x # xs) = (case do_call lib w x of Some (Inr w) \<Rightarrow> do_calls lib w xs | r \<Rightarrow> r)"

subsection \<open>\<open>GZCompress\<close>\<close>

text \<open>
  \<open>gz_size\<close> is \<^verbatim>\<open>to.size()\<close>, \<open>gz_done\<close> the part of the string before \<^verbatim>\<open>NextOutput()\<close>. The loop over
  \<^verbatim>\<open>Process\<close> runs only while there is too little room, which at first there is not: all the input is
  taken by \<^verbatim>\<open>Finish\<close>.
\<close>

record 'c GZCompression =
  gz_size :: nat
  gz_done :: bytes
  gz_writer :: "'c Compressor"

definition EnsureOutput :: "'c GZCompression \<Rightarrow> 'c GZCompression" where
  "EnsureOutput g =
     (if EnoughOutput GZIP (gz_writer g) then g
      else g\<lparr>gz_size := gz_size g + 4096, gz_writer := cz_SetOutput (gz_writer g) (gz_size g + 4096 - length (gz_done g))\<rparr>)"

partial_function (option) gz_process :: "'c WriteLibrary \<Rightarrow> 'c GZCompression \<Rightarrow> 'c GZCompression result option" where
  "gz_process lib g =
     (if EnoughOutput GZIP (gz_writer g) then Some (Inr g)
      else case GZipWrite_Process lib (gz_writer (EnsureOutput g)) of
             None \<Rightarrow> None
           | Some (Inl e) \<Rightarrow> Some (Inl e)
           | Some (Inr (c, out)) \<Rightarrow> gz_process lib ((EnsureOutput g)\<lparr>gz_writer := c, gz_done := gz_done g @ out\<rparr>))"

partial_function (option) gz_finish :: "'c WriteLibrary \<Rightarrow> 'c GZCompression \<Rightarrow> bytes result option" where
  "gz_finish lib g =
     (case GZipWrite_Finish lib (gz_writer (EnsureOutput g)) of
        None \<Rightarrow> None
      | Some (Inl e) \<Rightarrow> Some (Inl e)
      | Some (Inr (c, out, fin)) \<Rightarrow>
          if fin then Some (Inr (gz_done g @ out))
          else gz_finish lib ((EnsureOutput g)\<lparr>gz_writer := c, gz_done := gz_done g @ out\<rparr>))"

definition GZCompress :: "'c WriteLibrary \<Rightarrow> bytes \<Rightarrow> int \<Rightarrow> bytes result option" where
  "GZCompress lib from level =
     (case GZipWrite_new lib level of
        Inl e \<Rightarrow> Some (Inl e)
      | Inr c \<Rightarrow>
          (case gz_process lib \<lparr>gz_size = 4096, gz_done = [], gz_writer = cz_SetOutput (cz_SetInput c from) 4096\<rparr> of
             Some (Inr g) \<Rightarrow> gz_finish lib g
           | Some (Inl e) \<Rightarrow> Some (Inl e)
           | None \<Rightarrow> None))"

subsection \<open>What the libraries promise\<close>

text \<open>
  \<open>encoding z fin i o\<close> says that the library in state \<open>z\<close> has taken \<open>i\<close> and given out \<open>o\<close> since it was
  initialised; \<open>fin\<close> is the input left if its end was already announced, and then only that input
  may follow; \<open>complete i s\<close> says that \<open>s\<close> is a whole
  compressed stream for \<open>i\<close>. With enough room every call takes some of the input, gives some output,
  and lowers the work left.
\<close>

definition encoder_ok ::
  "('c \<Rightarrow> bool \<Rightarrow> bytes \<Rightarrow> nat \<Rightarrow> 'c \<times> bytes \<times> bytes \<times> 'code) \<Rightarrow> 'code \<Rightarrow> 'code set \<Rightarrow> 'code \<Rightarrow> nat \<Rightarrow>
   ('c \<Rightarrow> bytes option \<Rightarrow> bytes \<Rightarrow> bytes \<Rightarrow> bool) \<Rightarrow> (bytes \<Rightarrow> bytes \<Rightarrow> bool) \<Rightarrow> ('c \<Rightarrow> nat \<Rightarrow> nat) \<Rightarrow> bool"
where
  "encoder_ok call run_code more_codes end_code min_room encoding complete work \<longleftrightarrow>
     (\<forall>z inp room i o'. encoding z None i o' \<and> inp \<noteq> [] \<and> min_room \<le> room \<longrightarrow>
        (\<exists>z' inp' o1 used. call z False inp room = (z', inp', o1, run_code) \<and> inp = used @ inp' \<and> length o1 \<le> room \<and>
           encoding z' None (i @ used) (o' @ o1) \<and> work z' (length inp') < work z (length inp))) \<and>
     (\<forall>z fin inp room i o'. encoding z fin i o' \<and> fin \<in> {None, Some inp} \<and> min_room \<le> room \<longrightarrow>
        (\<exists>z' inp' o1 used code. call z True inp room = (z', inp', o1, code) \<and> inp = used @ inp' \<and> length o1 \<le> room \<and>
           (code = end_code \<and> inp' = [] \<and> complete (i @ inp) (o' @ o1) \<or>
            code \<in> more_codes \<and> encoding z' (Some inp') (i @ used) (o' @ o1) \<and> work z' (length inp') < work z (length inp))))"

definition write_library_ok ::
  "'c WriteLibrary \<Rightarrow> (Compression \<Rightarrow> 'c \<Rightarrow> bytes option \<Rightarrow> bytes \<Rightarrow> bytes \<Rightarrow> bool) \<Rightarrow> (Compression \<Rightarrow> bytes \<Rightarrow> bytes \<Rightarrow> bool) \<Rightarrow>
   ('c \<Rightarrow> nat \<Rightarrow> nat) \<Rightarrow> bool"
where
  "write_library_ok lib encoding complete work \<longleftrightarrow>
     encoder_ok (deflate lib) Z_OK {Z_OK, Z_BUF_ERROR} Z_STREAM_END 6 (encoding GZIP) (complete GZIP) work \<and>
     encoder_ok (BZ2_bzCompress lib) BZ_RUN_OK {BZ_FINISH_OK} BZ_STREAM_END 1 (encoding BZIP) (complete BZIP) work \<and>
     (\<forall>level. -1 \<le> level \<and> level \<le> 9 \<longrightarrow> (\<exists>z. deflateInit2 lib level = (Z_OK, z) \<and> encoding GZIP z None [] [])) \<and>
     (\<forall>z. \<exists>z'. deflateReset lib z = (Z_OK, z') \<and> encoding GZIP z' None [] []) \<and>
     (\<forall>level. 1 \<le> level \<and> level \<le> 9 \<longrightarrow> (\<exists>z. BZ2_bzCompressInit lib level = (BZ_OK, z) \<and> encoding BZIP z None [] [])) \<and>
     (\<forall>z. BZ2_bzCompressEnd lib z = BZ_OK)"

abbreviation stream_format :: "Compression \<Rightarrow> bool" where
  "stream_format fmt \<equiv> fmt = GZIP \<or> fmt = BZIP"

lemma encoder_run:
  assumes "encoder_ok call run_code more_codes end_code min_room encoding complete work" and "encoding z None i o'" and "inp \<noteq> []" and "min_room \<le> room"
  obtains z' inp' o1 used where "call z False inp room = (z', inp', o1, run_code)" and "inp = used @ inp'" and "length o1 \<le> room"
    and "encoding z' None (i @ used) (o' @ o1)" and "work z' (length inp') < work z (length inp)"
  using assms unfolding encoder_ok_def by meson

lemma encoder_finish:
  assumes "encoder_ok call run_code more_codes end_code min_room encoding complete work" and "encoding z fin i o'" and "fin \<in> {None, Some inp}" and "min_room \<le> room"
  obtains z' o1 where "call z True inp room = (z', [], o1, end_code)" and "length o1 \<le> room" and "complete (i @ inp) (o' @ o1)"
    | z' inp' o1 used code where "call z True inp room = (z', inp', o1, code)" and "code \<in> more_codes" and "inp = used @ inp'"
      and "length o1 \<le> room" and "encoding z' (Some inp') (i @ used) (o' @ o1)" and "work z' (length inp') < work z (length inp)"
proof -
  obtain z' inp' o1 used code where k: "call z True inp room = (z', inp', o1, code)" "inp = used @ inp'" "length o1 \<le> room"
    and c: "code = end_code \<and> inp' = [] \<and> complete (i @ inp) (o' @ o1) \<or>
       code \<in> more_codes \<and> encoding z' (Some inp') (i @ used) (o' @ o1) \<and> work z' (length inp') < work z (length inp)"
    using assms(1) [unfolded encoder_ok_def, THEN conjunct2, rule_format, of z fin i o' inp room] assms(2-4) by blast
  from c show thesis
  proof (elim disjE conjE)
    assume "code = end_code" "inp' = []" "complete (i @ inp) (o' @ o1)"
    then show thesis using that(1) k by blast
  qed (rule that(2) [OF k(1) _ k(2,3)])
qed

lemma cz_Process_good:
  assumes "write_library_ok lib encoding complete work" and "stream_format fmt" and "encoding fmt (cz_state c) None i o'"
    and "cz_input c \<noteq> []" and "EnoughOutput fmt c" and "cz_input_set c"
  obtains z' inp' o1 used where "cz_Process lib fmt c = Some (Inr (after_call c z' inp' o1, o1))" and "cz_input c = used @ inp'"
    and "length o1 \<le> cz_avail_out c" and "encoding fmt z' None (i @ used) (o' @ o1)"
    and "work z' (length inp') < work (cz_state c) (length (cz_input c))"
proof (cases "fmt = GZIP")
  case True
  have e: "encoder_ok (deflate lib) Z_OK {Z_OK, Z_BUF_ERROR} Z_STREAM_END 6 (encoding GZIP) (complete GZIP) work"
    using assms(1) by (simp add: write_library_ok_def)
  have r: "6 \<le> cz_avail_out c" using assms(5) by (simp add: True EnoughOutput_def)
  obtain z' inp' o1 used where k: "deflate lib (cz_state c) False (cz_input c) (cz_avail_out c) = (z', inp', o1, Z_OK)"
    "cz_input c = used @ inp'" "length o1 \<le> cz_avail_out c" "encoding GZIP z' None (i @ used) (o' @ o1)"
    "work z' (length inp') < work (cz_state c) (length (cz_input c))"
    using encoder_run [OF e assms(3) [unfolded True] assms(4) r] by metis
  have "cz_Process lib fmt c = Some (Inr (after_call c z' inp' o1, o1))" using k(1) assms(6) by (simp add: True GZipWrite_Process_def)
  then show thesis using that k(2-5) True by blast
next
  case False
  then have b: "fmt = BZIP" using assms(2) by simp
  have e: "encoder_ok (BZ2_bzCompress lib) BZ_RUN_OK {BZ_FINISH_OK} BZ_STREAM_END 1 (encoding BZIP) (complete BZIP) work"
    using assms(1) by (simp add: write_library_ok_def)
  have r: "1 \<le> cz_avail_out c" using assms(5) by (simp add: b EnoughOutput_def)
  obtain z' inp' o1 used where k: "BZ2_bzCompress lib (cz_state c) False (cz_input c) (cz_avail_out c) = (z', inp', o1, BZ_RUN_OK)"
    "cz_input c = used @ inp'" "length o1 \<le> cz_avail_out c" "encoding BZIP z' None (i @ used) (o' @ o1)"
    "work z' (length inp') < work (cz_state c) (length (cz_input c))"
    using encoder_run [OF e assms(3) [unfolded b] assms(4) r] by metis
  have "cz_Process lib fmt c = Some (Inr (after_call c z' inp' o1, o1))" using k(1) by (simp add: b BZipWrite_Process_def)
  then show thesis using that k(2-5) b by blast
qed

lemma cz_Finish_good:
  assumes "write_library_ok lib encoding complete work" and "stream_format fmt" and "encoding fmt (cz_state c) fin i o'" and "fin \<in> {None, Some (cz_input c)}" and "EnoughOutput fmt c"
    and "cz_input_set c"
  obtains z' o1 where "cz_Finish lib fmt c = Some (Inr (after_call c z' [] o1, o1, True))" and "length o1 \<le> cz_avail_out c"
      and "complete fmt (i @ cz_input c) (o' @ o1)"
    | z' inp' o1 used where "cz_Finish lib fmt c = Some (Inr (after_call c z' inp' o1, o1, False))" and "cz_input c = used @ inp'"
      and "length o1 \<le> cz_avail_out c" and "encoding fmt z' (Some inp') (i @ used) (o' @ o1)"
      and "work z' (length inp') < work (cz_state c) (length (cz_input c))"
proof (cases "fmt = GZIP")
  case True
  have e: "encoder_ok (deflate lib) Z_OK {Z_OK, Z_BUF_ERROR} Z_STREAM_END 6 (encoding GZIP) (complete GZIP) work"
    using assms(1) by (simp add: write_library_ok_def)
  have r: "6 \<le> cz_avail_out c" using assms(5) by (simp add: True EnoughOutput_def)
  from e assms(3) [unfolded True] assms(4) r show thesis
    by (cases rule: encoder_finish [where inp = "cz_input c"]) (use that assms(6) in \<open>auto simp: True GZipWrite_Finish_def\<close>)
next
  case False
  then have b: "fmt = BZIP" using assms(2) by simp
  have e: "encoder_ok (BZ2_bzCompress lib) BZ_RUN_OK {BZ_FINISH_OK} BZ_STREAM_END 1 (encoding BZIP) (complete BZIP) work"
    using assms(1) by (simp add: write_library_ok_def)
  have r: "1 \<le> cz_avail_out c" using assms(5) by (simp add: b EnoughOutput_def)
  from e assms(3) [unfolded b] assms(4) r show thesis
    by (cases rule: encoder_finish [where inp = "cz_input c"]) (use that in \<open>auto simp: b BZipWrite_Finish_def\<close>)
qed

lemma cz_new_good:
  assumes "write_library_ok lib encoding complete work" and "stream_format fmt" and "1 \<le> level" and "level \<le> 9"
  obtains z where "cz_new lib fmt level = Inr \<lparr>cz_state = z, cz_input = [], cz_input_set = (fmt \<noteq> GZIP), cz_avail_out = 0, cz_level = level\<rparr>" and "encoding fmt z None [] []"
proof (cases "fmt = GZIP")
  case True
  obtain z where "deflateInit2 lib level = (Z_OK, z)" "encoding GZIP z None [] []"
    using assms unfolding write_library_ok_def by (meson order_trans zero_le_one neg_le_0_iff_le)
  then show thesis by (intro that [of z]) (simp_all add: True GZipWrite_new_def)
next
  case False
  then have b: "fmt = BZIP" using assms(2) by simp
  obtain z where "BZ2_bzCompressInit lib level = (BZ_OK, z)" "encoding BZIP z None [] []"
    using assms unfolding write_library_ok_def by meson
  then show thesis using assms(3,4) by (intro that [of z]) (simp_all add: b BZipWrite_new_def Let_def min_def max_def)
qed

lemma cz_Reset_good:
  assumes "write_library_ok lib encoding complete work" and "stream_format fmt" and "1 \<le> cz_level c" and "cz_level c \<le> 9"
  obtains z where "cz_Reset lib fmt c = Inr (c\<lparr>cz_state := z\<rparr>)" and "encoding fmt z None [] []"
proof (cases "fmt = GZIP")
  case True
  obtain z where "deflateReset lib (cz_state c) = (Z_OK, z)" "encoding GZIP z None [] []"
    using assms unfolding write_library_ok_def by meson
  then show thesis by (intro that [of z]) (simp_all add: True GZipWrite_Reset_def)
next
  case False
  then have b: "fmt = BZIP" using assms(2) by simp
  obtain z where "BZ2_bzCompressInit lib (cz_level c) = (BZ_OK, z)" "encoding BZIP z None [] []"
    using assms unfolding write_library_ok_def by meson
  moreover have "BZ2_bzCompressEnd lib (cz_state c) = BZ_OK" using assms(1) by (simp add: write_library_ok_def)
  ultimately show thesis by (intro that [of z]) (simp_all add: b BZipWrite_Reset_def)
qed

subsection \<open>The stream\<close>

abbreviation steady :: "Desc \<Rightarrow> bool" where
  "steady fd \<equiv> no_failure (d_answers fd) \<and> SyncFailed \<notin> set (d_syncs fd)"

lemma FileWriter_write_steady:
  assumes "steady fd"
  obtains fd' where "FileWriter_write fd data = (fd', Inr ())" and "steady fd'" and "d_out fd' = d_out fd @ data"
proof -
  have w: "w_write FileWriter fd data = FileWriter_write fd data" by (simp add: FileWriter_def)
  obtain fd' r where f: "FileWriter_write fd data = (fd', r)" by fastforce
  have "r = Inr ()" "steady fd'" using file_writer.write_reliable [OF assms, of data] f w by simp_all
  moreover have "d_out fd' = d_out fd @ data"
    using file_writer.write_prefix [of fd data] f w \<open>r = Inr ()\<close> by auto
  ultimately show thesis using that f by blast
qed

lemma FileWriter_flush_steady:
  assumes "steady fd"
  obtains fd' where "FileWriter_flush fd = (fd', Inr ())" and "steady fd'" and "d_out fd' = d_out fd"
proof -
  have w: "w_flush FileWriter fd = FileWriter_flush fd" by (simp add: FileWriter_def)
  obtain fd' r where f: "FileWriter_flush fd = (fd', r)" by fastforce
  then show thesis using that file_writer.flush_reliable [OF assms] file_writer.flush_out [of fd] w by simp
qed

text \<open>The buffer and the descriptor hold \<open>out\<close> together; the room of the compressor is that of the buffer.\<close>

definition ws_ok :: "'c WriteStream \<Rightarrow> bytes \<Rightarrow> bool" where
  "ws_ok ws out \<longleftrightarrow>
     stream_format (ws_format ws) \<and> kMinOutput (ws_format ws) \<le> ws_buf_size ws \<and> ws_buf_size ws \<le> kSizeMax \<and>
     length (ws_buf ws) \<le> ws_buf_size ws \<and> cz_avail_out (ws_compressor ws) = ws_buf_size ws - length (ws_buf ws) \<and>
     steady (ws_writer ws) \<and> 1 \<le> cz_level (ws_compressor ws) \<and> cz_level (ws_compressor ws) \<le> 9 \<and>
     d_out (ws_writer ws) @ ws_buf ws = out"

abbreviation with_room :: "'c WriteStream \<Rightarrow> Desc \<Rightarrow> bytes \<Rightarrow> nat \<Rightarrow> 'c WriteStream" where
  "with_room ws fd buf room \<equiv> ws\<lparr>ws_writer := fd, ws_buf := buf, ws_compressor := (ws_compressor ws)\<lparr>cz_avail_out := room\<rparr>\<rparr>"

lemma ws_room_good:
  assumes ok: "ws_ok ws out"
  obtains fd buf room where "ws_room ws = Inr (with_room ws fd buf room)" and "ws_ok (with_room ws fd buf room) out"
    and "EnoughOutput (ws_format ws) (ws_compressor (with_room ws fd buf room))"
proof (cases "EnoughOutput (ws_format ws) (ws_compressor ws)")
  case True
  then show thesis using ok by (intro that [where fd = "ws_writer ws" and buf = "ws_buf ws" and room = "cz_avail_out (ws_compressor ws)"]) (simp_all add: ws_room_def)
next
  case False
  obtain fd where "FileWriter_write (ws_writer ws) (ws_buf ws) = (fd, Inr ())" "steady fd" "d_out fd = out"
    using FileWriter_write_steady [of "ws_writer ws" "ws_buf ws"] ok by (auto simp: ws_ok_def)
  then show thesis
    using ok False
    by (intro that [where fd = fd and buf = "[]" and room = "ws_buf_size ws"]) (auto simp: ws_room_def ws_spill_def ws_ok_def EnoughOutput_def cz_SetOutput_def)
qed

lemma ws_ok_call:
  assumes "ws_ok ws out" and "length o1 \<le> cz_avail_out (ws_compressor ws)"
  shows "ws_ok (ws\<lparr>ws_compressor := after_call (ws_compressor ws) z inp o1, ws_buf := ws_buf ws @ o1\<rparr>) (out @ o1)"
  using assms by (auto simp: ws_ok_def after_call_def)

lemma ws_compress_good:
  assumes lib: "write_library_ok lib encoding complete work" and "ws_ok ws (base @ o')"
    and "encoding (ws_format ws) (cz_state (ws_compressor ws)) None i o'" and "cz_input_set (ws_compressor ws)"
  shows "\<exists>ws' o1. ws_compress lib ws = Some (Inr ws') \<and> ws_ok ws' (base @ o1) \<and> ws_format ws' = ws_format ws \<and>
    cz_input_set (ws_compressor ws') \<and> cz_input (ws_compressor ws') = [] \<and> encoding (ws_format ws) (cz_state (ws_compressor ws')) None (i @ cz_input (ws_compressor ws)) o1"
  using assms(2-4)
proof (induction "work (cz_state (ws_compressor ws)) (length (cz_input (ws_compressor ws)))" arbitrary: ws i o' rule: less_induct)
  case less
  show ?case
  proof (cases "cz_input (ws_compressor ws) = []")
    case True
    then show ?thesis using less.prems by (subst ws_compress.simps) auto
  next
    case False
    obtain fd buf room where r: "ws_room ws = Inr (with_room ws fd buf room)" "ws_ok (with_room ws fd buf room) (base @ o')"
      "EnoughOutput (ws_format ws) (ws_compressor (with_room ws fd buf room))"
      using ws_room_good [OF less.prems(1)] by blast
    let ?v = "with_room ws fd buf room"
    have f: "stream_format (ws_format ws)" and s: "encoding (ws_format ws) (cz_state (ws_compressor ?v)) None i o'"
      and n: "cz_input (ws_compressor ?v) \<noteq> []" and set: "cz_input_set (ws_compressor ?v)"
      using less.prems False by (simp_all add: ws_ok_def)
    obtain z inp o1 used where p: "cz_Process lib (ws_format ws) (ws_compressor ?v) = Some (Inr (after_call (ws_compressor ?v) z inp o1, o1))"
      "cz_input (ws_compressor ?v) = used @ inp" "length o1 \<le> cz_avail_out (ws_compressor ?v)"
      "encoding (ws_format ws) z None (i @ used) (o' @ o1)"
      "work z (length inp) < work (cz_state (ws_compressor ?v)) (length (cz_input (ws_compressor ?v)))"
      by (rule cz_Process_good [OF lib f s n r(3) set])
    let ?w = "?v\<lparr>ws_compressor := after_call (ws_compressor ?v) z inp o1, ws_buf := ws_buf ?v @ o1\<rparr>"
    have w: "cz_state (ws_compressor ?w) = z" "cz_input (ws_compressor ?w) = inp" "ws_format ?w = ws_format ws" "cz_input_set (ws_compressor ?w)"
      using set by (simp_all add: after_call_def)
    have "ws_compress lib ws = ws_compress lib ?w" by (subst ws_compress.simps) (use p(1) False in \<open>simp add: r(1)\<close>)
    moreover have "ws_ok ?w (base @ (o' @ o1))" using ws_ok_call [OF r(2) p(3)] by simp
    ultimately show ?thesis using less.hyps [of ?w "o' @ o1" "i @ used"] w p(2,4,5) by simp
  qed
qed

lemma ws_finish_good:
  assumes lib: "write_library_ok lib encoding complete work" and "ws_ok ws (base @ o')"
    and "encoding (ws_format ws) (cz_state (ws_compressor ws)) fin i o'" and "fin \<in> {None, Some (cz_input (ws_compressor ws))}"
    and "cz_input_set (ws_compressor ws)"
  shows "\<exists>ws' o1. ws_finish lib ws = Some (Inr ws') \<and> ws_ok ws' (base @ o1) \<and> ws_format ws' = ws_format ws \<and>
    cz_input_set (ws_compressor ws') \<and> cz_input (ws_compressor ws') = [] \<and> complete (ws_format ws) (i @ cz_input (ws_compressor ws)) o1"
  using assms(2-5)
proof (induction "work (cz_state (ws_compressor ws)) (length (cz_input (ws_compressor ws)))" arbitrary: ws fin i o' rule: less_induct)
  case less
  obtain fd buf room where r: "ws_room ws = Inr (with_room ws fd buf room)" "ws_ok (with_room ws fd buf room) (base @ o')"
    "EnoughOutput (ws_format ws) (ws_compressor (with_room ws fd buf room))"
    using ws_room_good [OF less.prems(1)] by blast
  let ?v = "with_room ws fd buf room"
  have f: "stream_format (ws_format ws)" and s: "encoding (ws_format ws) (cz_state (ws_compressor ?v)) fin i o'"
    and fin: "fin \<in> {None, Some (cz_input (ws_compressor ?v))}" and set: "cz_input_set (ws_compressor ?v)"
    using less.prems by (simp_all add: ws_ok_def)
  from cz_Finish_good [OF lib f s fin r(3) set] show ?case
  proof cases
    case (1 z o1)
    let ?w = "?v\<lparr>ws_compressor := after_call (ws_compressor ?v) z [] o1, ws_buf := ws_buf ?v @ o1\<rparr>"
    have "ws_finish lib ws = Some (Inr ?w)" by (subst ws_finish.simps) (use 1 in \<open>simp add: r(1)\<close>)
    moreover have "ws_ok ?w (base @ (o' @ o1))" using ws_ok_call [OF r(2) 1(2)] by simp
    ultimately show ?thesis using 1(3) set by (intro exI [of _ ?w] exI [of _ "o' @ o1"]) (simp add: after_call_def)
  next
    case (2 z inp o1 used)
    let ?w = "?v\<lparr>ws_compressor := after_call (ws_compressor ?v) z inp o1, ws_buf := ws_buf ?v @ o1\<rparr>"
    have w: "cz_state (ws_compressor ?w) = z" "cz_input (ws_compressor ?w) = inp" "ws_format ?w = ws_format ws" "cz_input_set (ws_compressor ?w)"
      using set by (simp_all add: after_call_def)
    have "ws_finish lib ws = ws_finish lib ?w" by (subst ws_finish.simps) (use 2 in \<open>simp add: r(1)\<close>)
    moreover have "ws_ok ?w (base @ (o' @ o1))" using ws_ok_call [OF r(2) 2(3)] by simp
    ultimately show ?thesis using less.hyps [of ?w "o' @ o1" "Some inp" "i @ used"] w 2(2,4,5) by simp
  qed
qed

lemma ws_close_member_good:
  assumes lib: "write_library_ok lib encoding complete work" and ok: "ws_ok ws out"
  shows "\<exists>ws'. ws_close_member lib ws = Inr ws' \<and> ws_ok ws' out \<and> ws_format ws' = ws_format ws \<and> ws_buf ws' = [] \<and> \<not> ws_dirty ws' \<and>
    cz_input (ws_compressor ws') = cz_input (ws_compressor ws) \<and> cz_input_set (ws_compressor ws') = cz_input_set (ws_compressor ws) \<and> encoding (ws_format ws) (cz_state (ws_compressor ws')) None [] []"
proof -
  have s: "steady (ws_writer ws)" using ok by (simp add: ws_ok_def)
  obtain fd where fd: "(if ws_buf ws \<noteq> [] then FileWriter_write (ws_writer ws) (ws_buf ws) else (ws_writer ws, Inr ())) = (fd, Inr ())"
    "steady fd" "d_out fd = d_out (ws_writer ws) @ ws_buf ws"
  proof (cases "ws_buf ws = []")
    case True
    then show thesis using that s by simp
  next
    case False
    then show thesis using FileWriter_write_steady [OF s, of "ws_buf ws"] that by (metis (full_types))
  qed
  obtain fd' where fd': "FileWriter_flush fd = (fd', Inr ())" "steady fd'" "d_out fd' = d_out fd"
    using FileWriter_flush_steady [OF fd(2)] by blast
  have p: "stream_format (ws_format ws)" "1 \<le> cz_level (ws_compressor ws)" "cz_level (ws_compressor ws) \<le> 9"
    using ok by (simp_all add: ws_ok_def)
  obtain z where z: "cz_Reset lib (ws_format ws) (ws_compressor ws) = Inr ((ws_compressor ws)\<lparr>cz_state := z\<rparr>)"
    "encoding (ws_format ws) z None [] []"
    using cz_Reset_good [OF lib p] by blast
  show ?thesis using ok fd(3) fd' z unfolding ws_close_member_def fd(1) by (simp add: ws_ok_def cz_SetOutput_def)
qed

text \<open>
  Between two calls: the members written so far, each a whole compressed stream \<open>snd m\<close> for the data
  \<open>fst m\<close>, and the data of the member being written.
\<close>

definition stream_inv ::
  "(Compression \<Rightarrow> 'c \<Rightarrow> bytes option \<Rightarrow> bytes \<Rightarrow> bytes \<Rightarrow> bool) \<Rightarrow> (Compression \<Rightarrow> bytes \<Rightarrow> bytes \<Rightarrow> bool) \<Rightarrow>
   'c WriteStream \<Rightarrow> bytes \<Rightarrow> (bytes \<times> bytes) list \<Rightarrow> bytes \<Rightarrow> bool"
where
  "stream_inv encoding complete ws base ms data \<longleftrightarrow>
     (\<forall>m\<in>set ms. complete (ws_format ws) (fst m) (snd m)) \<and> cz_input (ws_compressor ws) = [] \<and>
     (\<exists>o'. ws_ok ws (base @ concat (map snd ms) @ o') \<and> encoding (ws_format ws) (cz_state (ws_compressor ws)) None data o' \<and>
        (\<not> ws_dirty ws \<longrightarrow> data = [] \<and> o' = [] \<and> ws_buf ws = []))"

lemma ws_write_chunk_good:
  assumes lib: "write_library_ok lib encoding complete work" and inv: "stream_inv encoding complete ws base ms data" and "length d \<le> kSizeMax"
  shows "\<exists>ws'. ws_write_chunk lib ws d = Some (Inr ws') \<and> stream_inv encoding complete ws' base ms (data @ d) \<and> ws_format ws' = ws_format ws \<and>
    cz_input_set (ws_compressor ws')"
proof -
  obtain o' where o': "ws_ok ws ((base @ concat (map snd ms)) @ o')" "encoding (ws_format ws) (cz_state (ws_compressor ws)) None data o'"
    using inv by (auto simp: stream_inv_def)
  let ?v = "ws\<lparr>ws_compressor := cz_SetInput (ws_compressor ws) d\<rparr>"
  have d: "cz_input (ws_compressor ?v) = d" using assms(3) by (simp add: cz_SetInput_def kSizeMax_def)
  have "ws_ok ?v ((base @ concat (map snd ms)) @ o')" "encoding (ws_format ?v) (cz_state (ws_compressor ?v)) None data o'"
    "cz_input_set (ws_compressor ?v)"
    using o' by (simp_all add: ws_ok_def cz_SetInput_def)
  from ws_compress_good [OF lib this] obtain w o1 where w: "ws_compress lib ?v = Some (Inr w)" "ws_ok w (base @ concat (map snd ms) @ o1)"
    "ws_format w = ws_format ws" "cz_input_set (ws_compressor w)" "cz_input (ws_compressor w) = []" "encoding (ws_format ws) (cz_state (ws_compressor w)) None (data @ d) o1"
    unfolding d by auto
  then show ?thesis using inv by (auto simp: ws_write_chunk_def stream_inv_def ws_ok_def)
qed

lemma WriteStream_write_good:
  assumes lib: "write_library_ok lib encoding complete work" and "stream_inv encoding complete ws base ms data"
  shows "\<exists>ws'. WriteStream_write lib ws d = Some (Inr ws') \<and> stream_inv encoding complete ws' base ms (data @ d) \<and> ws_format ws' = ws_format ws \<and>
    cz_input_set (ws_compressor ws')"
  using assms
proof (induction lib ws d arbitrary: data rule: WriteStream_write.induct)
  case (1 lib ws d)
  show ?case
  proof (cases "length d > kSizeMax")
    case True
    obtain v where v: "ws_write_chunk lib ws (take kSizeMax d) = Some (Inr v)" "stream_inv encoding complete v base ms (data @ take kSizeMax d)"
      "ws_format v = ws_format ws"
      using ws_write_chunk_good [OF 1(2,3), of "take kSizeMax d"] by auto
    have "WriteStream_write lib ws d = WriteStream_write lib v (drop kSizeMax d)"
      using True by (simp add: WriteStream_write.simps [of lib ws d] v(1))
    then show ?thesis using 1(1) [OF True v(1) refl 1(2) v(2)] v(3) by simp
  next
    case False
    then show ?thesis using ws_write_chunk_good [OF 1(2,3), of d] by (simp add: WriteStream_write.simps [of lib ws d])
  qed
qed

lemma WriteStream_flush_good:
  assumes lib: "write_library_ok lib encoding complete work" and inv: "stream_inv encoding complete ws base ms data" and set: "cz_input_set (ws_compressor ws)"
  shows "\<exists>ws' ms'. WriteStream_flush lib ws = Some (Inr ws') \<and> stream_inv encoding complete ws' base ms' [] \<and> ws_format ws' = ws_format ws \<and> cz_input_set (ws_compressor ws') \<and>
    concat (map fst ms') = concat (map fst ms) @ data \<and> d_out (ws_writer ws') = base @ concat (map snd ms')"
proof (cases "ws_dirty ws")
  case False
  then show ?thesis
    using inv set by (intro exI [of _ ws] exI [of _ ms]) (auto simp: WriteStream_flush_def stream_inv_def ws_ok_def)
next
  case True
  obtain o' where o': "ws_ok ws ((base @ concat (map snd ms)) @ o')" "encoding (ws_format ws) (cz_state (ws_compressor ws)) None data o'"
    using inv by (auto simp: stream_inv_def)
  obtain v o1 where v: "ws_finish lib ws = Some (Inr v)" "ws_ok v ((base @ concat (map snd ms)) @ o1)" "ws_format v = ws_format ws"
    "cz_input (ws_compressor v) = []" "complete (ws_format ws) data o1" "cz_input_set (ws_compressor v)"
    using ws_finish_good [OF lib o' insertI1 set] inv by (auto simp: stream_inv_def)
  obtain w where w: "ws_close_member lib v = Inr w" "ws_ok w ((base @ concat (map snd ms)) @ o1)" "ws_format w = ws_format v" "ws_buf w = []"
    "\<not> ws_dirty w" "cz_input (ws_compressor w) = []" "encoding (ws_format v) (cz_state (ws_compressor w)) None [] []" "cz_input_set (ws_compressor w)"
    using ws_close_member_good [OF lib v(2)] v(4,6) by auto
  have "stream_inv encoding complete w base (ms @ [(data, o1)]) []"
    using inv v(3,5) w(2-7) by (auto simp: stream_inv_def)
  moreover have "d_out (ws_writer w) = base @ concat (map snd (ms @ [(data, o1)]))" using w(2,4) by (simp add: ws_ok_def)
  ultimately show ?thesis
    using True v(1,3) w(1,3,8) by (intro exI [of _ w] exI [of _ "ms @ [(data, o1)]"]) (simp add: WriteStream_flush_def)
qed

subsection \<open>Reading back\<close>

fun magic :: "Compression \<Rightarrow> MagicResult" where
  "magic GZIP = UTIL_GZIP"
| "magic BZIP = UTIL_BZIP"
| "magic _ = UTIL_UNKNOWN"

text \<open>The decoder understands what the encoder wrote, whatever follows it.\<close>

definition reads_back ::
  "(Compression \<Rightarrow> bytes \<Rightarrow> bytes \<Rightarrow> bool) \<Rightarrow> 'z Library \<Rightarrow> (MagicResult \<Rightarrow> 'z \<Rightarrow> bytes \<Rightarrow> bytes \<Rightarrow> bytes \<Rightarrow> bool) \<Rightarrow> bool"
where
  "reads_back complete rlib decodes \<longleftrightarrow>
     (\<forall>fmt data s rest. stream_format fmt \<and> complete fmt data s \<longrightarrow>
        DetectMagic (s @ rest) = magic fmt \<and> decodes (magic fmt) (init_state rlib (magic fmt)) (s @ rest) data rest)"

fun descriptor :: "'c WriteBase \<Rightarrow> Desc" where
  "descriptor (WriteUncompressed fd) = fd"
| "descriptor (Stream ws) = ws_writer ws"

fun data_of :: "call list \<Rightarrow> bytes" where
  "data_of [] = []"
| "data_of (Write data # xs) = data @ data_of xs"
| "data_of (Flush # xs) = data_of xs"

lemma reads_back_members:
  assumes "reads_back complete rlib decodes" and "stream_format fmt" and "\<forall>m\<in>set ms. complete fmt (fst m) (snd m)"
  shows "members rlib decodes (concat (map snd ms)) (concat (map fst ms))"
  using assms(3)
proof (induction ms)
  case (Cons m ms)
  let ?rest = "concat (map snd ms)"
  have d: "DetectMagic (snd m @ ?rest) = magic fmt" "decodes (magic fmt) (init_state rlib (magic fmt)) (snd m @ ?rest) (fst m) ?rest"
    using assms(1,2) Cons.prems unfolding reads_back_def by auto
  have "magic fmt \<noteq> UTIL_UNKNOWN" using assms(2) by auto
  then have "members rlib decodes (snd m @ ?rest) (fst m @ concat (map fst ms))"
    using d Cons by (intro members_stream [where rest = ?rest]) simp_all
  then show ?case by simp
qed (simp add: members_Nil)

lemma reads_back_content:
  assumes "reads_back complete rlib decodes" and "stream_format fmt" and "\<forall>m\<in>set ms. complete fmt (fst m) (snd m)"
  shows "file_content rlib decodes (concat (map snd ms)) (concat (map fst ms))"
proof (cases ms)
  case Nil
  then show ?thesis by (simp add: file_content_def)
next
  case (Cons m ms')
  have "DetectMagic (snd m @ concat (map snd ms')) = magic fmt" using assms Cons unfolding reads_back_def by auto
  moreover have "magic fmt \<noteq> UTIL_UNKNOWN" using assms(2) by auto
  ultimately show ?thesis using reads_back_members [OF assms] Cons by (simp add: file_content_def)
qed

text \<open>Reading a file from its beginning gives back some data.\<close>

definition read_gives :: "'z Library \<Rightarrow> bytes \<Rightarrow> bytes \<Rightarrow> bool" where
  "read_gives rlib file data \<longleftrightarrow>
     (\<forall>fd amount. d_rest fd = file \<and> fd_ok fd \<longrightarrow>
        (\<exists>rc rc'. ReadCompressed_Reset rlib fd = Inr rc \<and> ReadCompressed_ReadOrEOF rlib rc amount [] = Some (Inr (take amount data, rc'))))"

lemma file_content_read:
  assumes "library_ok rlib decodes" and "file_content rlib decodes file data"
  shows "read_gives rlib file data"
  unfolding read_gives_def
proof (intro allI impI, elim conjE)
  fix fd :: Desc and amount
  assume fd: "d_rest fd = file" "fd_ok fd"
  obtain rc where "ReadCompressed_Reset rlib fd = Inr rc" "holds rlib decodes (rc_internal rc) data"
    using ReadCompressed_Reset_good [OF assms(1) fd(2)] assms(2) fd(1) by blast
  then show "\<exists>rc rc'. ReadCompressed_Reset rlib fd = Inr rc \<and> ReadCompressed_ReadOrEOF rlib rc amount [] = Some (Inr (take amount data, rc'))"
    using ReadCompressed_ReadOrEOF_good [OF assms(1), of rc data amount "[]"] by auto
qed

text \<open>The input of the compressor has been set, or the first call sets it.\<close>

definition input_first :: "'c WriteStream \<Rightarrow> call list \<Rightarrow> bool" where
  "input_first ws xs \<longleftrightarrow> cz_input_set (ws_compressor ws) \<or> (\<exists>d ys. xs = Write d # ys)"

lemma do_calls_stream:
  assumes lib: "write_library_ok lib encoding complete work" and "stream_inv encoding complete ws base ms data" and "input_first ws xs"
  shows "\<exists>ws' ms'. do_calls lib (Stream ws) xs = Some (Inr (Stream ws')) \<and> d_out (ws_writer ws') = base @ concat (map snd ms') \<and>
    (\<forall>m\<in>set ms'. complete (ws_format ws) (fst m) (snd m)) \<and> concat (map fst ms') = concat (map fst ms) @ data @ data_of xs"
  using assms(2,3)
proof (induction xs arbitrary: ws ms data rule: data_of.induct)
  case 1
  obtain ws' ms' where f: "WriteStream_flush lib ws = Some (Inr ws')" "stream_inv encoding complete ws' base ms' []" "ws_format ws' = ws_format ws"
    "concat (map fst ms') = concat (map fst ms) @ data" "d_out (ws_writer ws') = base @ concat (map snd ms')"
    using WriteStream_flush_good [OF lib 1(1)] 1(2) by (auto simp: input_first_def)
  then show ?case by (intro exI [of _ ws'] exI [of _ ms']) (simp add: stream_inv_def)
next
  case (2 d xs)
  obtain ws' where w: "WriteStream_write lib ws d = Some (Inr ws')" "stream_inv encoding complete ws' base ms (data @ d)" "ws_format ws' = ws_format ws"
    "cz_input_set (ws_compressor ws')"
    using WriteStream_write_good [OF lib 2(2)] by blast
  then show ?case using 2(1) [OF w(2)] by (simp add: input_first_def)
next
  case (3 xs)
  obtain ws' ms' where f: "WriteStream_flush lib ws = Some (Inr ws')" "stream_inv encoding complete ws' base ms' []" "ws_format ws' = ws_format ws"
    "concat (map fst ms') = concat (map fst ms) @ data" "cz_input_set (ws_compressor ws')"
    using WriteStream_flush_good [OF lib 3(2)] 3(3) by (auto simp: input_first_def)
  then show ?case using 3(1) [OF f(2)] by (simp add: input_first_def)
qed

lemma do_calls_plain:
  assumes "steady fd"
  shows "\<exists>fd'. do_calls lib (WriteUncompressed fd) xs = Some (Inr (WriteUncompressed fd')) \<and> d_out fd' = d_out fd @ data_of xs"
  using assms
proof (induction xs arbitrary: fd rule: data_of.induct)
  case 1
  obtain fd' where "FileWriter_flush fd = (fd', Inr ())" "d_out fd' = d_out fd"
    using FileWriter_flush_steady [OF 1] by blast
  then show ?case by simp
next
  case (2 d xs)
  obtain fd' where "FileWriter_write fd d = (fd', Inr ())" "steady fd'" "d_out fd' = d_out fd @ d"
    using FileWriter_write_steady [OF 2(2)] by blast
  then show ?case using 2(1) [of fd'] by auto
next
  case (3 xs)
  obtain fd' where "FileWriter_flush fd = (fd', Inr ())" "steady fd'" "d_out fd' = d_out fd"
    using FileWriter_flush_steady [OF 3(2)] by blast
  then show ?case using 3(1) [of fd'] by auto
qed

lemma WriteCompressed_new_good:
  assumes lib: "write_library_ok lib encoding complete work" and fmt: "stream_format fmt" and fd: "steady fd"
  obtains ws where "WriteCompressed_new lib fd fmt = Inr (Stream ws)" and "stream_inv encoding complete ws (d_out fd) [] []" and "ws_format ws = fmt"
    and "cz_input_set (ws_compressor ws) \<longleftrightarrow> fmt \<noteq> GZIP"
proof -
  obtain z where z: "cz_new lib fmt 9 = Inr \<lparr>cz_state = z, cz_input = [], cz_input_set = (fmt \<noteq> GZIP), cz_avail_out = 0, cz_level = 9\<rparr>" "encoding fmt z None [] []"
    using cz_new_good [OF lib fmt, of 9] by auto
  let ?ws = "\<lparr>ws_format = fmt, ws_buf_size = 4096, ws_buf = [], ws_writer = fd, ws_dirty = True,
    ws_compressor = \<lparr>cz_state = z, cz_input = [], cz_input_set = (fmt \<noteq> GZIP), cz_avail_out = 4096, cz_level = 9\<rparr>\<rparr>"
  have m: "kMinOutput fmt \<le> 6" by (cases fmt) simp_all
  have "WriteStream_new lib fmt fd 9 kCompressedBuffer = Inr ?ws"
    using m by (simp add: WriteStream_new_def z(1) kCompressedBuffer_def cz_SetOutput_def kSizeMax_def Let_def max_def)
  then have "WriteCompressed_new lib fd fmt = Inr (Stream ?ws)" using fmt by auto
  then show thesis using that fmt fd z(2) m by (simp add: stream_inv_def ws_ok_def kSizeMax_def)
qed

lemma WriteCompressed_reads_back:
  assumes "write_library_ok lib encoding complete work" and "library_ok rlib decodes" and "reads_back complete rlib decodes"
    and "steady fd" and fmt: "stream_format fmt" and first: "fmt = GZIP \<longrightarrow> (\<exists>d ys. xs = Write d # ys)"
  shows "\<exists>w w' file. WriteCompressed_new lib fd fmt = Inr w \<and> do_calls lib w xs = Some (Inr w') \<and>
      d_out (descriptor w') = d_out fd @ file \<and> read_gives rlib file (data_of xs)"
proof -
  obtain ws where ws: "WriteCompressed_new lib fd fmt = Inr (Stream ws)" "stream_inv encoding complete ws (d_out fd) [] []" "ws_format ws = fmt"
    "input_first ws xs"
    using WriteCompressed_new_good [OF assms(1) fmt assms(4)] first by (metis input_first_def)
  obtain ws' ms where c: "do_calls lib (Stream ws) xs = Some (Inr (Stream ws'))" "d_out (ws_writer ws') = d_out fd @ concat (map snd ms)"
    "\<forall>m\<in>set ms. complete fmt (fst m) (snd m)" "concat (map fst ms) = data_of xs"
    using do_calls_stream [OF assms(1) ws(2,4)] ws(3) by auto
  have "read_gives rlib (concat (map snd ms)) (data_of xs)"
    using file_content_read [OF assms(2) reads_back_content [OF assms(3) fmt c(3)]] c(4) by simp
  then show ?thesis using ws(1) c(1,2) by (metis descriptor.simps(2))
qed

subsection \<open>Properties\<close>

text \<open>
  C8. What is written through \<^verbatim>\<open>WriteCompressed\<close> is read back by \<^verbatim>\<open>ReadCompressed\<close>: for gzip and bzip2, however
  the data is cut into writes and wherever it is flushed, the calls return, nothing is left in the
  buffers, and the bytes added to the descriptor read as the concatenation of the data. Without
  compression they are the data. The xz format is refused. For gzip the first call must be a write: a
  stream that is flushed or destroyed before runs \<^verbatim>\<open>deflate\<close> on fields that were never set
  (\<open>WriteCompressed_gzip_no_write\<close>).
\<close>

theorem WriteCompressed_roundtrip:
  assumes "write_library_ok lib encoding complete work" and "library_ok rlib decodes" and "reads_back complete rlib decodes"
    and "no_failure (d_answers fd)" and "SyncFailed \<notin> set (d_syncs fd)"
  shows "(stream_format fmt \<and> (fmt = GZIP \<longrightarrow> (\<exists>d ys. xs = Write d # ys)) \<longrightarrow> (\<exists>w w' file. WriteCompressed_new lib fd fmt = Inr w \<and> do_calls lib w xs = Some (Inr w') \<and>
            d_out (descriptor w') = d_out fd @ file \<and> read_gives rlib file (data_of xs))) \<and>
         (\<exists>w w'. WriteCompressed_new lib fd NONE = Inr w \<and> do_calls lib w xs = Some (Inr w') \<and> d_out (descriptor w') = d_out fd @ data_of xs) \<and>
         WriteCompressed_new lib fd XZIP = Inl CompressedException"
proof (intro conjI impI)
  have fd: "steady fd" using assms(4,5) by simp
  show "\<exists>w w' file. WriteCompressed_new lib fd fmt = Inr w \<and> do_calls lib w xs = Some (Inr w') \<and>
      d_out (descriptor w') = d_out fd @ file \<and> read_gives rlib file (data_of xs)"
    if "stream_format fmt \<and> (fmt = GZIP \<longrightarrow> (\<exists>d ys. xs = Write d # ys))"
    using that by (intro WriteCompressed_reads_back [OF assms(1-3) fd]) blast+
  show "\<exists>w w'. WriteCompressed_new lib fd NONE = Inr w \<and> do_calls lib w xs = Some (Inr w') \<and> d_out (descriptor w') = d_out fd @ data_of xs"
    using do_calls_plain [OF fd, of lib xs] by auto
qed simp

text \<open>A gzip stream that is flushed or destroyed before anything was written has no defined result.\<close>

lemma WriteCompressed_gzip_no_write:
  assumes "WriteCompressed_new lib fd GZIP = Inr w" and "\<nexists>d ys. xs = Write d # ys"
  shows "do_calls lib w xs = None"
proof -
  have "WriteCompressed_flush lib w = None"
    using assms(1) by (auto simp: WriteStream_new_def GZipWrite_new_def Let_def kCompressedBuffer_def WriteStream_flush_def
        ws_finish.simps ws_room_def EnoughOutput_def cz_SetOutput_def kSizeMax_def GZipWrite_Finish_def split: if_splits prod.splits)
  then show ?thesis using assms(2) by (cases xs; cases "hd xs") auto
qed

text \<open>The string that \<^verbatim>\<open>GZCompress\<close> fills always has the room the library needs.\<close>

lemma EnsureOutput_good:
  assumes "length (gz_done g) + cz_avail_out (gz_writer g) \<le> gz_size g"
  shows "EnoughOutput GZIP (gz_writer (EnsureOutput g))" and "gz_done (EnsureOutput g) = gz_done g"
    and "length (gz_done g) + cz_avail_out (gz_writer (EnsureOutput g)) \<le> gz_size (EnsureOutput g)"
    and "cz_state (gz_writer (EnsureOutput g)) = cz_state (gz_writer g)" and "cz_input (gz_writer (EnsureOutput g)) = cz_input (gz_writer g)"
    and "cz_input_set (gz_writer (EnsureOutput g)) = cz_input_set (gz_writer g)"
  using assms by (auto simp: EnsureOutput_def EnoughOutput_def cz_SetOutput_def kSizeMax_def)

lemma gz_finish_good:
  assumes lib: "write_library_ok lib encoding complete work" and "length (gz_done g) + cz_avail_out (gz_writer g) \<le> gz_size g"
    and "encoding GZIP (cz_state (gz_writer g)) fin i (gz_done g)" and "fin \<in> {None, Some (cz_input (gz_writer g))}" and "cz_input_set (gz_writer g)"
  shows "\<exists>s. gz_finish lib g = Some (Inr s) \<and> complete GZIP (i @ cz_input (gz_writer g)) s"
  using assms(2-5)
proof (induction "work (cz_state (gz_writer g)) (length (cz_input (gz_writer g)))" arbitrary: g fin i rule: less_induct)
  case less
  note e = EnsureOutput_good [OF less.prems(1)]
  let ?c = "gz_writer (EnsureOutput g)"
  have f: "stream_format GZIP" and s: "encoding GZIP (cz_state ?c) fin i (gz_done g)" and fin: "fin \<in> {None, Some (cz_input ?c)}"
    and set: "cz_input_set ?c"
    using less.prems e by simp_all
  from cz_Finish_good [OF lib f s fin e(1) set] show ?case
  proof cases
    case (1 z o1)
    then have "gz_finish lib g = Some (Inr (gz_done g @ o1))" by (subst gz_finish.simps) simp
    then show ?thesis using 1(3) e(5) by simp
  next
    case (2 z inp o1 used)
    let ?g = "(EnsureOutput g)\<lparr>gz_writer := after_call ?c z inp o1, gz_done := gz_done g @ o1\<rparr>"
    have w: "cz_state (gz_writer ?g) = z" "cz_input (gz_writer ?g) = inp" "cz_input_set (gz_writer ?g)" using set by (simp_all add: after_call_def)
    have "gz_finish lib g = gz_finish lib ?g" by (subst gz_finish.simps) (use 2(1) in simp)
    moreover have "length (gz_done ?g) + cz_avail_out (gz_writer ?g) \<le> gz_size ?g"
      using e(3) 2(3) by (simp add: after_call_def)
    ultimately show ?thesis using less.hyps [of ?g "Some inp" "i @ used"] w 2(2,4,5) e(4,5) by simp
  qed
qed

text \<open>
  \<^verbatim>\<open>GZCompress\<close> returns a string that decompresses to its argument, if that is shorter than
  four gigabytes.
\<close>

lemma GZCompress_roundtrip:
  assumes "write_library_ok lib encoding complete work" and "library_ok rlib decodes" and "reads_back complete rlib decodes"
    and "-1 \<le> level" and "level \<le> 9" and "length from < 2 ^ 32"
  shows "\<exists>s. GZCompress lib from level = Some (Inr s) \<and> read_gives rlib s from"
proof -
  obtain z where z: "deflateInit2 lib level = (Z_OK, z)" "encoding GZIP z None [] []"
    using assms(1,4,5) unfolding write_library_ok_def by meson
  let ?c = "\<lparr>cz_state = z, cz_input = from, cz_input_set = True, cz_avail_out = 4096, cz_level = level\<rparr>"
  let ?g = "\<lparr>gz_size = 4096, gz_done = [], gz_writer = ?c\<rparr>"
  have "GZipWrite_new lib level = Inr \<lparr>cz_state = z, cz_input = [], cz_input_set = False, cz_avail_out = 0, cz_level = level\<rparr>" by (simp add: GZipWrite_new_def z(1))
  moreover have "gz_process lib ?g = Some (Inr ?g)" by (subst gz_process.simps) (simp add: EnoughOutput_def)
  ultimately have "GZCompress lib from level = gz_finish lib ?g"
    using assms(6) by (simp add: GZCompress_def cz_SetOutput_def cz_SetInput_def kSizeMax_def)
  moreover obtain s where s: "gz_finish lib ?g = Some (Inr s)" "complete GZIP from s"
    using gz_finish_good [OF assms(1), of ?g None "[]"] z(2) by auto
  moreover have "read_gives rlib s from"
    using file_content_read [OF assms(2) reads_back_content [OF assms(3), of GZIP "[(from, s)]"]] s(2) by simp
  ultimately show ?thesis by simp
qed

subsection \<open>Libraries for which the assumptions hold\<close>

text \<open>
  The encoder of the format with a mark before every byte: its state is the output not yet given out
  and whether the end was announced.
\<close>

definition marks :: "bytes \<Rightarrow> bytes" where
  "marks s = concat (map (\<lambda>c. [1, c]) s)"

fun stored_encode :: "bytes \<times> bool \<Rightarrow> bool \<Rightarrow> bytes \<Rightarrow> nat \<Rightarrow> (bytes \<times> bool) \<times> bytes \<times> bytes \<times> bool" where
  "stored_encode (pend, closed) fin inp room =
     (let p = pend @ marks inp @ (if fin \<and> \<not> closed then [0] else [])
      in ((drop room p, closed \<or> fin), [], take room p, fin \<and> length p \<le> room))"

fun stored_header :: "Compression \<Rightarrow> bytes" where
  "stored_header GZIP = [0x1f, 0x8b, 0, 0, 0, 0]"
| "stored_header _ = lit ''BZh000''"

definition stored_call :: "'code \<Rightarrow> 'code \<Rightarrow> 'code \<Rightarrow> bytes \<times> bool \<Rightarrow> bool \<Rightarrow> bytes \<Rightarrow> nat \<Rightarrow> (bytes \<times> bool) \<times> bytes \<times> bytes \<times> 'code" where
  "stored_call run_code more_code end_code z fin inp room =
     (case stored_encode z fin inp room of
        (z, inp, out, e) \<Rightarrow> (z, inp, out, if e then end_code else if fin then more_code else run_code))"

definition stored_write_library :: "(bytes \<times> bool) WriteLibrary" where
  "stored_write_library =
     \<lparr>deflateInit2 = (\<lambda>_. (Z_OK, (stored_header GZIP, False))), deflate = stored_call Z_OK Z_OK Z_STREAM_END,
      deflateReset = (\<lambda>_. (Z_OK, (stored_header GZIP, False))), BZ2_bzCompressInit = (\<lambda>_. (BZ_OK, (stored_header BZIP, False))),
      BZ2_bzCompress = stored_call BZ_RUN_OK BZ_FINISH_OK BZ_STREAM_END, BZ2_bzCompressEnd = (\<lambda>_. BZ_OK)\<rparr>"

definition stored_encoding :: "Compression \<Rightarrow> bytes \<times> bool \<Rightarrow> bytes option \<Rightarrow> bytes \<Rightarrow> bytes \<Rightarrow> bool" where
  "stored_encoding fmt z fin i o' \<longleftrightarrow> fin = (if snd z then Some [] else None) \<and>
     o' @ fst z = stored_header fmt @ marks i @ (if snd z then [0] else [])"

definition stored_complete :: "Compression \<Rightarrow> bytes \<Rightarrow> bytes \<Rightarrow> bool" where
  "stored_complete fmt i s \<longleftrightarrow> s = stored_header fmt @ marks i @ [0]"

definition stored_work :: "bytes \<times> bool \<Rightarrow> nat \<Rightarrow> nat" where
  "stored_work z n = length (fst z) + 3 * n + (if snd z then 0 else 2)"

lemma marks_append [simp]: "marks (s @ t) = marks s @ marks t" "marks [] = []" "length (marks s) = 2 * length s"
  by (simp add: marks_def, simp add: marks_def, induction s) (simp_all add: marks_def)

lemma stored_encoder_ok:
  assumes "0 < min_room" and "more_code \<in> more_codes"
  shows "encoder_ok (stored_call run_code more_code end_code) run_code more_codes end_code min_room (stored_encoding fmt) (stored_complete fmt) stored_work"
  unfolding encoder_ok_def
proof (intro conjI allI impI; elim conjE)
  fix z and inp :: bytes and room i o'
  assume a: "stored_encoding fmt z None i o'" "inp \<noteq> []" "min_room \<le> room"
  then obtain pend where z: "z = (pend, False)" by (cases z) (auto simp: stored_encoding_def split: if_splits)
  let ?p = "pend @ marks inp"
  have "stored_call run_code more_code end_code z False inp room = ((drop room ?p, False), [], take room ?p, run_code)"
    by (simp add: stored_call_def z Let_def)
  moreover have "stored_encoding fmt (drop room ?p, False) None (i @ inp) (o' @ take room ?p)"
  proof -
    have "(o' @ take room ?p) @ drop room ?p = (o' @ pend) @ marks inp" by (simp only: append_assoc append_take_drop_id)
    then show ?thesis using a(1) by (simp add: stored_encoding_def z del: drop_append take_append)
  qed
  moreover have "stored_work (drop room ?p, False) 0 < stored_work z (length inp)" using a(2) by (simp add: stored_work_def z) (cases inp; simp)
  ultimately show "\<exists>z' inp' o1 used. stored_call run_code more_code end_code z False inp room = (z', inp', o1, run_code) \<and> inp = used @ inp' \<and>
      length o1 \<le> room \<and> stored_encoding fmt z' None (i @ used) (o' @ o1) \<and> stored_work z' (length inp') < stored_work z (length inp)"
    by (intro exI [of _ "(drop room ?p, False)"] exI [of _ "[]"] exI [of _ "take room ?p"] exI [of _ inp]) simp
next
  fix z fin and inp :: bytes and room i o'
  assume a: "stored_encoding fmt z fin i o'" "fin \<in> {None, Some inp}" "min_room \<le> room"
  obtain pend closed where z: "z = (pend, closed)" by (cases z)
  let ?p = "pend @ marks inp @ (if closed then [] else [0])"
  have p: "o' @ ?p = stored_header fmt @ marks (i @ inp) @ [0]"
    using a(1,2) by (cases closed) (auto simp: stored_encoding_def z split: if_splits)
  have c: "stored_call run_code more_code end_code z True inp room =
      ((drop room ?p, True), [], take room ?p, if length ?p \<le> room then end_code else more_code)"
    by (auto simp: stored_call_def z Let_def)
  have "stored_encoding fmt (drop room ?p, True) (Some []) (i @ inp) (o' @ take room ?p)"
    using p unfolding stored_encoding_def by (simp only: append_assoc append_take_drop_id fst_conv snd_conv if_True simp_thms)
  moreover have "length (drop room ?p) + 0 < length pend + 3 * length inp + (if closed then 0 else 2)" if "\<not> length ?p \<le> room"
    using that assms(1) a(3) by (cases closed) simp_all
  ultimately show "\<exists>z' inp' o1 used code. stored_call run_code more_code end_code z True inp room = (z', inp', o1, code) \<and> inp = used @ inp' \<and>
      length o1 \<le> room \<and> (code = end_code \<and> inp' = [] \<and> stored_complete fmt (i @ inp) (o' @ o1) \<or>
        code \<in> more_codes \<and> stored_encoding fmt z' (Some inp') (i @ used) (o' @ o1) \<and> stored_work z' (length inp') < stored_work z (length inp))"
    using assms(2) p unfolding c
    by (intro exI [of _ "(drop room ?p, True)"] exI [of _ "[]"] exI [of _ "take room ?p"] exI [of _ inp]
        exI [of _ "if length ?p \<le> room then end_code else more_code"])
      (cases "length ?p \<le> room"; simp add: stored_complete_def stored_work_def z del: take_append drop_append)
qed

lemma stored_write_library_ok: "write_library_ok stored_write_library stored_encoding stored_complete stored_work"
  unfolding write_library_ok_def
  using stored_encoder_ok [of 6 Z_OK "{Z_OK, Z_BUF_ERROR}" Z_OK Z_STREAM_END GZIP]
    stored_encoder_ok [of 1 BZ_FINISH_OK "{BZ_FINISH_OK}" BZ_RUN_OK BZ_STREAM_END BZIP]
  by (simp add: stored_write_library_def stored_encoding_def)

lemma marked_marks: "marked (marks s @ 0 # rest) s rest"
  by (induction s) (simp_all add: marks_def marked_Cons)

lemma stored_reads_back: "reads_back stored_complete stored_library (\<lambda>_. stored_decodes)"
  unfolding reads_back_def
proof (intro allI impI, elim conjE)
  fix fmt data s rest
  assume a: "stream_format fmt" "stored_complete fmt data s"
  have h: "length (stored_header fmt) = 6" using a(1) by (auto simp: lit_def)
  have "DetectMagic (stored_header GZIP) = UTIL_GZIP" "DetectMagic (stored_header BZIP) = UTIL_BZIP" by code_simp+
  then have "DetectMagic (stored_header fmt @ t) = magic fmt" for t
    using DetectMagic_prefix [of "stored_header fmt" t] h a(1) by (auto simp: kMagicSize_def)
  moreover have "init_state stored_library (magic fmt) = Header 6" using a(1) by (auto simp: stored_library_def)
  ultimately show "DetectMagic (s @ rest) = magic fmt \<and> stored_decodes (init_state stored_library (magic fmt)) (s @ rest) data rest"
    using a(2) h marked_marks [of data rest] by (simp add: stored_complete_def)
qed

theorem WriteCompressed_roundtrip_witness:
  "\<exists>w w' file. WriteCompressed_new stored_write_library \<lparr>d_rest = [], d_out = [], d_answers = [Transfer 2], d_syncs = []\<rparr> GZIP = Inr w \<and>
     do_calls stored_write_library w [Write [1, 2], Flush, Write [3]] = Some (Inr w') \<and> d_out (descriptor w') = file \<and>
     read_gives stored_library file [1, 2, 3]"
  using WriteCompressed_roundtrip [OF stored_write_library_ok stored_library_ok stored_reads_back,
      where fd = "\<lparr>d_rest = [], d_out = [], d_answers = [Transfer 2], d_syncs = []\<rparr>" and fmt = GZIP and xs = "[Write [1, 2], Flush, Write [3]]"]
  by (simp add: no_failure_def)

end
