(* ===== verification/ThreadedStream.thy ===== *)
theory ThreadedStream
  imports ProducerConsumer IntegerToString
begin

text \<open>
  \<^verbatim>\<open>BlockQueue\<close> and \<^verbatim>\<open>ThreadedBufferedStream\<close> of \<^verbatim>\<open>src/util/threaded_buffered_stream.hh\<close>: one thread fills blocks of
  memory, another one hands them to a writer. The threads interleave at the semaphores; a call of
  \<^verbatim>\<open>write\<close>, of \<^verbatim>\<open>Ensure\<close> with \<^verbatim>\<open>AdvanceTo\<close>, and the destructor are sequences of steps. The writer is
  the list of blocks given to it. \<open>accepted\<close> is the text copied in so far, \<open>sent\<close> the blocks passed
  on and \<open>returned\<close> the number of blocks given back.
\<close>

definition kBlocks :: nat where
  "kBlocks = 3"

definition kBlockSize :: nat where
  "kBlockSize = (if 8192 > kToStringMaxBytes then 8192 else kToStringMaxBytes)"

record Block =
  block_base :: bytes
  block_size :: nat

datatype continuation = Then_write bytes | Then_format nat bytes | Then_poison | Then_join

datatype filler =
    Constructing | Ready | Writing bytes | Formatting nat bytes | Next continuation | Next_wait continuation | Closing | Joining | Closed

datatype drainer = Not_started | Out_wait | Out_test | Out_next | Out_release | Out_flush | Out_end

record ThreadedBufferedStream =
  circular :: "Block list"
  output_sem :: nat
  trash_sem :: nat
  in_at :: nat
  out_at :: nat
  current :: nat
  filler :: filler
  drainer :: drainer
  written :: "bytes list"
  flushed :: bool
  accepted :: bytes
  sent :: "bytes list"
  returned :: nat

definition ThreadedBufferedStream_new :: "bytes \<Rightarrow> ThreadedBufferedStream" where
  "ThreadedBufferedStream_new memory =
     \<lparr>circular = map (\<lambda>i. \<lparr>block_base = take kBlockSize (drop (i * kBlockSize) memory), block_size = kBlockSize\<rparr>) [0..<kBlocks], output_sem = 0, trash_sem = kBlocks, in_at = 0, out_at = 0,
      current = 0, filler = Constructing, drainer = Not_started, written = [], flushed = False, accepted = [], sent = [], returned = 0\<rparr>"

definition block_text :: "Block \<Rightarrow> bytes" where
  "block_text b = take (block_size b) (block_base b)"

text \<open>\<^verbatim>\<open>memcpy\<close> to \<^verbatim>\<open>current_\<close>, which moves on; setting \<^verbatim>\<open>lease_.Size()\<close>.\<close>

definition copy_in :: "ThreadedBufferedStream \<Rightarrow> bytes \<Rightarrow> ThreadedBufferedStream" where
  "copy_in s data =
     (let b = circular s ! in_at s
      in s\<lparr>circular := (circular s)[in_at s := b\<lparr>block_base := take (current s) (block_base b) @ data @ drop (current s + length data) (block_base b)\<rparr>],
           current := current s + length data, accepted := accepted s @ data\<rparr>)"

definition set_size :: "ThreadedBufferedStream \<Rightarrow> nat \<Rightarrow> ThreadedBufferedStream" where
  "set_size s n = s\<lparr>circular := (circular s)[in_at s := (circular s ! in_at s)\<lparr>block_size := n\<rparr>]\<rparr>"

text \<open>The calls of the owner of the stream.\<close>

inductive stream_call :: "ThreadedBufferedStream \<Rightarrow> ThreadedBufferedStream \<Rightarrow> bool" where
  call_write: "filler s = Ready \<Longrightarrow> stream_call s (s\<lparr>filler := Writing data\<rparr>)"
| call_format: "filler s = Ready \<Longrightarrow> length data \<le> amount \<Longrightarrow> amount \<le> kToStringMaxBytes \<Longrightarrow> stream_call s (s\<lparr>filler := Formatting amount data\<rparr>)"
| call_destroy: "filler s = Ready \<Longrightarrow> stream_call s (s\<lparr>filler := Closing\<rparr>)"

fun resume :: "continuation \<Rightarrow> ThreadedBufferedStream \<Rightarrow> ThreadedBufferedStream" where
  "resume (Then_write data) s = s\<lparr>current := 0, filler := Writing data\<rparr>"
| "resume (Then_format amount data) s = s\<lparr>current := 0, filler := Formatting amount data\<rparr>"
| "resume Then_poison s = (set_size (s\<lparr>current := 0\<rparr>) 0)\<lparr>filler := Next Then_join\<rparr>"
| "resume Then_join s = s\<lparr>filler := Joining\<rparr>"

inductive stream_step :: "ThreadedBufferedStream \<Rightarrow> ThreadedBufferedStream \<Rightarrow> bool" where
  start: "filler s = Constructing \<Longrightarrow> 0 < trash_sem s \<Longrightarrow>
    stream_step s (s\<lparr>trash_sem := trash_sem s - 1, filler := Ready, drainer := Out_wait\<rparr>)"
| write_fill: "filler s = Writing data \<Longrightarrow> current s + length data > kBlockSize \<Longrightarrow> n = kBlockSize - current s \<Longrightarrow>
    stream_step s ((set_size (copy_in s (take n data)) kBlockSize)\<lparr>filler := Next (Then_write (drop n data))\<rparr>)"
| write_rest: "filler s = Writing data \<Longrightarrow> current s + length data \<le> kBlockSize \<Longrightarrow> stream_step s ((copy_in s data)\<lparr>filler := Ready\<rparr>)"
| format_spill: "filler s = Formatting amount data \<Longrightarrow> current s + amount > kBlockSize \<Longrightarrow> current s \<noteq> 0 \<Longrightarrow>
    stream_step s ((set_size s (current s))\<lparr>filler := Next (Then_format amount data)\<rparr>)"
| format_room: "filler s = Formatting amount data \<Longrightarrow> current s + amount \<le> kBlockSize \<Longrightarrow> stream_step s ((copy_in s data)\<lparr>filler := Ready\<rparr>)"
| close_spill: "filler s = Closing \<Longrightarrow> current s \<noteq> 0 \<Longrightarrow> stream_step s ((set_size s (current s))\<lparr>filler := Next Then_poison\<rparr>)"
| close_empty: "filler s = Closing \<Longrightarrow> current s = 0 \<Longrightarrow> stream_step s ((set_size s 0)\<lparr>filler := Next Then_join\<rparr>)"
| success_next: "filler s = Next c \<Longrightarrow>
    stream_step s (s\<lparr>sent := sent s @ [block_text (circular s ! in_at s)], in_at := advance kBlocks (in_at s),
      output_sem := output_sem s + 1, filler := Next_wait c\<rparr>)"
| success_wait: "filler s = Next_wait c \<Longrightarrow> 0 < trash_sem s \<Longrightarrow> stream_step s (resume c (s\<lparr>trash_sem := trash_sem s - 1\<rparr>))"
| join: "filler s = Joining \<Longrightarrow> drainer s = Out_end \<Longrightarrow> stream_step s (s\<lparr>trash_sem := trash_sem s + 1, filler := Closed\<rparr>)"
| out_wait: "drainer s = Out_wait \<Longrightarrow> 0 < output_sem s \<Longrightarrow> stream_step s (s\<lparr>output_sem := output_sem s - 1, drainer := Out_test\<rparr>)"
| out_write: "drainer s = Out_test \<Longrightarrow> block_size (circular s ! out_at s) \<noteq> 0 \<Longrightarrow>
    stream_step s (s\<lparr>written := written s @ [block_text (circular s ! out_at s)], drainer := Out_next\<rparr>)"
| out_stop: "drainer s = Out_test \<Longrightarrow> block_size (circular s ! out_at s) = 0 \<Longrightarrow> stream_step s (s\<lparr>drainer := Out_release\<rparr>)"
| out_next: "drainer s = Out_next \<Longrightarrow>
    stream_step s (s\<lparr>out_at := advance kBlocks (out_at s), trash_sem := trash_sem s + 1, returned := returned s + 1, drainer := Out_wait\<rparr>)"
| out_release: "drainer s = Out_release \<Longrightarrow> stream_step s (s\<lparr>output_sem := output_sem s + 1, drainer := Out_flush\<rparr>)"
| out_flush: "drainer s = Out_flush \<Longrightarrow> stream_step s (s\<lparr>flushed := True, drainer := Out_end\<rparr>)"

inductive stream_reachable :: "bytes \<Rightarrow> ThreadedBufferedStream \<Rightarrow> bool" for memory where
  stream_start: "stream_reachable memory (ThreadedBufferedStream_new memory)"
| stream_called: "stream_reachable memory s \<Longrightarrow> stream_call s s' \<Longrightarrow> stream_reachable memory s'"
| stream_moved: "stream_reachable memory s \<Longrightarrow> stream_step s s' \<Longrightarrow> stream_reachable memory s'"

subsection \<open>The blocks in flight\<close>

fun holds_in :: "filler \<Rightarrow> nat" where
  "holds_in Constructing = 0" | "holds_in (Next_wait _) = 0" | "holds_in Closed = 0" | "holds_in _ = 1"

fun holds_out :: "drainer \<Rightarrow> nat" where
  "holds_out Out_test = 1" | "holds_out Out_next = 1" | "holds_out Out_release = 1" | "holds_out _ = 0"

fun poisoned :: "filler \<Rightarrow> bool" where
  "poisoned (Next_wait Then_join) = True" | "poisoned Joining = True" | "poisoned Closed = True" | "poisoned _ = False"

abbreviation in_flight :: "ThreadedBufferedStream \<Rightarrow> nat" where
  "in_flight s \<equiv> length (sent s) - returned s"

text \<open>The counts, and what has gone where.\<close>

definition counts_ok :: "ThreadedBufferedStream \<Rightarrow> bool" where
  "counts_ok s \<longleftrightarrow> returned s \<le> length (sent s) \<and> trash_sem s + holds_in (filler s) + in_flight s = kBlocks \<and>
     in_flight s = output_sem s + holds_out (drainer s) \<and>
     in_at s = length (sent s) mod kBlocks \<and> out_at s = returned s mod kBlocks"

definition drained_ok :: "ThreadedBufferedStream \<Rightarrow> bool" where
  "drained_ok s \<longleftrightarrow>
     written s = take (returned s + (if drainer s = Out_next then 1 else 0)) (sent s) \<and> (\<forall>k<length (written s). sent s ! k \<noteq> []) \<and>
     (drainer s \<in> {Out_release, Out_flush, Out_end} \<longrightarrow> returned s < length (sent s) \<and> sent s ! returned s = []) \<and>
     (flushed s \<longleftrightarrow> drainer s = Out_end)"

definition blocks_ok :: "ThreadedBufferedStream \<Rightarrow> bool" where
  "blocks_ok s \<longleftrightarrow>
     length (circular s) = kBlocks \<and> (\<forall>b\<in>set (circular s). length (block_base b) = kBlockSize \<and> block_size b \<le> kBlockSize) \<and>
     (\<forall>k. returned s \<le> k \<and> k < length (sent s) \<longrightarrow> block_text (circular s ! (k mod kBlocks)) = sent s ! k)"

fun pending :: "ThreadedBufferedStream \<Rightarrow> filler \<Rightarrow> bytes" where
  "pending s (Next _) = block_text (circular s ! in_at s)"
| "pending s (Next_wait _) = []" | "pending s Joining = []" | "pending s Closed = []"
| "pending s _ = take (current s) (block_base (circular s ! in_at s))"

fun filler_ok :: "ThreadedBufferedStream \<Rightarrow> filler \<Rightarrow> bool" where
  "filler_ok s (Formatting amount data) \<longleftrightarrow> length data \<le> amount \<and> amount \<le> kBlockSize"
| "filler_ok s (Next c) \<longleftrightarrow> (block_text (circular s ! in_at s) = [] \<longleftrightarrow> c = Then_join) \<and>
     (case c of Then_format amount data \<Rightarrow> length data \<le> amount \<and> amount \<le> kBlockSize | _ \<Rightarrow> True)"
| "filler_ok s (Next_wait (Then_format amount data)) \<longleftrightarrow> length data \<le> amount \<and> amount \<le> kBlockSize"
| "filler_ok s Constructing \<longleftrightarrow> sent s = [] \<and> drainer s = Not_started \<and> current s = 0"
| "filler_ok s Closed \<longleftrightarrow> drainer s = Out_end"
| "filler_ok s _ \<longleftrightarrow> True"

definition filled_ok :: "ThreadedBufferedStream \<Rightarrow> bool" where
  "filled_ok s \<longleftrightarrow> current s \<le> kBlockSize \<and> accepted s = concat (sent s) @ pending s (filler s) \<and>
     (\<forall>k<length (sent s). sent s ! k = [] \<longleftrightarrow> poisoned (filler s) \<and> Suc k = length (sent s)) \<and> (poisoned (filler s) \<longrightarrow> sent s \<noteq> []) \<and>
     filler_ok s (filler s) \<and> (drainer s = Not_started \<longrightarrow> filler s = Constructing)"

definition stream_ok :: "ThreadedBufferedStream \<Rightarrow> bool" where
  "stream_ok s \<longleftrightarrow> counts_ok s \<and> drained_ok s \<and> blocks_ok s \<and> filled_ok s"

lemma kBlockSize_pos: "0 < kBlockSize" "kToStringMaxBytes \<le> kBlockSize"
  by (simp_all add: kBlockSize_def)

lemma kBlocks_pos: "0 < kBlocks"
  by (simp add: kBlocks_def)

lemma in_at_less: "counts_ok s \<Longrightarrow> in_at s < kBlocks"
  by (simp add: counts_ok_def kBlocks_pos)

lemma in_flight_less: "counts_ok s \<Longrightarrow> holds_in (filler s) = 1 \<or> 0 < trash_sem s \<Longrightarrow> in_flight s < kBlocks"
  by (auto simp: counts_ok_def)

text \<open>The block that the filler writes to is none of those in flight.\<close>

lemma blocks_ok_write:
  assumes "blocks_ok s" and "counts_ok s" and "in_flight s < kBlocks" and "circular s' = (circular s)[in_at s := b]"
    and "length (block_base b) = kBlockSize" and "block_size b \<le> kBlockSize" and "sent s' = sent s" and "returned s' = returned s"
  shows "blocks_ok s'"
proof -
  have "block_text (circular s' ! (k mod kBlocks)) = sent s' ! k" if k: "returned s' \<le> k" "k < length (sent s')" for k
  proof -
    have "length (sent s) - k < kBlocks" using assms(3) k(1) assms(8) by linarith
    then have "k mod kBlocks \<noteq> in_at s"
      using mod_distinct [of k "length (sent s)" kBlocks] k(2) assms(2,7) by (simp add: counts_ok_def)
    then show ?thesis using assms(1,4,7,8) k by (simp add: blocks_ok_def)
  qed
  moreover have "\<forall>b'\<in>set (circular s'). length (block_base b') = kBlockSize \<and> block_size b' \<le> kBlockSize"
    using assms(1,4-6) set_update_subset_insert [of "circular s" "in_at s" b] unfolding blocks_ok_def by fastforce
  ultimately show ?thesis using assms(1,4) by (simp add: blocks_ok_def)
qed

lemma own_block:
  assumes "blocks_ok s" and "counts_ok s"
  shows "length (block_base (circular s ! in_at s)) = kBlockSize" and "block_size (circular s ! in_at s) \<le> kBlockSize"
    and "in_at s < length (circular s)"
  using assms in_at_less [OF assms(2)] nth_mem [of "in_at s" "circular s"] by (auto simp: blocks_ok_def)

lemma copy_in_good:
  assumes ok: "blocks_ok s" "counts_ok s" "holds_in (filler s) = 1" and room: "current s + length data \<le> kBlockSize"
  shows "blocks_ok (copy_in s data)" and "counts_ok (copy_in s data)" and "filler (copy_in s data) = filler s"
    and "take (current s + length data) (block_base (circular (copy_in s data) ! in_at s)) = take (current s) (block_base (circular s ! in_at s)) @ data"
proof -
  note own = own_block [OF ok(1,2)]
  show "blocks_ok (copy_in s data)"
    by (rule blocks_ok_write [OF ok(1,2) in_flight_less, where b = "circular (copy_in s data) ! in_at s"]) (use ok own room in \<open>auto simp: copy_in_def Let_def\<close>)
  show "counts_ok (copy_in s data)" using ok(2) by (simp add: counts_ok_def copy_in_def Let_def)
  show "filler (copy_in s data) = filler s" by (simp add: copy_in_def Let_def)
  show "take (current s + length data) (block_base (circular (copy_in s data) ! in_at s)) = take (current s) (block_base (circular s ! in_at s)) @ data"
    using own room by (simp add: copy_in_def Let_def)
qed

lemma set_size_good:
  assumes ok: "blocks_ok s" "counts_ok s" "in_flight s < kBlocks" and n: "n \<le> kBlockSize"
  shows "blocks_ok (set_size s n)" and "block_text (circular (set_size s n) ! in_at s) = take n (block_base (circular s ! in_at s))"
proof -
  note own = own_block [OF ok(1,2)]
  show "blocks_ok (set_size s n)"
    by (rule blocks_ok_write [OF ok, where b = "circular (set_size s n) ! in_at s"]) (use own n in \<open>auto simp: set_size_def\<close>)
  show "block_text (circular (set_size s n) ! in_at s) = take n (block_base (circular s ! in_at s))"
    using own by (simp add: set_size_def block_text_def)
qed

lemma copy_in_simps [simp]:
  "in_at (copy_in s data) = in_at s" "current (copy_in s data) = current s + length data" "accepted (copy_in s data) = accepted s @ data"
  "sent (copy_in s data) = sent s" "returned (copy_in s data) = returned s" "drainer (copy_in s data) = drainer s"
  "written (copy_in s data) = written s" "flushed (copy_in s data) = flushed s" "trash_sem (copy_in s data) = trash_sem s"
  "output_sem (copy_in s data) = output_sem s" "out_at (copy_in s data) = out_at s" "filler (copy_in s data) = filler s"
  by (simp_all add: copy_in_def Let_def)

lemma set_size_simps [simp]:
  "in_at (set_size s n) = in_at s" "current (set_size s n) = current s" "accepted (set_size s n) = accepted s"
  "sent (set_size s n) = sent s" "returned (set_size s n) = returned s" "drainer (set_size s n) = drainer s"
  "written (set_size s n) = written s" "flushed (set_size s n) = flushed s" "trash_sem (set_size s n) = trash_sem s"
  "output_sem (set_size s n) = output_sem s" "out_at (set_size s n) = out_at s" "filler (set_size s n) = filler s"
  by (simp_all add: set_size_def)

lemma stream_okD:
  assumes "stream_ok s"
  shows "counts_ok s" "drained_ok s" "blocks_ok s" "filled_ok s"
  using assms by (simp_all add: stream_ok_def)

lemma drained_same:
  "written s' = written s \<Longrightarrow> returned s' = returned s \<Longrightarrow> drainer s' = drainer s \<Longrightarrow> sent s' = sent s \<Longrightarrow> flushed s' = flushed s \<Longrightarrow>
   drained_ok s' = drained_ok s"
  by (simp add: drained_ok_def)

lemma counts_same:
  "sent s' = sent s \<Longrightarrow> returned s' = returned s \<Longrightarrow> drainer s' = drainer s \<Longrightarrow> in_at s' = in_at s \<Longrightarrow> out_at s' = out_at s \<Longrightarrow>
   output_sem s' = output_sem s \<Longrightarrow> trash_sem s' + holds_in (filler s') = trash_sem s + holds_in (filler s) \<Longrightarrow> counts_ok s' = counts_ok s"
  by (simp add: counts_ok_def)

lemma blocks_same: "circular s' = circular s \<Longrightarrow> sent s' = sent s \<Longrightarrow> returned s' = returned s \<Longrightarrow> blocks_ok s' = blocks_ok s"
  by (simp add: blocks_ok_def)

text \<open>A step of the filler inside its block.\<close>

lemma stream_ok_fill:
  assumes ok: "stream_ok s" and blocks: "blocks_ok s'" and "sent s' = sent s" "returned s' = returned s" "drainer s' = drainer s"
    "written s' = written s" "flushed s' = flushed s" "in_at s' = in_at s" "out_at s' = out_at s" "output_sem s' = output_sem s"
    "trash_sem s' + holds_in (filler s') = trash_sem s + holds_in (filler s)"
    and "current s' \<le> kBlockSize" and "accepted s' = concat (sent s) @ pending s' (filler s')" and "poisoned (filler s') = poisoned (filler s)"
    and "filler_ok s' (filler s')" and "filler s \<noteq> Constructing"
  shows "stream_ok s'"
proof -
  have "counts_ok s'" "drained_ok s'" using counts_same [of s' s] drained_same [of s' s] assms stream_okD [OF ok] by simp_all
  moreover have "filled_ok s'" using stream_okD(4) [OF ok] assms by (auto simp: filled_ok_def)
  ultimately show ?thesis using blocks by (simp add: stream_ok_def)
qed

lemma stream_ok_call:
  assumes "stream_call s s'" and ok: "stream_ok s"
  shows "stream_ok s'"
  using assms(1)
  by cases (rule stream_ok_fill [OF ok]; use stream_okD [OF ok] kBlockSize_pos in \<open>auto simp: filled_ok_def blocks_ok_def\<close>)+

lemma stream_ok_write_fill:
  assumes ok: "stream_ok s" and f: "filler s = Writing data" and n: "n = kBlockSize - current s" and over: "current s + length data > kBlockSize"
  shows "stream_ok ((set_size (copy_in s (take n data)) kBlockSize)\<lparr>filler := Next (Then_write (drop n data))\<rparr>)" (is "stream_ok ?s'")
proof -
  let ?c = "copy_in s (take n data)"
  have h: "holds_in (filler s) = 1" using f by simp
  have cur: "current s \<le> kBlockSize" and acc: "accepted s = concat (sent s) @ take (current s) (block_base (circular s ! in_at s))"
    using stream_okD(4) [OF ok] f by (simp_all add: filled_ok_def)
  have len: "current s + length (take n data) = kBlockSize" using n over cur by simp
  note c = copy_in_good [OF stream_okD(3,1) [OF ok] h, of "take n data"]
  note d = set_size_good [OF c(1,2), of kBlockSize]
  have fl: "in_flight ?c < kBlocks" using in_flight_less [OF stream_okD(1) [OF ok]] h by simp
  have b: "blocks_ok ?s'" using d(1) fl len blocks_same [of ?s' "set_size ?c kBlockSize"] by simp
  have t: "block_text (circular ?s' ! in_at s) = take (current s) (block_base (circular s ! in_at s)) @ take n data"
    using d(2) c(4) fl len by simp
  moreover have "block_text (circular ?s' ! in_at s) \<noteq> []"
    using d(2) fl len own_block(1) [OF c(1,2)] kBlockSize_pos by auto
  ultimately show ?thesis
    using b acc len f by (intro stream_ok_fill [OF ok]) simp_all
qed

lemma stream_ok_copy:
  assumes ok: "stream_ok s" and f: "filler s = Writing data \<or> (\<exists>amount. filler s = Formatting amount data)" and room: "current s + length data \<le> kBlockSize"
  shows "stream_ok ((copy_in s data)\<lparr>filler := Ready\<rparr>)" (is "stream_ok ?s'")
proof -
  have h: "holds_in (filler s) = 1" using f by auto
  have acc: "accepted s = concat (sent s) @ take (current s) (block_base (circular s ! in_at s))"
    using stream_okD(4) [OF ok] f by (auto simp: filled_ok_def)
  note c = copy_in_good [OF stream_okD(3,1) [OF ok] h room]
  have "blocks_ok ?s'" using c(1) blocks_same [of ?s' "copy_in s data"] by simp
  then show ?thesis using acc c(4) room f by (intro stream_ok_fill [OF ok]) auto
qed

lemma stream_ok_spill:
  assumes ok: "stream_ok s" and f: "filler s = Closing \<and> c = (if current s = 0 then Then_join else Then_poison) \<or>
      filler s = Formatting amount data \<and> c = Then_format amount data \<and> current s \<noteq> 0"
  shows "stream_ok ((set_size s (current s))\<lparr>filler := Next c\<rparr>)" (is "stream_ok ?s'")
proof -
  have h: "holds_in (filler s) = 1" using f by auto
  have cur: "current s \<le> kBlockSize" and acc: "accepted s = concat (sent s) @ take (current s) (block_base (circular s ! in_at s))"
    and fm: "filler_ok s (filler s)"
    using stream_okD(4) [OF ok] f by (auto simp: filled_ok_def)
  have fl: "in_flight s < kBlocks" using in_flight_less [OF stream_okD(1) [OF ok]] h by simp
  note d = set_size_good [OF stream_okD(3,1) [OF ok] fl cur]
  have "blocks_ok ?s'" using d(1) blocks_same [of ?s' "set_size s (current s)"] by simp
  moreover have "length (block_base (circular s ! in_at s)) = kBlockSize" using own_block(1) [OF stream_okD(3,1) [OF ok]] .
  ultimately show ?thesis
    using acc d(2) cur f fm kBlockSize_pos by (intro stream_ok_fill [OF ok]) (auto split: if_splits)
qed

lemma stream_ok_success_next:
  assumes ok: "stream_ok s" and f: "filler s = Next c"
  shows "stream_ok (s\<lparr>sent := sent s @ [block_text (circular s ! in_at s)], in_at := advance kBlocks (in_at s),
      output_sem := output_sem s + 1, filler := Next_wait c\<rparr>)" (is "stream_ok ?s'")
proof -
  let ?t = "block_text (circular s ! in_at s)"
  have at: "in_at s = length (sent s) mod kBlocks" and r: "returned s \<le> length (sent s)" using stream_okD(1) [OF ok] by (simp_all add: counts_ok_def)
  have "counts_ok ?s'"
    using stream_okD(1) [OF ok] f kBlocks_pos advance_mod [of kBlocks "length (sent s)"] by (auto simp: counts_ok_def)
  moreover have "drained_ok ?s'"
  proof -
    have "returned s + (if drainer s = Out_next then 1 else 0) \<le> length (sent s)"
      using stream_okD(1) [OF ok] by (auto simp: counts_ok_def)
    then show ?thesis using stream_okD(2) [OF ok] by (auto simp: drained_ok_def nth_append)
  qed
  moreover have "blocks_ok ?s'"
    using stream_okD(3) [OF ok] at by (auto simp: blocks_ok_def nth_append less_Suc_eq)
  moreover have "filled_ok ?s'"
  proof -
    have p: "\<forall>k<length (sent s). sent s ! k \<noteq> []" and t: "?t = [] \<longleftrightarrow> c = Then_join" and acc: "accepted s = concat (sent s) @ ?t"
      and fm: "filler_ok ?s' (Next_wait c)" and rest: "current s \<le> kBlockSize" "drainer s \<noteq> Not_started"
      using stream_okD(4) [OF ok] f by (auto simp: filled_ok_def split: continuation.splits)
    have "poisoned (Next_wait c) \<longleftrightarrow> c = Then_join" by (cases c) simp_all
    then show ?thesis using p t acc fm rest by (auto simp: filled_ok_def nth_append less_Suc_eq)
  qed
  ultimately show ?thesis by (simp add: stream_ok_def)
qed

lemma stream_ok_success_wait:
  assumes ok: "stream_ok s" and f: "filler s = Next_wait c" and trash: "0 < trash_sem s"
  shows "stream_ok (resume c (s\<lparr>trash_sem := trash_sem s - 1\<rparr>))" (is "stream_ok ?s'")
proof (cases c)
  case Then_poison
  have fl: "in_flight s < kBlocks" using in_flight_less [OF stream_okD(1) [OF ok]] trash by simp
  have sz: "circular (set_size (s\<lparr>trash_sem := n, current := 0\<rparr>) 0) = circular (set_size s 0)" for n by (simp add: set_size_def)
  note d = set_size_good [OF stream_okD(3,1) [OF ok] fl, of 0]
  have "blocks_ok ?s'" using d(1) blocks_same [of ?s' "set_size s 0"] by (simp add: Then_poison sz)
  then show ?thesis
    using d(2) stream_okD(4) [OF ok] f trash Then_poison by (intro stream_ok_fill [OF ok]) (simp_all add: sz filled_ok_def)
qed (use stream_okD(3,4) [OF ok] f trash blocks_same [of ?s' s] in \<open>intro stream_ok_fill [OF ok]; auto simp: filled_ok_def\<close>)+

text \<open>Steps of the drainer.\<close>

lemma filled_same:
  "filled_ok s \<Longrightarrow> drainer s \<noteq> Not_started \<and> drainer s \<noteq> Out_end \<Longrightarrow> circular s' = circular s \<Longrightarrow> in_at s' = in_at s \<Longrightarrow> current s' = current s \<Longrightarrow> filler s' = filler s \<Longrightarrow>
   sent s' = sent s \<Longrightarrow> accepted s' = accepted s \<Longrightarrow> drainer s' \<noteq> Not_started \<Longrightarrow> filled_ok s'"
proof -
  assume a: "filled_ok s" "drainer s \<noteq> Not_started \<and> drainer s \<noteq> Out_end" "circular s' = circular s" "in_at s' = in_at s" "current s' = current s" "filler s' = filler s"
    "sent s' = sent s" "accepted s' = accepted s" "drainer s' \<noteq> Not_started"
  have n: "filler s \<noteq> Constructing" "filler s \<noteq> Closed" using a(1,2) by (auto simp: filled_ok_def)
  have "pending s' f = pending s f" for f using a by (cases f) simp_all
  moreover have "filler_ok s' (filler s) = filler_ok s (filler s)"
    using a(3,4) n by (cases "(s, filler s)" rule: filler_ok.cases) simp_all
  ultimately show ?thesis using a by (simp add: filled_ok_def)
qed

text \<open>The block that the drainer looks at is the oldest one in flight.\<close>

lemma out_block:
  assumes ok: "stream_ok s" and h: "holds_out (drainer s) = 1"
  shows "block_text (circular s ! out_at s) = sent s ! returned s" and "returned s < length (sent s)"
    and "block_size (circular s ! out_at s) = 0 \<longleftrightarrow> sent s ! returned s = []"
proof -
  show r: "returned s < length (sent s)" using stream_okD(1) [OF ok] h unfolding counts_ok_def by linarith
  have at: "out_at s = returned s mod kBlocks" using stream_okD(1) [OF ok] by (simp add: counts_ok_def)
  then show t: "block_text (circular s ! out_at s) = sent s ! returned s" using stream_okD(3) [OF ok] r by (simp add: blocks_ok_def)
  have "circular s ! out_at s \<in> set (circular s)" using stream_okD(3) [OF ok] at kBlocks_pos by (simp add: blocks_ok_def)
  then have "length (block_base (circular s ! out_at s)) = kBlockSize" using stream_okD(3) [OF ok] by (simp add: blocks_ok_def)
  then show "block_size (circular s ! out_at s) = 0 \<longleftrightarrow> sent s ! returned s = []" unfolding t [symmetric] block_text_def using kBlockSize_pos by auto
qed

lemma stream_ok_drain:
  assumes ok: "stream_ok s" and "drainer s \<noteq> Not_started \<and> drainer s \<noteq> Out_end" "circular s' = circular s" "in_at s' = in_at s" "current s' = current s" "filler s' = filler s"
    "sent s' = sent s" "accepted s' = accepted s" "drainer s' \<noteq> Not_started" and "counts_ok s'" and "drained_ok s'" and "returned s \<le> returned s'"
  shows "stream_ok s'"
proof -
  have "filled_ok s'" by (rule filled_same [OF stream_okD(4) [OF ok]]) (use assms in simp_all)
  moreover have "blocks_ok s'" using stream_okD(3) [OF ok] assms(3,7,12) by (auto simp: blocks_ok_def)
  ultimately show ?thesis using assms(10,11) by (simp add: stream_ok_def)
qed

lemma stream_ok_step:
  assumes "stream_step s s'" and ok: "stream_ok s"
  shows "stream_ok s'"
  using assms(1)
proof cases
  case start
  have "counts_ok s'" "drained_ok s'" "blocks_ok s'"
    using stream_okD [OF ok] start by (auto simp: counts_ok_def drained_ok_def blocks_ok_def filled_ok_def)
  moreover have "filled_ok s'" using stream_okD(4) [OF ok] start by (auto simp: filled_ok_def)
  ultimately show ?thesis by (simp add: stream_ok_def)
next
  case (write_fill data n)
  then show ?thesis using stream_ok_write_fill [OF ok] by simp
next
  case (write_rest data)
  then show ?thesis using stream_ok_copy [OF ok] by simp
next
  case (format_spill amount data)
  then show ?thesis using stream_ok_spill [OF ok] by simp
next
  case (format_room amount data)
  have "length data \<le> amount" using stream_okD(4) [OF ok] format_room(2) by (simp add: filled_ok_def)
  then show ?thesis using stream_ok_copy [OF ok, of data] format_room by simp
next
  case close_spill
  then show ?thesis using stream_ok_spill [OF ok, of Then_poison] by simp
next
  case close_empty
  then show ?thesis using stream_ok_spill [OF ok, of Then_join] by simp
next
  case (success_next c)
  then show ?thesis using stream_ok_success_next [OF ok] by simp
next
  case (success_wait c)
  then show ?thesis using stream_ok_success_wait [OF ok] by simp
next
  case join
  then show ?thesis using stream_okD [OF ok] blocks_same [of s' s] by (intro stream_ok_fill [OF ok]) (auto simp: filled_ok_def)
next
  case out_wait
  then show ?thesis using stream_okD [OF ok] by (intro stream_ok_drain [OF ok]) (auto simp: counts_ok_def drained_ok_def)
next
  case out_write
  note b = out_block [OF ok]
  have "written s @ [sent s ! returned s] = take (Suc (returned s)) (sent s)"
    using stream_okD(2) [OF ok] b(2) out_write(2) by (simp add: drained_ok_def take_Suc_conv_app_nth)
  then show ?thesis
    using stream_okD(1,2) [OF ok] b out_write by (intro stream_ok_drain [OF ok]) (auto simp: counts_ok_def drained_ok_def less_Suc_eq)
next
  case out_stop
  then show ?thesis
    using stream_okD(1,2) [OF ok] out_block [OF ok] by (intro stream_ok_drain [OF ok]) (auto simp: counts_ok_def drained_ok_def)
next
  case out_next
  have "out_at s = returned s mod kBlocks" using stream_okD(1) [OF ok] by (simp add: counts_ok_def)
  then show ?thesis
    using stream_okD(1,2) [OF ok] out_block(2) [OF ok] out_next advance_mod [OF kBlocks_pos, of "returned s"]
    by (intro stream_ok_drain [OF ok]) (auto simp: counts_ok_def drained_ok_def)
next
  case out_release
  then show ?thesis using stream_okD(1,2) [OF ok] by (intro stream_ok_drain [OF ok]) (auto simp: counts_ok_def drained_ok_def)
next
  case out_flush
  then show ?thesis using stream_okD(1,2) [OF ok] by (intro stream_ok_drain [OF ok]) (auto simp: counts_ok_def drained_ok_def)
qed

lemma stream_reachable_ok:
  assumes "stream_reachable memory s" and "length memory = kBlockSize * kBlocks"
  shows "stream_ok s"
  using assms(1)
proof induction
  case stream_start
  have "min (kBlockSize * kBlocks - i * kBlockSize) kBlockSize = kBlockSize" if "i < kBlocks" for i
    using that mult_le_mono1 [of "Suc i" kBlocks kBlockSize] by (simp add: mult.commute)
  then show ?case using assms(2)
    by (auto simp: stream_ok_def ThreadedBufferedStream_new_def counts_ok_def drained_ok_def blocks_ok_def filled_ok_def)
qed (auto intro: stream_ok_call stream_ok_step)

subsection \<open>Progress\<close>

text \<open>
  How many steps may follow if no new call comes: seven for every block the filler may still pass on, four
  of them for the drainer.
\<close>

fun steps_after :: "continuation \<Rightarrow> nat" where
  "steps_after (Then_write data) = 7 * length data + 1"
| "steps_after (Then_format _ _) = 1"
| "steps_after Then_poison = 7"
| "steps_after Then_join = 1"

fun filler_steps :: "nat \<Rightarrow> filler \<Rightarrow> nat" where
  "filler_steps c Constructing = 1"
| "filler_steps c (Writing data) = 7 * (length data + (if c = 0 then 0 else 1)) + 1"
| "filler_steps c (Formatting _ _) = (if c = 0 then 1 else 8)"
| "filler_steps c (Next k) = steps_after k + 6"
| "filler_steps c (Next_wait k) = steps_after k + 1"
| "filler_steps c Closing = 14"
| "filler_steps c Joining = 1"
| "filler_steps c _ = 0"

fun drainer_steps :: "drainer \<Rightarrow> nat" where
  "drainer_steps Not_started = 4" | "drainer_steps Out_wait = 4" | "drainer_steps Out_test = 7" | "drainer_steps Out_next = 5"
| "drainer_steps Out_release = 6" | "drainer_steps Out_flush = 1" | "drainer_steps Out_end = 0"

definition steps_bound :: "ThreadedBufferedStream \<Rightarrow> nat" where
  "steps_bound s = filler_steps (current s) (filler s) + 4 * output_sem s + drainer_steps (drainer s)"

lemma steps_bound_step:
  assumes "stream_step s s'" and ok: "stream_ok s"
  shows "steps_bound s' < steps_bound s"
  using assms(1)
proof cases
  case (write_fill data n)
  have "current s \<le> kBlockSize" using stream_okD(4) [OF ok] by (simp add: filled_ok_def)
  then show ?thesis using write_fill kBlockSize_pos by (auto simp: steps_bound_def)
next
  case (success_wait c)
  then show ?thesis by (cases c) (simp_all add: steps_bound_def)
next
  case start
  then show ?thesis using stream_okD(4) [OF ok] by (simp add: steps_bound_def filled_ok_def)
qed (simp_all add: steps_bound_def)

lemma steps_bound_run: "(stream_step ^^ k) s s' \<Longrightarrow> stream_ok s \<Longrightarrow> stream_ok s' \<and> k + steps_bound s' \<le> steps_bound s"
proof (induction k arbitrary: s')
  case (Suc k)
  then obtain t where t: "(stream_step ^^ k) s t" "stream_step t s'" by auto
  then have "stream_ok t" "k + steps_bound t \<le> steps_bound s" using Suc by auto
  then show ?case using stream_ok_step [OF t(2)] steps_bound_step [OF t(2)] by simp
qed simp

lemma drainer_moves: "drainer s \<noteq> Not_started \<Longrightarrow> drainer s \<noteq> Out_end \<Longrightarrow> drainer s = Out_wait \<longrightarrow> 0 < output_sem s \<Longrightarrow> \<exists>s'. stream_step s s'"
  using out_write [of s] out_stop [of s] by (cases "drainer s") (auto intro: stream_step.intros)

lemma filler_moves:
  assumes ok: "stream_ok s" and "filler s \<noteq> Ready" "filler s \<noteq> Closed" "filler s \<noteq> Joining" "\<forall>c. filler s = Next_wait c \<longrightarrow> 0 < trash_sem s"
  shows "\<exists>s'. stream_step s s'"
proof (cases "filler s")
  case Constructing
  then have "0 < trash_sem s" using stream_okD(1,4) [OF ok] by (simp add: counts_ok_def filled_ok_def kBlocks_def)
  then show ?thesis using start Constructing by blast
next
  case (Writing data)
  then show ?thesis using write_fill [of s data] write_rest [of s data] by (meson not_le)
next
  case (Formatting amount data)
  then have "amount \<le> kBlockSize" using stream_okD(4) [OF ok] by (simp add: filled_ok_def)
  then show ?thesis using Formatting format_spill [of s amount data] format_room [of s amount data] by (metis add_0 not_le)
next
  case Closing
  then show ?thesis using close_spill close_empty by blast
qed (use assms success_next success_wait in blast)+

lemma stuck_filler:
  assumes ok: "stream_ok s" and stuck: "\<nexists>s'. stream_step s s'"
  shows "filler s = Ready \<or> filler s = Closed"
proof (rule ccontr)
  assume n: "\<not> (filler s = Ready \<or> filler s = Closed)"
  note c = stream_okD(1) [OF ok, unfolded counts_ok_def] and d = stream_okD(2) [OF ok, unfolded drained_ok_def]
    and f = stream_okD(4) [OF ok, unfolded filled_ok_def]
  have ns: "drainer s \<noteq> Not_started" using filler_moves [OF ok] f n stuck by auto
  then have dr: "drainer s = Out_end \<or> drainer s = Out_wait \<and> output_sem s = 0" using drainer_moves [of s] stuck by (metis gr0I)
  have last: "Suc (returned s) = length (sent s)" if "drainer s = Out_end" using that d f by auto
  show False
  proof (cases "filler s = Joining")
    case True
    then have "drainer s \<noteq> Out_end" using join stuck by blast
    then have w: "returned s = length (sent s)" "written s = sent s" using dr c d by auto
    have "sent s ! (length (sent s) - 1) = []" "sent s \<noteq> []" using f True by auto
    then show False using d w by (metis diff_less length_greater_0_conv zero_less_one)
  next
    case False
    then obtain k where k: "filler s = Next_wait k" "trash_sem s = 0" using filler_moves [OF ok] n stuck by blast
    then have "in_flight s = 3" using c by (simp add: kBlocks_def)
    then show False using dr last c by auto
  qed
qed

text \<open>What a closed stream has given to its writer; none of the blocks was empty.\<close>

lemma closed_stream:
  assumes ok: "stream_ok s" and cl: "filler s = Closed"
  shows "concat (written s) = accepted s" and "flushed s" and "[] \<notin> set (written s)"
proof -
  note d = stream_okD(2) [OF ok, unfolded drained_ok_def] and f = stream_okD(4) [OF ok, unfolded filled_ok_def]
  have e: "drainer s = Out_end" using f cl by simp
  then show "flushed s" using d by simp
  have r: "returned s < length (sent s)" "sent s ! returned s = []" "written s = take (returned s) (sent s)" using d e by auto
  then have "sent s = written s @ [[]]" using f by (metis id_take_nth_drop drop_all le_refl Suc_leI append_eq_conv_conj)
  then show "concat (written s) = accepted s" using f cl by simp
  show "[] \<notin> set (written s)"
  proof
    assume "[] \<in> set (written s)"
    then obtain k where "k < length (written s)" "written s ! k = []" by (metis in_set_conv_nth)
    then show False using d r(1,3) by simp
  qed
qed

subsection \<open>Properties\<close>

text \<open>
  C27. What the writer has been given is at every moment a prefix of the text put into the stream, and
  when the destructor has returned it is all of the text, flushed, however the two threads interleave. A
  block that is being filled is never one that the other thread reads.
\<close>

theorem ThreadedBufferedStream_correct:
  assumes "stream_reachable memory s" and "length memory = kBlockSize * kBlocks"
  shows "(\<exists>rest. accepted s = concat (written s) @ rest) \<and> (filler s = Closed \<longrightarrow> concat (written s) = accepted s \<and> flushed s) \<and>
    (holds_in (filler s) = 1 \<and> holds_out (drainer s) = 1 \<longrightarrow> in_at s \<noteq> out_at s)"
proof (intro conjI impI)
  note ok = stream_reachable_ok [OF assms]
  note c = stream_okD(1) [OF ok, unfolded counts_ok_def] and d = stream_okD(2) [OF ok, unfolded drained_ok_def]
    and f = stream_okD(4) [OF ok, unfolded filled_ok_def]
  obtain m where m: "written s = take m (sent s)" using d by blast
  have "concat (sent s) = concat (take m (sent s)) @ concat (drop m (sent s))" by (metis append_take_drop_id concat_append)
  then show "\<exists>rest. accepted s = concat (written s) @ rest" using f m by auto
  show "flushed s" "concat (written s) = accepted s" if "filler s = Closed"
    using closed_stream [OF ok that] by simp_all
  show "in_at s \<noteq> out_at s" if "holds_in (filler s) = 1 \<and> holds_out (drainer s) = 1"
  proof -
    have "returned s < length (sent s)" "in_flight s < kBlocks" using that c by linarith+
    then show ?thesis using mod_distinct [of "returned s" "length (sent s)" kBlocks] c by simp
  qed
qed

text \<open>
  C28. Every call on the stream returns, the destructor included: without a new call the two threads can
  only make a bounded number of steps, and they do not stop before the call has returned.
\<close>

theorem ThreadedBufferedStream_terminates:
  assumes "stream_reachable memory s" and "length memory = kBlockSize * kBlocks"
  shows "(\<forall>k s'. (stream_step ^^ k) s s' \<longrightarrow> k \<le> steps_bound s) \<and>
    ((\<nexists>s'. stream_step s s') \<longrightarrow> filler s = Ready \<or> filler s = Closed)"
  using steps_bound_run [OF _ stream_reachable_ok [OF assms]] stuck_filler [OF stream_reachable_ok [OF assms]]
  by (meson add_leD1)

text \<open>Two bytes written into a fresh stream.\<close>

definition stream_memory :: bytes where
  "stream_memory = replicate (kBlockSize * kBlocks) 0"

definition stream_example :: ThreadedBufferedStream where
  "stream_example = (copy_in ((ThreadedBufferedStream_new stream_memory)
     \<lparr>trash_sem := 2, drainer := Out_wait, filler := Writing [104, 105]\<rparr>) [104, 105])\<lparr>filler := Ready\<rparr>"

lemma stream_example_reachable: "stream_reachable stream_memory stream_example"
proof -
  let ?n = "ThreadedBufferedStream_new stream_memory"
  have "stream_step ?n (?n\<lparr>trash_sem := trash_sem ?n - 1, filler := Ready, drainer := Out_wait\<rparr>)"
    by (rule start) (simp_all add: ThreadedBufferedStream_new_def kBlocks_def)
  moreover have "trash_sem ?n - 1 = 2" by (simp add: ThreadedBufferedStream_new_def kBlocks_def)
  ultimately have 1: "stream_reachable stream_memory (?n\<lparr>trash_sem := 2, filler := Ready, drainer := Out_wait\<rparr>)"
    using stream_moved [OF stream_start, of stream_memory] by simp
  have 2: "stream_reachable stream_memory (?n\<lparr>trash_sem := 2, drainer := Out_wait, filler := Writing [104, 105]\<rparr>)"
    using stream_called [OF 1 call_write [of _ "[104, 105]"]] by simp
  show ?thesis
    unfolding stream_example_def
    by (rule stream_moved [OF 2 write_rest]) (simp_all add: ThreadedBufferedStream_new_def kBlockSize_def)
qed

theorem ThreadedBufferedStream_correct_witness:
  "stream_reachable stream_memory stream_example \<and> accepted stream_example = [104, 105] \<and>
   (\<exists>rest. accepted stream_example = concat (written stream_example) @ rest)"
  using ThreadedBufferedStream_correct [OF stream_example_reachable] stream_example_reachable
  by (simp add: stream_memory_def) (simp add: stream_example_def ThreadedBufferedStream_new_def)

theorem ThreadedBufferedStream_terminates_witness:
  "stream_reachable stream_memory stream_example \<and> \<not> (stream_step ^^ 5) stream_example stream_example"
proof -
  have "steps_bound stream_example = 4" by (simp add: steps_bound_def stream_example_def ThreadedBufferedStream_new_def)
  then show ?thesis
    using ThreadedBufferedStream_terminates [OF stream_example_reachable] stream_example_reachable by (auto simp: stream_memory_def)
qed

end
