(* ===== verification/FoldFilter.thy ===== *)
theory FoldFilter
  imports LinePrograms
begin

text \<open>
  \<^verbatim>\<open>foldfilter\<close> (\<^verbatim>\<open>src/preprocess/foldfilter_main.cc\<close>): every line of the input is cut into pieces of limited
  width, preferably at punctuation, the pieces go through another program, and what comes back is
  joined again. \<^verbatim>\<open>wrap_lines\<close> works on positions in the line, as the code does; its loop returns
  \<^term>\<open>None\<close> if it does not end. The other program is a parameter: what can be read from it given
  what was written to it. The two threads are composed one after the other, which is the order in
  which the queue and the pipe pass the data.
\<close>

definition not_found :: nat where
  "not_found = 2 ^ 64 - 1"

record wrap_options =
  column_width :: nat
  keep_delimiters_in_lines :: bool
  delimiters :: "u32 list"

definition find_delimiter :: "u32 list \<Rightarrow> u32 \<Rightarrow> nat" where
  "find_delimiter ds character =
     (let i = std_find character ds in if i = length ds then not_found else i)"

subsection \<open>\<open>DelimiterList\<close>\<close>

text \<open>The strings one after the other, each with a zero behind it.\<close>

record DelimiterList =
  dl_size :: nat
  dl_mem :: bytes

fun dl_store :: "bytes list \<Rightarrow> bytes" where
  "dl_store [] = []"
| "dl_store (d # ds) = d @ [0] @ dl_store ds"

definition DelimiterList_new :: "bytes list \<Rightarrow> DelimiterList" where
  "DelimiterList_new ds = \<lparr>dl_size = length ds, dl_mem = dl_store ds\<rparr>"

definition DelimiterList_empty :: DelimiterList where
  "DelimiterList_empty = \<lparr>dl_size = 0, dl_mem = []\<rparr>"

definition iterator_deref :: "bytes \<Rightarrow> bytes" where
  "iterator_deref strings = take (std_find 0 strings) strings"

definition iterator_advance :: "bytes \<Rightarrow> bytes" where
  "iterator_advance strings = drop (std_find 0 strings + 1) strings"

subsection \<open>\<open>wrap_lines\<close>\<close>

text \<open>A position kept in an \<^verbatim>\<open>int32_t\<close> and used as a \<^verbatim>\<open>size_t\<close> again.\<close>

definition as_int32 :: "nat \<Rightarrow> nat" where
  "as_int32 n = (if n mod 2 ^ 32 < 2 ^ 31 then n mod 2 ^ 32 else n mod 2 ^ 32 + 2 ^ 64 - 2 ^ 32)"

record wrap_state =
  pos :: nat
  pos_last_cut :: nat
  pos_delimiters :: "nat list"
  pos_first_delimiter :: nat
  out_lines :: "bytes list"
  out_delimiters :: "bytes list"

primrec find_cut :: "nat list \<Rightarrow> nat \<Rightarrow> nat \<Rightarrow> nat" where
  "find_cut [] last_cut here = here"
| "find_cut (d # ds) last_cut here = (if as_int32 d > last_cut then as_int32 d else find_cut ds last_cut here)"

function find_cut_end :: "wrap_options \<Rightarrow> bytes \<Rightarrow> nat \<Rightarrow> nat \<Rightarrow> nat result" where
  "find_cut_end options line last_cut cut_end =
     (if cut_end < length line then
        if keep_delimiters_in_lines options \<and> cut_end - last_cut \<ge> column_width options then Inr cut_end
        else (case DecodeUTF8 (drop cut_end line) of
                Inl e \<Rightarrow> Inl e
              | Inr (character, char_len) \<Rightarrow>
                  if find_delimiter (delimiters options) character = not_found then Inr cut_end
                  else find_cut_end options line last_cut (cut_end + char_len))
      else Inr cut_end)"
  by pat_completeness auto
termination
  by (relation "measure (\<lambda>(_, line, _, cut_end). length line - cut_end)") (auto dest: DecodeUTF8_length)

declare find_cut_end.simps [simp del]

text \<open>One character: remember delimiters; cut when the line has become too long.\<close>

definition note_character :: "wrap_options \<Rightarrow> u32 \<Rightarrow> wrap_state \<Rightarrow> wrap_state" where
  "note_character options character s =
     (let i = find_delimiter (delimiters options) character
      in if i \<noteq> not_found then s\<lparr>pos_delimiters := (pos_delimiters s)[i := pos_first_delimiter s]\<rparr>
         else s\<lparr>pos_first_delimiter := as_int32 (pos s)\<rparr>)"

definition cut_line :: "wrap_options \<Rightarrow> bytes \<Rightarrow> wrap_state \<Rightarrow> wrap_state result" where
  "cut_line options line s =
     (let cut = find_cut (pos_delimiters s) (pos_last_cut s) (pos s)
      in map_sum id
           (\<lambda>cut_end.
              let s = (if keep_delimiters_in_lines options
                       then s\<lparr>out_lines := out_lines s @ [substr line (pos_last_cut s) (cut_end - pos_last_cut s)],
                              out_delimiters := out_delimiters s @ [[]]\<rparr>
                       else s\<lparr>out_lines := out_lines s @ [substr line (pos_last_cut s) (cut - pos_last_cut s)],
                              out_delimiters := out_delimiters s @ [take (cut_end - cut) (drop cut line)]\<rparr>)
              in s\<lparr>pos_last_cut := cut_end, pos := cut_end\<rparr>)
           (find_cut_end options line (pos_last_cut s) cut))"

definition wrap_step :: "wrap_options \<Rightarrow> bytes \<Rightarrow> wrap_state \<Rightarrow> wrap_state result" where
  "wrap_step options line s =
     (case DecodeUTF8 (drop (pos s) line) of
        Inl e \<Rightarrow> Inl e
      | Inr (character, char_len) \<Rightarrow>
          let s = note_character options character (s\<lparr>pos := pos s + char_len\<rparr>)
          in if pos s - pos_last_cut s < column_width options then Inr s else cut_line options line s)"

partial_function (option) wrap_loop :: "wrap_options \<Rightarrow> bytes \<Rightarrow> wrap_state \<Rightarrow> wrap_state result option" where
  "wrap_loop options line s =
     (if pos s < length line then
        (case wrap_step options line s of
           Inl e \<Rightarrow> Some (Inl e)
         | Inr s \<Rightarrow> wrap_loop options line s)
      else Some (Inr s))"

definition wrap_start :: "wrap_options \<Rightarrow> wrap_state" where
  "wrap_start options =
     \<lparr>pos = 0, pos_last_cut = 0, pos_delimiters = replicate (length (delimiters options)) 0, pos_first_delimiter = 0,
      out_lines = [], out_delimiters = []\<rparr>"

definition wrap_rest :: "bytes \<Rightarrow> wrap_state \<Rightarrow> bytes list \<times> bytes list" where
  "wrap_rest line s =
     (if pos_last_cut s < pos s \<or> pos s = 0
      then (out_lines s @ [substr line (pos_last_cut s) (pos s - pos_last_cut s)], out_delimiters s @ [[]])
      else (out_lines s, out_delimiters s))"

definition wrap_lines :: "bytes \<Rightarrow> wrap_options \<Rightarrow> (bytes list \<times> bytes list) result option" where
  "wrap_lines line options = map_option (map_sum id (wrap_rest line)) (wrap_loop options line (wrap_start options))"

definition parse_delimiters :: "bytes \<Rightarrow> u32 list result" where
  "parse_delimiters value = DecodeUTF8Range value"

subsection \<open>The two threads\<close>

text \<open>The feeder: the delimiters of a line go to the queue before its pieces go to the child.\<close>

definition feed_step :: "wrap_options \<Rightarrow> DelimiterList list step" where
  "feed_step options queue sentence =
     map_option (map_sum id (\<lambda>(ls, ds). (queue @ [DelimiterList_new ds], concat (map (\<lambda>line. [Str line, Chr newline]) ls))))
       (wrap_lines sentence options)"

definition feeder :: "'z Environment \<Rightarrow> wrap_options \<Rightarrow> Desc \<Rightarrow> Desc \<Rightarrow> (DelimiterList list \<times> Desc) result option" where
  "feeder env options stdin child_in =
     map_option (map_sum id (\<lambda>(queue, child_in). (queue @ [DelimiterList_empty], child_in)))
       (run_program env (feed_step options) [] stdin child_in)"

text \<open>The reader: as many lines as the entry of the queue has strings make a sentence.\<close>

primrec read_sentence :: "'z Environment \<Rightarrow> nat \<Rightarrow> bytes \<Rightarrow> bytes \<Rightarrow> 'z FilePiece \<Rightarrow> ('z FilePiece \<times> bytes result) option" where
  "read_sentence env 0 delimit sentence child_out = Some (child_out, Inr sentence)"
| "read_sentence env (Suc n) delimit sentence child_out =
     (case ReadLine env newline True child_out of
        None \<Rightarrow> None
      | Some (child_out, Inl e) \<Rightarrow> Some (child_out, Inl (if e = EndOfFileException then Exception else e))
      | Some (child_out, Inr line) \<Rightarrow>
          read_sentence env n (iterator_advance delimit) (sentence @ line @ iterator_deref delimit) child_out)"

text \<open>
  When the queue is empty the child must not have anything to say. Waiting for an entry that nobody
  will produce is \<^term>\<open>None\<close>.
\<close>

definition check_caught_up :: "'z Environment \<Rightarrow> DelimiterList list \<Rightarrow> 'z FilePiece \<Rightarrow> ('z FilePiece \<times> unit result) option" where
  "check_caught_up env queue child_out =
     (if queue = [] then
        map_option (map_prod id (\<lambda>r. case r of Inl e \<Rightarrow> Inl e | Inr _ \<Rightarrow> Inl Exception)) (peek env child_out)
      else Some (child_out, Inr ()))"

primrec reader ::
  "'z Environment \<Rightarrow> DelimiterList list \<Rightarrow> 'z FilePiece \<Rightarrow> Desc BufferedStream \<Rightarrow> Desc BufferedStream result option"
where
  "reader env [] child_out out = None"
| "reader env (strings # queue) child_out out =
     (if dl_size strings > 0 then
        (case read_sentence env (dl_size strings) (dl_mem strings) [] child_out of
           None \<Rightarrow> None
         | Some (_, Inl e) \<Rightarrow> Some (Inl e)
         | Some (child_out, Inr sentence) \<Rightarrow>
             (case insert_items FileStream_ops out [Str sentence, Chr newline] of
                (_, Inl e) \<Rightarrow> Some (Inl e)
              | (out, Inr _) \<Rightarrow>
                  (case check_caught_up env queue child_out of
                     None \<Rightarrow> None
                   | Some (_, Inl e) \<Rightarrow> Some (Inl e)
                   | Some (child_out, Inr _) \<Rightarrow> reader env queue child_out out)))
      else Some (Inr out))"

text \<open>The child: what it was given determines the pipe that its answer is read from.\<close>

definition foldfilter_main ::
  "'z Environment \<Rightarrow> wrap_options \<Rightarrow> (bytes \<Rightarrow> 'z Environment \<times> Desc) \<Rightarrow> Desc \<Rightarrow> Desc \<Rightarrow> Desc \<Rightarrow> Desc result option"
where
  "foldfilter_main env options child child_in stdin stdout =
     (case feeder env options stdin child_in of
        None \<Rightarrow> None
      | Some (Inl e) \<Rightarrow> Some (Inl e)
      | Some (Inr (queue, child_in)) \<Rightarrow>
          let (env', fd) = child (d_out child_in)
          in case Initialize env' 1048576 fd of
               None \<Rightarrow> None
             | Some (_, Inl e) \<Rightarrow> Some (Inl e)
             | Some (child_out, Inr _) \<Rightarrow>
                 (case reader env' queue child_out (BufferedStream_new stdout) of
                    None \<Rightarrow> None
                  | Some (Inl e) \<Rightarrow> Some (Inl e)
                  | Some (Inr out) \<Rightarrow>
                      Some (case fo_flush FileStream_ops out of
                              (_, Inl e) \<Rightarrow> Inl e
                            | (out, Inr _) \<Rightarrow> Inr (bs_writer out))))"

subsection \<open>Lemmas on the parts\<close>

lemma dl_store_iterate:
  "0 \<notin> set d \<Longrightarrow> iterator_deref (dl_store (d # ds)) = d \<and> iterator_advance (dl_store (d # ds)) = dl_store ds"
  by (auto simp: iterator_deref_def iterator_advance_def std_find_def find_if_append simp del: take_find_if drop_find_if)

lemma utf8_encode_nonzero:
  assumes "scalar_value n" and "n \<noteq> 0"
  shows "0 \<notin> set (utf8_encode n)"
proof -
  have nz: "(of_nat k :: byte) \<noteq> 0" if "0 < k" "k < 256" for k :: nat
    using that by (simp add: word_of_nat_eq_0_iff nat_dvd_not_less)
  have "n < 0x800 \<Longrightarrow> n div 64 < 32" "n < 0x10000 \<Longrightarrow> n div 4096 < 16" "n div 262144 < 5"
    using assms(1) by (auto simp: scalar_value_def)
  then have b: "n < 0x800 \<Longrightarrow> 0xC0 + n div 64 < 256" "n < 0x10000 \<Longrightarrow> 0xE0 + n div 4096 < 256" "0xF0 + n div 262144 < 256"
    "0x80 + k mod 64 < 256" for k :: nat by auto
  show ?thesis
    using assms(2) nz [of n] nz [OF _ b(1)] nz [OF _ b(2)] nz [OF _ b(3)] nz [OF _ b(4)]
    unfolding utf8_encode_def by (auto simp del: of_nat_add)
qed

text \<open>A position between two characters.\<close>

definition boundary :: "bytes \<Rightarrow> nat \<Rightarrow> bool" where
  "boundary line p \<longleftrightarrow> p \<le> length line \<and> IsUTF8 (take p line) \<and> IsUTF8 (drop p line)"

lemma IsUTF8_Nil: "IsUTF8 []"
  by (rule IsUTF8_ASCII) simp

lemma take_cut: "a \<le> b \<Longrightarrow> take a line @ take (b - a) (drop a line) = take b line"
  by (metis le_add_diff_inverse take_add)

lemma boundary_cut: "boundary line a \<Longrightarrow> boundary line b \<Longrightarrow> a \<le> b \<Longrightarrow> IsUTF8 (take (b - a) (drop a line))"
  unfolding boundary_def by (metis IsUTF8_append take_cut)

lemma IsUTF8_character: "scalar_value m \<Longrightarrow> IsUTF8 (utf8_encode m)"
  unfolding IsUTF8_iff by (intro exI [of _ "[of_nat m]"]) (auto simp: utf8_string_def scalar_value_def unat_of_nat)

lemma DecodeUTF8_at_boundary:
  assumes "boundary line p" and "p < length line"
  obtains c n where "DecodeUTF8 (drop p line) = Inr (c, n)" and "1 \<le> n" and "n \<le> 4" and "boundary line (p + n)"
    and "c \<noteq> 0 \<Longrightarrow> 0 \<notin> set (take n (drop p line))"
proof -
  have ne: "drop p line \<noteq> []" using assms(2) by simp
  obtain cps where cps: "decode_all (drop p line) = Inr cps"
    using assms(1) unfolding boundary_def IsUTF8_def DecodeUTF8Range_eq by (auto split: sum.splits)
  then obtain c n cps' where d: "DecodeUTF8 (drop p line) = Inr (c, n)" "decode_all (drop n (drop p line)) = Inr cps'"
    using ne decode_all_step decode_all_error by (cases "DecodeUTF8 (drop p line)") (auto simp: decode_all.simps [of "drop p line"] split: sum.splits)
  obtain m where m: "scalar_value m" "c = of_nat m" "n = length (utf8_encode m)" "prefix (utf8_encode m) (drop p line)"
    using d(1) unfolding DecodeUTF8_iff by blast
  have "IsUTF8 (drop (p + n) line)" using d(2) unfolding IsUTF8_def DecodeUTF8Range_eq by (simp add: add.commute)
  moreover have "p + n \<le> length line" using DecodeUTF8_length(2) [OF d(1)] assms(2) by simp
  moreover have "0 \<notin> set (take n (drop p line))" if "c \<noteq> 0"
  proof -
    have "take n (drop p line) = utf8_encode m" using m(3,4) by (auto elim: prefixE)
    moreover have "0 \<notin> set (utf8_encode m)" using m(1,2) that by (intro utf8_encode_nonzero) (auto intro!: gr0I)
    ultimately show ?thesis by simp
  qed
  moreover have "IsUTF8 (take (p + n) line)"
  proof -
    have "take n (drop p line) = utf8_encode m" using m(3,4) by (auto elim: prefixE)
    then show ?thesis using assms(1) IsUTF8_character [OF m(1)] by (simp add: take_add boundary_def IsUTF8_append)
  qed
  ultimately show thesis using that d(1) DecodeUTF8_length(1) [OF d(1)] m(3) length_utf8_encode(2) by (simp add: boundary_def)
qed

lemma as_int32_small: "n < 2 ^ 31 \<Longrightarrow> as_int32 n = n"
  by (simp add: as_int32_def)

lemma find_delimiter_found: "length ds < not_found \<Longrightarrow> find_delimiter ds c \<noteq> not_found \<longleftrightarrow> c \<in> set ds"
  by (auto simp: find_delimiter_def Let_def std_find_def scan_simps) (metis find_if_le leD)

text \<open>The width is a limit up to the rest of a character of at most four bytes.\<close>

definition width_limit :: "wrap_options \<Rightarrow> nat" where
  "width_limit options = max 1 (column_width options) + 3"

lemma find_cut_spec:
  assumes "last_cut < here" and "\<forall>d\<in>set ds. as_int32 d = d"
  shows "last_cut < find_cut ds last_cut here" and "find_cut ds last_cut here \<in> insert here (set ds)"
  using assms by (induction ds) auto

lemma find_cut_end_spec:
  assumes "boundary line cut_end" and "last_cut < cut_end" and "length (delimiters options) < not_found" and "0 \<notin> set (delimiters options)"
  shows "\<exists>e. find_cut_end options line last_cut cut_end = Inr e \<and> cut_end \<le> e \<and> boundary line e \<and> 0 \<notin> set (take (e - cut_end) (drop cut_end line)) \<and>
    (keep_delimiters_in_lines options \<longrightarrow> e \<le> max cut_end (last_cut + width_limit options))"
  using assms(1,2)
proof (induction "length line - cut_end" arbitrary: cut_end rule: less_induct)
  case less
  let ?keep = "keep_delimiters_in_lines options \<and> cut_end - last_cut \<ge> column_width options"
  show ?case
  proof (cases "cut_end < length line \<and> \<not> ?keep")
    case False
    then have "find_cut_end options line last_cut cut_end = Inr cut_end" by (subst find_cut_end.simps) auto
    then show ?thesis using less.prems by simp
  next
    case True
    obtain c n where c: "DecodeUTF8 (drop cut_end line) = Inr (c, n)" "1 \<le> n" "n \<le> 4" "boundary line (cut_end + n)"
      "c \<noteq> 0 \<Longrightarrow> 0 \<notin> set (take n (drop cut_end line))"
      using DecodeUTF8_at_boundary [OF less.prems(1)] True by blast
    show ?thesis
    proof (cases "c \<in> set (delimiters options)")
      case False
      then have "find_cut_end options line last_cut cut_end = Inr cut_end"
        using True c(1) find_delimiter_found [OF assms(3), of c] by (subst find_cut_end.simps) auto
      then show ?thesis using less.prems by simp
    next
      case in_set: True
      have e: "find_cut_end options line last_cut cut_end = find_cut_end options line last_cut (cut_end + n)"
        using True c(1) in_set find_delimiter_found [OF assms(3), of c] by (subst find_cut_end.simps) auto
      have lim: "keep_delimiters_in_lines options \<longrightarrow> cut_end + n \<le> last_cut + width_limit options"
        using True c(3) by (auto simp: width_limit_def)
      have lt: "length line - (cut_end + n) < length line - cut_end" using True c(2) by linarith
      obtain e where "find_cut_end options line last_cut (cut_end + n) = Inr e" "cut_end + n \<le> e" "boundary line e"
        "0 \<notin> set (take (e - (cut_end + n)) (drop (cut_end + n) line))"
        "keep_delimiters_in_lines options \<longrightarrow> e \<le> max (cut_end + n) (last_cut + width_limit options)"
        using less.hyps [OF lt c(4)] less.prems(2) by auto
      moreover have "take (e - cut_end) (drop cut_end line) = take n (drop cut_end line) @ take (e - (cut_end + n)) (drop (cut_end + n) line)"
        using calculation(2) take_add [of n "e - (cut_end + n)" "drop cut_end line"] by (simp add: add.commute)
      moreover have "0 \<notin> set (take n (drop cut_end line))" using c(5) in_set assms(4) by metis
      ultimately show ?thesis using lim unfolding e by (auto simp: max_def)
    qed
  qed
qed

text \<open>The invariant of the loop.\<close>

definition wrap_positions :: "wrap_options \<Rightarrow> bytes \<Rightarrow> wrap_state \<Rightarrow> bool" where
  "wrap_positions options line s \<longleftrightarrow>
     length (pos_delimiters s) = length (delimiters options) \<and> boundary line (pos_last_cut s) \<and> pos_last_cut s \<le> pos s \<and>
     (\<forall>p\<in>insert (pos s) (insert (pos_first_delimiter s) (set (pos_delimiters s))). boundary line p \<and> p \<le> pos_last_cut s + width_limit options)"

definition wrap_pieces :: "wrap_options \<Rightarrow> bytes \<Rightarrow> wrap_state \<Rightarrow> bool" where
  "wrap_pieces options line s \<longleftrightarrow>
     length (out_lines s) = length (out_delimiters s) \<and> concat (map2 (@) (out_lines s) (out_delimiters s)) = take (pos_last_cut s) line \<and>
     (\<forall>l\<in>set (out_lines s). l \<noteq> [] \<and> length l \<le> width_limit options \<and> IsUTF8 l) \<and>
     (\<forall>d\<in>set (out_delimiters s). 0 \<notin> set d \<and> (keep_delimiters_in_lines options \<longrightarrow> d = []))"

lemma boundary_le: "boundary line p \<Longrightarrow> p \<le> length line"
  by (simp add: boundary_def)

lemma concat_map2_snoc:
  "length ls = length ds \<Longrightarrow> concat (map2 (@) (ls @ [l]) (ds @ [d])) = concat (map2 (@) ls ds) @ l @ d"
  by simp

lemma cut_line_spec:
  assumes s: "wrap_positions options line s" "wrap_pieces options line s" and adv: "pos_last_cut s < pos s"
    and o: "length (delimiters options) < not_found" "0 \<notin> set (delimiters options)" and len: "length line < 2 ^ 31"
  shows "\<exists>s'. cut_line options line s = Inr s' \<and> wrap_positions options line s' \<and> wrap_pieces options line s' \<and>
    pos s' = pos_last_cut s' \<and> pos_last_cut s < pos_last_cut s'"
proof -
  let ?cut = "find_cut (pos_delimiters s) (pos_last_cut s) (pos s)" and ?last = "pos_last_cut s"
  have small: "\<forall>d\<in>set (pos_delimiters s). as_int32 d = d"
    using s(1) len boundary_le as_int32_small unfolding wrap_positions_def by (metis insertCI order_le_less_trans)
  note c = find_cut_spec [OF adv small]
  have cb: "boundary line ?cut" "?cut \<le> ?last + width_limit options" using c(2) s(1) unfolding wrap_positions_def by blast+
  obtain e where e: "find_cut_end options line ?last ?cut = Inr e" "?cut \<le> e" "boundary line e" "0 \<notin> set (take (e - ?cut) (drop ?cut line))"
    "keep_delimiters_in_lines options \<longrightarrow> e \<le> max ?cut (?last + width_limit options)"
    using find_cut_end_spec [OF cb(1) c(1) o] by blast
  let ?s = "if keep_delimiters_in_lines options
    then s\<lparr>out_lines := out_lines s @ [take (e - ?last) (drop ?last line)], out_delimiters := out_delimiters s @ [[]]\<rparr>
    else s\<lparr>out_lines := out_lines s @ [take (?cut - ?last) (drop ?last line)], out_delimiters := out_delimiters s @ [take (e - ?cut) (drop ?cut line)]\<rparr>"
  let ?s' = "?s\<lparr>pos_last_cut := e, pos := e\<rparr>"
  have r: "cut_line options line s = Inr ?s'" using e(1) by (simp add: cut_line_def Let_def substr_eq)
  have "wrap_positions options line ?s'"
    using s(1) e(2,3) c(1) unfolding wrap_positions_def by (auto intro: le_trans)
  moreover have "wrap_pieces options line ?s'"
  proof -
    have el: "e \<le> length line" "?cut \<le> length line" using e(3) cb(1) boundary_le by auto
    have p: "length (out_lines s) = length (out_delimiters s)" "concat (map2 (@) (out_lines s) (out_delimiters s)) = take ?last line"
      using s(2) by (simp_all add: wrap_pieces_def)
    have "boundary line ?last" using s(1) by (simp add: wrap_positions_def)
    then have valid: "IsUTF8 (take (e - ?last) (drop ?last line))" "IsUTF8 (take (?cut - ?last) (drop ?last line))"
      using boundary_cut [of line ?last] e(2,3) cb(1) c(1) by auto
    show ?thesis
    proof (cases "keep_delimiters_in_lines options")
      case True
      then show ?thesis
        using s(2) p valid(1) e(2,5) c(1) cb(2) el take_cut [of ?last e line] concat_map2_snoc [OF p(1)] by (auto simp: wrap_pieces_def)
    next
      case False
      have "take ?last line @ take (?cut - ?last) (drop ?last line) @ take (e - ?cut) (drop ?cut line) = take e line"
        using take_cut [of ?last ?cut line] take_cut [of ?cut e line] c(1) e(2) by (metis append_assoc less_imp_le)
      then show ?thesis
        using False s(2) p valid(2) e(4) c(1) cb(2) el concat_map2_snoc [OF p(1)] by (auto simp: wrap_pieces_def)
    qed
  qed
  ultimately show ?thesis using r e(2) c(1) by (intro exI [of _ ?s']) auto
qed

lemma note_character_spec:
  assumes "wrap_positions options line s" and "wrap_pieces options line s" and "length line < 2 ^ 31"
  shows "wrap_positions options line (note_character options c s)" and "wrap_pieces options line (note_character options c s)"
    and "pos (note_character options c s) = pos s" and "pos_last_cut (note_character options c s) = pos_last_cut s"
proof -
  have "as_int32 (pos s) = pos s"
    using assms(1,3) boundary_le [of line "pos s"] as_int32_small [of "pos s"] by (simp add: wrap_positions_def)
  then show "wrap_positions options line (note_character options c s)"
    using assms(1) set_update_subset_insert [of "pos_delimiters s" "find_delimiter (delimiters options) c" "pos_first_delimiter s"]
    unfolding wrap_positions_def by (auto simp: note_character_def Let_def)
qed (use assms(2) in \<open>auto simp: note_character_def Let_def wrap_pieces_def\<close>)

definition wrap_inv :: "wrap_options \<Rightarrow> bytes \<Rightarrow> wrap_state \<Rightarrow> bool" where
  "wrap_inv options line s \<longleftrightarrow> wrap_positions options line s \<and> wrap_pieces options line s \<and> pos s - pos_last_cut s < max 1 (column_width options)"

lemma wrap_step_spec:
  assumes s: "wrap_inv options line s" and more: "pos s < length line"
    and o: "length (delimiters options) < not_found" "0 \<notin> set (delimiters options)" and len: "length line < 2 ^ 31"
  shows "\<exists>s'. wrap_step options line s = Inr s' \<and> wrap_inv options line s' \<and>
    (pos_last_cut s < pos_last_cut s' \<or> pos_last_cut s' = pos_last_cut s \<and> pos s < pos s')"
proof -
  have ps: "wrap_positions options line s" "wrap_pieces options line s" "pos s - pos_last_cut s < max 1 (column_width options)"
    using s by (simp_all add: wrap_inv_def)
  obtain c n where c: "DecodeUTF8 (drop (pos s) line) = Inr (c, n)" "1 \<le> n" "n \<le> 4" "boundary line (pos s + n)"
    using DecodeUTF8_at_boundary [of line "pos s"] ps(1) more unfolding wrap_positions_def by blast
  let ?t = "s\<lparr>pos := pos s + n\<rparr>"
  have "pos s + n \<le> pos_last_cut s + width_limit options" using ps(1,3) c(3) by (auto simp: width_limit_def wrap_positions_def)
  then have t: "wrap_positions options line ?t" "wrap_pieces options line ?t"
    using ps(1,2) c(4) by (auto simp: wrap_positions_def wrap_pieces_def)
  note u = note_character_spec [OF t len, of c]
  let ?u = "note_character options c ?t"
  have st: "wrap_step options line s = (if pos ?u - pos_last_cut ?u < column_width options then Inr ?u else cut_line options line ?u)"
    by (simp add: wrap_step_def c(1) Let_def)
  show ?thesis
  proof (cases "pos ?u - pos_last_cut ?u < column_width options")
    case True
    then show ?thesis using st u c(2) by (auto simp: wrap_inv_def)
  next
    case False
    have "pos_last_cut ?u < pos ?u" using u(3,4) c(2) ps(1) by (simp add: wrap_positions_def)
    then obtain s' where "cut_line options line ?u = Inr s'" "wrap_positions options line s'" "wrap_pieces options line s'"
      "pos s' = pos_last_cut s'" "pos_last_cut ?u < pos_last_cut s'"
      using cut_line_spec [OF u(1,2) _ o len] by blast
    then show ?thesis using st False u(4) by (auto simp: wrap_inv_def)
  qed
qed

lemma wrap_loop_spec:
  assumes "wrap_inv options line s"
    and o: "length (delimiters options) < not_found" "0 \<notin> set (delimiters options)" and len: "length line < 2 ^ 31"
  shows "\<exists>s'. wrap_loop options line s = Some (Inr s') \<and> wrap_inv options line s' \<and> pos s' = length line"
  using assms(1)
proof (induction s rule: wf_induct_rule [OF wf_measures [of "[\<lambda>s. length line - pos_last_cut s, \<lambda>s. length line - pos s]"]])
  case (1 s)
  show ?case
  proof (cases "pos s < length line")
    case True
    obtain s' where s': "wrap_step options line s = Inr s'" "wrap_inv options line s'"
      "pos_last_cut s < pos_last_cut s' \<or> pos_last_cut s' = pos_last_cut s \<and> pos s < pos s'"
      using wrap_step_spec [OF 1(2) True o len] by blast
    have "pos_last_cut s' \<le> length line" using s'(2) boundary_le by (auto simp: wrap_inv_def wrap_positions_def)
    then have "(s', s) \<in> measures [\<lambda>s. length line - pos_last_cut s, \<lambda>s. length line - pos s]" using s'(3) True by auto
    then obtain t where "wrap_loop options line s' = Some (Inr t)" "wrap_inv options line t" "pos t = length line" using 1(1) s'(2) by blast
    then show ?thesis using True s'(1) by (subst wrap_loop.simps) simp
  next
    case False
    then have "pos s = length line" using 1(2) boundary_le [of line "pos s"] by (simp add: wrap_inv_def wrap_positions_def)
    then show ?thesis using 1(2) False by (subst wrap_loop.simps) simp
  qed
qed

text \<open>What cutting a line gives.\<close>

definition wrapped :: "wrap_options \<Rightarrow> bytes \<Rightarrow> bytes list \<Rightarrow> bytes list \<Rightarrow> bool" where
  "wrapped options line ls ds \<longleftrightarrow>
     length ls = length ds \<and> ls \<noteq> [] \<and> concat (map2 (@) ls ds) = line \<and>
     (\<forall>l\<in>set ls. length l \<le> width_limit options \<and> IsUTF8 l \<and> (line \<noteq> [] \<longrightarrow> l \<noteq> [])) \<and>
     (\<forall>d\<in>set ds. 0 \<notin> set d \<and> (keep_delimiters_in_lines options \<longrightarrow> d = []))"

lemma wrap_lines_spec:
  assumes "IsUTF8 line" and len: "length line < 2 ^ 31"
    and o: "length (delimiters options) < not_found" "0 \<notin> set (delimiters options)"
  shows "\<exists>ls ds. wrap_lines line options = Some (Inr (ls, ds)) \<and> wrapped options line ls ds"
proof -
  have "wrap_inv options line (wrap_start options)"
    using assms(1) by (auto simp: wrap_inv_def wrap_positions_def wrap_pieces_def wrap_start_def boundary_def IsUTF8_Nil)
  then obtain s where s: "wrap_loop options line (wrap_start options) = Some (Inr s)" "wrap_inv options line s" "pos s = length line"
    using wrap_loop_spec [OF _ o len] by blast
  have p: "wrap_positions options line s" "wrap_pieces options line s" using s(2) by (simp_all add: wrap_inv_def)
  have lc: "pos_last_cut s \<le> length line" "length line \<le> pos_last_cut s + width_limit options" using p(1) s(3) by (auto simp: wrap_positions_def)
  have valid: "IsUTF8 (drop (pos_last_cut s) line)" using p(1) by (simp add: wrap_positions_def boundary_def)
  have m: "length (out_lines s) = length (out_delimiters s)" "concat (map2 (@) (out_lines s) (out_delimiters s)) = take (pos_last_cut s) line"
    using p(2) by (simp_all add: wrap_pieces_def)
  have "wrapped options line (fst (wrap_rest line s)) (snd (wrap_rest line s))"
  proof (cases "pos_last_cut s < pos s \<or> pos s = 0")
    case True
    then show ?thesis using p(2) s(3) lc valid m concat_map2_snoc [OF m(1)] by (auto simp: wrap_rest_def wrapped_def wrap_pieces_def substr_eq)
  next
    case False
    then have e: "pos_last_cut s = length line" "line \<noteq> []" using s(3) lc(1) by auto
    then have "out_lines s \<noteq> []" using m(2) by auto
    then show ?thesis using False p(2) e by (auto simp: wrap_rest_def wrapped_def wrap_pieces_def)
  qed
  then show ?thesis using s(1) by (simp add: wrap_lines_def) (metis prod.collapse)
qed

subsection \<open>The program\<close>

lemma first_line_unlines:
  "newline \<notin> set x \<Longrightarrow> first_line newline strip_cr (x @ newline # rest) = (chomp strip_cr x, rest)"
  by (simp add: first_line_def takeWhile_append dropWhile_append)

text \<open>What comes back for a line: the answers to its pieces with the delimiters between them.\<close>

definition joined :: "(bytes \<Rightarrow> bytes) \<Rightarrow> bytes list \<times> bytes list \<Rightarrow> bytes" where
  "joined f c = concat (map2 (\<lambda>l d. chomp True (f l) @ d) (fst c) (snd c))"

lemma read_sentence_good:
  assumes "length ls = length ds" and "\<forall>d\<in>set ds. 0 \<notin> set d" and "\<forall>l\<in>set ls. newline \<notin> set (f l)"
    and "delivers env decodes fp (unlines (map f ls) @ rest)"
  shows "\<exists>fp'. read_sentence env (length ds) (dl_store ds) sentence fp = Some (fp', Inr (sentence @ joined f (ls, ds))) \<and> delivers env decodes fp' rest"
  using assms
proof (induction ls ds arbitrary: sentence fp rule: list_induct2)
  case (Cons l ls d ds)
  have c: "unlines (map f (l # ls)) @ rest = f l @ newline # (unlines (map f ls) @ rest)" by simp
  obtain fp1 where fp1: "ReadLine env newline True fp = Some (fp1, Inr (chomp True (f l)))" "delivers env decodes fp1 (unlines (map f ls) @ rest)"
    using ReadLine_good [OF Cons.prems(3), of newline True] Cons.prems(2) unfolding c by (auto simp: first_line_unlines)
  have it: "iterator_deref (dl_store (d # ds)) = d" "iterator_advance (dl_store (d # ds)) = dl_store ds"
    using dl_store_iterate [of d ds] Cons.prems(1) by simp_all
  show ?case
    using Cons.IH [OF _ _ fp1(2), of "sentence @ chomp True (f l) @ d"] Cons.prems(1,2) fp1(1) it by (simp add: joined_def del: dl_store.simps)
qed (auto simp: joined_def)

lemma ball_subset: "\<forall>x\<in>set (y # ys). P x \<Longrightarrow> \<forall>x\<in>set ys. P x"
  by simp

lemma reader_good:
  assumes "\<forall>c\<in>set cuts. length (fst c) = length (snd c) \<and> fst c \<noteq> [] \<and> (\<forall>d\<in>set (snd c). 0 \<notin> set d) \<and> (\<forall>l\<in>set (fst c). newline \<notin> set (f l))"
    and "delivers env decodes fp (unlines (map f (concat (map fst cuts))))" and "stream_ok out"
  shows "\<exists>out'. reader env (map (DelimiterList_new \<circ> snd) cuts @ [DelimiterList_empty]) fp out = Some (Inr out') \<and> stream_ok out' \<and>
    stream_text out' = stream_text out @ unlines (map (joined f) cuts)"
  using assms
proof (induction cuts arbitrary: fp out)
  case Nil
  then show ?case by (simp add: DelimiterList_empty_def)
next
  case (Cons c cuts)
  have c: "length (fst c) = length (snd c)" "snd c \<noteq> []" "\<forall>d\<in>set (snd c). 0 \<notin> set d" "\<forall>l\<in>set (fst c). newline \<notin> set (f l)"
    using Cons.prems(1) by auto
  have "delivers env decodes fp (unlines (map f (fst c)) @ unlines (map f (concat (map fst cuts))))"
    using Cons.prems(2) by (simp add: unlines_def)
  from read_sentence_good [OF c(1,3,4) this, of "[]"] obtain fp1 where
    fp1: "read_sentence env (length (snd c)) (dl_store (snd c)) [] fp = Some (fp1, Inr (joined f c))" "delivers env decodes fp1 (unlines (map f (concat (map fst cuts))))"
    by auto
  obtain out1 where out1: "insert_items FileStream_ops out [Str (joined f c), Chr newline] = (out1, Inr ())" "stream_ok out1"
      "stream_text out1 = stream_text out @ joined f c @ [newline]"
    using insert_items_good [OF Cons.prems(3), of "[Str (joined f c), Chr newline]"] by auto
  obtain out' where "reader env (map (DelimiterList_new \<circ> snd) cuts @ [DelimiterList_empty]) fp1 out1 = Some (Inr out')" "stream_ok out'"
      "stream_text out' = stream_text out1 @ unlines (map (joined f) cuts)"
    using Cons.IH [OF ball_subset [OF Cons.prems(1)] fp1(2) out1(2)] by blast
  moreover have r: "reader env (map (DelimiterList_new \<circ> snd) (c # cuts) @ [DelimiterList_empty]) fp out =
      reader env (map (DelimiterList_new \<circ> snd) cuts @ [DelimiterList_empty]) fp1 out1"
    using c(2) fp1(1) out1(1) by (simp add: DelimiterList_new_def check_caught_up_def del: insert_items.simps)
  ultimately show ?case unfolding r using out1(3) by (intro exI [of _ out']) (simp del: reader.simps)
qed

text \<open>The feeder as a program over lines: it prints the pieces and remembers the cuts.\<close>

definition cuts_of :: "wrap_options \<Rightarrow> bytes \<Rightarrow> bytes list \<times> bytes list" where
  "cuts_of options line = (case wrap_lines line options of Some (Inr c) \<Rightarrow> c | _ \<Rightarrow> ([], []))"

abbreviation options_ok :: "wrap_options \<Rightarrow> bool" where
  "options_ok options \<equiv> length (delimiters options) < not_found \<and> 0 \<notin> set (delimiters options)"

abbreviation cuttable :: "bytes \<Rightarrow> bool" where
  "cuttable line \<equiv> IsUTF8 line \<and> length line < 2 ^ 31"

lemma cuts_of_spec:
  assumes "cuttable line" and "options_ok options"
  shows "wrap_lines line options = Some (Inr (cuts_of options line))" and "wrapped options line (fst (cuts_of options line)) (snd (cuts_of options line))"
  using wrap_lines_spec [of line options] assms by (auto simp: cuts_of_def)

interpretation feed: line_program "feed_step options" "\<lambda>queue s _. options_ok options \<and> queue = map (DelimiterList_new \<circ> snd) s"
  "\<lambda>s line. (s @ [cuts_of options line], unlines (fst (cuts_of options line)))" cuttable for options
proof
  fix p :: "DelimiterList list" and s :: "(bytes list \<times> bytes list) list" and line :: bytes
  let ?c = "cuts_of options line"
  assume a: "options_ok options \<and> p = map (DelimiterList_new \<circ> snd) s" "cuttable line"
  have "items_text (concat (map (\<lambda>line. [Str line, Chr newline]) ls)) = unlines ls" for ls :: "bytes list" by (induction ls) simp_all
  then show "\<exists>p' xs. feed_step options p line = Some (Inr (p', xs)) \<and> items_text xs = snd (s @ [?c], unlines (fst ?c)) \<and>
      options_ok options \<and> p' = map (DelimiterList_new \<circ> snd) (fst (s @ [?c], unlines (fst ?c)))"
    using cuts_of_spec(1) [OF a(2)] a(1) by (cases ?c) (simp add: feed_step_def)
qed

lemma printed_feed:
  "printed (\<lambda>s line. (s @ [c line], unlines (fst (c line)))) s ls = (s @ map c ls, unlines (concat (map (fst \<circ> c) ls)))"
  by (induction ls arbitrary: s) (simp_all add: unlines_def)

lemma set_concat_map2: "length ls = length ds \<Longrightarrow> l \<in> set ls \<Longrightarrow> set l \<subseteq> set (concat (map2 (@) ls ds))"
  by (induction ls ds rule: list_induct2) auto

lemma joined_id:
  assumes "length ls = length ds" and "\<forall>l\<in>set ls. carriage_return \<notin> set l"
  shows "joined id (ls, ds) = concat (map2 (@) ls ds)"
proof -
  have "chomp True l = l" if "carriage_return \<notin> set l" for l using that last_in_set [of l] unfolding chomp_def by metis
  with assms show ?thesis by (induction ls ds rule: list_induct2) (simp_all add: joined_def)
qed

lemma joined_cuts: "wrapped options line (fst c) (snd c) \<Longrightarrow> carriage_return \<notin> set line \<Longrightarrow> joined id c = line"
  using joined_id [of "fst c" "snd c"] set_concat_map2 [of "fst c" "snd c"] unfolding wrapped_def by (metis prod.collapse subsetD)

text \<open>
  C11. \<^verbatim>\<open>wrap_lines\<close> returns for every valid UTF-8 line: as many delimiters as pieces, which put together in turn
  give the line again. Every piece is valid UTF-8 (no character is cut), is not empty unless the
  line is, and has at most the width, or one byte where the width is 0, plus the rest of
  its last character. The delimiters can be stored as C strings, and are empty when they are kept in the pieces.
\<close>

theorem wrap_lines_roundtrip:
  assumes "IsUTF8 line" and "length line < 2 ^ 31" and "length (delimiters options) < not_found" and "0 \<notin> set (delimiters options)"
  shows "\<exists>ls ds. wrap_lines line options = Some (Inr (ls, ds)) \<and> length ls = length ds \<and> concat (map2 (@) ls ds) = line \<and>
    (\<forall>l\<in>set ls. IsUTF8 l \<and> length l \<le> max 1 (column_width options) + 3 \<and> (line = [] \<or> l \<noteq> [])) \<and>
    (\<forall>d\<in>set ds. 0 \<notin> set d \<and> (\<not> keep_delimiters_in_lines options \<or> d = []))"
  using wrap_lines_spec [OF assms] unfolding wrapped_def width_limit_def by blast

text \<open>
  C12. \<^verbatim>\<open>foldfilter\<close> around a child that answers every line with one line: the output has one line for every line of
  the input, which is the answers to its pieces with the delimiters between them. With a
  child that repeats its input, the output has the lines of the input (the reader removes
  a carriage return at the end of a piece, so there must be none).
\<close>

theorem foldfilter_main_correct:
  assumes "opens env decodes stdin content" and "dependable child_in" and "d_out child_in = []" and "dependable stdout" and "options_ok options"
  defines "sentences \<equiv> text_lines newline True content"
  defines "pieces \<equiv> concat (map (fst \<circ> cuts_of options) sentences)"
  assumes "\<forall>line\<in>set sentences. cuttable line"
    and "opens (fst (child (unlines pieces))) decodes' (snd (child (unlines pieces))) (unlines (map f pieces))"
    and "\<forall>l\<in>set pieces. newline \<notin> set (f l)"
  shows "\<exists>stdout'. foldfilter_main env options child child_in stdin stdout = Some (Inr stdout') \<and>
    d_out stdout' = d_out stdout @ unlines (map (joined f \<circ> cuts_of options) sentences) \<and>
    (\<forall>line\<in>set sentences. wrap_lines line options = Some (Inr (cuts_of options line))) \<and>
    (f = id \<and> carriage_return \<notin> set (concat sentences) \<longrightarrow> d_out stdout' = d_out stdout @ unlines sentences)"
proof -
  note cuts = cuts_of_spec [OF _ assms(5)]
  let ?q = "map (DelimiterList_new \<circ> snd) (map (cuts_of options) sentences)"
  obtain child_in' where feed: "run_program env (feed_step options) [] stdin child_in = Some (Inr (?q, child_in'))" "d_out child_in' = unlines pieces"
    using feed.run_program_prints [OF assms(1,2), of options "[]" "[]"] assms(3,5,8) unfolding printed_feed sentences_def pieces_def by auto
  obtain env' fd where ch: "child (unlines pieces) = (env', fd)" by (cases "child (unlines pieces)")
  obtain fp where fp: "Initialize env' 1048576 fd = Some (fp, Inr ())" "delivers env' decodes' fp (unlines (map f pieces))"
    using Initialize_good [of env' decodes' fd] assms(9) ch by auto
  have ok: "\<forall>c\<in>set (map (cuts_of options) sentences). length (fst c) = length (snd c) \<and> fst c \<noteq> [] \<and> (\<forall>d\<in>set (snd c). 0 \<notin> set d) \<and> (\<forall>l\<in>set (fst c). newline \<notin> set (f l))"
    using cuts(2) assms(8,10) by (auto simp: wrapped_def pieces_def)
  have "delivers env' decodes' fp (unlines (map f (concat (map fst (map (cuts_of options) sentences)))))" "stream_ok (BufferedStream_new stdout)"
    using fp(2) assms(4) by (simp_all add: pieces_def BufferedStream_new_def)
  from reader_good [OF ok this] obtain out where out: "reader env' (?q @ [DelimiterList_empty]) fp (BufferedStream_new stdout) = Some (Inr out)" "stream_ok out"
      "stream_text out = d_out stdout @ unlines (map (joined f \<circ> cuts_of options) sentences)"
    by (auto simp: BufferedStream_new_def)
  obtain out' where out': "fo_flush FileStream_ops out = (out', Inr ())" "d_out (bs_writer out') = stream_text out" using flush_good [OF out(2)] by blast
  have "foldfilter_main env options child child_in stdin stdout = Some (Inr (bs_writer out'))"
    using feed ch fp(1) out(1) out'(1) by (simp add: foldfilter_main_def feeder_def del: map_map)
  moreover have "map (joined id \<circ> cuts_of options) sentences = sentences" if "carriage_return \<notin> set (concat sentences)"
    using that cuts(2) assms(8) by (intro map_idI) (auto intro!: joined_cuts)
  ultimately show ?thesis using out(3) out'(2) cuts(1) assms(8) by auto
qed

subsection \<open>A small input\<close>

definition small_options :: wrap_options where
  "small_options = \<lparr>column_width = 3, keep_delimiters_in_lines = False, delimiters = [32]\<rparr>"

lemma small_options_ok: "options_ok small_options"
  by (simp add: small_options_def not_found_def)

lemma small_cuts:
  "cuts_of small_options (lit ''ab cde'') = ([lit ''ab'', lit ''cde''], [lit '' '', []])"
  by (simp add: cuts_of_def wrap_lines_def wrap_start_def wrap_loop.simps wrap_step_def small_options_def lit_def decode_lead1 Let_def note_character_def
      find_delimiter_def std_find_def cut_line_def find_cut_end.simps as_int32_def not_found_def wrap_rest_def substr_eq)

theorem wrap_lines_roundtrip_witness:
  "\<exists>ls ds. wrap_lines (lit ''ab cde'') small_options = Some (Inr (ls, ds)) \<and> length ls = length ds \<and> concat (map2 (@) ls ds) = lit ''ab cde''"
proof -
  have "IsUTF8 (lit ''ab cde'')" by code_simp
  moreover have "length (lit ''ab cde'') < 2 ^ 31" by (simp add: lit_def)
  ultimately show ?thesis using wrap_lines_roundtrip [of "lit ''ab cde''" small_options] small_options_ok by blast
qed

theorem foldfilter_main_correct_witness:
  "\<exists>stdout'. foldfilter_main (small_env (lit ''ab cde'')) small_options (\<lambda>str. (small_env str, small_fd str)) small_out (small_fd (lit ''ab cde'')) small_out =
      Some (Inr stdout') \<and> d_out stdout' = lit ''ab cde'' @ [10]"
proof -
  let ?f = "lit ''ab cde''" and ?c = "lit ''ab'' @ [10] @ lit ''cde'' @ [10]"
  have o: "opens (small_env ?f) (\<lambda>_. stored_decodes) (small_fd ?f) ?f" "opens (small_env ?c) (\<lambda>_. stored_decodes) (small_fd ?c) ?c"
    by (rule small_opens, code_simp, simp add: lit_def)+
  have l: "text_lines newline True ?f = [?f]" by code_simp
  have p: "concat (map (fst \<circ> cuts_of small_options) [?f]) = [lit ''ab'', lit ''cde'']" by (simp add: small_cuts)
  have u: "unlines (map id [lit ''ab'', lit ''cde'']) = ?c" "unlines [lit ''ab'', lit ''cde''] = ?c" by simp_all
  have "IsUTF8 ?f" by code_simp
  then have "\<forall>line\<in>set [?f]. cuttable line" by (simp add: lit_def)
  moreover have "\<forall>l\<in>set [lit ''ab'', lit ''cde'']. newline \<notin> set (id l)" "carriage_return \<notin> set (concat [?f])" by code_simp+
  ultimately show ?thesis
    using foldfilter_main_correct [OF o(1) small_out_ok small_out_ok(1) small_options_ok, where child = "\<lambda>str. (small_env str, small_fd str)" and f = id,
        unfolded l p u fst_conv snd_conv, OF _ o(2)] small_out_ok(2) by auto
qed

end
