(* ===== verification/CaptivePrograms.thy ===== *)
theory CaptivePrograms
  imports FoldFilter
begin

text \<open>
  The other programs that wrap a child process: \<^verbatim>\<open>cache\<close> (\<^verbatim>\<open>src/preprocess/cache_main.cc\<close>) asks the child only
  once for every key, and \<^verbatim>\<open>b64filter\<close> (\<^verbatim>\<open>src/preprocess/b64filter_main.cc\<close>) passes the lines of
  base64 documents through it. As in \<open>FoldFilter\<close> the child is a parameter, and the thread that
  feeds it comes before the one that reads from it. A pointer to an entry of the hash table of
  \<^verbatim>\<open>cache\<close> is the key of the entry; an entry whose \<^verbatim>\<open>data()\<close> is \<^verbatim>\<open>NULL\<close> has the value \<^term>\<open>None\<close>.
\<close>

subsection \<open>\<^verbatim>\<open>cache\<close>\<close>

record CacheOptions =
  co_key :: bytes
  co_field_separator :: byte

record HashWithSeed =
  hs_hash :: u64

definition HashWithSeed_new :: HashWithSeed where
  "HashWithSeed_new = \<lparr>hs_hash = 0\<rparr>"

definition HashWithSeed_call :: "HashWithSeed \<Rightarrow> bytes \<Rightarrow> HashWithSeed" where
  "HashWithSeed_call h sp = h\<lparr>hs_hash := MurmurHashNative sp (hs_hash h)\<rparr>"

definition cache_key :: "FieldRange list \<Rightarrow> byte \<Rightarrow> bytes \<Rightarrow> u64 option" where
  "cache_key indices separator l = map_option hs_hash (RangeFields l indices separator HashWithSeed_call HashWithSeed_new)"

definition parse_key :: "bytes \<Rightarrow> FieldRange list result" where
  "parse_key key =
     (case ParseFields key [] of
        Inl e \<Rightarrow> Inl e
      | Inr indices \<Rightarrow> DefragmentFields indices)"

record InputState =
  in_cache :: "u64 \<rightharpoonup> bytes option"
  in_queue :: "u64 option list"
  in_process :: "Desc BufferedStream"
  in_flush_count :: u64

definition Input_body :: "u64 \<Rightarrow> (bytes \<Rightarrow> u64 option) \<Rightarrow> InputState \<Rightarrow> bytes \<Rightarrow> InputState result option" where
  "Input_body flush_rate key s l =
     (case key l of
        None \<Rightarrow> None
      | Some k \<Rightarrow> case in_cache s k of
           Some _ \<Rightarrow> Some (Inr (s\<lparr>in_queue := in_queue s @ [Some k]\<rparr>))
         | None \<Rightarrow>
             Some (case insert_items FileStream_ops (in_process s) [Str l, Chr newline] of
                     (_, Inl e) \<Rightarrow> Inl e
                   | (process, Inr _) \<Rightarrow>
                       let flush_count = in_flush_count s - 1
                       in case (if flush_count = 0 then fo_flush FileStream_ops process else (process, Inr ())) of
                            (_, Inl e) \<Rightarrow> Inl e
                          | (process, Inr _) \<Rightarrow>
                              Inr (s\<lparr>in_cache := (in_cache s)(k \<mapsto> None), in_process := process,
                                     in_flush_count := if flush_count = 0 then flush_rate else flush_count,
                                     in_queue := in_queue s @ [Some k]\<rparr>)))"

definition Input ::
  "'z Environment \<Rightarrow> u64 \<Rightarrow> CacheOptions \<Rightarrow> Desc \<Rightarrow> Desc \<Rightarrow> ((u64 \<rightharpoonup> bytes option) \<times> u64 option list \<times> Desc) result option"
where
  "Input env flush_rate options stdin process_input =
     (case parse_key (co_key options) of
        Inl e \<Rightarrow> Some (Inl e)
      | Inr indices \<Rightarrow>
          (case load_lines env (Input_body flush_rate (cache_key indices (co_field_separator options)))
                  \<lparr>in_cache = Map.empty, in_queue = [], in_process = BufferedStream_new process_input, in_flush_count = flush_rate\<rparr> stdin of
             None \<Rightarrow> None
           | Some (Inl e) \<Rightarrow> Some (Inl e)
           | Some (Inr s) \<Rightarrow>
               Some (case fo_flush FileStream_ops (in_process s) of
                       (_, Inl e) \<Rightarrow> Inl e
                     | (process, Inr _) \<Rightarrow> Inr (in_cache s, in_queue s @ [None], bs_writer process))))"

text \<open>Waiting for an entry that nobody will produce is \<^term>\<open>None\<close>.\<close>

primrec cache_Output ::
  "'z Environment \<Rightarrow> u64 option list \<Rightarrow> (u64 \<rightharpoonup> bytes option) \<Rightarrow> 'z FilePiece \<Rightarrow> Desc BufferedStream \<Rightarrow> Desc BufferedStream result option"
where
  "cache_Output env [] cache fp out = None"
| "cache_Output env (q # queue) cache fp out =
     (case q of
        None \<Rightarrow> Some (Inr out)
      | Some k \<Rightarrow>
          (case (case cache k of
                   Some (Some v) \<Rightarrow> Some (fp, Inr v)
                 | _ \<Rightarrow> ReadLine env newline True fp) of
             None \<Rightarrow> None
           | Some (_, Inl e) \<Rightarrow> Some (Inl e)
           | Some (fp, Inr v) \<Rightarrow>
               (case insert_items FileStream_ops out [Str v, Chr newline] of
                  (_, Inl e) \<Rightarrow> Some (Inl e)
                | (out, Inr _) \<Rightarrow> cache_Output env queue (cache(k \<mapsto> Some v)) fp out)))"

definition kFlushRate :: u64 where
  "kFlushRate = 4096"

definition cache_main ::
  "'z Environment \<Rightarrow> CacheOptions \<Rightarrow> (bytes \<Rightarrow> 'z Environment \<times> Desc) \<Rightarrow> Desc \<Rightarrow> Desc \<Rightarrow> Desc \<Rightarrow> Desc result option"
where
  "cache_main env options child child_in stdin stdout =
     (case Input env kFlushRate options stdin child_in of
        None \<Rightarrow> None
      | Some (Inl e) \<Rightarrow> Some (Inl e)
      | Some (Inr (cache, queue, child_in)) \<Rightarrow>
          let (env', fd) = child (d_out child_in)
          in case Initialize env' 1048576 fd of
               None \<Rightarrow> None
             | Some (_, Inl e) \<Rightarrow> Some (Inl e)
             | Some (fp, Inr _) \<Rightarrow>
                 (case cache_Output env' queue cache fp (BufferedStream_new stdout) of
                    None \<Rightarrow> None
                  | Some (Inl e) \<Rightarrow> Some (Inl e)
                  | Some (Inr out) \<Rightarrow>
                      Some (case fo_flush FileStream_ops out of
                              (_, Inl e) \<Rightarrow> Inl e
                            | (out, Inr _) \<Rightarrow> Inr (bs_writer out))))"

subsection \<open>\<^verbatim>\<open>b64filter\<close>\<close>

record Document =
  line_cnt :: nat
  has_trailing_newline :: bool

text \<open>\<^verbatim>\<open>doc.back()\<close> of an empty document reads the zero that ends the string.\<close>

definition doc_back :: "bytes \<Rightarrow> byte" where
  "doc_back doc = (if doc = [] then 0 else last doc)"

definition b64_feed_step :: "Document list step" where
  "b64_feed_step queue line =
     Some (case base64_decode line of
             Inl e \<Rightarrow> Inl e
           | Inr doc \<Rightarrow>
               let trailing = (doc_back doc = newline);
                   doc = (if \<not> trailing then doc @ [newline] else doc)
               in Inr (queue @ [\<lparr>line_cnt = count_list doc newline, has_trailing_newline = trailing\<rparr>], [Str doc]))"

definition b64_feeder :: "'z Environment \<Rightarrow> Desc \<Rightarrow> Desc \<Rightarrow> (Document list \<times> Desc) result option" where
  "b64_feeder env stdin child_in =
     map_option (map_sum id (\<lambda>(queue, child_in). (queue @ [\<lparr>line_cnt = 0, has_trailing_newline = False\<rparr>], child_in)))
       (run_program env b64_feed_step [] stdin child_in)"

primrec read_document :: "'z Environment \<Rightarrow> nat \<Rightarrow> bool \<Rightarrow> bytes \<Rightarrow> 'z FilePiece \<Rightarrow> ('z FilePiece \<times> bytes result) option" where
  "read_document env 0 trailing doc child_out = Some (child_out, Inr doc)"
| "read_document env (Suc n) trailing doc child_out =
     (case ReadLine env newline True child_out of
        None \<Rightarrow> None
      | Some (child_out, Inl e) \<Rightarrow> Some (child_out, Inl (if e = EndOfFileException then Exception else e))
      | Some (child_out, Inr line) \<Rightarrow>
          read_document env n trailing (doc @ line @ (if n > 0 \<or> trailing then [newline] else [])) child_out)"

text \<open>At the end of the queue nothing may be left of the child's output.\<close>

definition expect_end :: "'z Environment \<Rightarrow> 'z FilePiece \<Rightarrow> 'a \<Rightarrow> 'a result option" where
  "expect_end env child_out a =
     map_option (\<lambda>(_, r). case r of Inr _ \<Rightarrow> Inl Exception | Inl e \<Rightarrow> if e = EndOfFileException then Inr a else Inl e) (peek env child_out)"

primrec b64_reader ::
  "'z Environment \<Rightarrow> Document list \<Rightarrow> 'z FilePiece \<Rightarrow> Desc BufferedStream \<Rightarrow> Desc BufferedStream result option"
where
  "b64_reader env [] child_out out = None"
| "b64_reader env (document # queue) child_out out =
     (if line_cnt document > 0 then
        (case read_document env (line_cnt document) (has_trailing_newline document) [] child_out of
           None \<Rightarrow> None
         | Some (_, Inl e) \<Rightarrow> Some (Inl e)
         | Some (child_out, Inr doc) \<Rightarrow>
             (case insert_items FileStream_ops out [Str (base64_encode doc), Chr newline] of
                (_, Inl e) \<Rightarrow> Some (Inl e)
              | (out, Inr _) \<Rightarrow> b64_reader env queue child_out out))
      else expect_end env child_out out)"

definition b64filter_main ::
  "'z Environment \<Rightarrow> (bytes \<Rightarrow> 'z Environment \<times> Desc) \<Rightarrow> Desc \<Rightarrow> Desc \<Rightarrow> Desc \<Rightarrow> Desc result option"
where
  "b64filter_main env child child_in stdin stdout =
     (case b64_feeder env stdin child_in of
        None \<Rightarrow> None
      | Some (Inl e) \<Rightarrow> Some (Inl e)
      | Some (Inr (queue, child_in)) \<Rightarrow>
          let (env', fd) = child (d_out child_in)
          in case Initialize env' 1048576 fd of
               None \<Rightarrow> None
             | Some (_, Inl e) \<Rightarrow> Some (Inl e)
             | Some (child_out, Inr _) \<Rightarrow>
                 (case b64_reader env' queue child_out (BufferedStream_new stdout) of
                    None \<Rightarrow> None
                  | Some (Inl e) \<Rightarrow> Some (Inl e)
                  | Some (Inr out) \<Rightarrow>
                      Some (case fo_flush FileStream_ops out of
                              (_, Inl e) \<Rightarrow> Inl e
                            | (out, Inr _) \<Rightarrow> Inr (bs_writer out))))"

subsection \<open>What \<^verbatim>\<open>cache\<close> prints\<close>

lemma flush_again:
  assumes "stream_ok out"
  shows "\<exists>out'. fo_flush FileStream_ops out = (out', Inr ()) \<and> stream_ok out' \<and> stream_text out' = stream_text out"
proof -
  obtain out' where out': "fo_flush FileStream_ops out = (out', Inr ())" "dependable (bs_writer out')"
    using file_writer.buffered.flush_dependable [of out] assms by (metis prod.collapse)
  then show ?thesis using file_writer.buffered.flush_content [of out out'] assms by auto
qed

definition input_state :: "(bytes \<Rightarrow> u64) \<Rightarrow> bytes list \<Rightarrow> bytes \<Rightarrow> InputState \<Rightarrow> bool" where
  "input_state key ls str s \<longleftrightarrow>
     in_cache s = (\<lambda>k. if k \<in> key ` set ls then Some None else None) \<and> in_queue s = map (Some \<circ> key) ls \<and>
     stream_ok (in_process s) \<and> stream_text (in_process s) = str @ unlines (first_new key {} ls)"

lemma first_new_snoc:
  "first_new key seen (xs @ [x]) = first_new key seen xs @ (if key x \<in> seen \<union> key ` set xs then [] else [x])"
  by (induction xs arbitrary: seen) (auto simp: insert_absorb)

lemma unlines_append: "unlines (xs @ ys) = unlines xs @ unlines ys"
  by (simp add: unlines_def)

lemma unlines_empty: "unlines xs = [] \<longleftrightarrow> xs = []"
  by (cases xs) simp_all

lemma set_unlines: "x \<in> set xs \<Longrightarrow> set x \<subseteq> set (unlines xs)"
  by (auto simp: unlines_def)

lemma unlines_concat: "unlines (concat xss) = concat (map unlines xss)"
  by (induction xss) (simp_all add: unlines_append)

lemma foldl_HashWithSeed: "foldl HashWithSeed_call h ts = h\<lparr>hs_hash := hash_texts (hs_hash h) ts\<rparr>"
  by (induction ts arbitrary: h) (simp_all add: HashWithSeed_call_def)

lemma cache_key_eq:
  assumes "proper_ranges indices"
  shows "cache_key indices separator = (\<lambda>l. Some (hash_texts 0 (range_texts separator l indices)))"
  using assms by (simp add: fun_eq_iff cache_key_def RangeFields_eq foldl_HashWithSeed HashWithSeed_new_def)

lemma Input_body_good:
  assumes "input_state key done str s"
  shows "\<exists>s'. Input_body flush_rate (\<lambda>l. Some (key l)) s l = Some (Inr s') \<and> input_state key (done @ [l]) str s'"
proof (cases "key l \<in> key ` set done")
  case True
  then show ?thesis
    using assms by (auto simp: Input_body_def Let_def input_state_def first_new_snoc insert_absorb)
next
  case False
  have s: "in_cache s (key l) = None" "stream_ok (in_process s)" using assms False by (auto simp: input_state_def)
  obtain p1 where p1: "insert_items FileStream_ops (in_process s) [Str l, Chr newline] = (p1, Inr ())" "stream_ok p1"
      "stream_text p1 = stream_text (in_process s) @ l @ [newline]"
    using insert_items_good [OF s(2), of "[Str l, Chr newline]"] by auto
  let ?zero = "in_flush_count s - 1 = 0"
  obtain p2 where p2: "(if ?zero then fo_flush FileStream_ops p1 else (p1, Inr ())) = (p2, Inr ())" "stream_ok p2" "stream_text p2 = stream_text p1"
    using flush_again [OF p1(2)] p1(2) by (cases ?zero) auto
  let ?s' = "s\<lparr>in_cache := (in_cache s)(key l \<mapsto> None), in_process := p2,
      in_flush_count := if ?zero then flush_rate else in_flush_count s - 1, in_queue := in_queue s @ [Some (key l)]\<rparr>"
  have "Input_body flush_rate (\<lambda>l. Some (key l)) s l = Some (Inr ?s')"
    unfolding Input_body_def Let_def option.case s(1) p1(1) using p2(1) by simp
  moreover have "input_state key (done @ [l]) str ?s'"
    using assms False p1(3) p2(2,3) by (auto simp: input_state_def first_new_snoc unlines_append fun_eq_iff)
  ultimately show ?thesis by blast
qed

lemma fold_Input_body:
  "input_state key done str s \<Longrightarrow> \<exists>s'. fold_result (Input_body flush_rate (\<lambda>l. Some (key l))) s ls = Some (Inr s') \<and> input_state key (done @ ls) str s'"
proof (induction ls arbitrary: "done" s)
  case (Cons l ls)
  obtain s1 where s1: "Input_body flush_rate (\<lambda>l. Some (key l)) s l = Some (Inr s1)" "input_state key (done @ [l]) str s1"
    using Input_body_good [OF Cons.prems] by blast
  show ?case using Cons.IH [OF s1(2)] s1(1) by simp
qed simp

text \<open>The first line that has the key of a line.\<close>

definition representative :: "(bytes \<Rightarrow> u64) \<Rightarrow> bytes list \<Rightarrow> u64 \<Rightarrow> bytes" where
  "representative key ls k = hd (filter (\<lambda>m. key m = k) ls)"

lemma representative_append:
  "representative key (xs @ ys) k = (if k \<in> key ` set xs then representative key xs k else representative key ys k)"
proof (cases "k \<in> key ` set xs")
  case True
  then have "filter (\<lambda>m. key m = k) xs \<noteq> []" by (auto simp: filter_empty_conv)
  then show ?thesis using True by (simp add: representative_def)
next
  case False
  then have "filter (\<lambda>m. key m = k) xs = []" by (auto simp: filter_empty_conv)
  then show ?thesis using False by (simp add: representative_def)
qed

lemma representative_in: "l \<in> set ls \<Longrightarrow> representative key ls (key l) \<in> set ls \<and> key (representative key ls (key l)) = key l"
  using hd_in_set [of "filter (\<lambda>m. key m = key l) ls"] by (auto simp: representative_def filter_empty_conv)

lemma cache_Output_good:
  assumes "\<forall>k. (case cache k of Some (Some v) \<Rightarrow> k \<in> key ` set done \<and> v = chomp True (f (representative key done k)) | _ \<Rightarrow> k \<notin> key ` set done)"
    and "delivers env decodes fp (unlines (map f (first_new key (key ` set done) ls)))" and "stream_ok out"
    and "\<forall>l\<in>set (first_new key (key ` set done) ls). newline \<notin> set (f l)"
  shows "\<exists>out'. cache_Output env (map (Some \<circ> key) ls @ [None]) cache fp out = Some (Inr out') \<and> stream_ok out' \<and>
    stream_text out' = stream_text out @ unlines (map (\<lambda>l. chomp True (f (representative key (done @ ls) (key l)))) ls)"
  using assms
proof (induction ls arbitrary: "done" cache fp out)
  case (Cons l ls)
  let ?k = "key l" and ?new = "key l \<notin> key ` set done"
  let ?v = "chomp True (f (representative key (done @ [l]) ?k))"
  have fn: "first_new key (key ` set done) (l # ls) = (if ?new then [l] else []) @ first_new key (key ` set (done @ [l])) ls"
    by (auto simp: insert_absorb)
  have "\<exists>fp1. (case cache ?k of Some (Some v) \<Rightarrow> Some (fp, Inr v) | _ \<Rightarrow> ReadLine env newline True fp) = Some (fp1, Inr ?v) \<and>
      delivers env decodes fp1 (unlines (map f (first_new key (key ` set (done @ [l])) ls)))"
  proof (cases ?new)
    case True
    have rep: "representative key (done @ [l]) ?k = l" using True by (simp add: representative_append) (simp add: representative_def)
    have c: "unlines (map f (first_new key (key ` set done) (l # ls))) = f l @ newline # unlines (map f (first_new key (key ` set (done @ [l])) ls))"
      unfolding fn using True by simp
    have "newline \<notin> set (f l)" using Cons.prems(4) True by simp
    moreover have "(case cache ?k of Some (Some v) \<Rightarrow> Some (fp, Inr v) | _ \<Rightarrow> ReadLine env newline True fp) = ReadLine env newline True fp"
      using Cons.prems(1) [rule_format, of ?k] True by (auto split: option.splits)
    ultimately show ?thesis
      using ReadLine_good [OF Cons.prems(2) [unfolded c], of newline True] unfolding rep by (auto simp: first_line_unlines)
  next
    case False
    then have "cache ?k = Some (Some ?v)"
      using Cons.prems(1) [rule_format, of ?k] by (auto simp: representative_append split: option.splits)
    then show ?thesis using Cons.prems(2) False unfolding fn by simp
  qed
  then obtain fp1 where fp1: "(case cache ?k of Some (Some v) \<Rightarrow> Some (fp, Inr v) | _ \<Rightarrow> ReadLine env newline True fp) = Some (fp1, Inr ?v)"
    "delivers env decodes fp1 (unlines (map f (first_new key (key ` set (done @ [l])) ls)))" by blast
  obtain out1 where out1: "insert_items FileStream_ops out [Str ?v, Chr newline] = (out1, Inr ())" "stream_ok out1"
      "stream_text out1 = stream_text out @ ?v @ [newline]"
    using insert_items_good [OF Cons.prems(3), of "[Str ?v, Chr newline]"] by auto
  have cache': "\<forall>k. (case (cache(?k \<mapsto> Some ?v)) k of Some (Some v) \<Rightarrow> k \<in> key ` set (done @ [l]) \<and> v = chomp True (f (representative key (done @ [l]) k))
      | _ \<Rightarrow> k \<notin> key ` set (done @ [l]))" (is "\<forall>k. ?ok k")
  proof
    show "?ok k" for k using Cons.prems(1) [rule_format, of k] by (cases "k = ?k") (auto simp: representative_append split: option.splits)
  qed
  have "\<forall>l\<in>set (first_new key (key ` set (done @ [l])) ls). newline \<notin> set (f l)" using Cons.prems(4) unfolding fn by simp
  from Cons.IH [OF cache' fp1(2) out1(2) this] obtain out' where
    out': "cache_Output env (map (Some \<circ> key) ls @ [None]) (cache(?k \<mapsto> Some ?v)) fp1 out1 = Some (Inr out')" "stream_ok out'"
      "stream_text out' = stream_text out1 @ unlines (map (\<lambda>m. chomp True (f (representative key ((done @ [l]) @ ls) (key m)))) ls)" by blast
  have r: "cache_Output env (map (Some \<circ> key) (l # ls) @ [None]) cache fp out =
      cache_Output env (map (Some \<circ> key) ls @ [None]) (cache(?k \<mapsto> Some ?v)) fp1 out1"
    using fp1(1) out1(1) by (simp del: insert_items.simps)
  have "representative key (done @ l # ls) ?k = representative key (done @ [l]) ?k"
    using representative_append [of key "done @ [l]" ls ?k] by simp
  then show ?case unfolding r using out' out1(3) by (intro exI [of _ out']) simp
qed simp

text \<open>
  C13. \<^verbatim>\<open>cache\<close> around a child that answers every line with one line: the child is asked only for the first
  line of every key, and the output has for every line of the input the answer to the first line
  with its key. When the answer depends on the key alone this is the answer to the line itself. The
  key is the hash of the texts of the chosen ranges, which are in order and not empty.
\<close>

theorem cache_main_correct:
  assumes "opens env decodes stdin content" and "dependable child_in" and "d_out child_in = []" and "dependable stdout"
    and "parse_key (co_key options) = Inr indices" and "ordered_ranges indices" and "nonempty_ranges indices"
  defines "ls \<equiv> text_lines newline True content"
  defines "key \<equiv> \<lambda>l. hash_texts 0 (range_texts (co_field_separator options) l indices)"
  defines "asked \<equiv> first_new key {} ls"
  assumes "opens (fst (child (unlines asked))) decodes' (snd (child (unlines asked))) (unlines (map f asked))"
    and "\<forall>l\<in>set asked. newline \<notin> set (f l)"
  shows "\<exists>stdout'. cache_main env options child child_in stdin stdout = Some (Inr stdout') \<and>
    d_out stdout' = d_out stdout @ unlines (map (\<lambda>l. chomp True (f (representative key ls (key l)))) ls) \<and>
    distinct (map key asked) \<and>
    ((\<forall>l\<in>set ls. \<forall>m\<in>set ls. key l = key m \<longrightarrow> f l = f m) \<longrightarrow> d_out stdout' = d_out stdout @ unlines (map (\<lambda>l. chomp True (f l)) ls))"
proof -
  let ?s = "\<lparr>in_cache = Map.empty, in_queue = [], in_process = BufferedStream_new child_in, in_flush_count = kFlushRate\<rparr>"
  have "input_state key [] [] ?s" using assms(2,3) by (auto simp: input_state_def BufferedStream_new_def)
  then obtain s where s: "fold_result (Input_body kFlushRate (\<lambda>l. Some (key l))) ?s ls = Some (Inr s)" "input_state key ls [] s"
    using fold_Input_body by (metis append_Nil)
  obtain p where p: "fo_flush FileStream_ops (in_process s) = (p, Inr ())" "d_out (bs_writer p) = unlines asked"
    using flush_good [of "in_process s"] s(2) by (auto simp: input_state_def asked_def)
  have inp: "Input env kFlushRate options stdin child_in = Some (Inr (in_cache s, map (Some \<circ> key) ls @ [None], bs_writer p))"
  proof -
    have "cache_key indices (co_field_separator options) = (\<lambda>l. Some (key l))"
      using cache_key_eq assms(6,7) by (simp add: key_def)
    then show ?thesis
      using s p(1) by (simp add: Input_def assms(5) load_lines_fold [OF assms(1)] input_state_def flip: ls_def)
  qed
  obtain env' fd where ch: "child (unlines asked) = (env', fd)" by (cases "child (unlines asked)")
  obtain fp where fp: "Initialize env' 1048576 fd = Some (fp, Inr ())" "delivers env' decodes' fp (unlines (map f asked))"
    using Initialize_good [of env' decodes' fd] assms(11) ch by auto
  have "\<forall>k. (case in_cache s k of Some (Some v) \<Rightarrow> k \<in> key ` set [] \<and> v = chomp True (f (representative key [] k)) | _ \<Rightarrow> k \<notin> key ` set [])"
    using s(2) by (simp add: input_state_def)
  then obtain out where out: "cache_Output env' (map (Some \<circ> key) ls @ [None]) (in_cache s) fp (BufferedStream_new stdout) = Some (Inr out)" "stream_ok out"
      "stream_text out = d_out stdout @ unlines (map (\<lambda>l. chomp True (f (representative key ls (key l)))) ls)"
    using cache_Output_good [where cache = "in_cache s" and key = key and ?done = "[]" and f = f and env = env' and decodes = decodes' and fp = fp and ls = ls
        and out = "BufferedStream_new stdout"] fp(2) assms(4,12)
    by (auto simp: BufferedStream_new_def asked_def)
  obtain out' where out': "fo_flush FileStream_ops out = (out', Inr ())" "d_out (bs_writer out') = stream_text out" using flush_good [OF out(2)] by blast
  have "cache_main env options child child_in stdin stdout = Some (Inr (bs_writer out'))"
    using inp p(2) ch fp(1) out(1) out'(1) by (simp add: cache_main_def)
  moreover have shown: "d_out (bs_writer out') = d_out stdout @ unlines (map (\<lambda>l. chomp True (f (representative key ls (key l)))) ls)"
    using out(3) out'(2) by simp
  moreover have "distinct (map key asked)" using first_new_distinct [of key "{}" ls] by (simp add: asked_def)
  moreover have "d_out (bs_writer out') = d_out stdout @ unlines (map (\<lambda>l. chomp True (f l)) ls)"
    if same: "\<forall>l\<in>set ls. \<forall>m\<in>set ls. key l = key m \<longrightarrow> f l = f m"
  proof -
    have "f (representative key ls (key l)) = f l" if "l \<in> set ls" for l using representative_in [OF that, of key] same that by metis
    then have "map (\<lambda>l. chomp True (f (representative key ls (key l)))) ls = map (\<lambda>l. chomp True (f l)) ls" by simp
    then show ?thesis unfolding shown by (rule arg_cong)
  qed
  ultimately show ?thesis by blast
qed

subsection \<open>What \<^verbatim>\<open>b64filter\<close> prints\<close>

text \<open>The lines of a document that go to the child, and the document made from the answers.\<close>

definition terminated :: "bytes \<Rightarrow> bytes" where
  "terminated doc = (if doc_back doc = newline then doc else doc @ [newline])"

definition doc_lines :: "bytes \<Rightarrow> bytes list" where
  "doc_lines doc = text_lines newline False (terminated doc)"

definition refiltered :: "(bytes \<Rightarrow> bytes) \<Rightarrow> bytes \<Rightarrow> bytes" where
  "refiltered f doc =
     (let answer = unlines (map (chomp True \<circ> f) (doc_lines doc)) in if doc_back doc = newline then answer else butlast answer)"

lemma text_lines_unlines:
  "str = [] \<or> last str = newline \<Longrightarrow> unlines (text_lines newline False str) = str \<and> length (text_lines newline False str) = count_list str newline"
proof (induction "length str" arbitrary: str rule: less_induct)
  case less
  show ?case
  proof (cases "str = []")
    case False
    then have "newline \<in> set str" using less.prems last_in_set by metis
    then obtain l r where str: "str = l @ newline # r" "newline \<notin> set l" by (metis split_list_first)
    have f: "first_line newline False str = (l, r)" using str by (simp add: first_line_unlines chomp_def)
    have "r = [] \<or> last r = newline" using less.prems str(1) by (cases "r = []") simp_all
    moreover have "length r < length str" using str(1) by simp
    ultimately have "unlines (text_lines newline False r) = r \<and> length (text_lines newline False r) = count_list r newline" using less.hyps by blast
    moreover have "text_lines newline False str = l # text_lines newline False r" using False f by (subst text_lines.simps) simp
    ultimately show ?thesis using str by (simp add: count_list_0_iff)
  qed (simp add: text_lines.simps)
qed

lemma terminated_last: "last (terminated doc) = newline" "terminated doc \<noteq> []"
  by (auto simp: terminated_def doc_back_def)

lemma doc_lines_spec: "unlines (doc_lines doc) = terminated doc" "length (doc_lines doc) = count_list (terminated doc) newline" "doc_lines doc \<noteq> []"
proof -
  show u: "unlines (doc_lines doc) = terminated doc" and "length (doc_lines doc) = count_list (terminated doc) newline"
    using text_lines_unlines [of "terminated doc"] terminated_last [of doc] by (simp_all add: doc_lines_def)
  show "doc_lines doc \<noteq> []" using u terminated_last(2) [of doc] by auto
qed

lemma read_document_good:
  assumes "\<forall>l\<in>set ls. newline \<notin> set (f l)" and "delivers env decodes fp (unlines (map f ls) @ rest)"
  shows "\<exists>fp'. read_document env (length ls) trailing doc fp =
      Some (fp', Inr (doc @ (let answer = unlines (map (chomp True \<circ> f) ls) in if trailing then answer else butlast answer))) \<and>
    delivers env decodes fp' rest"
  using assms
proof (induction ls arbitrary: doc fp)
  case (Cons l ls)
  have c: "unlines (map f (l # ls)) @ rest = f l @ newline # (unlines (map f ls) @ rest)" by simp
  obtain fp1 where fp1: "ReadLine env newline True fp = Some (fp1, Inr (chomp True (f l)))" "delivers env decodes fp1 (unlines (map f ls) @ rest)"
    using ReadLine_good [OF Cons.prems(2), of newline True] Cons.prems(1) unfolding c by (auto simp: first_line_unlines)
  show ?case
    using Cons.IH [OF _ fp1(2), of "doc @ chomp True (f l) @ (if ls \<noteq> [] \<or> trailing then [newline] else [])"] Cons.prems(1) fp1(1)
    by (cases "ls = []") (auto simp: Let_def butlast_append unlines_empty)
qed (auto simp: Let_def)

lemma peek_end:
  assumes "delivers env decodes fp []"
  shows "\<exists>fp'. peek env fp = Some (fp', Inl EndOfFileException)"
proof -
  have st: "stands env decodes fp []" using assms by (simp add: delivers_def)
  then have none: "available fp = []" "fp_position fp \<le> length (fp_data fp)"
    using stands_available [of env decodes fp "[]"] by (auto simp: stands_def)
  then have pos: "fp_position fp = length (fp_data fp)" by simp
  show ?thesis
  proof (cases "fp_at_end fp")
    case True
    then show ?thesis using pos by (simp add: peek_def Shift_def)
  next
    case False
    obtain fp' where fp': "Shift env fp = Some (fp', Inr ())" "delivers env decodes fp' []" "progress fp fp'" using Shift_good [OF st False] by blast
    then have "available fp' = []" using stands_available [of env decodes fp' "[]"] by (auto simp: delivers_def)
    then have "fp_at_end fp'" using fp'(3) by (simp add: progress_def)
    then show ?thesis using pos fp'(1) by (simp add: peek_def)
  qed
qed

definition describe :: "bytes \<Rightarrow> Document" where
  "describe doc = \<lparr>line_cnt = length (doc_lines doc), has_trailing_newline = doc_back doc = newline\<rparr>"

lemma b64_reader_good:
  assumes "\<forall>doc\<in>set docs. \<forall>l\<in>set (doc_lines doc). newline \<notin> set (f l)"
    and "delivers env decodes fp (unlines (map f (concat (map doc_lines docs))))" and "stream_ok out"
  shows "\<exists>out'. b64_reader env (map describe docs @ [\<lparr>line_cnt = 0, has_trailing_newline = False\<rparr>]) fp out = Some (Inr out') \<and> stream_ok out' \<and>
    stream_text out' = stream_text out @ unlines (map (\<lambda>doc. base64_encode (refiltered f doc)) docs)"
  using assms
proof (induction docs arbitrary: fp out)
  case Nil
  then show ?case using peek_end [of env decodes fp] by (auto simp: expect_end_def)
next
  case (Cons doc docs)
  have "delivers env decodes fp (unlines (map f (doc_lines doc)) @ unlines (map f (concat (map doc_lines docs))))"
    using Cons.prems(2) by (simp add: unlines_append)
  from read_document_good [OF _ this, of "doc_back doc = newline" "[]"] Cons.prems(1) obtain fp1 where
    fp1: "read_document env (length (doc_lines doc)) (doc_back doc = newline) [] fp = Some (fp1, Inr (refiltered f doc))"
      "delivers env decodes fp1 (unlines (map f (concat (map doc_lines docs))))"
    by (auto simp: refiltered_def)
  obtain out1 where out1: "insert_items FileStream_ops out [Str (base64_encode (refiltered f doc)), Chr newline] = (out1, Inr ())" "stream_ok out1"
      "stream_text out1 = stream_text out @ base64_encode (refiltered f doc) @ [newline]"
    using insert_items_good [OF Cons.prems(3), of "[Str (base64_encode (refiltered f doc)), Chr newline]"] by auto
  have r: "b64_reader env (map describe (doc # docs) @ [\<lparr>line_cnt = 0, has_trailing_newline = False\<rparr>]) fp out =
      b64_reader env (map describe docs @ [\<lparr>line_cnt = 0, has_trailing_newline = False\<rparr>]) fp1 out1"
    using fp1(1) out1(1) doc_lines_spec(3) [of doc] by (simp add: describe_def del: insert_items.simps)
  show ?case using Cons.IH [OF ball_subset [OF Cons.prems(1)] fp1(2) out1(2)] out1(3) unfolding r by auto
qed

abbreviation decoded :: "bytes \<Rightarrow> bytes" where
  "decoded line \<equiv> projr (base64_decode line)"

interpretation b64_feed: line_program b64_feed_step "\<lambda>queue s _. queue = map describe s"
  "\<lambda>s line. (s @ [decoded line], terminated (decoded line))" "\<lambda>line. \<exists>doc. base64_decode line = Inr doc"
proof
  fix p :: "Document list" and s :: "bytes list" and n and line :: bytes
  assume "p = map describe s" "\<exists>doc. base64_decode line = Inr doc"
  then show "\<exists>p' xs. b64_feed_step p line = Some (Inr (p', xs)) \<and> items_text xs = snd (s @ [decoded line], terminated (decoded line)) \<and>
      p' = map describe (fst (s @ [decoded line], terminated (decoded line)))"
    using doc_lines_spec(2) [of "decoded line"] by (auto simp: b64_feed_step_def Let_def describe_def terminated_def)
qed

lemma printed_documents:
  "printed (\<lambda>s line. (s @ [decoded line], terminated (decoded line))) s ls =
     (s @ map decoded ls, unlines (concat (map (doc_lines \<circ> decoded) ls)))"
  by (induction ls arbitrary: s) (simp_all add: unlines_append doc_lines_spec(1))

lemma refiltered_id:
  assumes "carriage_return \<notin> set doc"
  shows "refiltered id doc = doc"
proof -
  have "set (terminated doc) \<subseteq> insert newline (set doc)" by (auto simp: terminated_def)
  then have "carriage_return \<notin> set (terminated doc)" using assms by auto
  then have "carriage_return \<notin> set l" if "l \<in> set (doc_lines doc)" for l
    using that doc_lines_spec(1) [of doc] set_unlines [of l "doc_lines doc"] by auto
  then have "map (chomp True \<circ> id) (doc_lines doc) = doc_lines doc"
    by (intro map_idI) (auto simp: chomp_def dest: last_in_set)
  then show ?thesis using doc_lines_spec(1) [of doc] by (auto simp: refiltered_def Let_def terminated_def)
qed

text \<open>
  C14. \<^verbatim>\<open>b64filter\<close> around a child that answers every line with one line: the child gets the lines of the
  decoded documents one after the other, and every line of the input becomes the base64 form
  of the answers to its lines, with a newline at the end exactly where the document has one.
  With a child that repeats its input the documents come out as they were (they must be free of
  carriage returns, which the reader removes at the end of a line).
\<close>

theorem b64filter_main_correct:
  assumes "opens env decodes stdin content" and "dependable child_in" and "d_out child_in = []" and "dependable stdout"
  defines "ls \<equiv> text_lines newline True content"
  defines "docs \<equiv> map decoded ls"
  defines "pieces \<equiv> concat (map doc_lines docs)"
  assumes "\<forall>line\<in>set ls. \<exists>doc. base64_decode line = Inr doc"
    and "opens (fst (child (unlines pieces))) decodes' (snd (child (unlines pieces))) (unlines (map f pieces))"
    and "\<forall>l\<in>set pieces. newline \<notin> set (f l)"
  shows "\<exists>stdout'. b64filter_main env child child_in stdin stdout = Some (Inr stdout') \<and>
    d_out stdout' = d_out stdout @ unlines (map (\<lambda>doc. base64_encode (refiltered f doc)) docs) \<and>
    unlines pieces = concat (map terminated docs) \<and>
    (f = id \<and> carriage_return \<notin> set (concat docs) \<longrightarrow> d_out stdout' = d_out stdout @ unlines (map base64_encode docs))"
proof -
  let ?poison = "\<lparr>line_cnt = 0, has_trailing_newline = False\<rparr> :: Document"
  obtain child_in' where feed: "run_program env b64_feed_step [] stdin child_in = Some (Inr (map describe docs, child_in'))" "d_out child_in' = unlines pieces"
    using b64_feed.run_program_prints [OF assms(1,2), of "[]" "[]"] assms(3,8) unfolding printed_documents ls_def docs_def pieces_def by auto
  obtain env' fd where ch: "child (unlines pieces) = (env', fd)" by (cases "child (unlines pieces)")
  obtain fp where fp: "Initialize env' 1048576 fd = Some (fp, Inr ())" "delivers env' decodes' fp (unlines (map f pieces))"
    using Initialize_good [of env' decodes' fd] assms(9) ch by auto
  have ok: "\<forall>doc\<in>set docs. \<forall>l\<in>set (doc_lines doc). newline \<notin> set (f l)" using assms(10) by (auto simp: pieces_def)
  have "stream_ok (BufferedStream_new stdout)" using assms(4) by (simp add: BufferedStream_new_def)
  from b64_reader_good [OF ok fp(2) [unfolded pieces_def] this] obtain out where
    out: "b64_reader env' (map describe docs @ [?poison]) fp (BufferedStream_new stdout) = Some (Inr out)" "stream_ok out"
      "stream_text out = d_out stdout @ unlines (map (\<lambda>doc. base64_encode (refiltered f doc)) docs)"
    by (auto simp: BufferedStream_new_def)
  obtain out' where out': "fo_flush FileStream_ops out = (out', Inr ())" "d_out (bs_writer out') = stream_text out" using flush_good [OF out(2)] by blast
  have "b64filter_main env child child_in stdin stdout = Some (Inr (bs_writer out'))"
    using feed ch fp(1) out(1) out'(1) by (simp add: b64filter_main_def b64_feeder_def)
  moreover have shown: "d_out (bs_writer out') = d_out stdout @ unlines (map (\<lambda>doc. base64_encode (refiltered f doc)) docs)"
    using out(3) out'(2) by simp
  moreover have "unlines pieces = concat (map terminated docs)"
    by (simp add: pieces_def unlines_concat doc_lines_spec(1) comp_def)
  moreover have "d_out (bs_writer out') = d_out stdout @ unlines (map base64_encode docs)" if same: "f = id \<and> carriage_return \<notin> set (concat docs)"
  proof -
    have "map (\<lambda>doc. base64_encode (refiltered f doc)) docs = map base64_encode docs"
      using same refiltered_id by (intro map_cong) auto
    then show ?thesis unfolding shown by (rule arg_cong)
  qed
  ultimately show ?thesis by blast
qed

subsection \<open>Small inputs\<close>

definition first_field :: CacheOptions where
  "first_field = \<lparr>co_key = lit ''1'', co_field_separator = tab\<rparr>"

lemma first_field_parse: "parse_key (co_key first_field) = Inr [\<lparr>fr_begin = 0, fr_end = 1\<rparr>]"
proof -
  have "ParseFields (lit ''1'') [] = Inr [\<lparr>fr_begin = 0, fr_end = 1\<rparr>]"
    by (simp add: lit_def ParseFields.simps ParseField_def ParseBegin_def ParseEnd_def ConsumeInt_def strtoul_def
        isspace_def isdigit_def dec_value_def digit_value_def)
  then show ?thesis by (simp add: parse_key_def first_field_def DefragmentFields_def sort_fields_def defragment_loop.simps)
qed

theorem cache_main_correct_witness:
  "\<exists>stdout'. cache_main (small_env small_file) first_field (\<lambda>str. (small_env str, small_fd str)) small_out (small_fd small_file) small_out =
      Some (Inr stdout') \<and> d_out stdout' = lit ''a'' @ [10] @ lit ''b'' @ [10] @ lit ''a'' @ [10]"
proof -
  let ?c = "lit ''a'' @ [10] @ lit ''b'' @ [10]" and ?key = "\<lambda>l. hash_texts 0 (range_texts (co_field_separator first_field) l [\<lparr>fr_begin = 0, fr_end = 1\<rparr>])"
  let ?ls = "[lit ''a'', lit ''b'', lit ''a'']" and ?child = "\<lambda>str. (small_env str, small_fd str)"
  have asked: "first_new ?key {} ?ls = [lit ''a'', lit ''b'']" by code_simp
  have u: "unlines (map id [lit ''a'', lit ''b'']) = ?c" "unlines [lit ''a'', lit ''b''] = ?c" by simp_all
  have o: "opens (small_env ?c) (\<lambda>_. stored_decodes) (small_fd ?c) ?c" by (rule small_opens, code_simp, simp add: lit_def)
  have a: "map (\<lambda>l. chomp True (id (representative ?key ?ls (?key l)))) ?ls = ?ls" by code_simp
  have nl: "\<forall>l\<in>set [lit ''a'', lit ''b'']. newline \<notin> set (id l)" by code_simp
  have r: "ordered_ranges [\<lparr>fr_begin = 0, fr_end = 1\<rparr>]" "nonempty_ranges [\<lparr>fr_begin = 0, fr_end = 1\<rparr>]"
    by (simp_all add: ordered_ranges_def)
  from cache_main_correct [OF small_file_opens small_out_ok small_out_ok(1) first_field_parse r, where child = ?child and f = id,
      unfolded small_lines asked u fst_conv snd_conv, OF o nl] a small_out_ok(2)
  show ?thesis by auto
qed

theorem b64filter_main_correct_witness:
  "\<exists>stdout'. b64filter_main (small_env (lit ''YQo='' @ [10] @ lit ''Yg=='')) (\<lambda>str. (small_env str, small_fd str)) small_out
      (small_fd (lit ''YQo='' @ [10] @ lit ''Yg=='')) small_out = Some (Inr stdout') \<and> d_out stdout' = lit ''YQo='' @ [10] @ lit ''Yg=='' @ [10]"
proof -
  let ?f = "lit ''YQo='' @ [10] @ lit ''Yg==''" and ?c = "lit ''a'' @ [10] @ lit ''b'' @ [10]"
  let ?docs = "[lit ''a'' @ [10], lit ''b'']" and ?child = "\<lambda>str. (small_env str, small_fd str)"
  have l: "text_lines newline True ?f = [lit ''YQo='', lit ''Yg=='']" by code_simp
  have d: "map decoded [lit ''YQo='', lit ''Yg==''] = ?docs" by code_simp
  have p: "concat (map doc_lines ?docs) = [lit ''a'', lit ''b'']" by code_simp
  have u: "unlines (map id [lit ''a'', lit ''b'']) = ?c" "unlines [lit ''a'', lit ''b''] = ?c" by simp_all
  have o: "opens (small_env ?f) (\<lambda>_. stored_decodes) (small_fd ?f) ?f" "opens (small_env ?c) (\<lambda>_. stored_decodes) (small_fd ?c) ?c"
    by (rule small_opens, code_simp, simp add: lit_def)+
  have "base64_decode (lit ''YQo='') = Inr (lit ''a'' @ [10])" "base64_decode (lit ''Yg=='') = Inr (lit ''b'')" by code_simp+
  then have ok: "\<forall>line\<in>set [lit ''YQo='', lit ''Yg=='']. \<exists>doc. base64_decode line = Inr doc" by simp
  have nl: "\<forall>l\<in>set [lit ''a'', lit ''b'']. newline \<notin> set (id l)" by code_simp
  have e: "map base64_encode ?docs = [lit ''YQo='', lit ''Yg=='']" and c: "carriage_return \<notin> set (concat ?docs)" by code_simp+
  from b64filter_main_correct [OF o(1) small_out_ok small_out_ok(1), where child = ?child and f = id, unfolded l d p u fst_conv snd_conv, OF ok o(2) nl] e c small_out_ok(2)
  show ?thesis by auto
qed

end
