(* ===== verification/DocEnc.thy ===== *)
theory DocEnc
  imports CaptivePrograms TokenizePiece
begin

text \<open>
  \<^verbatim>\<open>docenc\<close> (\<^verbatim>\<open>src/preprocess/docenc_main.cc\<close>): documents, separated by a blank line or by a zero byte, to
  lines of base64 and back. Iterators over the sorted indices are the indices that are left;
  the loops over a file return \<^term>\<open>None\<close> if they do not end. The indices and options are arguments.
\<close>

datatype Mode = ENCODE | DECODE

subsection \<open>Decoding\<close>

definition prefix_lines :: "bytes \<Rightarrow> Desc BufferedStream \<Rightarrow> bytes \<Rightarrow> (Desc BufferedStream \<times> unit result) option" where
  "prefix_lines input out pre =
     map_option (\<lambda>ts. insert_items FileStream_ops out (concat (map (\<lambda>t. [Str pre, Str t, Chr newline]) ts)))
       (token_list False (SingleCharacter newline) input)"

record DecodeState =
  dec_index :: nat
  dec_indices :: "nat list"
  dec_out :: "Desc BufferedStream"
  dec_encountered :: bool

definition separator_in :: "byte \<Rightarrow> bytes \<Rightarrow> bool" where
  "separator_in delimiter document =
     (let pattern = (if delimiter = newline then [newline, newline] else [delimiter])
      in std_search document pattern \<noteq> length document)"

text \<open>One document; the flag says whether the loop goes on.\<close>

definition decode_body :: "byte \<Rightarrow> nat list \<Rightarrow> bool \<Rightarrow> DecodeState \<Rightarrow> bytes \<Rightarrow> (DecodeState \<times> bool) result option" where
  "decode_body delimiter indices print_document_index s0 line =
     (let s = s0\<lparr>dec_index := dec_index s0 + 1\<rparr>
      in if indices \<noteq> [] \<and> dec_indices s = [] then Some (Inl OutOfBounds)
         else if indices \<noteq> [] \<and> hd (dec_indices s) \<noteq> dec_index s then Some (Inr (s, True))
         else
           let s = (if indices \<noteq> [] then s\<lparr>dec_indices := tl (dec_indices s)\<rparr> else s)
           in case base64_decode line of
                Inl e \<Rightarrow> Some (Inl e)
              | Inr document \<Rightarrow>
                  let s = s\<lparr>dec_encountered := dec_encountered s \<or> separator_in delimiter document\<rparr>
                  in map_option
                       (\<lambda>(out, r). case r of
                          Inl e \<Rightarrow> Inl e
                        | Inr _ \<Rightarrow>
                            (case insert_items FileStream_ops out [Chr delimiter] of
                               (_, Inl e) \<Rightarrow> Inl e
                             | (out, Inr _) \<Rightarrow> Inr (s\<lparr>dec_out := out\<rparr>, \<not> (indices \<noteq> [] \<and> dec_indices s = []))))
                       (if print_document_index then prefix_lines document (dec_out s) (dec (dec_index s) @ [tab])
                        else Some (insert_items FileStream_ops (dec_out s) [Str document])))"

partial_function (option) docenc_decode_loop ::
  "'z Environment \<Rightarrow> byte \<Rightarrow> nat list \<Rightarrow> bool \<Rightarrow> 'z FilePiece \<Rightarrow> DecodeState \<Rightarrow> DecodeState result option"
where
  "docenc_decode_loop env delimiter indices print_document_index fp s =
     (case ReadLineOrEOF env newline True fp of
        None \<Rightarrow> None
      | Some (_, Inl e) \<Rightarrow> Some (Inl e)
      | Some (_, Inr None) \<Rightarrow> Some (Inr s)
      | Some (fp, Inr (Some line)) \<Rightarrow>
          (case decode_body delimiter indices print_document_index s line of
             None \<Rightarrow> None
           | Some (Inl e) \<Rightarrow> Some (Inl e)
           | Some (Inr (s, go_on)) \<Rightarrow>
               if go_on then docenc_decode_loop env delimiter indices print_document_index fp s else Some (Inr s)))"

text \<open>The value: the stream, the number of the last document, and whether a separator was seen.\<close>

definition docenc_decode ::
  "'z Environment \<Rightarrow> 'z FilePiece \<Rightarrow> Desc BufferedStream \<Rightarrow> byte \<Rightarrow> nat list \<Rightarrow> bool \<Rightarrow> bool \<Rightarrow> (Desc BufferedStream \<times> nat \<times> bool) result option"
where
  "docenc_decode env fp out delimiter indices print_document_index encountered =
     map_option (map_sum id (\<lambda>s. (dec_out s, dec_index s, dec_encountered s)))
       (docenc_decode_loop env delimiter indices print_document_index fp
          \<lparr>dec_index = 0, dec_indices = indices, dec_out = out, dec_encountered = encountered\<rparr>)"

subsection \<open>Encoding\<close>

text \<open>The lines up to the end of a document; the flag is \<^verbatim>\<open>is_eof\<close>.\<close>

partial_function (option) accumulate :: "'z Environment \<Rightarrow> byte \<Rightarrow> 'z FilePiece \<Rightarrow> bytes \<Rightarrow> ('z FilePiece \<times> (bytes \<times> bool) result) option" where
  "accumulate env delimiter fp document =
     (case ReadLineOrEOF env delimiter True fp of
        None \<Rightarrow> None
      | Some (fp, Inl e) \<Rightarrow> Some (fp, Inl e)
      | Some (fp, Inr None) \<Rightarrow> Some (fp, Inr (document, True))
      | Some (fp, Inr (Some line)) \<Rightarrow>
          if delimiter = newline \<and> line = [] then Some (fp, Inr (document, False))
          else if delimiter = newline then accumulate env delimiter fp (document @ line @ [newline])
          else Some (fp, Inr (document @ line, False)))"

record EncodeState =
  enc_index :: nat
  enc_indices :: "nat list"
  enc_out :: "Desc BufferedStream"

definition encode_body :: "nat list \<Rightarrow> EncodeState \<Rightarrow> bytes \<Rightarrow> bool \<Rightarrow> (EncodeState \<times> bool) result" where
  "encode_body indices s0 document is_eof =
     (let s = s0\<lparr>enc_index := enc_index s0 + 1\<rparr>
      in if indices \<noteq> [] \<and> enc_indices s = [] then Inl OutOfBounds
         else if indices \<noteq> [] \<and> hd (enc_indices s) \<noteq> enc_index s then Inr (s, is_eof)
         else
           let s = (if indices \<noteq> [] then s\<lparr>enc_indices := tl (enc_indices s)\<rparr> else s);
               is_eof = (is_eof \<or> (indices \<noteq> [] \<and> enc_indices s = []))
           in case insert_items FileStream_ops (enc_out s) [Str (base64_encode document), Chr newline] of
                (_, Inl e) \<Rightarrow> Inl e
              | (out, Inr _) \<Rightarrow> Inr (s\<lparr>enc_out := out\<rparr>, is_eof))"

partial_function (option) docenc_encode_loop ::
  "'z Environment \<Rightarrow> byte \<Rightarrow> nat list \<Rightarrow> 'z FilePiece \<Rightarrow> EncodeState \<Rightarrow> EncodeState result option"
where
  "docenc_encode_loop env delimiter indices fp s =
     (case accumulate env delimiter fp [] of
        None \<Rightarrow> None
      | Some (_, Inl e) \<Rightarrow> Some (Inl e)
      | Some (fp, Inr (document, is_eof)) \<Rightarrow>
          if is_eof \<and> document = [] then Some (Inr s)
          else (case encode_body indices s document is_eof of
                  Inl e \<Rightarrow> Some (Inl e)
                | Inr (s, is_eof) \<Rightarrow> if is_eof then Some (Inr s) else docenc_encode_loop env delimiter indices fp s))"

definition docenc_encode ::
  "'z Environment \<Rightarrow> 'z FilePiece \<Rightarrow> Desc BufferedStream \<Rightarrow> byte \<Rightarrow> nat list \<Rightarrow> (Desc BufferedStream \<times> nat) result option"
where
  "docenc_encode env fp out delimiter indices =
     map_option (map_sum id (\<lambda>s. (enc_out s, enc_index s)))
       (docenc_encode_loop env delimiter indices fp \<lparr>enc_index = 0, enc_indices = indices, enc_out = out\<rparr>)"

subsection \<open>The program\<close>

text \<open>The files are opened before the first is read. The warnings go to standard error.\<close>

record DocOptions =
  do_mode :: Mode
  do_delimiter :: byte
  do_print_index :: bool
  do_warn :: bool
  do_indices :: "nat list"

primrec open_files :: "('z Environment \<times> Desc) list \<Rightarrow> ('z Environment \<times> 'z FilePiece) list result option" where
  "open_files [] = Some (Inr [])"
| "open_files (f # fs) =
     (case Initialize (fst f) 1048576 (snd f) of
        None \<Rightarrow> None
      | Some (_, Inl e) \<Rightarrow> Some (Inl e)
      | Some (fp, Inr _) \<Rightarrow> map_option (map_sum id (\<lambda>fps. (fst f, fp) # fps)) (open_files fs))"

primrec process_files ::
  "DocOptions \<Rightarrow> nat list \<Rightarrow> ('z Environment \<times> 'z FilePiece) list \<Rightarrow> Desc BufferedStream \<Rightarrow> Desc BufferedStream result option"
where
  "process_files options indices [] out = Some (Inr out)"
| "process_files options indices (f # fs) out =
     (case (case do_mode options of
              DECODE \<Rightarrow>
                map_option (map_sum id fst)
                  (docenc_decode (fst f) (snd f) out (do_delimiter options) indices (do_print_index options) (\<not> do_warn options))
            | ENCODE \<Rightarrow> map_option (map_sum id fst) (docenc_encode (fst f) (snd f) out (do_delimiter options) indices)) of
        None \<Rightarrow> None
      | Some (Inl e) \<Rightarrow> Some (Inl e)
      | Some (Inr out) \<Rightarrow> process_files options indices fs out)"

definition docenc_main :: "DocOptions \<Rightarrow> ('z Environment \<times> Desc) list \<Rightarrow> 'z Environment \<times> Desc \<Rightarrow> Desc \<Rightarrow> Desc result option" where
  "docenc_main options files stdin stdout =
     (case open_files (if files = [] then [stdin] else files) of
        None \<Rightarrow> None
      | Some (Inl e) \<Rightarrow> Some (Inl e)
      | Some (Inr fps) \<Rightarrow>
          (case process_files options (sort (do_indices options)) fps (BufferedStream_new stdout) of
             None \<Rightarrow> None
           | Some (Inl e) \<Rightarrow> Some (Inl e)
           | Some (Inr out) \<Rightarrow>
               Some (case fo_flush FileStream_ops out of
                       (_, Inl e) \<Rightarrow> Inl e
                     | (out, Inr _) \<Rightarrow> Inr (bs_writer out))))"

subsection \<open>The documents of a file\<close>

primrec paragraphs :: "bytes \<Rightarrow> bytes list \<Rightarrow> bytes list" where
  "paragraphs acc [] = (if acc = [] then [] else [acc])"
| "paragraphs acc (l # ls) = (if l = [] then acc # paragraphs [] ls else paragraphs (acc @ l @ [newline]) ls)"

definition documents :: "byte \<Rightarrow> bytes \<Rightarrow> bytes list" where
  "documents delimiter content =
     (if delimiter = newline then paragraphs [] (text_lines newline True content) else text_lines delimiter True content)"

lemma accumulate_paragraph:
  assumes "delivers env decodes fp str"
  shows "\<exists>fp' d eof rest. accumulate env newline fp acc = Some (fp', Inr (d, eof)) \<and> delivers env decodes fp' rest \<and>
    (if eof then rest = [] \<and> paragraphs acc (text_lines newline True str) = (if d = [] then [] else [d])
     else length rest < length str \<and> paragraphs acc (text_lines newline True str) = d # paragraphs [] (text_lines newline True rest))"
  using assms
proof (induction "length str" arbitrary: str fp acc rule: less_induct)
  case less
  show ?case
  proof (cases "str = []")
    case True
    obtain fp1 where fp1: "ReadLineOrEOF env newline True fp = Some (fp1, Inr None)" "delivers env decodes fp1 []"
      using fp_lines.next_line_end [of env decodes fp newline True] less.prems True by blast
    then have "accumulate env newline fp acc = Some (fp1, Inr (acc, True))" by (subst accumulate.simps) simp
    then show ?thesis using fp1(2) True
      by (intro exI [of _ fp1] exI [of _ acc] exI [of _ True] exI [of _ "[]"]) (simp add: text_lines.simps [of newline True "[]"])
  next
    case False
    let ?l = "fst (first_line newline True str)" and ?rest = "snd (first_line newline True str)"
    obtain fp1 where fp1: "ReadLineOrEOF env newline True fp = Some (fp1, Inr (Some ?l))" "delivers env decodes fp1 ?rest"
      using fp_lines.next_line_more [OF less.prems False, of newline True] by blast
    have ls: "text_lines newline True str = ?l # text_lines newline True ?rest" using False by (subst text_lines.simps) simp
    have len: "length ?rest < length str" using length_first_line [OF False] .
    show ?thesis
    proof (cases "?l = []")
      case True
      then show ?thesis using fp1 ls len by (subst accumulate.simps) auto
    next
      case l: False
      have run: "accumulate env newline fp acc = accumulate env newline fp1 (acc @ ?l @ [newline])"
        using fp1(1) l by (subst accumulate.simps) simp
      have par: "paragraphs acc (text_lines newline True str) = paragraphs (acc @ ?l @ [newline]) (text_lines newline True ?rest)"
        unfolding ls using l by simp
      from less.hyps [OF len fp1(2), of "acc @ ?l @ [newline]"] obtain fp2 d eof rest where
        r: "accumulate env newline fp1 (acc @ ?l @ [newline]) = Some (fp2, Inr (d, eof))" "delivers env decodes fp2 rest"
          "if eof then rest = [] \<and> paragraphs (acc @ ?l @ [newline]) (text_lines newline True ?rest) = (if d = [] then [] else [d])
           else length rest < length ?rest \<and> paragraphs (acc @ ?l @ [newline]) (text_lines newline True ?rest) = d # paragraphs [] (text_lines newline True rest)"
        by blast
      show ?thesis unfolding run par
        by (intro exI [of _ fp2] exI [of _ d] exI [of _ eof] exI [of _ rest]) (use r len in \<open>simp split: if_splits\<close>)
    qed
  qed
qed

lemma next_document:
  assumes "delivers env decodes fp str"
  shows "\<exists>fp' d eof rest. accumulate env delimiter fp [] = Some (fp', Inr (d, eof)) \<and> delivers env decodes fp' rest \<and>
    (if eof then rest = [] \<and> documents delimiter str = (if d = [] then [] else [d])
     else length rest < length str \<and> documents delimiter str = d # documents delimiter rest)"
proof (cases "delimiter = newline")
  case True
  show ?thesis using accumulate_paragraph [OF assms, of "[]"] unfolding True documents_def by (simp only: refl if_True)
next
  case other: False
  show ?thesis
  proof (cases "str = []")
    case True
    then show ?thesis using fp_lines.next_line_end [of env decodes fp delimiter True] assms other
      by (subst accumulate.simps) (auto simp: documents_def text_lines.simps [of delimiter True "[]"])
  next
    case False
    let ?l = "fst (first_line delimiter True str)" and ?rest = "snd (first_line delimiter True str)"
    obtain fp1 where fp1: "ReadLineOrEOF env delimiter True fp = Some (fp1, Inr (Some ?l))" "delivers env decodes fp1 ?rest"
      using fp_lines.next_line_more [OF assms False, of delimiter True] by blast
    have "text_lines delimiter True str = ?l # text_lines delimiter True ?rest" using False by (subst text_lines.simps) simp
    then show ?thesis using fp1 other length_first_line [OF False, of delimiter True]
      by (subst accumulate.simps) (auto simp: documents_def)
  qed
qed

text \<open>The documents with the wanted indices: a walk along the sorted list, and all without indices.\<close>

primrec chosen :: "nat list \<Rightarrow> nat \<Rightarrow> 'a list \<Rightarrow> (nat \<times> 'a) list" where
  "chosen its n [] = []"
| "chosen its n (d # ds) =
     (if its \<noteq> [] \<and> hd its = Suc n then (Suc n, d) # chosen (tl its) (Suc n) ds else chosen its (Suc n) ds)"

definition picked :: "nat list \<Rightarrow> nat list \<Rightarrow> nat \<Rightarrow> 'a list \<Rightarrow> (nat \<times> 'a) list" where
  "picked indices its n ds = (if indices = [] then enumerate (Suc n) ds else chosen its n ds)"

lemma chosen_Nil [simp]: "chosen [] n ds = []"
  by (induction ds arbitrary: n) simp_all

lemma picked_Nil [simp]: "picked indices its n [] = []"
  by (simp add: picked_def)

lemma encode_loop_good:
  assumes "delivers env decodes fp str" and "stream_ok (enc_out s)" and "indices \<noteq> [] \<Longrightarrow> enc_indices s \<noteq> []"
  shows "\<exists>s'. docenc_encode_loop env delimiter indices fp s = Some (Inr s') \<and> stream_ok (enc_out s') \<and>
    stream_text (enc_out s') = stream_text (enc_out s) @
      unlines (map (base64_encode \<circ> snd) (picked indices (enc_indices s) (enc_index s) (documents delimiter str)))"
  using assms
proof (induction "length str" arbitrary: str fp s rule: less_induct)
  case less
  obtain fp1 d eof rest where acc: "accumulate env delimiter fp [] = Some (fp1, Inr (d, eof))" and dl: "delivers env decodes fp1 rest"
    and docs: "if eof then rest = [] \<and> documents delimiter str = (if d = [] then [] else [d])
     else length rest < length str \<and> documents delimiter str = d # documents delimiter rest"
    using next_document [OF less.prems(1), of delimiter] by blast
  let ?run = "docenc_encode_loop env delimiter indices fp s" and ?ds = "documents delimiter str"
  show ?case
  proof (cases "eof \<and> d = []")
    case True
    then show ?thesis using acc docs less.prems(2) by (subst docenc_encode_loop.simps) auto
  next
    case False
    define tail where "tail = (if eof then [] else documents delimiter rest)"
    have ds: "?ds = d # tail" using docs False by (auto simp: tail_def)
    let ?s1 = "s\<lparr>enc_index := enc_index s + 1\<rparr>"
    have step: "\<exists>s' stop. encode_body indices s d eof = Inr (s', stop) \<and> stream_ok (enc_out s') \<and> enc_index s' = Suc (enc_index s) \<and>
        stream_text (enc_out s') @ unlines (map (base64_encode \<circ> snd) (picked indices (enc_indices s') (Suc (enc_index s)) tail)) =
          stream_text (enc_out s) @ unlines (map (base64_encode \<circ> snd) (picked indices (enc_indices s) (enc_index s) ?ds)) \<and>
        (if stop then picked indices (enc_indices s') (Suc (enc_index s)) tail = [] else \<not> eof \<and> (indices \<noteq> [] \<longrightarrow> enc_indices s' \<noteq> []))"
    proof (cases "indices \<noteq> [] \<and> hd (enc_indices s) \<noteq> Suc (enc_index s)")
      case True
      then have "encode_body indices s d eof = Inr (?s1, eof)" using less.prems(3) by (simp add: encode_body_def Let_def)
      then show ?thesis using True less.prems(2,3) ds by (auto simp: picked_def tail_def)
    next
      case False
      obtain out where out: "insert_items FileStream_ops (enc_out s) [Str (base64_encode d), Chr newline] = (out, Inr ())" "stream_ok out"
          "stream_text out = stream_text (enc_out s) @ base64_encode d @ [newline]"
        using insert_items_good [OF less.prems(2), of "[Str (base64_encode d), Chr newline]"] by auto
      let ?s2 = "if indices \<noteq> [] then ?s1\<lparr>enc_indices := tl (enc_indices s)\<rparr> else ?s1"
      let ?stop = "eof \<or> (indices \<noteq> [] \<and> enc_indices ?s2 = [])"
      have "encode_body indices s d eof = Inr (?s2\<lparr>enc_out := out\<rparr>, ?stop)"
        using False less.prems(3) out(1) by (auto simp: encode_body_def Let_def simp del: insert_items.simps)
      moreover have "picked indices (enc_indices s) (enc_index s) ?ds = (Suc (enc_index s), d) # picked indices (enc_indices ?s2) (Suc (enc_index s)) tail"
        using False less.prems(3) ds by (auto simp: picked_def)
      moreover have "?stop \<Longrightarrow> picked indices (enc_indices ?s2) (Suc (enc_index s)) tail = []" by (auto simp: picked_def tail_def)
      ultimately show ?thesis using out(2,3) by (intro exI [of _ "?s2\<lparr>enc_out := out\<rparr>"] exI [of _ ?stop]) auto
    qed
    then obtain s' stop where s': "encode_body indices s d eof = Inr (s', stop)" "stream_ok (enc_out s')" "enc_index s' = Suc (enc_index s)"
        "stream_text (enc_out s') @ unlines (map (base64_encode \<circ> snd) (picked indices (enc_indices s') (Suc (enc_index s)) tail)) =
          stream_text (enc_out s) @ unlines (map (base64_encode \<circ> snd) (picked indices (enc_indices s) (enc_index s) ?ds))"
        "if stop then picked indices (enc_indices s') (Suc (enc_index s)) tail = [] else \<not> eof \<and> (indices \<noteq> [] \<longrightarrow> enc_indices s' \<noteq> [])"
      by blast
    have run: "?run = (if stop then Some (Inr s') else docenc_encode_loop env delimiter indices fp1 s')"
      using acc False s'(1) by (subst docenc_encode_loop.simps) auto
    show ?thesis
    proof (cases stop)
      case True
      then show ?thesis using run s' by auto
    next
      case False
      then have go: "length rest < length str" "tail = documents delimiter rest" "indices \<noteq> [] \<Longrightarrow> enc_indices s' \<noteq> []"
        using docs s'(5) by (auto simp: tail_def)
      show ?thesis using less.hyps [OF go(1) dl s'(2) go(3)] False s'(3,4) unfolding run go(2) by auto
    qed
  qed
qed

subsection \<open>What decoding prints\<close>

lemma token_list_lines: "token_list False (SingleCharacter newline) s = Some (split_on newline s)"
proof -
  have "single.tokens newline s = split_on newline s"
    by (rule single.tokens_split) (simp_all add: SingleCharacter_def std_find_def)
  then show ?thesis by (simp add: single.token_list_eq single.keep_def)
qed

definition shown :: "byte \<Rightarrow> bool \<Rightarrow> nat \<times> bytes \<Rightarrow> bytes" where
  "shown delimiter print_document_index = (\<lambda>(i, d).
     (if print_document_index then concat (map (\<lambda>t. dec i @ [tab] @ t @ [newline]) (split_on newline d)) else d) @ [delimiter])"

lemma items_text_concat: "items_text (concat xss) = concat (map items_text xss)"
  by (induction xss) simp_all

lemma decode_body_print:
  assumes "stream_ok out"
  shows "\<exists>out'. (if p then prefix_lines d out (dec i @ [tab]) else Some (insert_items FileStream_ops out [Str d])) = Some (out', Inr ()) \<and>
    stream_ok out' \<and> stream_text out' @ [delimiter] = stream_text out @ shown delimiter p (i, d)"
proof (cases p)
  case True
  then show ?thesis
    using insert_items_good [OF assms, of "concat (map (\<lambda>t. [Str (dec i @ [tab]), Str t, Chr newline]) (split_on newline d))"]
    by (auto simp: prefix_lines_def token_list_lines shown_def items_text_concat comp_def)
next
  case False
  then show ?thesis using insert_items_good [OF assms, of "[Str d]"] by (auto simp: shown_def)
qed

lemma decode_body_good:
  assumes "stream_ok (dec_out s)" and "indices \<noteq> [] \<Longrightarrow> dec_indices s \<noteq> []" and "base64_decode l = Inr d"
  shows "\<exists>s' go_on. decode_body delimiter indices p s l = Some (Inr (s', go_on)) \<and> stream_ok (dec_out s') \<and> dec_index s' = Suc (dec_index s) \<and>
    (\<forall>ls. stream_text (dec_out s') @ concat (map (shown delimiter p \<circ> map_prod id decoded) (picked indices (dec_indices s') (Suc (dec_index s)) ls)) =
      stream_text (dec_out s) @ concat (map (shown delimiter p \<circ> map_prod id decoded) (picked indices (dec_indices s) (dec_index s) (l # ls)))) \<and>
    (if go_on then indices \<noteq> [] \<longrightarrow> dec_indices s' \<noteq> [] else \<forall>ls. picked indices (dec_indices s') (Suc (dec_index s)) ls = ([] :: (nat \<times> bytes) list))"
proof (cases "indices \<noteq> [] \<and> hd (dec_indices s) \<noteq> Suc (dec_index s)")
  case True
  then have "decode_body delimiter indices p s l = Some (Inr (s\<lparr>dec_index := dec_index s + 1\<rparr>, True))"
    using assms(2) by (simp add: decode_body_def Let_def)
  then show ?thesis using True assms(1,2) by (auto simp: picked_def)
next
  case False
  let ?i = "Suc (dec_index s)"
  let ?s1 = "s\<lparr>dec_index := ?i\<rparr>"
  let ?s2 = "if indices \<noteq> [] then ?s1\<lparr>dec_indices := tl (dec_indices s)\<rparr> else ?s1"
  let ?s3 = "?s2\<lparr>dec_encountered := dec_encountered ?s2 \<or> separator_in delimiter d\<rparr>"
  let ?go = "\<not> (indices \<noteq> [] \<and> dec_indices ?s2 = [])"
  obtain out where out: "(if p then prefix_lines d (dec_out s) (dec ?i @ [tab]) else Some (insert_items FileStream_ops (dec_out s) [Str d])) = Some (out, Inr ())"
      "stream_ok out" "stream_text out @ [delimiter] = stream_text (dec_out s) @ shown delimiter p (?i, d)"
    using decode_body_print [OF assms(1)] by blast
  obtain out' where out': "insert_items FileStream_ops out [Chr delimiter] = (out', Inr ())" "stream_ok out'" "stream_text out' = stream_text out @ [delimiter]"
    using insert_items_good [OF out(2), of "[Chr delimiter]"] by auto
  have o: "dec_out ?s3 = dec_out s" "dec_index ?s3 = ?i" "dec_indices ?s3 = dec_indices ?s2" by simp_all
  have "decode_body delimiter indices p s l = Some (Inr (?s3\<lparr>dec_out := out'\<rparr>, ?go))"
    using False assms(2,3) out(1) out'(1) o unfolding decode_body_def by (auto simp: Let_def simp del: insert_items.simps)
  moreover have "picked indices (dec_indices s) (dec_index s) (l # ls) = (?i, l) # picked indices (dec_indices ?s2) ?i ls" for ls
    using False assms(2) by (auto simp: picked_def)
  moreover have "\<not> ?go \<Longrightarrow> picked indices (dec_indices ?s2) ?i ls = ([] :: (nat \<times> bytes) list)" for ls by (auto simp: picked_def)
  moreover have "shown delimiter p (?i, d) = (shown delimiter p \<circ> map_prod id decoded) (?i, l)" using assms(3) by simp
  ultimately show ?thesis using out(3) out'(2,3)
    by (intro exI [of _ "?s3\<lparr>dec_out := out'\<rparr>"] exI [of _ ?go]) auto
qed

lemma decode_loop_good:
  assumes "delivers env decodes fp str" and "stream_ok (dec_out s)" and "indices \<noteq> [] \<Longrightarrow> dec_indices s \<noteq> []"
    and "\<forall>l\<in>set (text_lines newline True str). \<exists>d. base64_decode l = Inr d"
  shows "\<exists>s'. docenc_decode_loop env delimiter indices p fp s = Some (Inr s') \<and> stream_ok (dec_out s') \<and>
    stream_text (dec_out s') = stream_text (dec_out s) @
      concat (map (shown delimiter p \<circ> map_prod id decoded) (picked indices (dec_indices s) (dec_index s) (text_lines newline True str)))"
  using assms
proof (induction "length str" arbitrary: str fp s rule: less_induct)
  case less
  show ?case
  proof (cases "str = []")
    case True
    then show ?thesis using fp_lines.next_line_end [of env decodes fp newline True] less.prems
      by (subst docenc_decode_loop.simps) (auto simp: text_lines.simps [of newline True "[]"])
  next
    case False
    let ?l = "fst (first_line newline True str)" and ?rest = "snd (first_line newline True str)"
    obtain fp1 where fp1: "ReadLineOrEOF env newline True fp = Some (fp1, Inr (Some ?l))" "delivers env decodes fp1 ?rest"
      using fp_lines.next_line_more [OF less.prems(1) False, of newline True] by blast
    have ls: "text_lines newline True str = ?l # text_lines newline True ?rest" using False by (subst text_lines.simps) simp
    then obtain d where d: "base64_decode ?l = Inr d" using less.prems(4) by auto
    obtain s' go_on where s': "decode_body delimiter indices p s ?l = Some (Inr (s', go_on))" "stream_ok (dec_out s')" "dec_index s' = Suc (dec_index s)"
        "\<forall>ls. stream_text (dec_out s') @ concat (map (shown delimiter p \<circ> map_prod id decoded) (picked indices (dec_indices s') (Suc (dec_index s)) ls)) =
          stream_text (dec_out s) @ concat (map (shown delimiter p \<circ> map_prod id decoded) (picked indices (dec_indices s) (dec_index s) (?l # ls)))"
        "if go_on then indices \<noteq> [] \<longrightarrow> dec_indices s' \<noteq> [] else \<forall>ls. picked indices (dec_indices s') (Suc (dec_index s)) ls = ([] :: (nat \<times> bytes) list)"
      using decode_body_good [OF less.prems(2,3) d] by blast
    have run: "docenc_decode_loop env delimiter indices p fp s = (if go_on then docenc_decode_loop env delimiter indices p fp1 s' else Some (Inr s'))"
      using fp1(1) s'(1) by (subst docenc_decode_loop.simps) simp
    show ?thesis
    proof (cases go_on)
      case True
      have "\<forall>l\<in>set (text_lines newline True ?rest). \<exists>d. base64_decode l = Inr d" using less.prems(4) ls by simp
      from less.hyps [OF length_first_line [OF False] fp1(2) s'(2) _ this] s'(3,4,5) True show ?thesis unfolding run ls by auto
    next
      case stop: False
      then show ?thesis using s'(2,5) s'(4) [rule_format, of "text_lines newline True ?rest"] unfolding run ls by auto
    qed
  qed
qed

text \<open>A sorted list of indices without repetition picks the documents with these indices.\<close>

definition wanted :: "nat list \<Rightarrow> 'a list \<Rightarrow> (nat \<times> 'a) list" where
  "wanted indices ds = filter (\<lambda>d. indices = [] \<or> fst d \<in> set indices) (enumerate 1 ds)"

lemma chosen_filter:
  "sorted_wrt (<) its \<Longrightarrow> \<forall>i\<in>set its. n < i \<Longrightarrow> chosen its n ds = filter (\<lambda>d. fst d \<in> set its) (enumerate (Suc n) ds)"
proof (induction ds arbitrary: its n)
  case (Cons d ds)
  show ?case
  proof (cases "its \<noteq> [] \<and> hd its = Suc n")
    case True
    then obtain js where js: "its = Suc n # js" by (cases its) auto
    have "chosen js (Suc n) ds = filter (\<lambda>d. fst d \<in> set js) (enumerate (Suc (Suc n)) ds)" using Cons.IH [of js "Suc n"] Cons.prems js by auto
    also have "\<dots> = filter (\<lambda>d. fst d \<in> set its) (enumerate (Suc (Suc n)) ds)"
      using js by (intro filter_cong) (auto simp: in_set_enumerate_eq)
    finally show ?thesis using js by simp
  next
    case False
    have no: "Suc n \<notin> set its"
    proof
      assume m: "Suc n \<in> set its"
      then obtain i js where js: "its = i # js" by (cases its) auto
      then have "i \<noteq> Suc n" "n < i" using False Cons.prems(2) by auto
      then show False using m js Cons.prems(1) by auto
    qed
    then have "\<forall>i\<in>set its. Suc n < i" using Cons.prems(2) by (metis Suc_lessI)
    then show ?thesis using Cons.IH [OF Cons.prems(1), of "Suc n"] False no by auto
  qed
qed simp

lemma picked_wanted:
  assumes "distinct indices" and "0 \<notin> set indices"
  shows "picked (sort indices) (sort indices) 0 ds = wanted indices ds"
proof -
  have "sort indices = [] \<longleftrightarrow> indices = []" by (metis length_0_conv length_sort)
  moreover have "sorted_wrt (<) (sort indices)" using assms(1) by (simp add: strict_sorted_iff)
  moreover have "\<forall>i\<in>set (sort indices). 0 < i" using assms(2) by (auto intro: gr0I)
  ultimately show ?thesis using chosen_filter [of "sort indices" 0 ds] by (auto simp: picked_def wanted_def)
qed

subsection \<open>The program on files\<close>

definition file_text :: "DocOptions \<Rightarrow> bytes \<Rightarrow> bytes" where
  "file_text options content =
     (case do_mode options of
        ENCODE \<Rightarrow> unlines (map (base64_encode \<circ> snd) (wanted (do_indices options) (documents (do_delimiter options) content)))
      | DECODE \<Rightarrow> concat (map (shown (do_delimiter options) (do_print_index options) \<circ> map_prod id decoded)
            (wanted (do_indices options) (text_lines newline True content))))"

definition readable :: "DocOptions \<Rightarrow> bytes \<Rightarrow> bool" where
  "readable options content \<longleftrightarrow> do_mode options = ENCODE \<or> (\<forall>l\<in>set (text_lines newline True content). \<exists>d. base64_decode l = Inr d)"

lemma open_files_good:
  assumes "list_all2 (\<lambda>f c. opens (fst f) decodes (snd f) c) files texts"
  shows "\<exists>fps. open_files files = Some (Inr fps) \<and> list_all2 (\<lambda>f c. delivers (fst f) decodes (snd f) c) fps texts"
  using assms
proof (induction rule: list_all2_induct)
  case (Cons f fs c cs)
  obtain fp where "Initialize (fst f) 1048576 (snd f) = Some (fp, Inr ())" "delivers (fst f) decodes fp c" using Initialize_good [OF Cons(1)] by blast
  then show ?case using Cons.IH by auto
qed simp

lemma process_files_good:
  assumes "list_all2 (\<lambda>f c. delivers (fst f) decodes (snd f) c) fps texts" and "stream_ok out"
    and "distinct (do_indices options)" and "0 \<notin> set (do_indices options)" and "\<forall>c\<in>set texts. readable options c"
  shows "\<exists>out'. process_files options (sort (do_indices options)) fps out = Some (Inr out') \<and> stream_ok out' \<and>
    stream_text out' = stream_text out @ concat (map (file_text options) texts)"
  using assms
proof (induction arbitrary: out rule: list_all2_induct)
  case (Cons f fs c cs)
  let ?idx = "sort (do_indices options)" and ?delim = "do_delimiter options"
  have "\<exists>out1. (case do_mode options of
      DECODE \<Rightarrow> map_option (map_sum id fst) (docenc_decode (fst f) (snd f) out ?delim ?idx (do_print_index options) (\<not> do_warn options))
    | ENCODE \<Rightarrow> map_option (map_sum id fst) (docenc_encode (fst f) (snd f) out ?delim ?idx)) = Some (Inr out1) \<and>
    stream_ok out1 \<and> stream_text out1 = stream_text out @ file_text options c"
  proof (cases "do_mode options")
    case ENCODE
    let ?s = "\<lparr>enc_index = 0, enc_indices = ?idx, enc_out = out\<rparr>"
    obtain s where "docenc_encode_loop (fst f) ?delim ?idx (snd f) ?s = Some (Inr s)" "stream_ok (enc_out s)"
      "stream_text (enc_out s) = stream_text out @ unlines (map (base64_encode \<circ> snd) (picked ?idx ?idx 0 (documents ?delim c)))"
      using encode_loop_good [OF Cons(1), of ?s ?idx ?delim] Cons.prems(1) by auto
    then show ?thesis unfolding picked_wanted [OF Cons.prems(2,3)] by (simp add: ENCODE docenc_encode_def file_text_def)
  next
    case DECODE
    let ?s = "\<lparr>dec_index = 0, dec_indices = ?idx, dec_out = out, dec_encountered = \<not> do_warn options\<rparr>"
    have "\<forall>l\<in>set (text_lines newline True c). \<exists>d. base64_decode l = Inr d" using Cons.prems(4) DECODE by (simp add: readable_def)
    then obtain s where "docenc_decode_loop (fst f) ?delim ?idx (do_print_index options) (snd f) ?s = Some (Inr s)" "stream_ok (dec_out s)"
      "stream_text (dec_out s) = stream_text out @
        concat (map (shown ?delim (do_print_index options) \<circ> map_prod id decoded) (picked ?idx ?idx 0 (text_lines newline True c)))"
      using decode_loop_good [OF Cons(1), of ?s ?idx ?delim "do_print_index options"] Cons.prems(1) by auto
    then show ?thesis unfolding picked_wanted [OF Cons.prems(2,3)] by (simp add: DECODE docenc_decode_def file_text_def)
  qed
  then obtain out1 where out1: "(case do_mode options of
      DECODE \<Rightarrow> map_option (map_sum id fst) (docenc_decode (fst f) (snd f) out ?delim ?idx (do_print_index options) (\<not> do_warn options))
    | ENCODE \<Rightarrow> map_option (map_sum id fst) (docenc_encode (fst f) (snd f) out ?delim ?idx)) = Some (Inr out1)"
    "stream_ok out1" "stream_text out1 = stream_text out @ file_text options c" by blast
  have "process_files options ?idx (f # fs) out = process_files options ?idx fs out1"
    unfolding process_files.simps out1(1) by simp
  then show ?case using Cons.IH [OF out1(2) Cons.prems(2,3)] Cons.prems(4) out1(3) by auto
qed simp

lemma docenc_main_prints:
  assumes "list_all2 (\<lambda>f c. opens (fst f) decodes (snd f) c) (if files = [] then [stdin] else files) texts" and "dependable stdout"
    and "distinct (do_indices options)" and "0 \<notin> set (do_indices options)" and "\<forall>c\<in>set texts. readable options c"
  shows "\<exists>stdout'. docenc_main options files stdin stdout = Some (Inr stdout') \<and>
    d_out stdout' = d_out stdout @ concat (map (file_text options) texts)"
proof -
  obtain fps where fps: "open_files (if files = [] then [stdin] else files) = Some (Inr fps)" "list_all2 (\<lambda>f c. delivers (fst f) decodes (snd f) c) fps texts"
    using open_files_good [OF assms(1)] by blast
  have "stream_ok (BufferedStream_new stdout)" using assms(2) by (simp add: BufferedStream_new_def)
  from process_files_good [OF fps(2) this assms(3-5)] obtain out where
    out: "process_files options (sort (do_indices options)) fps (BufferedStream_new stdout) = Some (Inr out)" "stream_ok out"
      "stream_text out = d_out stdout @ concat (map (file_text options) texts)"
    by (auto simp: BufferedStream_new_def)
  then show ?thesis using flush_good [OF out(2)] fps(1) by (auto simp: docenc_main_def)
qed

text \<open>
  C19. \<^verbatim>\<open>docenc\<close> on its files, or on standard input when there are none: encoding prints a line of base64 for
  every document, decoding the document of every line with the separator behind it, or with
  \<^verbatim>\<open>-n\<close> the parts of it between newlines behind its number; with indices only the documents with these
  numbers, counted from 1 in every file, in the order of the file. No index may be given twice.
\<close>

theorem docenc_main_correct:
  assumes "list_all2 (\<lambda>f c. opens (fst f) decodes (snd f) c) (if files = [] then [stdin] else files) texts" and "dependable stdout"
    and "distinct (do_indices options)" and "0 \<notin> set (do_indices options)" and "\<forall>c\<in>set texts. readable options c"
  shows "\<exists>stdout'. docenc_main options files stdin stdout = Some (Inr stdout') \<and>
    d_out stdout' = d_out stdout @ concat (map (\<lambda>content.
      (case do_mode options of
         ENCODE \<Rightarrow> unlines (map (base64_encode \<circ> snd) (wanted (do_indices options) (documents (do_delimiter options) content)))
       | DECODE \<Rightarrow> concat (map (\<lambda>(i, line). shown (do_delimiter options) (do_print_index options) (i, decoded line))
             (wanted (do_indices options) (text_lines newline True content))))) texts)"
proof -
  have "file_text options = (\<lambda>content. case do_mode options of
         ENCODE \<Rightarrow> unlines (map (base64_encode \<circ> snd) (wanted (do_indices options) (documents (do_delimiter options) content)))
       | DECODE \<Rightarrow> concat (map (\<lambda>(i, line). shown (do_delimiter options) (do_print_index options) (i, decoded line))
             (wanted (do_indices options) (text_lines newline True content))))"
    by (rule ext) (simp add: file_text_def comp_def case_prod_beta' map_prod_def split: Mode.split)
  then show ?thesis using docenc_main_prints [OF assms] by simp
qed

subsection \<open>Encoding and decoding\<close>

lemma set_rfc4648_encode: "set (rfc4648_encode xs) \<subseteq> insert equals_sign (set TABLE)"
proof (induction xs rule: rfc4648_encode.induct)
  case (4 a b c xs)
  then show ?case by (auto intro!: nth_mem simp: length_TABLE)
qed (auto intro!: nth_mem simp: length_TABLE)

lemma base64_line: "newline \<notin> set (base64_encode d)" "chomp True (base64_encode d) = base64_encode d"
proof -
  have "newline \<notin> insert equals_sign (set TABLE)" "carriage_return \<notin> insert equals_sign (set TABLE)" by code_simp+
  then have *: "newline \<notin> set (base64_encode d)" "carriage_return \<notin> set (base64_encode d)"
    using set_rfc4648_encode [of d] unfolding base64_encode_eq by blast+
  then show "newline \<notin> set (base64_encode d)" by blast
  show "chomp True (base64_encode d) = base64_encode d" using *(2) last_in_set [of "base64_encode d"] unfolding chomp_def by metis
qed

lemma base64_decode_encode: "length d < 2 ^ 59 \<Longrightarrow> base64_decode (base64_encode d) = Inr d"
  using decode_loop_rfc4648 [of d 0 "[]"] by (simp add: base64_encode_eq base64_decode_def reserve_encoded reserve_of_nat)

lemma text_lines_separated:
  "\<forall>l\<in>set ls. delimiter \<notin> set l \<and> chomp strip_cr l = l \<Longrightarrow> text_lines delimiter strip_cr (concat (map (\<lambda>l. l @ [delimiter]) ls)) = ls"
proof (induction ls)
  case (Cons l ls)
  have f: "first_line delimiter strip_cr (l @ delimiter # rest) = (l, rest)" for rest
    using Cons.prems by (simp add: first_line_def takeWhile_append dropWhile_append)
  show ?case using Cons by (subst text_lines.simps) (simp add: f)
qed (simp add: text_lines.simps)

text \<open>A document that the chosen separator can represent.\<close>

definition document_ok :: "byte \<Rightarrow> bytes \<Rightarrow> bool" where
  "document_ok delimiter d \<longleftrightarrow>
     (if delimiter = newline then \<exists>ls. d = unlines ls \<and> (\<forall>l\<in>set ls. l \<noteq> [] \<and> newline \<notin> set l \<and> chomp True l = l)
      else delimiter \<notin> set d \<and> chomp True d = d)"

lemma paragraphs_lines: "\<forall>l\<in>set ls. l \<noteq> [] \<Longrightarrow> paragraphs acc (ls @ [] # rest) = (acc @ unlines ls) # paragraphs [] rest"
  by (induction ls arbitrary: acc) auto

lemma paragraphs_concat:
  "\<forall>ls\<in>set lss. \<forall>l\<in>set ls. l \<noteq> [] \<Longrightarrow> paragraphs [] (concat (map (\<lambda>ls. ls @ [[]]) lss)) = map unlines lss"
  by (induction lss) (simp_all add: paragraphs_lines)

lemma documents_separated:
  assumes "\<forall>d\<in>set ds. document_ok delimiter d"
  shows "documents delimiter (concat (map (\<lambda>d. d @ [delimiter]) ds)) = ds"
proof (cases "delimiter = newline")
  case True
  define parts where "parts d = (SOME ls. unlines ls = d \<and> (\<forall>l\<in>set ls. l \<noteq> [] \<and> newline \<notin> set l \<and> chomp True l = l))" for d
  have p: "unlines (parts d) = d \<and> (\<forall>l\<in>set (parts d). l \<noteq> [] \<and> newline \<notin> set l \<and> chomp True l = l)" if "d \<in> set ds" for d
    unfolding parts_def using assms that True by (intro someI_ex [of "\<lambda>ls. unlines ls = d \<and> (\<forall>l\<in>set ls. l \<noteq> [] \<and> newline \<notin> set l \<and> chomp True l = l)"])
      (metis document_ok_def)
  let ?ls = "concat (map (\<lambda>d. parts d @ [[]]) ds)"
  have "map (\<lambda>d. unlines (parts d @ [[]])) ds = map (\<lambda>d. d @ [newline]) ds" using p by (intro map_cong) (auto simp: unlines_append)
  then have "concat (map (\<lambda>d. d @ [newline]) ds) = unlines ?ls" unfolding unlines_concat map_map comp_def by (simp only:)
  moreover have "chomp True [] = []" by (simp add: chomp_def)
  then have "text_lines newline True (unlines ?ls) = ?ls"
    unfolding unlines_def using p by (intro text_lines_separated) auto
  moreover have "paragraphs [] ?ls = map unlines (map parts ds)"
    using p paragraphs_concat [of "map parts ds"] by (simp add: comp_def)
  then have "paragraphs [] ?ls = ds" using p by (simp add: map_idI)
  ultimately show ?thesis using True by (simp add: documents_def)
next
  case False
  then show ?thesis using assms text_lines_separated [of ds delimiter True] by (auto simp: documents_def document_ok_def)
qed

lemma wanted_Nil: "map snd (wanted [] ds) = ds"
  by (simp add: wanted_def)

text \<open>
  C16. Encoding a file of documents with \<^verbatim>\<open>docenc\<close> and decoding the result with \<^verbatim>\<open>docenc -d\<close> and the same separator
  gives the file back, when no document has the separator in it: with blank lines between them the
  documents are lines that are not empty, with zero bytes they have none; a carriage
  return must not end a line, or a document between zero bytes, since \<^verbatim>\<open>ReadLineOrEOF\<close> removes it.
\<close>

theorem docenc_roundtrip:
  assumes "\<forall>d\<in>set docs. document_ok (do_delimiter options) d \<and> length d < 2 ^ 59"
    and "do_indices options = []" and "\<not> do_print_index options"
  defines "plain \<equiv> concat (map (\<lambda>d. d @ [do_delimiter options]) docs)"
  defines "coded \<equiv> unlines (map base64_encode docs)"
  assumes "opens env decodes stdin plain" and "opens env' decodes' stdin' coded" and "dependable stdout" and "dependable stdout'"
  shows "\<exists>out out'. docenc_main (options\<lparr>do_mode := ENCODE\<rparr>) [] (env, stdin) stdout = Some (Inr out) \<and> d_out out = d_out stdout @ coded \<and>
    docenc_main (options\<lparr>do_mode := DECODE\<rparr>) [] (env', stdin') stdout' = Some (Inr out') \<and> d_out out' = d_out stdout' @ plain"
proof -
  have "\<forall>l\<in>set (map base64_encode docs). newline \<notin> set l \<and> chomp True l = l" using base64_line by auto
  then have lines: "text_lines newline True coded = map base64_encode docs"
    unfolding coded_def unlines_def by (rule text_lines_separated)
  have dec: "\<forall>d\<in>set docs. base64_decode (base64_encode d) = Inr d" using assms(1) base64_decode_encode by blast
  have "file_text (options\<lparr>do_mode := ENCODE\<rparr>) plain = coded"
    using documents_separated [of docs "do_delimiter options"] assms(1,2) wanted_Nil [of docs]
    by (simp add: file_text_def plain_def coded_def) (metis map_map)
  moreover have "file_text (options\<lparr>do_mode := DECODE\<rparr>) coded = plain"
  proof -
    have "shown (do_delimiter options) False \<circ> map_prod id decoded = (\<lambda>d. d @ [do_delimiter options]) \<circ> decoded \<circ> snd"
      by (rule ext) (auto simp: shown_def)
    then have "file_text (options\<lparr>do_mode := DECODE\<rparr>) coded = concat (map ((\<lambda>d. d @ [do_delimiter options]) \<circ> decoded) (map snd (wanted [] (map base64_encode docs))))"
      using assms(2,3) lines by (simp add: file_text_def comp_assoc)
    also have "\<dots> = concat (map (\<lambda>d. d @ [do_delimiter options]) docs)"
      unfolding wanted_Nil map_map using dec by (intro arg_cong [of _ _ concat] map_cong) auto
    finally show ?thesis by (simp add: plain_def)
  qed
  moreover have "readable (options\<lparr>do_mode := ENCODE\<rparr>) plain" "readable (options\<lparr>do_mode := DECODE\<rparr>) coded"
    using dec by (auto simp: readable_def lines)
  ultimately show ?thesis
    using docenc_main_prints [of decodes "[]" "(env, stdin)" "[plain]" stdout "options\<lparr>do_mode := ENCODE\<rparr>"]
      docenc_main_prints [of decodes' "[]" "(env', stdin')" "[coded]" stdout' "options\<lparr>do_mode := DECODE\<rparr>"] assms(2,6-9) by auto
qed

subsection \<open>Small inputs\<close>

definition small_docs :: "bytes list" where
  "small_docs = [lit ''a'' @ [10] @ lit ''b'' @ [10], lit ''c'' @ [10]]"

definition blank_line :: DocOptions where
  "blank_line = \<lparr>do_mode = ENCODE, do_delimiter = newline, do_print_index = False, do_warn = True, do_indices = []\<rparr>"

lemma small_docs_ok: "\<forall>d\<in>set small_docs. document_ok newline d \<and> length d < 2 ^ 59"
proof -
  have "document_ok newline (unlines [lit ''a'', lit ''b''])" "document_ok newline (unlines [lit ''c''])"
    unfolding document_ok_def if_P [OF refl] by (intro exI [of _ "[lit ''a'', lit ''b'']"] conjI refl; code_simp) (intro exI [of _ "[lit ''c'']"] conjI refl; code_simp)
  then show ?thesis by (simp add: small_docs_def lit_def)
qed

theorem docenc_main_correct_witness:
  "\<exists>stdout'. docenc_main (blank_line\<lparr>do_indices := [2]\<rparr>) [] (small_env (concat (map (\<lambda>d. d @ [10]) small_docs)), small_fd (concat (map (\<lambda>d. d @ [10]) small_docs))) small_out =
      Some (Inr stdout') \<and> d_out stdout' = base64_encode (lit ''c'' @ [10]) @ [10]"
proof -
  let ?f = "concat (map (\<lambda>d. d @ [10]) small_docs)" and ?o = "blank_line\<lparr>do_indices := [2]\<rparr>"
  have o: "opens (small_env ?f) (\<lambda>_. stored_decodes) (small_fd ?f) ?f" by (rule small_opens, code_simp, simp add: lit_def small_docs_def)
  have w: "unlines (map (base64_encode \<circ> snd) (wanted [2] (documents newline ?f))) = base64_encode (lit ''c'' @ [10]) @ [10]" by code_simp
  have "list_all2 (\<lambda>f c. opens (fst f) (\<lambda>_. stored_decodes) (snd f) c) (if [] = ([] :: (stored Environment \<times> Desc) list) then [(small_env ?f, small_fd ?f)] else []) [?f]"
    using o by simp
  from docenc_main_correct [OF this small_out_ok(1), of ?o] w small_out_ok(2) show ?thesis by (simp add: blank_line_def readable_def)
qed

theorem docenc_roundtrip_witness:
  "\<exists>out. docenc_main (blank_line\<lparr>do_mode := DECODE\<rparr>) [] (small_env (unlines (map base64_encode small_docs)), small_fd (unlines (map base64_encode small_docs))) small_out =
      Some (Inr out) \<and> d_out out = lit ''a'' @ [10] @ lit ''b'' @ [10, 10] @ lit ''c'' @ [10, 10]"
proof -
  let ?f = "concat (map (\<lambda>d. d @ [newline]) small_docs)" and ?c = "unlines (map base64_encode small_docs)"
  have o: "opens (small_env ?f) (\<lambda>_. stored_decodes) (small_fd ?f) ?f" by (rule small_opens, code_simp, simp add: lit_def small_docs_def)
  have o': "opens (small_env ?c) (\<lambda>_. stored_decodes) (small_fd ?c) ?c" by (rule small_opens; code_simp)
  have d: "do_delimiter blank_line = newline" "do_indices blank_line = []" "\<not> do_print_index blank_line" by (simp_all add: blank_line_def)
  have "?f = lit ''a'' @ [10] @ lit ''b'' @ [10, 10] @ lit ''c'' @ [10, 10]" by (simp add: small_docs_def)
  then show ?thesis
    using docenc_roundtrip [of small_docs blank_line, unfolded d(1), OF small_docs_ok d(2,3) o o' small_out_ok(1) small_out_ok(1)] small_out_ok(2) by auto
qed

end
