(* ===== verification/Warc.thy ===== *)
theory Warc
  imports CaptivePrograms CompressWrite
begin

text \<open>
  The reader of WARC files (\<^verbatim>\<open>src/preprocess/warc.cc\<close>) and the threads of \<^verbatim>\<open>warc_parallel\<close>
  (\<^verbatim>\<open>src/preprocess/warc_parallel_main.cc\<close>) that read records into the queue, feed a child and collect
  its output. \<^verbatim>\<open>HeaderReader\<close> is the buffer, the reader and the position \<^verbatim>\<open>consumed_\<close>; its loops
  return \<^term>\<open>None\<close> if they do not end. \<^verbatim>\<open>strtoll\<close> reads the memory behind the line, up to the zero
  at the end of the buffer.
\<close>

definition kRead :: nat where
  "kRead = 4096"

text \<open>\<^verbatim>\<open>false\<close> at the end of the file; the buffer is then not used any more.\<close>

definition ReadMore :: "'z Library \<Rightarrow> 'z ReadCompressed \<Rightarrow> bytes \<Rightarrow> (bool \<times> bytes \<times> 'z ReadCompressed) result option" where
  "ReadMore lib rc out =
     map_option
       (\<lambda>r. case r of
          Inl e \<Rightarrow> Inl e
        | Inr (got, rc) \<Rightarrow>
            if got = [] then if out \<noteq> [] then Inl EndOfFileException else Inr (False, out, rc)
            else Inr (True, out @ got, rc))
       (ReadCompressed_Read lib rc kRead)"

partial_function (option) Line_loop ::
  "'z Library \<Rightarrow> 'z ReadCompressed \<Rightarrow> bytes \<Rightarrow> nat \<Rightarrow> nat \<Rightarrow> (bytes option \<times> bytes \<times> 'z ReadCompressed \<times> nat) result option"
where
  "Line_loop lib rc out consumed newline_start =
     (let nl = newline_start + std_find newline (drop newline_start out)
      in if nl = length out then
           (case ReadMore lib rc out of
              None \<Rightarrow> None
            | Some (Inl e) \<Rightarrow> Some (Inl e)
            | Some (Inr (ok, out', rc)) \<Rightarrow>
                if \<not> ok then Some (Inr (None, out', rc, consumed)) else Line_loop lib rc out' consumed (length out))
         else
           (let line = take (nl - consumed) (drop consumed out)
            in Some (Inr (Some (if line \<noteq> [] \<and> line ! (length line - 1) = carriage_return then take (length line - 1) line else line),
                          out, rc, nl + 1))))"

definition header_Line ::
  "'z Library \<Rightarrow> 'z ReadCompressed \<Rightarrow> bytes \<Rightarrow> nat \<Rightarrow> (bytes option \<times> bytes \<times> 'z ReadCompressed \<times> nat) result option"
where
  "header_Line lib rc out consumed = Line_loop lib rc out consumed consumed"

text \<open>The C library: \<^verbatim>\<open>strncasecmp\<close> on equal lengths and \<^verbatim>\<open>strtoll(s, &end, 10)\<close>, with the bytes from \<^verbatim>\<open>end\<close> on.\<close>

definition to_lower :: "byte \<Rightarrow> byte" where
  "to_lower c = (if 65 \<le> c \<and> c \<le> 90 then c + 32 else c)"

definition strtoll :: "bytes \<Rightarrow> int \<times> bytes" where
  "strtoll arg =
     (let s = dropWhile isspace arg;
          neg = (s \<noteq> [] \<and> hd s = 45);
          s = (if s \<noteq> [] \<and> (hd s = 45 \<or> hd s = 43) then tl s else s);
          ds = takeWhile isdigit s;
          v = (if neg then - int (dec_value ds) else int (dec_value ds))
      in if ds = [] then (0, arg) else (max (- (2 ^ 63)) (min (2 ^ 63 - 1) v), dropWhile isdigit s))"

definition kContentLength :: bytes where
  "kContentLength = lit ''Content-Length:''"

definition is_content_length :: "bytes \<Rightarrow> bool" where
  "is_content_length line \<longleftrightarrow>
     length line \<ge> length kContentLength \<and> map to_lower (take (length kContentLength) line) = map to_lower kContentLength"

text \<open>The body of the loop over the header; the line starts at \<open>start\<close> in the buffer.\<close>

definition note_length :: "bytes \<Rightarrow> nat \<Rightarrow> bytes \<Rightarrow> u64 \<times> bool \<Rightarrow> (u64 \<times> bool) result" where
  "note_length out start line = (\<lambda>(len, seen).
     if is_content_length line then
       if seen then Inl Exception
       else (case strtoll (drop (start + length kContentLength) out) of
               (v, rest) \<Rightarrow> if length rest \<noteq> length (drop (start + length line) out) then Inl Exception else Inr (of_int v, True))
     else Inr (len, seen))"

partial_function (option) header_loop ::
  "'z Library \<Rightarrow> 'z ReadCompressed \<Rightarrow> bytes \<Rightarrow> nat \<Rightarrow> u64 \<times> bool \<Rightarrow> ((u64 \<times> bool) \<times> bytes \<times> 'z ReadCompressed \<times> nat) result option"
where
  "header_loop lib rc out consumed len =
     (case header_Line lib rc out consumed of
        None \<Rightarrow> None
      | Some (Inl e) \<Rightarrow> Some (Inl e)
      | Some (Inr (None, _)) \<Rightarrow> Some (Inl EndOfFileException)
      | Some (Inr (Some line, out, rc, consumed')) \<Rightarrow>
          (case note_length out consumed line len of
             Inl e \<Rightarrow> Some (Inl e)
           | Inr len \<Rightarrow> if line = [] then Some (Inr (len, out, rc, consumed')) else header_loop lib rc out consumed' len))"

text \<open>The content is read until the record is complete.\<close>

partial_function (option) read_content ::
  "'z Library \<Rightarrow> 'z ReadCompressed \<Rightarrow> bytes \<Rightarrow> nat \<Rightarrow> (bytes \<times> 'z ReadCompressed) result option"
where
  "read_content lib rc out total_length =
     (if length out = total_length then Some (Inr (out, rc))
      else case ReadCompressed_Read lib rc (total_length - length out) of
             None \<Rightarrow> None
           | Some (Inl e) \<Rightarrow> Some (Inl e)
           | Some (Inr (got, rc)) \<Rightarrow>
               if got = [] then Some (Inl EndOfFileException) else read_content lib rc (out @ got) total_length)"

record 'z WARCReader =
  wr_reader :: "'z ReadCompressed"
  wr_overhang :: bytes

definition WARCReader_new :: "'z Library \<Rightarrow> Desc \<Rightarrow> 'z WARCReader result" where
  "WARCReader_new lib fd = map_sum id (\<lambda>rc. \<lparr>wr_reader = rc, wr_overhang = []\<rparr>) (ReadCompressed_Reset lib fd)"

definition crlf :: bytes where
  "crlf = [carriage_return, newline]"

definition check_end :: "bytes \<Rightarrow> bytes result" where
  "check_end out =
     (if length out < 4 then Inl OutOfBounds
      else if drop (length out - 4) out \<noteq> crlf @ crlf then Inl Exception
      else Inr out)"

text \<open>The tail of \<^verbatim>\<open>Read\<close>: the length of the record is known.\<close>

definition finish_record :: "'z Library \<Rightarrow> 'z ReadCompressed \<Rightarrow> bytes \<Rightarrow> u64 \<Rightarrow> (bytes option \<times> 'z WARCReader) result option" where
  "finish_record lib rc out total_length =
     (if unat total_length < length out then
        Some (map_sum id (\<lambda>record. (Some record, \<lparr>wr_reader = rc, wr_overhang = drop (unat total_length) out\<rparr>))
                (check_end (take (unat total_length) out)))
      else if total_length > string_max_size then Some (Inl LengthError)
      else
        map_option
          (\<lambda>r. case r of
             Inl e \<Rightarrow> Inl e
           | Inr (out, rc) \<Rightarrow> map_sum id (\<lambda>record. (Some record, \<lparr>wr_reader = rc, wr_overhang = []\<rparr>)) (check_end out))
          (read_content lib rc out (unat total_length)))"

text \<open>The value is \<^term>\<open>None\<close> where the function returns \<^verbatim>\<open>false\<close>.\<close>

definition WARCReader_Read :: "'z Library \<Rightarrow> 'z WARCReader \<Rightarrow> (bytes option \<times> 'z WARCReader) result option" where
  "WARCReader_Read lib warc =
     (case header_Line lib (wr_reader warc) (wr_overhang warc) 0 of
        None \<Rightarrow> None
      | Some (Inl e) \<Rightarrow> Some (Inl e)
      | Some (Inr (None, _, rc, _)) \<Rightarrow> Some (Inr (None, \<lparr>wr_reader = rc, wr_overhang = []\<rparr>))
      | Some (Inr (Some line, out, rc, consumed)) \<Rightarrow>
          if line \<noteq> lit ''WARC/1.0'' then Some (Inl Exception)
          else case header_loop lib rc out consumed (0, False) of
                 None \<Rightarrow> None
               | Some (Inl e) \<Rightarrow> Some (Inl e)
               | Some (Inr ((len, seen), out, rc, consumed)) \<Rightarrow>
                   if \<not> seen then Some (Inl Exception) else finish_record lib rc out (of_nat consumed + len + 4))"

subsection \<open>The threads\<close>

text \<open>The records that go into the queue.\<close>

partial_function (option) ReadInput_loop :: "'z Library \<Rightarrow> 'z WARCReader \<Rightarrow> bytes list \<Rightarrow> bytes list result option" where
  "ReadInput_loop lib warc queue =
     (case WARCReader_Read lib warc of
        None \<Rightarrow> None
      | Some (Inl e) \<Rightarrow> Some (Inl e)
      | Some (Inr (None, _)) \<Rightarrow> Some (Inr queue)
      | Some (Inr (Some str, warc)) \<Rightarrow> ReadInput_loop lib warc (queue @ [str]))"

definition ReadInput_warc :: "'z Library \<Rightarrow> Desc \<Rightarrow> bytes list result option" where
  "ReadInput_warc lib from_fd =
     (case WARCReader_new lib from_fd of
        Inl e \<Rightarrow> Some (Inl e)
      | Inr warc \<Rightarrow> ReadInput_loop lib warc [])"

text \<open>A record that is empty is the poison; waiting for one that nobody produces is \<^term>\<open>None\<close>.\<close>

primrec InputToProcess :: "bytes list \<Rightarrow> Desc \<Rightarrow> Desc result option" where
  "InputToProcess [] fd = None"
| "InputToProcess (warc # queue) fd =
     (if warc = [] then Some (Inr fd)
      else case WriteOrThrow fd warc of
             (_, Inl e) \<Rightarrow> Some (Inl e)
           | (fd, Inr _) \<Rightarrow> InputToProcess queue fd)"

definition OutputFromProcess_step :: "'c WriteLibrary \<Rightarrow> bool \<Rightarrow> Desc BufferedStream \<Rightarrow> bytes \<Rightarrow> Desc BufferedStream result option" where
  "OutputFromProcess_step wlib compress out str =
     map_option
       (\<lambda>r. case r of
          Inl e \<Rightarrow> Inl e
        | Inr s \<Rightarrow> (case insert_items FileStream_ops out [Str s] of (_, Inl e) \<Rightarrow> Inl e | (out, Inr _) \<Rightarrow> Inr out))
       (if compress then GZCompress wlib str 9 else Some (Inr str))"

partial_function (option) OutputFromProcess_loop ::
  "'z Library \<Rightarrow> 'c WriteLibrary \<Rightarrow> bool \<Rightarrow> 'z WARCReader \<Rightarrow> Desc BufferedStream \<Rightarrow> Desc BufferedStream result option"
where
  "OutputFromProcess_loop lib wlib compress warc out =
     (case WARCReader_Read lib warc of
        None \<Rightarrow> None
      | Some (Inl e) \<Rightarrow> Some (Inl e)
      | Some (Inr (None, _)) \<Rightarrow> Some (Inr out)
      | Some (Inr (Some str, warc)) \<Rightarrow>
          (case OutputFromProcess_step wlib compress out str of
             None \<Rightarrow> None
           | Some (Inl e) \<Rightarrow> Some (Inl e)
           | Some (Inr out) \<Rightarrow> OutputFromProcess_loop lib wlib compress warc out))"

definition OutputFromProcess ::
  "'z Library \<Rightarrow> 'c WriteLibrary \<Rightarrow> bool \<Rightarrow> Desc \<Rightarrow> Desc BufferedStream \<Rightarrow> Desc BufferedStream result option"
where
  "OutputFromProcess lib wlib compress process_out out =
     (case WARCReader_new lib process_out of
        Inl e \<Rightarrow> Some (Inl e)
      | Inr warc \<Rightarrow> OutputFromProcess_loop lib wlib compress warc out)"

subsection \<open>Lines of the header\<close>

lemma chomp_line: "chomp True l = (if l \<noteq> [] \<and> l ! (length l - 1) = carriage_return then take (length l - 1) l else l)"
  by (cases "l = []") (simp_all add: chomp_def last_conv_nth butlast_conv_take)

lemma ReadMore_good:
  assumes "library_ok lib decodes" and "holds lib decodes (rc_internal rc) future"
  shows "\<exists>r. ReadMore lib rc out = Some r \<and>
    (if future = [] then (if out = [] then \<exists>rc'. r = Inr (False, [], rc') \<and> holds lib decodes (rc_internal rc') [] else r = Inl EndOfFileException)
     else \<exists>got rc' future'. r = Inr (True, out @ got, rc') \<and> got \<noteq> [] \<and> future = got @ future' \<and> holds lib decodes (rc_internal rc') future')"
proof -
  obtain got rc' future' where r: "ReadCompressed_Read lib rc kRead = Some (Inr (got, rc'))" "future = got @ future'"
      "holds lib decodes (rc_internal rc') future'" "got = [] \<longrightarrow> future = []"
    using ReadCompressed_Read_good [OF assms, of kRead] by (metis kRead_def zero_less_numeral)
  show ?thesis
  proof (cases "got = []")
    case True
    then show ?thesis using r by (auto simp: ReadMore_def)
  next
    case False
    then show ?thesis using r by (auto simp: ReadMore_def)
  qed
qed

definition line_at :: "bytes \<Rightarrow> nat \<Rightarrow> bytes" where
  "line_at str consumed = takeWhile (\<lambda>c. c \<noteq> newline) (drop consumed str)"

lemma Line_loop_good:
  assumes "library_ok lib decodes" and "holds lib decodes (rc_internal rc) future"
    and "consumed \<le> start" and "start \<le> length out" and "newline \<notin> set (take (start - consumed) (drop consumed out))"
  defines "str \<equiv> out @ future"
  shows "\<exists>r. Line_loop lib rc out consumed start = Some r \<and>
    (if newline \<in> set (drop consumed str)
     then \<exists>out' rc' future'. r = Inr (Some (chomp True (line_at str consumed)), out', rc', consumed + length (line_at str consumed) + 1) \<and>
       str = out' @ future' \<and> holds lib decodes (rc_internal rc') future' \<and> consumed + length (line_at str consumed) + 1 \<le> length out'
     else if str = [] then \<exists>rc'. r = Inr (None, [], rc', consumed) \<and> holds lib decodes (rc_internal rc') []
     else r = Inl EndOfFileException)"
  using assms(2-5) unfolding str_def
proof (induction "length future" arbitrary: rc out future start rule: less_induct)
  case less
  let ?str = "out @ future" and ?rest = "drop start out"
  let ?nl = "start + std_find newline ?rest"
  have split: "drop consumed out = take (start - consumed) (drop consumed out) @ ?rest"
    using less.prems(2) by (metis append_take_drop_id drop_drop le_add_diff_inverse2)
  show ?case
  proof (cases "newline \<in> set ?rest")
    case True
    then have i: "std_find newline ?rest < length ?rest" unfolding std_find_less_iff .
    have l: "line_at ?str consumed = take (start - consumed) (drop consumed out) @ takeWhile (\<lambda>c. c \<noteq> newline) ?rest"
      using less.prems(2-4) True unfolding line_at_def
      by (subst drop_append, subst split) (auto simp: takeWhile_append)
    have len: "length (take (start - consumed) (drop consumed out)) = start - consumed" using less.prems(2,3) by simp
    have tw: "length (takeWhile (\<lambda>c. c \<noteq> newline) ?rest) = std_find newline ?rest"
      using i by (metis length_take less_imp_le min.absorb2 take_std_find)
    have n: "consumed + length (line_at ?str consumed) = ?nl" unfolding l using len tw less.prems(2) by simp
    have "take (?nl - consumed) (drop consumed out) = line_at ?str consumed"
    proof -
      have "?nl - consumed = (start - consumed) + std_find newline ?rest" using less.prems(2) by simp
      then have "take (?nl - consumed) (A @ ?rest) = A @ take (std_find newline ?rest) ?rest" if "length A = start - consumed" for A
        using that by simp
      from this [OF len] show ?thesis unfolding l split [symmetric] take_std_find .
    qed
    moreover have ne: "?nl \<noteq> length out" using i less.prems(3) by simp
    ultimately have "Line_loop lib rc out consumed start = Some (Inr (Some (chomp True (line_at ?str consumed)), out, rc, ?nl + 1))"
      using ne by (subst Line_loop.simps) (simp add: Let_def chomp_line del: drop_std_find take_std_find)
    moreover have "newline \<in> set (drop consumed ?str)" using True split by (metis Un_iff drop_append set_append)
    moreover have "?nl + 1 \<le> length out" using i less.prems(3) by simp
    ultimately show ?thesis using less.prems(1) n by auto
  next
    case False
    have e: "?nl = length out" using False less.prems(3) std_find_eq_length_iff [of newline ?rest] by simp
    have no: "newline \<notin> set (drop consumed out)" using False less.prems(4) split by (metis Un_iff set_append)
    obtain r where r: "ReadMore lib rc out = Some r"
      "if future = [] then (if out = [] then \<exists>rc'. r = Inr (False, [], rc') \<and> holds lib decodes (rc_internal rc') [] else r = Inl EndOfFileException)
       else \<exists>got rc' future'. r = Inr (True, out @ got, rc') \<and> got \<noteq> [] \<and> future = got @ future' \<and> holds lib decodes (rc_internal rc') future'"
      using ReadMore_good [OF assms(1) less.prems(1)] by blast
    show ?thesis
    proof (cases "future = []")
      case True
      then show ?thesis using r e no by (subst Line_loop.simps) (auto simp: Let_def split: if_splits)
    next
      case more: False
      then obtain got rc' future' where g: "r = Inr (True, out @ got, rc')" "got \<noteq> []" "future = got @ future'" "holds lib decodes (rc_internal rc') future'"
        using r(2) by auto
      have run: "Line_loop lib rc out consumed start = Line_loop lib rc' (out @ got) consumed (length out)"
        using r(1) g(1) e by (subst Line_loop.simps) (simp add: Let_def)
      have c: "consumed \<le> length out" using less.prems(2,3) by simp
      then have nn: "newline \<notin> set (take (length out - consumed) (drop consumed (out @ got)))" using no by simp
      have lt: "length future' < length future" "length out \<le> length (out @ got)" using g(2,3) by simp_all
      from less.hyps [OF lt(1) g(4) c lt(2) nn] show ?thesis unfolding run g(3) append_assoc .
    qed
  qed
qed

lemma header_Line_good:
  assumes "library_ok lib decodes" and "holds lib decodes (rc_internal rc) future" and "consumed \<le> length out"
  defines "str \<equiv> out @ future"
  shows "\<exists>r. header_Line lib rc out consumed = Some r \<and>
    (if newline \<in> set (drop consumed str)
     then \<exists>out' rc' future'. r = Inr (Some (chomp True (line_at str consumed)), out', rc', consumed + length (line_at str consumed) + 1) \<and>
       str = out' @ future' \<and> holds lib decodes (rc_internal rc') future' \<and> consumed + length (line_at str consumed) + 1 \<le> length out'
     else if str = [] then \<exists>rc'. r = Inr (None, [], rc', consumed) \<and> holds lib decodes (rc_internal rc') []
     else r = Inl EndOfFileException)"
  using Line_loop_good [OF assms(1,2) order_refl assms(3)] unfolding header_Line_def str_def by simp

subsection \<open>The header\<close>

text \<open>The loop over the header ends and only moves bytes from the reader to the buffer.\<close>

lemma header_loop_total:
  assumes "library_ok lib decodes" and "holds lib decodes (rc_internal rc) future" and "consumed \<le> length out"
  shows "\<exists>r. header_loop lib rc out consumed len = Some r \<and>
    (case r of Inl _ \<Rightarrow> True
     | Inr (_, out', rc', consumed') \<Rightarrow> \<exists>future'. out @ future = out' @ future' \<and> holds lib decodes (rc_internal rc') future' \<and> consumed' \<le> length out')"
  using assms(2,3)
proof (induction "length (out @ future) - consumed" arbitrary: rc out future consumed len rule: less_induct)
  case less
  let ?str = "out @ future"
  let ?next = "consumed + length (line_at ?str consumed) + 1"
  obtain r where r: "header_Line lib rc out consumed = Some r"
    "if newline \<in> set (drop consumed ?str)
     then \<exists>out' rc' future'. r = Inr (Some (chomp True (line_at ?str consumed)), out', rc', ?next) \<and>
       ?str = out' @ future' \<and> holds lib decodes (rc_internal rc') future' \<and> ?next \<le> length out'
     else if ?str = [] then \<exists>rc'. r = Inr (None, [], rc', consumed) \<and> holds lib decodes (rc_internal rc') []
     else r = Inl EndOfFileException"
    using header_Line_good [OF assms(1) less.prems] by blast
  show ?case
  proof (cases "newline \<in> set (drop consumed ?str)")
    case False
    then show ?thesis using r by (subst header_loop.simps) (auto split: if_splits)
  next
    case True
    then obtain out' rc' future' where l: "r = Inr (Some (chomp True (line_at ?str consumed)), out', rc', ?next)"
      "?str = out' @ future'" "holds lib decodes (rc_internal rc') future'" "?next \<le> length out'"
      using r(2) by auto
    have "consumed < length ?str" using True by (metis drop_all empty_iff empty_set not_le_imp_less)
    then have lt: "length (out' @ future') - ?next < length ?str - consumed"
      using arg_cong [OF l(2), of length] by linarith
    show ?thesis
    proof (cases "note_length out' consumed (chomp True (line_at ?str consumed)) len")
      case (Inl e)
      then show ?thesis using r(1) l(1) by (subst header_loop.simps) simp
    next
      case (Inr len')
      then have run: "header_loop lib rc out consumed len =
          (if chomp True (line_at ?str consumed) = [] then Some (Inr (len', out', rc', ?next)) else header_loop lib rc' out' ?next len')"
        using r(1) l(1) by (subst header_loop.simps) simp
      show ?thesis
      proof (cases "chomp True (line_at ?str consumed) = []")
        case True
        then show ?thesis unfolding run using l(2-4) by auto
      next
        case False
        show ?thesis unfolding run if_not_P [OF False] using less.hyps [OF lt l(3,4), of len'] unfolding l(2) [symmetric] .
      qed
    qed
  qed
qed

subsection \<open>A record\<close>

lemma read_content_good:
  assumes "library_ok lib decodes" and "holds lib decodes (rc_internal rc) future" and "length out \<le> total_length"
  shows "\<exists>r. read_content lib rc out total_length = Some r \<and>
    (if total_length \<le> length (out @ future)
     then \<exists>rc'. r = Inr (take total_length (out @ future), rc') \<and> holds lib decodes (rc_internal rc') (drop total_length (out @ future))
     else r = Inl EndOfFileException)"
  using assms(2,3)
proof (induction "total_length - length out" arbitrary: rc out future rule: less_induct)
  case less
  show ?case
  proof (cases "length out = total_length")
    case True
    then show ?thesis using less.prems by (subst read_content.simps) auto
  next
    case False
    then have pos: "0 < total_length - length out" using less.prems(2) by simp
    obtain got rc' future' where g: "ReadCompressed_Read lib rc (total_length - length out) = Some (Inr (got, rc'))" "future = got @ future'"
        "holds lib decodes (rc_internal rc') future'" "length got \<le> total_length - length out" "got = [] \<longrightarrow> future = []"
      using ReadCompressed_Read_good [OF assms(1) less.prems(1) pos] by metis
    show ?thesis
    proof (cases "got = []")
      case True
      then show ?thesis using g False less.prems(2) by (subst read_content.simps) auto
    next
      case ne: False
      have run: "read_content lib rc out total_length = read_content lib rc' (out @ got) total_length" using g(1) ne False by (subst read_content.simps) simp
      have "total_length - length (out @ got) < total_length - length out" "length (out @ got) \<le> total_length"
        using length_greater_0_conv [THEN iffD2, OF ne] pos g(4) unfolding length_append by linarith+
      from less.hyps [OF this(1) g(3) this(2)] show ?thesis unfolding run g(2) append_assoc .
    qed
  qed
qed

text \<open>What is still to come from a reader.\<close>

definition yields :: "'z Library \<Rightarrow> (MagicResult \<Rightarrow> 'z \<Rightarrow> bytes \<Rightarrow> bytes \<Rightarrow> bytes \<Rightarrow> bool) \<Rightarrow> 'z WARCReader \<Rightarrow> bytes \<Rightarrow> bool" where
  "yields lib decodes warc content \<longleftrightarrow>
     (\<exists>future. holds lib decodes (rc_internal (wr_reader warc)) future \<and> content = wr_overhang warc @ future)"

lemma check_end_Inr: "check_end out = Inr r \<Longrightarrow> r = out \<and> 4 \<le> length out"
  by (auto simp: check_end_def split: if_splits)

lemma finish_record_good:
  assumes "library_ok lib decodes" and "holds lib decodes (rc_internal rc) future" and "unat total_length \<le> length (out @ future)"
    and "total_length \<le> string_max_size" and "check_end (take (unat total_length) (out @ future)) = Inr r"
  shows "\<exists>warc'. finish_record lib rc out total_length = Some (Inr (Some r, warc')) \<and> yields lib decodes warc' (drop (unat total_length) (out @ future))"
proof (cases "unat total_length < length out")
  case True
  then show ?thesis using assms(2,5) by (auto simp: finish_record_def yields_def)
next
  case False
  then obtain rc' where "read_content lib rc out (unat total_length) = Some (Inr (take (unat total_length) (out @ future), rc'))"
      "holds lib decodes (rc_internal rc') (drop (unat total_length) (out @ future))"
    using read_content_good [OF assms(1,2), of out "unat total_length"] assms(3) by auto
  then show ?thesis using False assms(4,5) by (simp add: finish_record_def yields_def)
qed

lemma finish_record_total:
  assumes "library_ok lib decodes" and "holds lib decodes (rc_internal rc) future"
  shows "\<exists>r. finish_record lib rc out total_length = Some r \<and>
    (case r of Inl _ \<Rightarrow> True
     | Inr (x, warc') \<Rightarrow> \<exists>record rest. x = Some record \<and> 4 \<le> length record \<and> out @ future = record @ rest \<and> yields lib decodes warc' rest)"
proof (cases "unat total_length < length out")
  case True
  show ?thesis
  proof (cases "check_end (take (unat total_length) out)")
    case (Inr got)
    have w: "yields lib decodes \<lparr>wr_reader = rc, wr_overhang = drop (unat total_length) out\<rparr> (drop (unat total_length) out @ future)"
      using assms(2) by (simp add: yields_def)
    have "got = take (unat total_length) out" "4 \<le> length got" using check_end_Inr [OF Inr] by simp_all
    then show ?thesis using True Inr w
      by (auto simp: finish_record_def intro!: exI [of _ "drop (unat total_length) out @ future"])
  qed (use True in \<open>simp add: finish_record_def\<close>)
next
  case False
  show ?thesis
  proof (cases "total_length > string_max_size")
    case True
    then show ?thesis using False by (simp add: finish_record_def)
  next
    case small: False
    obtain r where r: "read_content lib rc out (unat total_length) = Some r"
      "if unat total_length \<le> length (out @ future)
       then \<exists>rc'. r = Inr (take (unat total_length) (out @ future), rc') \<and> holds lib decodes (rc_internal rc') (drop (unat total_length) (out @ future))
       else r = Inl EndOfFileException"
      using read_content_good [OF assms, of out "unat total_length"] False by auto
    show ?thesis
    proof (cases "unat total_length \<le> length (out @ future)")
      case True
      then obtain rc' where rc': "r = Inr (take (unat total_length) (out @ future), rc')" "holds lib decodes (rc_internal rc') (drop (unat total_length) (out @ future))"
        using r(2) by auto
      have f: "finish_record lib rc out total_length =
          Some (map_sum id (\<lambda>record. (Some record, \<lparr>wr_reader = rc', wr_overhang = []\<rparr>)) (check_end (take (unat total_length) (out @ future))))"
        unfolding finish_record_def using False small r(1) rc'(1) by simp
      show ?thesis
      proof (cases "check_end (take (unat total_length) (out @ future))")
        case (Inr got)
        have w: "yields lib decodes \<lparr>wr_reader = rc', wr_overhang = []\<rparr> (drop (unat total_length) (out @ future))" using rc'(2) by (simp add: yields_def)
        have "got = take (unat total_length) (out @ future)" and len: "4 \<le> length got" using check_end_Inr [OF Inr] by simp_all
        then have e: "out @ future = got @ drop (unat total_length) (out @ future)" by (metis append_take_drop_id)
        show ?thesis unfolding f Inr
          by (rule exI, rule conjI, rule refl) (simp only: map_sum.simps sum.case prod.case, use e w len in blast)
      qed (use f in simp)
    next
      case no: False
      then show ?thesis using r False small by (simp add: finish_record_def)
    qed
  qed
qed

text \<open>Whatever is in the file, \<^verbatim>\<open>Read\<close> returns, and a record that it returns is the next part of the file.\<close>

lemma WARCReader_Read_total:
  assumes "library_ok lib decodes" and "yields lib decodes warc content"
  shows "\<exists>r. WARCReader_Read lib warc = Some r \<and>
    (case r of Inl _ \<Rightarrow> True
     | Inr (None, warc') \<Rightarrow> content = []
     | Inr (Some record, warc') \<Rightarrow> \<exists>rest. record \<noteq> [] \<and> content = record @ rest \<and> yields lib decodes warc' rest)"
proof -
  obtain future where f: "holds lib decodes (rc_internal (wr_reader warc)) future" "content = wr_overhang warc @ future"
    using assms(2) by (auto simp: yields_def)
  obtain r where r: "header_Line lib (wr_reader warc) (wr_overhang warc) 0 = Some r"
    "if newline \<in> set content
     then \<exists>out' rc' future'. r = Inr (Some (chomp True (line_at content 0)), out', rc', length (line_at content 0) + 1) \<and>
       content = out' @ future' \<and> holds lib decodes (rc_internal rc') future' \<and> length (line_at content 0) + 1 \<le> length out'
     else if content = [] then \<exists>rc'. r = Inr (None, [], rc', 0) \<and> holds lib decodes (rc_internal rc') []
     else r = Inl EndOfFileException"
    using header_Line_good [OF assms(1) f(1), of 0 "wr_overhang warc"] unfolding f(2) [symmetric] drop_0 add_0 by blast
  show ?thesis
  proof (cases "newline \<in> set content")
    case False
    then show ?thesis using r by (cases "content = []") (auto simp: WARCReader_Read_def)
  next
    case True
    then obtain out' rc' future' where l: "r = Inr (Some (chomp True (line_at content 0)), out', rc', length (line_at content 0) + 1)"
       "content = out' @ future'" "holds lib decodes (rc_internal rc') future'" "length (line_at content 0) + 1 \<le> length out'"
      using r(2) by auto
    show ?thesis
    proof (cases "chomp True (line_at content 0) = lit ''WARC/1.0''")
      case False
      then show ?thesis using r(1) l(1) by (simp add: WARCReader_Read_def)
    next
      case magic: True
      obtain h where h: "header_loop lib rc' out' (length (line_at content 0) + 1) (0, False) = Some h"
        "case h of Inl _ \<Rightarrow> True
         | Inr (_, out2, rc2, consumed2) \<Rightarrow> \<exists>future2. content = out2 @ future2 \<and> holds lib decodes (rc_internal rc2) future2 \<and> consumed2 \<le> length out2"
        using header_loop_total [OF assms(1) l(3,4)] unfolding l(2) [symmetric] by blast
      show ?thesis
      proof (cases h)
        case (Inl e)
        then show ?thesis using r(1) l(1) magic h(1) by (simp add: WARCReader_Read_def)
      next
        case (Inr x)
        obtain len seen out2 rc2 consumed2 where x: "x = ((len, seen), out2, rc2, consumed2)" by (cases x) auto
        obtain future2 where f2: "content = out2 @ future2" "holds lib decodes (rc_internal rc2) future2" using h(2) Inr x by auto
        have run: "WARCReader_Read lib warc = (if \<not> seen then Some (Inl Exception) else finish_record lib rc2 out2 (of_nat consumed2 + len + 4))"
          using r(1) l(1) magic h(1) Inr x by (simp add: WARCReader_Read_def)
        show ?thesis
        proof (cases seen)
          case True
          obtain q where q: "finish_record lib rc2 out2 (of_nat consumed2 + len + 4) = Some q"
            "case q of Inl _ \<Rightarrow> True
             | Inr (x, warc') \<Rightarrow> \<exists>record rest. x = Some record \<and> 4 \<le> length record \<and> content = record @ rest \<and> yields lib decodes warc' rest"
            using finish_record_total [OF assms(1) f2(2), of out2 "of_nat consumed2 + len + 4"] unfolding f2(1) [symmetric] by blast
          show ?thesis
          proof (cases q)
            case (Inr y)
            then obtain record1 rest warc' where "y = (Some record1, warc')" "4 \<le> length record1" "content = record1 @ rest" "yields lib decodes warc' rest"
              using q(2) by (cases y) auto
            moreover from this have "record1 \<noteq> []" by auto
            ultimately show ?thesis unfolding run using True q(1) Inr by auto
          qed (use run True q(1) in simp)
        qed (simp add: run)
      qed
    qed
  qed
qed

subsection \<open>Well-formed records\<close>

text \<open>The header lines that follow the first, and the content.\<close>

definition warc_text :: "bytes list \<Rightarrow> bytes \<Rightarrow> bytes" where
  "warc_text hs body = lit ''WARC/1.0'' @ crlf @ concat (map (\<lambda>h. h @ crlf) hs) @ crlf @ body @ crlf @ crlf"

definition header_ok :: "bytes list \<Rightarrow> bytes \<Rightarrow> bool" where
  "header_ok hs body \<longleftrightarrow>
     (\<forall>h\<in>set hs. h \<noteq> [] \<and> newline \<notin> set h) \<and> length (filter is_content_length hs) = 1 \<and>
     (\<forall>h\<in>set hs. is_content_length h \<longrightarrow> drop (length kContentLength) h = lit '' '' @ dec (length body)) \<and>
     length (warc_text hs body) < 2 ^ 63 - 1"

lemma strtoll_dec:
  assumes "n < 2 ^ 63"
  shows "strtoll (lit '' '' @ dec n @ carriage_return # r) = (int n, carriage_return # r)"
proof -
  have hd: "isdigit (hd (dec n))" and all: "\<forall>c\<in>set (dec n). isdigit c"
    using dec_digits dec_digits [OF hd_in_set [OF dec_not_Nil]] by auto
  obtain c cs where d: "dec n = c # cs" by (cases "dec n") auto
  have cr: "\<not> isdigit carriage_return" by (simp add: isdigit_def word_le_nat_alt)
  have s: "dropWhile isspace (lit '' '' @ dec n @ carriage_return # r) = dec n @ carriage_return # r"
  proof -
    have "isspace 32" "\<not> isspace c" using hd digit_not_special [of c] by (simp_all add: d isspace_def)
    then show ?thesis by (simp add: d lit_def)
  qed
  have "takeWhile isdigit (dec n @ carriage_return # r) = dec n" "dropWhile isdigit (dec n @ carriage_return # r) = carriage_return # r"
    using all cr by simp_all
  moreover have "hd (dec n @ carriage_return # r) \<noteq> 45" "hd (dec n @ carriage_return # r) \<noteq> 43"
    using hd digit_not_special [of "hd (dec n)"] by (simp_all add: d)
  moreover have "int n \<le> 2 ^ 63 - 1" using assms by simp
  ultimately show ?thesis unfolding strtoll_def s by (simp add: Let_def)
qed

lemma note_length_good:
  assumes "drop start out = h @ crlf @ r" and "is_content_length h" and "drop (length kContentLength) h = lit '' '' @ dec n" and "n < 2 ^ 63"
  shows "note_length out start h (len, False) = Inr (of_nat n, True)"
proof -
  have le: "length kContentLength \<le> length h" using assms(2) by (simp add: is_content_length_def)
  have "drop (start + length kContentLength) out = drop (length kContentLength) (drop start out)" by (simp add: add.commute)
  also have "\<dots> = lit '' '' @ dec n @ carriage_return # newline # r" using le assms(1,3) by (simp add: crlf_def)
  finally have "strtoll (drop (start + length kContentLength) out) = (int n, carriage_return # newline # r)" using strtoll_dec [OF assms(4)] by simp
  moreover have "drop (start + length h) out = drop (length h) (drop start out)" by (simp add: add.commute)
  then have "drop (start + length h) out = crlf @ r" using assms(1) by simp
  ultimately show ?thesis using assms(2) by (simp add: note_length_def crlf_def)
qed

lemma line_at_crlf:
  assumes "drop consumed str = h @ crlf @ rest" and "newline \<notin> set h"
  shows "newline \<in> set (drop consumed str)" and "line_at str consumed = h @ [carriage_return]" and "chomp True (line_at str consumed) = h"
proof -
  show "newline \<in> set (drop consumed str)" using assms(1) by (simp add: crlf_def)
  show "line_at str consumed = h @ [carriage_return]" using assms unfolding line_at_def by (simp add: crlf_def takeWhile_append)
  then show "chomp True (line_at str consumed) = h" by (simp add: chomp_def)
qed

lemma header_loop_lines:
  assumes "library_ok lib decodes" and "holds lib decodes (rc_internal rc) future" and "consumed \<le> length out"
    and "drop consumed (out @ future) = concat (map (\<lambda>h. h @ crlf) hs) @ crlf @ rest"
    and "\<forall>h\<in>set hs. h \<noteq> [] \<and> newline \<notin> set h \<and> (is_content_length h \<longrightarrow> drop (length kContentLength) h = lit '' '' @ dec n)"
    and "length (filter is_content_length hs) = (if seen then 0 else 1)" and "n < 2 ^ 63"
  shows "\<exists>out' rc' future'. header_loop lib rc out consumed (len, seen) =
      Some (Inr ((if seen then len else of_nat n, True), out', rc', consumed + length (concat (map (\<lambda>h. h @ crlf) hs)) + 2)) \<and>
    out @ future = out' @ future' \<and> holds lib decodes (rc_internal rc') future'"
  using assms(2-6)
proof (induction hs arbitrary: rc out future consumed len seen)
  case Nil
  have seen: seen using Nil.prems(5) by (simp split: if_splits)
  note l = line_at_crlf [of consumed "out @ future" "[]" rest]
  have d: "drop consumed (out @ future) = [] @ crlf @ rest" using Nil.prems(3) by simp
  obtain out' rc' future' where r: "header_Line lib rc out consumed = Some (Inr (Some [], out', rc', consumed + 2))"
      "out @ future = out' @ future'" "holds lib decodes (rc_internal rc') future'"
    using header_Line_good [OF assms(1) Nil.prems(1,2)] l [OF d] by auto
  have "note_length out' consumed [] (len, seen) = Inr (len, seen)" by (simp add: note_length_def is_content_length_def kContentLength_def lit_def)
  then show ?case using r seen by (subst header_loop.simps) auto
next
  case (Cons h hs)
  let ?rest = "concat (map (\<lambda>h. h @ crlf) hs) @ crlf @ rest" and ?c = "consumed + length h + 2"
  have h: "h \<noteq> []" "newline \<notin> set h" "is_content_length h \<Longrightarrow> drop (length kContentLength) h = lit '' '' @ dec n" using Cons.prems(4) by auto
  have d: "drop consumed (out @ future) = h @ crlf @ ?rest" using Cons.prems(3) by simp
  obtain out' rc' future' where r: "header_Line lib rc out consumed = Some (Inr (Some h, out', rc', ?c))"
      "out @ future = out' @ future'" "holds lib decodes (rc_internal rc') future'" "?c \<le> length out'"
    using header_Line_good [OF assms(1) Cons.prems(1,2)] line_at_crlf [OF d h(2)] by auto
  have dc: "drop consumed out' @ future' = h @ crlf @ ?rest" using d r(2,4) by simp
  have "length (h @ crlf) \<le> length (drop consumed out')" using r(4) by (simp add: crlf_def)
  moreover have "prefix (drop consumed out') (h @ crlf @ ?rest)" unfolding dc [symmetric] by simp
  moreover have "prefix (h @ crlf) (h @ crlf @ ?rest)" by simp
  ultimately have "prefix (h @ crlf) (drop consumed out')" by (metis prefix_length_prefix)
  then obtain q where q: "drop consumed out' = h @ crlf @ q" by (auto elim: prefixE)
  have d': "drop ?c (out' @ future') = ?rest"
  proof -
    have a: "drop ?c xs = drop (length (h @ crlf)) (drop consumed xs)" for xs :: bytes by (simp add: crlf_def add.commute add.left_commute)
    show ?thesis unfolding a r(2) [symmetric] d by simp
  qed
  let ?seen = "seen \<or> is_content_length h" and ?len = "if is_content_length h then of_nat n else len"
  have cl: "is_content_length h \<Longrightarrow> \<not> seen" using Cons.prems(5) by auto
  have n: "note_length out' consumed h (len, seen) = Inr (?len, ?seen)"
  proof (cases "is_content_length h")
    case True
    then show ?thesis using note_length_good [OF q True h(3) [OF True] assms(7)] cl by simp
  qed (simp add: note_length_def)
  have run: "header_loop lib rc out consumed (len, seen) = header_loop lib rc' out' ?c (?len, ?seen)"
    using r(1) n h(1) by (subst header_loop.simps) simp
  have "length (filter is_content_length hs) = (if ?seen then 0 else 1)" using Cons.prems(5) cl by (auto split: if_splits)
  from Cons.IH [OF r(3,4) d' _ this, of ?len] Cons.prems(4) show ?case
    unfolding run r(2) using cl by (auto simp: crlf_def add.assoc add.commute add.left_commute)
qed

lemma WARCReader_Read_good:
  assumes "library_ok lib decodes" and "yields lib decodes warc (warc_text hs body @ rest)" and "header_ok hs body"
  shows "\<exists>warc'. WARCReader_Read lib warc = Some (Inr (Some (warc_text hs body), warc')) \<and> yields lib decodes warc' rest"
proof -
  let ?content = "warc_text hs body @ rest" and ?H = "concat (map (\<lambda>h. h @ crlf) hs)"
  obtain future where f: "holds lib decodes (rc_internal (wr_reader warc)) future" "?content = wr_overhang warc @ future"
    using assms(2) by (auto simp: yields_def)
  have d: "drop 0 ?content = lit ''WARC/1.0'' @ crlf @ ?H @ crlf @ body @ crlf @ crlf @ rest" by (simp add: warc_text_def)
  have nn: "newline \<notin> set (lit ''WARC/1.0'')" and len8: "length (lit ''WARC/1.0'') = 8" by (simp_all add: lit_def)
  obtain out rc fut where r: "header_Line lib (wr_reader warc) (wr_overhang warc) 0 = Some (Inr (Some (lit ''WARC/1.0''), out, rc, 10))"
      "?content = out @ fut" "holds lib decodes (rc_internal rc) fut" "10 \<le> length out"
    using header_Line_good [OF assms(1) f(1), of 0 "wr_overhang warc"] line_at_crlf [OF d nn] unfolding f(2) [symmetric] by (auto simp: len8)
  have "drop 10 ?content = drop (length (lit ''WARC/1.0'' @ crlf)) (drop 0 ?content)" by (simp add: len8 crlf_def)
  then have d10: "drop 10 (out @ fut) = ?H @ crlf @ body @ crlf @ crlf @ rest" unfolding d r(2) [symmetric] by simp
  have small: "length body < 2 ^ 63" using assms(3) by (simp add: header_ok_def warc_text_def)
  obtain out2 rc2 fut2 where h: "header_loop lib rc out 10 (0, False) = Some (Inr ((of_nat (length body), True), out2, rc2, 10 + length ?H + 2))"
      "?content = out2 @ fut2" "holds lib decodes (rc_internal rc2) fut2"
    using header_loop_lines [OF assms(1) r(3,4) d10, of "length body" False 0] assms(3) small unfolding r(2) [symmetric] by (auto simp: header_ok_def)
  let ?total = "of_nat (10 + length ?H + 2) + of_nat (length body) + 4 :: u64"
  have l: "10 + length ?H + 2 + length body + 4 = length (warc_text hs body)" by (simp add: warc_text_def len8 crlf_def)
  have lt: "length (warc_text hs body) < 2 ^ 63 - 1" using assms(3) by (simp add: header_ok_def)
  have tot: "?total = of_nat (length (warc_text hs body))" by (subst l [symmetric]) simp
  then have u: "unat ?total = length (warc_text hs body)" using lt by (simp add: unat_of_nat del: of_nat_add)
  have "take (unat ?total) (out2 @ fut2) = warc_text hs body" "drop (unat ?total) (out2 @ fut2) = rest" unfolding u h(2) [symmetric] by simp_all
  moreover have "check_end (P @ crlf @ crlf) = Inr (P @ crlf @ crlf)" for P by (simp add: check_end_def crlf_def)
  then have "check_end (warc_text hs body) = Inr (warc_text hs body)" unfolding warc_text_def by (metis append_assoc)
  moreover have "?total \<le> string_max_size" using u lt by (simp add: word_le_nat_alt string_max_size_def del: of_nat_add)
  moreover have "unat ?total \<le> length (out2 @ fut2)" unfolding u h(2) [symmetric] by simp
  ultimately show ?thesis
    using finish_record_good [OF assms(1) h(3), of ?total out2 "warc_text hs body"] r(1) h(1) by (simp add: WARCReader_Read_def del: of_nat_add)
qed

subsection \<open>All records\<close>

lemma ReadInput_loop_total:
  assumes "library_ok lib decodes" and "yields lib decodes warc content"
  shows "\<exists>r. ReadInput_loop lib warc queue = Some r \<and>
    (case r of Inl _ \<Rightarrow> True | Inr q \<Rightarrow> \<exists>recs. q = queue @ recs \<and> concat recs = content \<and> [] \<notin> set recs)"
  using assms(2)
proof (induction "length content" arbitrary: content warc queue rule: less_induct)
  case less
  obtain r where r: "WARCReader_Read lib warc = Some r"
    "case r of Inl _ \<Rightarrow> True | Inr (None, warc') \<Rightarrow> content = []
     | Inr (Some record, warc') \<Rightarrow> \<exists>rest. record \<noteq> [] \<and> content = record @ rest \<and> yields lib decodes warc' rest"
    using WARCReader_Read_total [OF assms(1) less.prems] by blast
  show ?case
  proof (cases r)
    case (Inl e)
    then show ?thesis using r(1) by (subst ReadInput_loop.simps) simp
  next
    case (Inr x)
    obtain got warc' where x: "x = (got, warc')" by (cases x)
    show ?thesis
    proof (cases got)
      case None
      then show ?thesis using r Inr x by (subst ReadInput_loop.simps) simp
    next
      case (Some str)
      then obtain rest where s: "str \<noteq> []" "content = str @ rest" "yields lib decodes warc' rest" using r(2) Inr x by auto
      have run: "ReadInput_loop lib warc queue = ReadInput_loop lib warc' (queue @ [str])" using r(1) Inr x Some by (subst ReadInput_loop.simps) simp
      have "length rest < length content" using s(1,2) by simp
      from less.hyps [OF this s(3), of "queue @ [str]"] obtain q where q: "ReadInput_loop lib warc' (queue @ [str]) = Some q"
        "case q of Inl _ \<Rightarrow> True | Inr q \<Rightarrow> \<exists>recs. q = (queue @ [str]) @ recs \<and> concat recs = rest \<and> [] \<notin> set recs" by blast
      show ?thesis
      proof (cases q)
        case (Inr y)
        then obtain recs where "y = queue @ (str # recs)" "concat (str # recs) = content" "[] \<notin> set (str # recs)" using q(2) s(1,2) by auto
        then show ?thesis unfolding run q(1) Inr by (intro exI [of _ "Inr y"]) auto
      qed (use run q(1) in simp)
    qed
  qed
qed

lemma WARCReader_new_good:
  assumes "library_ok lib decodes" and "fd_ok fd" and "file_content lib decodes (d_rest fd) content"
  shows "\<exists>warc. WARCReader_new lib fd = Inr warc \<and> yields lib decodes warc content"
proof -
  obtain rc where "ReadCompressed_Reset lib fd = Inr rc" "holds lib decodes (rc_internal rc) content" using ReadCompressed_Reset_good [OF assms] by blast
  then show ?thesis by (simp add: WARCReader_new_def yields_def)
qed

abbreviation records_text :: "(bytes list \<times> bytes) list \<Rightarrow> bytes list" where
  "records_text rs \<equiv> map (\<lambda>(hs, body). warc_text hs body) rs"

lemma ReadInput_loop_good:
  assumes "library_ok lib decodes" and "yields lib decodes warc (concat (records_text rs))" and "\<forall>(hs, body)\<in>set rs. header_ok hs body"
  shows "ReadInput_loop lib warc queue = Some (Inr (queue @ records_text rs))"
  using assms(2,3)
proof (induction rs arbitrary: warc queue)
  case Nil
  obtain r where r: "WARCReader_Read lib warc = Some r"
    "case r of Inl _ \<Rightarrow> True | Inr (None, warc') \<Rightarrow> [] = ([] :: bytes)
     | Inr (Some record, warc') \<Rightarrow> \<exists>rest. record \<noteq> [] \<and> [] = record @ rest \<and> yields lib decodes warc' rest"
    using WARCReader_Read_total [OF assms(1), of warc "[]"] Nil.prems(1) by auto
  obtain future where "holds lib decodes (rc_internal (wr_reader warc)) future" "[] = wr_overhang warc @ future"
    using Nil.prems(1) by (auto simp: yields_def)
  then obtain rc' where "header_Line lib (wr_reader warc) (wr_overhang warc) 0 = Some (Inr (None, [], rc', 0))"
    using header_Line_good [OF assms(1), of "wr_reader warc" "[]" 0 "[]"] by auto
  then show ?case by (subst ReadInput_loop.simps) (simp add: WARCReader_Read_def)
next
  case (Cons r rs)
  obtain hs body where r: "r = (hs, body)" by (cases r)
  have "yields lib decodes warc (warc_text hs body @ concat (records_text rs))" "header_ok hs body" using Cons.prems r by auto
  from WARCReader_Read_good [OF assms(1) this] obtain warc' where w: "WARCReader_Read lib warc = Some (Inr (Some (warc_text hs body), warc'))"
    "yields lib decodes warc' (concat (records_text rs))" by blast
  have "ReadInput_loop lib warc queue = ReadInput_loop lib warc' (queue @ [warc_text hs body])" using w(1) by (subst ReadInput_loop.simps) simp
  then show ?case using Cons.IH [OF w(2)] Cons.prems(2) r by simp
qed

text \<open>
  C9. On a file that decodes completely, \<^verbatim>\<open>ReadInput_warc\<close> ends, whatever its content is, well-formed records or not; if
  it does not throw, the records that it puts into the queue are the content of the file cut into parts that are
  not empty: nothing is lost, added or reordered, and no record is taken for the poison. The hypothesis
  \<open>file_content\<close> leaves out files that are truncated or damaged in their compressed form, on which reading may not
  end.
\<close>

theorem ReadInput_partition:
  assumes "library_ok lib decodes" and "fd_ok fd" and "file_content lib decodes (d_rest fd) content"
  shows "\<exists>r. ReadInput_warc lib fd = Some r \<and> (\<forall>recs. r \<noteq> Inr recs \<or> (concat recs = content \<and> [] \<notin> set recs))"
proof -
  obtain warc where w: "WARCReader_new lib fd = Inr warc" "yields lib decodes warc content" using WARCReader_new_good [OF assms] by blast
  obtain r where "ReadInput_loop lib warc [] = Some r" "case r of Inl _ \<Rightarrow> True | Inr q \<Rightarrow> \<exists>recs. q = [] @ recs \<and> concat recs = content \<and> [] \<notin> set recs"
    using ReadInput_loop_total [OF assms(1) w(2)] by blast
  then show ?thesis using w(1) by (cases r) (auto simp: ReadInput_warc_def)
qed

lemma InputToProcess_good:
  "[] \<notin> set recs \<Longrightarrow> no_failure (d_answers fd) \<Longrightarrow>
    \<exists>fd'. InputToProcess (recs @ [[]]) fd = Some (Inr fd') \<and> d_out fd' = d_out fd @ concat recs"
proof (induction recs arbitrary: fd)
  case (Cons str recs)
  obtain k where "d_out (fst (WriteOrThrow fd str)) = d_out fd @ take k str" "snd (WriteOrThrow fd str) = Inr () \<Longrightarrow> length str \<le> k"
    "no_failure (d_answers fd) \<Longrightarrow> snd (WriteOrThrow fd str) = Inr () \<and> no_failure (d_answers (fst (WriteOrThrow fd str)))"
    by (rule WriteOrThrow_spec [of fd str]) blast
  then show ?case using Cons.prems(2) Cons.IH [of "fst (WriteOrThrow fd str)"] Cons.prems(1) by (cases "WriteOrThrow fd str") auto
qed simp

lemma OutputFromProcess_loop_good:
  assumes "library_ok lib decodes" and "yields lib decodes warc (concat (records_text rs))" and "\<forall>(hs, body)\<in>set rs. header_ok hs body" and "stream_ok out"
  shows "\<exists>out'. OutputFromProcess_loop lib wlib False warc out = Some (Inr out') \<and> stream_ok out' \<and>
    stream_text out' = stream_text out @ concat (records_text rs)"
  using assms(2-4)
proof (induction rs arbitrary: warc out)
  case Nil
  obtain future where "holds lib decodes (rc_internal (wr_reader warc)) future" "[] = wr_overhang warc @ future"
    using Nil.prems(1) by (auto simp: yields_def)
  then obtain rc' where "header_Line lib (wr_reader warc) (wr_overhang warc) 0 = Some (Inr (None, [], rc', 0))"
    using header_Line_good [OF assms(1), of "wr_reader warc" "[]" 0 "[]"] by auto
  then show ?case using Nil.prems(3) by (subst OutputFromProcess_loop.simps) (simp add: WARCReader_Read_def)
next
  case (Cons r rs)
  obtain hs body where r: "r = (hs, body)" by (cases r)
  have "yields lib decodes warc (warc_text hs body @ concat (records_text rs))" "header_ok hs body" using Cons.prems r by auto
  from WARCReader_Read_good [OF assms(1) this] obtain warc' where w: "WARCReader_Read lib warc = Some (Inr (Some (warc_text hs body), warc'))"
    "yields lib decodes warc' (concat (records_text rs))" by blast
  obtain out1 where out1: "insert_items FileStream_ops out [Str (warc_text hs body)] = (out1, Inr ())" "stream_ok out1"
      "stream_text out1 = stream_text out @ warc_text hs body"
    using insert_items_good [OF Cons.prems(3), of "[Str (warc_text hs body)]"] by auto
  have "OutputFromProcess_loop lib wlib False warc out = OutputFromProcess_loop lib wlib False warc' out1"
    using w(1) out1(1) by (subst OutputFromProcess_loop.simps) (simp add: OutputFromProcess_step_def del: insert_items.simps)
  then show ?case using Cons.IH [OF w(2) _ out1(2)] Cons.prems(2) out1(3) r by auto
qed

text \<open>
  C10. A file of well-formed records through \<^verbatim>\<open>warc_parallel\<close> with one worker, whose child answers with
  well-formed records: the reader puts exactly the records of the file into the queue, the child is
  given the whole file, and the output has the records of the child's answer, all of it and in order.
\<close>

theorem warc_parallel_correct:
  assumes "library_ok lib decodes" and "fd_ok fd" and "file_content lib decodes (d_rest fd) (concat (records_text rs))"
    and "\<forall>(hs, body)\<in>set rs. header_ok hs body" and "no_failure (d_answers process_in)"
    and "fd_ok process_out" and "file_content lib decodes (d_rest process_out) (concat (records_text answers))"
    and "\<forall>(hs, body)\<in>set answers. header_ok hs body" and "stream_ok out"
  shows "ReadInput_warc lib fd = Some (Inr (records_text rs)) \<and>
    (\<exists>process_in'. InputToProcess (records_text rs @ [[]]) process_in = Some (Inr process_in') \<and>
       d_out process_in' = d_out process_in @ concat (records_text rs)) \<and>
    (\<exists>out'. OutputFromProcess lib wlib False process_out out = Some (Inr out') \<and>
       d_out (bs_writer out') @ bs_buf out' = d_out (bs_writer out) @ bs_buf out @ concat (records_text answers))"
proof (intro conjI)
  obtain warc where w: "WARCReader_new lib fd = Inr warc" "yields lib decodes warc (concat (records_text rs))"
    using WARCReader_new_good [OF assms(1-3)] by blast
  show "ReadInput_warc lib fd = Some (Inr (records_text rs))"
    using w(1) ReadInput_loop_good [OF assms(1) w(2) assms(4), of "[]"] by (simp add: ReadInput_warc_def)
  have "[] \<notin> set (records_text rs)" by (auto simp: warc_text_def lit_def)
  then show "\<exists>process_in'. InputToProcess (records_text rs @ [[]]) process_in = Some (Inr process_in') \<and>
       d_out process_in' = d_out process_in @ concat (records_text rs)"
    using InputToProcess_good assms(5) by blast
  obtain warc' where w': "WARCReader_new lib process_out = Inr warc'" "yields lib decodes warc' (concat (records_text answers))"
    using WARCReader_new_good [OF assms(1,6,7)] by blast
  show "\<exists>out'. OutputFromProcess lib wlib False process_out out = Some (Inr out') \<and>
       d_out (bs_writer out') @ bs_buf out' = d_out (bs_writer out) @ bs_buf out @ concat (records_text answers)"
    using w'(1) OutputFromProcess_loop_good [OF assms(1) w'(2) assms(8,9)] by (auto simp: OutputFromProcess_def)
qed

subsection \<open>Small inputs\<close>

definition small_record :: "bytes list \<times> bytes" where
  "small_record = ([lit ''WARC-Type: x'', lit ''content-length: 2''], lit ''hi'')"

definition plain_fd :: "bytes \<Rightarrow> Desc" where
  "plain_fd str = \<lparr>d_rest = str, d_out = [], d_answers = [], d_syncs = []\<rparr>"

lemma small_record_ok: "header_ok (fst small_record) (snd small_record)"
proof -
  have "\<forall>h\<in>set (fst small_record). h \<noteq> [] \<and> newline \<notin> set h" "length (filter is_content_length (fst small_record)) = 1"
    "\<forall>h\<in>set (fst small_record). is_content_length h \<longrightarrow> drop (length kContentLength) h = lit '' '' @ dec (length (snd small_record))"
    by code_simp+
  moreover have "length (warc_text (fst small_record) (snd small_record)) < 2 ^ 63 - 1"
    by (simp add: warc_text_def small_record_def crlf_def lit_def)
  ultimately show ?thesis by (simp add: header_ok_def)
qed

lemma small_warc: "fd_ok (plain_fd s)" "DetectMagic s = UTIL_UNKNOWN \<Longrightarrow> file_content stored_library (\<lambda>_. stored_decodes) (d_rest (plain_fd s)) s"
  by (simp_all add: plain_fd_def file_content_def)

lemma small_warc_plain: "DetectMagic (concat (records_text [small_record, small_record])) = UTIL_UNKNOWN"
  by code_simp

theorem ReadInput_partition_witness:
  "\<exists>r. ReadInput_warc stored_library (plain_fd (lit ''WARC/1.0'')) = Some r"
proof -
  have "DetectMagic (lit ''WARC/1.0'') = UTIL_UNKNOWN" by code_simp
  then show ?thesis using ReadInput_partition [OF stored_library_ok small_warc(1) small_warc(2)] by blast
qed

theorem warc_parallel_correct_witness:
  "ReadInput_warc stored_library (plain_fd (concat (records_text [small_record, small_record]))) =
     Some (Inr (records_text [small_record, small_record]))"
proof -
  have ok: "\<forall>(hs, body)\<in>set [small_record, small_record]. header_ok hs body" using small_record_ok by (simp add: case_prod_beta)
  have fine: "no_failure (d_answers small_out)" "stream_ok (BufferedStream_new small_out)" using small_out_ok(1) by (simp_all add: BufferedStream_new_def)
  note content = small_warc(2) [OF small_warc_plain]
  show ?thesis
    using warc_parallel_correct [OF stored_library_ok small_warc(1) content ok fine(1) small_warc(1) content ok fine(2)] by blast
qed

end
