(* ===== verification/Vocab.thy ===== *)
theory Vocab
  imports CaptivePrograms TokenizePiece
begin

text \<open>
  Programs that keep words in a hash table: \<^verbatim>\<open>MutableVocab\<close> (\<^verbatim>\<open>src/util/mutable_vocab.cc\<close>), \<^verbatim>\<open>vocab\<close>
  (\<^verbatim>\<open>src/preprocess/vocab_main.cc\<close>) and \<^verbatim>\<open>truecase\<close> (\<^verbatim>\<open>src/preprocess/truecase_main.cc\<close>). An entry is written
  through the iterator that \<^verbatim>\<open>FindOrInsert\<close> returns: \<open>set_entry\<close>. The copies that go into a memory
  pool are the bytes themselves. \<^verbatim>\<open>ToLower\<close> is in the library ICU and a parameter.
\<close>

definition set_entry :: "('e, 'k) AutoProbing \<Rightarrow> nat \<Rightarrow> 'e \<Rightarrow> ('e, 'k) AutoProbing" where
  "set_entry a i e = a\<lparr>ap_backend := (ap_backend a)\<lparr>pt_buckets := (pt_buckets (ap_backend a))[i := e]\<rparr>\<rparr>"

definition get_entry :: "('e, 'k) AutoProbing \<Rightarrow> nat \<Rightarrow> 'e" where
  "get_entry a i = pt_buckets (ap_backend a) ! i"

subsection \<open>\<open>MutableVocab\<close>\<close>

record MutableVocabInternal =
  mv_key :: u64
  mv_id :: u32

definition mv_ops :: "(MutableVocabInternal, u64) EntryOps" where
  "mv_ops = \<lparr>GetKey = mv_key, SetKey = (\<lambda>k e. e\<lparr>mv_key := k\<rparr>), Hash = IdentityHash, Blank = \<lparr>mv_key = 0, mv_id = 0\<rparr>\<rparr>"

record MutableVocab =
  mv_map :: "(MutableVocabInternal, u64) AutoProbing"
  mv_strings :: "bytes list"

definition kUNK :: u32 where
  "kUNK = 0"

definition MutableVocab_new :: "MutableVocab result" where
  "MutableVocab_new =
     map_sum id (\<lambda>m. \<lparr>mv_map = m, mv_strings = [lit ''<unk>'']\<rparr>) (AutoProbing_new mv_ops True (Blank mv_ops) 5 7 0)"

abbreviation str_hash :: "bytes \<Rightarrow> u64" where
  "str_hash str \<equiv> MurmurHashNative str 0"

definition MutableVocab_Find :: "MutableVocab \<Rightarrow> bytes \<Rightarrow> u32 option" where
  "MutableVocab_Find v str =
     map_option (\<lambda>(found, i). if found then mv_id (get_entry (mv_map v) i) else kUNK) (auto_Find mv_ops (mv_map v) (str_hash str))"

definition MutableVocab_FindOrInsert :: "MutableVocab \<Rightarrow> bytes \<Rightarrow> (MutableVocab \<times> u32) result option" where
  "MutableVocab_FindOrInsert v str =
     (case auto_FindOrInsert mv_ops True (Blank mv_ops) (mv_map v) \<lparr>mv_key = str_hash str, mv_id = 0\<rparr> of
        None \<Rightarrow> None
      | Some (_, Inl e) \<Rightarrow> Some (Inl e)
      | Some (m, Inr (found, i)) \<Rightarrow>
          Some (Inr
            (if found then (v\<lparr>mv_map := m\<rparr>, mv_id (get_entry m i))
             else let i' = of_nat (length (mv_strings v))
                  in (v\<lparr>mv_map := set_entry m i ((get_entry m i)\<lparr>mv_id := i'\<rparr>), mv_strings := mv_strings v @ [str]\<rparr>, i'))))"

definition MutableVocab_String :: "MutableVocab \<Rightarrow> u32 \<Rightarrow> bytes" where
  "MutableVocab_String v i = mv_strings v ! unat i"

definition MutableVocab_Size :: "MutableVocab \<Rightarrow> nat" where
  "MutableVocab_Size v = length (mv_strings v)"

subsection \<open>\<^verbatim>\<open>vocab\<close>\<close>

definition vocab_delimiters :: "bool list" where
  "vocab_delimiters = map (\<lambda>c. c \<in> {0, 9, 13, 10, 32}) [0..<256]"

partial_function (option) vocab_loop ::
  "'z Environment \<Rightarrow> 'z FilePiece \<Rightarrow> (u64, u64) AutoProbing \<Rightarrow> Desc BufferedStream \<Rightarrow> Desc BufferedStream result option"
where
  "vocab_loop env fp seen out =
     (case ReadDelimited env vocab_delimiters fp of
        None \<Rightarrow> None
      | Some (_, Inl e) \<Rightarrow> Some (if e = EndOfFileException then Inr out else Inl e)
      | Some (fp, Inr word) \<Rightarrow>
          (case Dedupe_key seen (MurmurHashNative word 0) of
             None \<Rightarrow> None
           | Some (Inl e) \<Rightarrow> Some (Inl e)
           | Some (Inr (seen, fresh)) \<Rightarrow>
               (case (if fresh then insert_items FileStream_ops out [Str word, Chr 0] else (out, Inr ())) of
                  (_, Inl e) \<Rightarrow> Some (Inl e)
                | (out, Inr _) \<Rightarrow> vocab_loop env fp seen out)))"

definition vocab_main :: "'z Environment \<Rightarrow> Desc \<Rightarrow> Desc \<Rightarrow> Desc result option" where
  "vocab_main env stdin stdout =
     (case Dedupe_new of
        Inl e \<Rightarrow> Some (Inl e)
      | Inr seen \<Rightarrow>
          (case Initialize env 1048576 stdin of
             None \<Rightarrow> None
           | Some (_, Inl e) \<Rightarrow> Some (Inl e)
           | Some (fp, Inr _) \<Rightarrow>
               (case vocab_loop env fp seen (BufferedStream_new stdout) of
                  None \<Rightarrow> None
                | Some (Inl e) \<Rightarrow> Some (Inl e)
                | Some (Inr out) \<Rightarrow>
                    Some (case fo_flush FileStream_ops out of
                            (_, Inl e) \<Rightarrow> Inl e
                          | (out, Inr _) \<Rightarrow> Inr (bs_writer out)))))"

subsection \<open>\<^verbatim>\<open>truecase\<close>\<close>

record TableEntry =
  te_key :: u64
  te_best :: bytes
  te_known :: bool
  te_sentence_end :: bool
  te_delayed_sentence_start :: bool

definition te_ops :: "(TableEntry, u64) EntryOps" where
  "te_ops =
     \<lparr>GetKey = te_key, SetKey = (\<lambda>k e. e\<lparr>te_key := k\<rparr>), Hash = IdentityHash,
      Blank = \<lparr>te_key = 0, te_best = [], te_known = False, te_sentence_end = False, te_delayed_sentence_start = False\<rparr>\<rparr>"

type_synonym Truecase = "(TableEntry, u64) AutoProbing"

text \<open>
  The value of \<^verbatim>\<open>Insert\<close> is a reference to the entry: its position. \<^verbatim>\<open>best\<close> is a C string, which a zero ends.
\<close>

definition c_string :: "bytes \<Rightarrow> bytes" where
  "c_string = takeWhile (\<lambda>c. c \<noteq> 0)"

definition truecase_Insert :: "Truecase \<Rightarrow> bytes \<Rightarrow> (Truecase \<times> nat) result option" where
  "truecase_Insert table word =
     (case auto_FindOrInsert te_ops True (Blank te_ops) table
             \<lparr>te_key = str_hash word, te_best = [], te_known = True, te_sentence_end = False, te_delayed_sentence_start = False\<rparr> of
        None \<Rightarrow> None
      | Some (_, Inl e) \<Rightarrow> Some (Inl e)
      | Some (table, Inr (found, i)) \<Rightarrow>
          Some (Inr (set_entry table i
            (if \<not> found then (get_entry table i)\<lparr>te_best := c_string word\<rparr> else (get_entry table i)\<lparr>te_known := True\<rparr>), i)))"

definition truecase_InsertFollow :: "Truecase \<Rightarrow> bytes \<Rightarrow> bytes \<Rightarrow> bool \<Rightarrow> Truecase result option" where
  "truecase_InsertFollow table word best known =
     (case auto_FindOrInsert te_ops True (Blank te_ops) table
             \<lparr>te_key = str_hash word, te_best = best, te_known = known, te_sentence_end = False, te_delayed_sentence_start = False\<rparr> of
        None \<Rightarrow> None
      | Some (_, Inl e) \<Rightarrow> Some (Inl e)
      | Some (table, Inr (found, i)) \<Rightarrow>
          Some (Inr (set_entry table i ((get_entry table i)\<lparr>te_known := te_known (get_entry table i) \<or> known\<rparr>))))"

text \<open>The items that \<^verbatim>\<open>Apply\<close> writes. An exception of \<^verbatim>\<open>ToLower\<close> is caught, and \<^verbatim>\<open>continue\<close> goes to the test of the loop.\<close>

definition find_entry :: "Truecase \<Rightarrow> bytes \<Rightarrow> TableEntry option option" where
  "find_entry table word = map_option (\<lambda>(found, i). if found then Some (get_entry table i) else None) (auto_Find te_ops table (str_hash word))"

partial_function (option) Apply_loop ::
  "(bytes \<Rightarrow> bytes result) \<Rightarrow> Truecase \<Rightarrow> TokenIter \<Rightarrow> bool \<Rightarrow> item list \<Rightarrow> item list result option"
where
  "Apply_loop ToLower table word sentence_start out =
     (case ti_current word of
        None \<Rightarrow> Some (Inr (out @ [Chr newline]))
      | Some w \<Rightarrow>
          (case find_entry table w of
             None \<Rightarrow> None
           | Some entry \<Rightarrow>
               (case (if (case entry of Some e \<Rightarrow> te_known e \<and> \<not> sentence_start | None \<Rightarrow> False) then Some (Inr (Some w))
                      else case ToLower w of
                             Inl e \<Rightarrow> if e = NotUTF8Exception then Some (Inr None) else Some (Inl e)
                           | Inr temp \<Rightarrow>
                               map_option (\<lambda>lower. Inr (Some (case lower of Some e \<Rightarrow> te_best e | None \<Rightarrow> w))) (find_entry table temp)) of
                  None \<Rightarrow> None
                | Some (Inl e) \<Rightarrow> Some (Inl e)
                | Some (Inr None) \<Rightarrow> Apply_loop ToLower table word sentence_start out
                | Some (Inr (Some form)) \<Rightarrow>
                    (case token_next True (BoolCharacter kSpaces) word of
                       None \<Rightarrow> None
                     | Some word' \<Rightarrow>
                         Apply_loop ToLower table word'
                           (case entry of
                              None \<Rightarrow> False
                            | Some e \<Rightarrow> te_sentence_end e \<or> (te_delayed_sentence_start e \<and> sentence_start))
                           (out @ [Str form] @ (if ti_current word' \<noteq> None then [Chr 32] else []))))))"

definition truecase_Apply :: "(bytes \<Rightarrow> bytes result) \<Rightarrow> Truecase \<Rightarrow> bytes \<Rightarrow> item list result option" where
  "truecase_Apply ToLower table line =
     (case token_begin True (BoolCharacter kSpaces) line of
        None \<Rightarrow> None
      | Some word \<Rightarrow> Apply_loop ToLower table word True [])"

text \<open>
  The model is read word by word. \<^verbatim>\<open>top\<close> is a reference into the table, a position of it; when the
  table has grown since, the memory it refers to is gone and what the code reads is undefined: \<^term>\<open>None\<close>.
\<close>

definition best_of :: "Truecase \<Rightarrow> nat \<times> nat \<Rightarrow> bytes option" where
  "best_of table r = (if pt_size (ap_backend table) = snd r then Some (te_best (get_entry table (fst r))) else None)"

partial_function (option) follow_loop ::
  "'z Environment \<Rightarrow> nat \<times> nat \<Rightarrow> 'z FilePiece \<Rightarrow> Truecase \<Rightarrow> ('z FilePiece \<times> Truecase) result option"
where
  "follow_loop env r fp table =
     (case ReadWordSameLine env kSpaces fp of
        None \<Rightarrow> None
      | Some (_, Inl e) \<Rightarrow> Some (Inl e)
      | Some (fp, Inr None) \<Rightarrow> Some (Inr (fp, table))
      | Some (fp, Inr (Some _)) \<Rightarrow>
          (case ReadWordSameLine env kSpaces fp of
             None \<Rightarrow> None
           | Some (_, Inl e) \<Rightarrow> Some (Inl e)
           | Some (fp, Inr None) \<Rightarrow> Some (Inr (fp, table))
           | Some (fp, Inr (Some word)) \<Rightarrow>
               (case best_of table r of
                  None \<Rightarrow> None
                | Some best \<Rightarrow>
                    (case truecase_InsertFollow table word best True of
                       None \<Rightarrow> None
                     | Some (Inl e) \<Rightarrow> Some (Inl e)
                     | Some (Inr table) \<Rightarrow> follow_loop env r fp table))))"

partial_function (option) model_loop ::
  "'z Environment \<Rightarrow> (bytes \<Rightarrow> bytes result) \<Rightarrow> 'z FilePiece \<Rightarrow> Truecase \<Rightarrow> Truecase result option"
where
  "model_loop env ToLower fp table =
     (case ReadWordSameLine env kSpaces fp of
        None \<Rightarrow> None
      | Some (_, Inl e) \<Rightarrow> Some (Inl e)
      | Some (_, Inr None) \<Rightarrow> Some (Inr table)
      | Some (fp, Inr (Some word)) \<Rightarrow>
          (case truecase_Insert table word of
             None \<Rightarrow> None
           | Some (Inl e) \<Rightarrow> Some (Inl e)
           | Some (Inr (table, i)) \<Rightarrow>
               (case ToLower word of
                  Inl e \<Rightarrow> Some (Inl e)
                | Inr lower \<Rightarrow>
                    (case (if word \<noteq> lower then truecase_InsertFollow table lower (te_best (get_entry table i)) False else Some (Inr table)) of
                       None \<Rightarrow> None
                     | Some (Inl e) \<Rightarrow> Some (Inl e)
                     | Some (Inr table') \<Rightarrow>
                         (case follow_loop env (i, pt_size (ap_backend table)) fp table' of
                            None \<Rightarrow> None
                          | Some (Inl e) \<Rightarrow> Some (Inl e)
                          | Some (Inr (fp, table)) \<Rightarrow>
                              (case ReadLine env newline True fp of
                                 None \<Rightarrow> None
                               | Some (_, Inl e) \<Rightarrow> Some (Inl e)
                               | Some (fp, Inr _) \<Rightarrow> model_loop env ToLower fp table))))))"

definition kEndSentence :: "bytes list" where
  "kEndSentence = [lit ''.'', lit '':'', lit ''?'', lit ''!'']"

definition kDelayedSentenceStart :: "bytes list" where
  "kDelayedSentenceStart = [lit ''('', lit ''['', [34], [39], lit ''&apos;'', lit ''&quot;'', lit ''&#91;'', lit ''&#93;'']"

primrec insert_marked :: "(TableEntry \<Rightarrow> TableEntry) \<Rightarrow> bytes list \<Rightarrow> Truecase \<Rightarrow> Truecase result option" where
  "insert_marked mark [] table = Some (Inr table)"
| "insert_marked mark (w # ws) table =
     (case truecase_Insert table w of
        None \<Rightarrow> None
      | Some (Inl e) \<Rightarrow> Some (Inl e)
      | Some (Inr (table, i)) \<Rightarrow> insert_marked mark ws (set_entry table i (mark (get_entry table i))))"

definition Truecase_new :: "'z Environment \<Rightarrow> (bytes \<Rightarrow> bytes result) \<Rightarrow> Desc \<Rightarrow> Truecase result option" where
  "Truecase_new env ToLower model =
     (case AutoProbing_new te_ops True (Blank te_ops) 5 7 0 of
        Inl e \<Rightarrow> Some (Inl e)
      | Inr table \<Rightarrow>
     (case insert_marked (\<lambda>e. e\<lparr>te_sentence_end := True\<rparr>) kEndSentence table of
        None \<Rightarrow> None
      | Some (Inl e) \<Rightarrow> Some (Inl e)
      | Some (Inr table) \<Rightarrow>
     (case insert_marked (\<lambda>e. e\<lparr>te_delayed_sentence_start := True\<rparr>) kDelayedSentenceStart table of
        None \<Rightarrow> None
      | Some (Inl e) \<Rightarrow> Some (Inl e)
      | Some (Inr table) \<Rightarrow>
     (case Initialize env 1048576 model of
        None \<Rightarrow> None
      | Some (_, Inl e) \<Rightarrow> Some (Inl e)
      | Some (fp, Inr _) \<Rightarrow> model_loop env ToLower fp table))))"

definition truecase_step :: "(bytes \<Rightarrow> bytes result) \<Rightarrow> Truecase step" where
  "truecase_step ToLower table line = map_option (map_sum id (Pair table)) (truecase_Apply ToLower table line)"

definition truecase_main :: "'z Environment \<Rightarrow> 'z Environment \<Rightarrow> (bytes \<Rightarrow> bytes result) \<Rightarrow> Desc \<Rightarrow> Desc \<Rightarrow> Desc \<Rightarrow> Desc result option" where
  "truecase_main env0 env ToLower model stdin stdout =
     (case Truecase_new env0 ToLower model of
        None \<Rightarrow> None
      | Some (Inl e) \<Rightarrow> Some (Inl e)
      | Some (Inr table) \<Rightarrow> map_option (map_sum id snd) (run_program env (truecase_step ToLower) table stdin stdout))"

subsection \<open>Writing through an iterator\<close>

lemma set_entry_ok:
  assumes ok: "auto_ok tr a" and i: "i < pt_size (ap_backend a)" and key: "GetKey tr e = key_at tr (ap_backend a) i"
    and valid: "GetKey tr e \<noteq> pt_invalid (ap_backend a)"
  shows "auto_ok tr (set_entry a i e)" and "auto_map tr (set_entry a i e) = (auto_map tr a)(GetKey tr e \<mapsto> e)"
    and "pt_invalid (ap_backend (set_entry a i e)) = pt_invalid (ap_backend a)" and "pt_entries (ap_backend (set_entry a i e)) = pt_entries (ap_backend a)"
proof -
  let ?t = "ap_backend a"
  let ?bs = "(pt_buckets ?t)[i := e]"
  let ?t' = "?t\<lparr>pt_buckets := ?bs\<rparr>"
  have t': "ap_backend (set_entry a i e) = ?t'" by (simp add: set_entry_def)
  show "pt_invalid (ap_backend (set_entry a i e)) = pt_invalid ?t" "pt_entries (ap_backend (set_entry a i e)) = pt_entries ?t" by (simp_all add: t')
  have keys: "map (GetKey tr) ?bs = map (GetKey tr) (pt_buckets ?t)"
    using key i by (simp add: map_update list_update_same_conv)
  have at: "key_at tr ?t' p = key_at tr ?t p" if "p < pt_size ?t" for p
    using arg_cong [OF keys, of "\<lambda>ks. ks ! p"] that by simp
  have free: "is_free tr ?t' p = is_free tr ?t p" if "p < pt_size ?t" for p using at [OF that] by (simp add: is_free_def)
  have pos: "0 < pt_size ?t" using i by (rule gr_implies_not0 [THEN neq0_conv [THEN iffD1]])
  have tok: "mod_ok (pt_mod ?t) (pt_size ?t)" "gapless tr ?t" "\<forall>k. count (image_mset (GetKey tr) (contents tr ?t)) k \<le> 1"
    "pt_entries ?t = size (contents tr ?t)" "pt_entries ?t < pt_size ?t"
    using ok by (simp_all add: auto_ok_def table_ok_def)
  have ideal: "table_Ideal tr ?t' k = table_Ideal tr ?t k" for k by (simp add: table_Ideal_def)
  have len: "pt_size ?t' = pt_size ?t" by simp
  have free': "is_free tr ?t' (q mod pt_size ?t) = is_free tr ?t (q mod pt_size ?t)" for q
    by (rule free) (use pos in simp)
  have gap: "gapless tr ?t'"
    unfolding gapless_def len ideal
  proof (intro allI impI)
    fix p assume p: "p < pt_size ?t" "\<not> is_free tr ?t' p"
    then have "\<not> is_free tr ?t p" using free by simp
    then have "\<exists>d. p = (table_Ideal tr ?t (key_at tr ?t p) + d) mod pt_size ?t \<and>
      (\<forall>d'<d. \<not> is_free tr ?t ((table_Ideal tr ?t (key_at tr ?t p) + d') mod pt_size ?t))"
      using tok(2) p(1) unfolding gapless_def by blast
    then show "\<exists>d. p = (table_Ideal tr ?t (key_at tr ?t' p) + d) mod pt_size ?t \<and>
      (\<forall>d'<d. \<not> is_free tr ?t' ((table_Ideal tr ?t (key_at tr ?t' p) + d') mod pt_size ?t))"
      unfolding at [OF p(1)] free' .
  qed
  have img: "image_mset (GetKey tr) (contents tr t) = filter_mset (\<lambda>k. k \<noteq> pt_invalid t) (mset (map (GetKey tr) (pt_buckets t)))" for t
    by (simp add: contents_def filter_mset_image_mset)
  have same: "image_mset (GetKey tr) (contents tr ?t') = image_mset (GetKey tr) (contents tr ?t)"
    unfolding img using keys by simp
  then have sz: "size (contents tr ?t') = size (contents tr ?t)" by (metis size_image_mset)
  then show "auto_ok tr (set_entry a i e)"
    using ok tok gap same unfolding auto_ok_def table_ok_def by (simp add: set_entry_def)
  have uniq': "\<forall>k. count (image_mset (GetKey tr) (contents tr ?t')) k \<le> 1" unfolding same by (rule tok(3))
  have c: "contents tr ?t' = add_mset e (contents tr ?t - {#pt_buckets ?t ! i#})"
    using contents_update [OF i, of tr e] valid key by (simp add: is_free_def)
  have old: "pt_buckets ?t ! i \<in># contents tr ?t" using i key valid by (simp add: contents_def)
  show "auto_map tr (set_entry a i e) = (auto_map tr a)(GetKey tr e \<mapsto> e)"
  proof (rule ext)
    fix k
    have "table_map tr ?t' k = Some x \<longleftrightarrow> ((auto_map tr a)(GetKey tr e \<mapsto> e)) k = Some x" for x
    proof (cases "k = GetKey tr e")
      case True
      have "table_map tr ?t' k = Some e" using table_map_Some [OF uniq', of k e] True c by simp
      then show ?thesis using True by simp
    next
      case False
      have "x \<in># contents tr ?t' \<longleftrightarrow> x \<in># contents tr ?t" if "GetKey tr x = k"
        using that False key unfolding c by (auto simp: in_diff_count)
      then show ?thesis using table_map_Some [OF uniq', of k x] table_map_Some [OF tok(3), of k x] False by auto
    qed
    then show "auto_map tr (set_entry a i e) k = ((auto_map tr a)(GetKey tr e \<mapsto> e)) k" unfolding t' by (metis not_None_eq)
  qed
qed

subsection \<open>\<open>MutableVocab\<close> numbers the strings\<close>

text \<open>
  The state in which \<open>words\<close> are the strings in the table, in the order they came, and in which there
  is room for \<open>n\<close> more.
\<close>

definition vocab_ok :: "MutableVocab \<Rightarrow> bytes list \<Rightarrow> nat \<Rightarrow> bool" where
  "vocab_ok v words n \<longleftrightarrow>
     auto_ok mv_ops (mv_map v) \<and> pt_invalid (ap_backend (mv_map v)) = 0 \<and> pt_entries (ap_backend (mv_map v)) + n \<le> 2 ^ 61 \<and>
     mv_strings v = lit ''<unk>'' # words \<and>
     (\<forall>k e. auto_map mv_ops (mv_map v) k = Some e \<longleftrightarrow>
        (\<exists>j<length words. str_hash (words ! j) = k \<and> e = \<lparr>mv_key = k, mv_id = of_nat (Suc j)\<rparr>))"

definition has_number :: "bytes list \<Rightarrow> bytes \<Rightarrow> u32 \<Rightarrow> bool" where
  "has_number words w i \<longleftrightarrow> (\<exists>j<length words. str_hash (words ! j) = str_hash w \<and> i = of_nat (Suc j))"

lemma zero_ok_mv: "zero_ok mv_ops True (Blank mv_ops) 0"
  by (simp add: zero_ok_def mv_ops_def lawful_def)

lemma MutableVocab_new_ok: "\<exists>v. MutableVocab_new = Inr v \<and> vocab_ok v [] (2 ^ 61)"
  using AutoProbing_new_ok [of 5 7 mv_ops True "Blank mv_ops" 0] zero_ok_mv by (auto simp: MutableVocab_new_def vocab_ok_def)

lemma vocab_ok_some:
  assumes "vocab_ok v words n" "auto_map mv_ops (mv_map v) (str_hash w) = Some e"
  shows "mv_key e = str_hash w \<and> has_number words w (mv_id e)"
  using assms unfolding vocab_ok_def has_number_def by force

lemma vocab_ok_none:
  assumes "vocab_ok v words n"
  shows "auto_map mv_ops (mv_map v) (str_hash w) = None \<longleftrightarrow> str_hash w \<notin> str_hash ` set words"
proof -
  have "\<exists>e. auto_map mv_ops (mv_map v) (str_hash w) = Some e" if hash: "str_hash w \<in> str_hash ` set words"
  proof -
    obtain u where "u \<in> set words" "str_hash u = str_hash w" using hash by (auto simp: image_iff)
    then obtain j where "j < length words" "str_hash (words ! j) = str_hash w" by (auto simp only: in_set_conv_nth)
    then show ?thesis using assms unfolding vocab_ok_def by blast
  qed
  moreover have "str_hash w \<in> str_hash ` set words" if e: "auto_map mv_ops (mv_map v) (str_hash w) = Some e" for e
  proof -
    obtain j where j: "j < length words" "str_hash (words ! j) = str_hash w" using vocab_ok_some [OF assms e] unfolding has_number_def by blast
    show ?thesis by (rule image_eqI [of _ _ "words ! j"]) (use j in simp_all)
  qed
  ultimately show ?thesis by (metis option.exhaust option.distinct(1))
qed

lemma MutableVocab_Find_ok:
  assumes v: "vocab_ok v words n" and w: "str_hash w \<noteq> 0"
  shows "\<exists>i. MutableVocab_Find v w = Some i \<and> (if str_hash w \<in> str_hash ` set words then has_number words w i else i = kUNK)"
proof -
  have t: "table_ok mv_ops (ap_backend (mv_map v))" "str_hash w \<noteq> pt_invalid (ap_backend (mv_map v))"
    using v w by (simp_all add: vocab_ok_def auto_ok_def)
  obtain i where i: "table_Find mv_ops (ap_backend (mv_map v)) (str_hash w) = Some (auto_map mv_ops (mv_map v) (str_hash w) \<noteq> None, i)"
    "\<And>e. auto_map mv_ops (mv_map v) (str_hash w) = Some e \<Longrightarrow> pt_buckets (ap_backend (mv_map v)) ! i = e"
    using table_Find_spec [OF t] by blast
  show ?thesis
  proof (cases "auto_map mv_ops (mv_map v) (str_hash w)")
    case None
    then show ?thesis using i(1) vocab_ok_none [OF v, of w] by (simp add: MutableVocab_Find_def auto_Find_def)
  next
    case (Some e)
    then have "str_hash w \<in> str_hash ` set words" using vocab_ok_none [OF v, of w] by fastforce
    then show ?thesis using i Some vocab_ok_some [OF v Some] by (simp add: MutableVocab_Find_def auto_Find_def get_entry_def)
  qed
qed

lemma has_number_append: "has_number words w i \<Longrightarrow> has_number (words @ ys) w i"
  by (force simp: has_number_def nth_append)

lemma MutableVocab_FindOrInsert_ok:
  assumes v: "vocab_ok v words (Suc n)" and w: "str_hash w \<noteq> 0"
  shows "\<exists>v' i. MutableVocab_FindOrInsert v w = Some (Inr (v', i)) \<and>
    vocab_ok v' (if str_hash w \<in> str_hash ` set words then words else words @ [w]) n \<and>
    has_number (if str_hash w \<in> str_hash ` set words then words else words @ [w]) w i"
proof -
  let ?m = "mv_map v" and ?e = "\<lparr>mv_key = str_hash w, mv_id = 0\<rparr>" and ?id = "of_nat (Suc (length words)) :: u32"
  have key: "GetKey mv_ops ?e = str_hash w" and keyf: "GetKey mv_ops = mv_key" by (simp_all add: mv_ops_def)
  have a: "auto_ok mv_ops ?m" "zero_ok mv_ops True (Blank mv_ops) (pt_invalid (ap_backend ?m))" "pt_entries (ap_backend ?m) < 2 ^ 61"
    "GetKey mv_ops ?e \<noteq> pt_invalid (ap_backend ?m)" and strings: "mv_strings v = lit ''<unk>'' # words"
    using v w zero_ok_mv by (simp_all add: vocab_ok_def key)
  obtain m found i where m: "auto_FindOrInsert mv_ops True (Blank mv_ops) ?m ?e = Some (m, Inr (found, i))" "auto_ok mv_ops m"
    "found \<longleftrightarrow> str_hash w \<in> dom (auto_map mv_ops ?m)" "auto_map mv_ops m = (if found then auto_map mv_ops ?m else (auto_map mv_ops ?m)(str_hash w \<mapsto> ?e))"
    "i < pt_size (ap_backend m)" "auto_map mv_ops m (str_hash w) = Some (get_entry m i)"
    "pt_invalid (ap_backend m) = 0" "pt_entries (ap_backend m) + n \<le> 2 ^ 61"
    using auto_FindOrInsert_spec [OF a] v unfolding key get_entry_def vocab_ok_def by fastforce
  show ?thesis
  proof (cases found)
    case True
    then obtain e where e: "auto_map mv_ops ?m (str_hash w) = Some e" using m(3) by blast
    then have seen: "str_hash w \<in> str_hash ` set words" using vocab_ok_none [OF v, of w] by fastforce
    have "get_entry m i = e" using m(4,6) True e by simp
    then have "has_number words w (mv_id (get_entry m i))" using vocab_ok_some [OF v e] by simp
    moreover have "vocab_ok (v\<lparr>mv_map := m\<rparr>) words n" using v m(2,4,7,8) True by (simp add: vocab_ok_def)
    ultimately show ?thesis using m(1) True seen by (simp add: MutableVocab_FindOrInsert_def)
  next
    case False
    then have new: "str_hash w \<notin> str_hash ` set words" using m(3) vocab_ok_none [OF v, of w] by blast
    let ?e' = "\<lparr>mv_key = str_hash w, mv_id = ?id\<rparr>"
    have entry: "get_entry m i = ?e" using m(4,6) False by simp
    have k: "GetKey mv_ops ?e' = key_at mv_ops (ap_backend m) i" "GetKey mv_ops ?e' \<noteq> pt_invalid (ap_backend m)"
      using entry w m(7) by (simp_all add: keyf get_entry_def)
    note s = set_entry_ok [OF m(2,5) k]
    have map: "auto_map mv_ops (set_entry m i ?e') = (auto_map mv_ops ?m)(str_hash w \<mapsto> ?e')"
      using s(2) m(4) False by (simp add: keyf)
    have "vocab_ok (v\<lparr>mv_map := set_entry m i ?e', mv_strings := mv_strings v @ [w]\<rparr>) (words @ [w]) n"
      unfolding vocab_ok_def
    proof (intro conjI allI)
      fix x e
      have "((auto_map mv_ops ?m)(str_hash w \<mapsto> ?e')) x = Some e \<longleftrightarrow>
        (\<exists>j<length (words @ [w]). str_hash ((words @ [w]) ! j) = x \<and> e = \<lparr>mv_key = x, mv_id = of_nat (Suc j)\<rparr>)"
      proof (cases "x = str_hash w")
        case True
        have "str_hash (words ! j) \<noteq> str_hash w" if "j < length words" for j
          using new that by (metis image_eqI nth_mem)
        then show ?thesis using True by (auto simp: nth_append less_Suc_eq)
      next
        case False
        then show ?thesis using v by (auto simp: vocab_ok_def nth_append less_Suc_eq)
      qed
      then show "auto_map mv_ops (mv_map (v\<lparr>mv_map := set_entry m i ?e', mv_strings := mv_strings v @ [w]\<rparr>)) x = Some e \<longleftrightarrow>
        (\<exists>j<length (words @ [w]). str_hash ((words @ [w]) ! j) = x \<and> e = \<lparr>mv_key = x, mv_id = of_nat (Suc j)\<rparr>)"
        unfolding map [symmetric] by simp
    qed (use s m(7,8) strings in simp_all)
    moreover have "has_number (words @ [w]) w ?id" unfolding has_number_def by (rule exI [of _ "length words"]) simp
    ultimately show ?thesis using m(1) False new entry strings by (simp add: MutableVocab_FindOrInsert_def Let_def)
  qed
qed

primrec insert_strings :: "MutableVocab \<Rightarrow> bytes list \<Rightarrow> (MutableVocab \<times> u32 list) result option" where
  "insert_strings v [] = Some (Inr (v, []))"
| "insert_strings v (w # ws) =
     (case MutableVocab_FindOrInsert v w of
        None \<Rightarrow> None
      | Some (Inl e) \<Rightarrow> Some (Inl e)
      | Some (Inr (v, i)) \<Rightarrow> map_option (map_sum id (\<lambda>(v, is). (v, i # is))) (insert_strings v ws))"

lemma insert_strings_ok:
  assumes "vocab_ok v words (length ws + n)" and "\<forall>w\<in>set ws. str_hash w \<noteq> 0"
  shows "\<exists>v' is. insert_strings v ws = Some (Inr (v', is)) \<and>
    vocab_ok v' (words @ first_new str_hash (str_hash ` set words) ws) n \<and>
    list_all2 (has_number (words @ first_new str_hash (str_hash ` set words) ws)) ws is"
  using assms
proof (induction ws arbitrary: v words)
  case (Cons w ws)
  let ?words = "if str_hash w \<in> str_hash ` set words then words else words @ [w]"
  have v: "vocab_ok v words (Suc (length ws + n))" and w: "str_hash w \<noteq> 0" using Cons.prems by simp_all
  obtain u i where u: "MutableVocab_FindOrInsert v w = Some (Inr (u, i))" "vocab_ok u ?words (length ws + n)" "has_number ?words w i"
    using MutableVocab_FindOrInsert_ok [OF v w] by blast
  have all: "?words @ first_new str_hash (str_hash ` set ?words) ws = words @ first_new str_hash (str_hash ` set words) (w # ws)"
    by (simp add: insert_absorb)
  obtain v' "is" where v': "insert_strings u ws = Some (Inr (v', is))" "vocab_ok v' (?words @ first_new str_hash (str_hash ` set ?words) ws) n"
    "list_all2 (has_number (?words @ first_new str_hash (str_hash ` set ?words) ws)) ws is"
    using Cons.IH [OF u(2)] Cons.prems(2) by auto
  have "has_number (?words @ first_new str_hash (str_hash ` set ?words) ws) w i" using u(3) by (rule has_number_append)
  with v' u(1) show ?case unfolding all by (intro exI [of _ v'] exI [of _ "i # is"]) (simp del: first_new.simps)
qed simp

lemma has_number_valid:
  assumes "has_number words w i" "length words < 2 ^ 32 - 1"
  shows "i \<noteq> kUNK \<and> unat i \<le> length words \<and> str_hash (words ! (unat i - 1)) = str_hash w"
proof -
  obtain j where j: "j < length words" "str_hash (words ! j) = str_hash w" "i = of_nat (Suc j)"
    using assms(1) unfolding has_number_def by blast
  have "unat i = Suc j" using j(1) assms(2) unfolding j(3) by (simp add: unat_of_nat take_bit_eq_mod del: of_nat_Suc)
  then show ?thesis using j by (auto simp: kUNK_def)
qed

lemma has_number_same:
  assumes "has_number words w i" "has_number words w i'" "distinct (map str_hash words)"
  shows "i = i'"
proof -
  obtain j j' where "j < length words" "str_hash (words ! j) = str_hash w" "i = of_nat (Suc j)"
    "j' < length words" "str_hash (words ! j') = str_hash w" "i' = of_nat (Suc j')"
    using assms(1,2) unfolding has_number_def by blast
  then show ?thesis using assms(3) by (auto simp: distinct_conv_nth) metis
qed

text \<open>
  C20. A \<^verbatim>\<open>MutableVocab\<close> that is given a list of strings keeps the first string of every hash, in the
  order they came, after \<^verbatim>\<open><unk>\<close>; the number of a string is where its hash stands in that order, never that of
  the unknown word and always one that \<^verbatim>\<open>String\<close> accepts; \<^verbatim>\<open>Find\<close> later gives the same number,
  and \<^verbatim>\<open>kUNK\<close> for a string whose hash has not come. The hash 0 is the empty bucket and is excluded, and the
  numbers have 32 bits.
\<close>

theorem MutableVocab_correct:
  assumes "\<forall>w\<in>set ws. str_hash w \<noteq> 0" and "length ws < 2 ^ 32 - 1"
  shows "\<exists>v0 v is. MutableVocab_new = Inr v0 \<and> insert_strings v0 ws = Some (Inr (v, is)) \<and>
    mv_strings v = lit ''<unk>'' # first_new str_hash {} ws \<and>
    list_all2 (\<lambda>w i. i \<noteq> kUNK \<and> unat i < MutableVocab_Size v \<and> str_hash (MutableVocab_String v i) = str_hash w \<and>
      MutableVocab_Find v w = Some i) ws is \<and>
    (\<forall>w. str_hash w \<noteq> 0 \<and> str_hash w \<notin> str_hash ` set ws \<longrightarrow> MutableVocab_Find v w = Some kUNK)"
proof -
  let ?words = "first_new str_hash {} ws"
  have distinct: "distinct (map str_hash ?words)" and hashes: "str_hash ` set ?words = str_hash ` set ws"
    using first_new_distinct [of str_hash "{}" ws] by simp_all
  have short: "length ?words < 2 ^ 32 - 1"
    using list_emb_length [OF first_new_subseq [of str_hash "{}" ws]] assms(2) by simp
  obtain v0 where v0: "MutableVocab_new = Inr v0" "vocab_ok v0 [] (2 ^ 61)" using MutableVocab_new_ok by blast
  have "vocab_ok v0 [] (length ws + (2 ^ 61 - length ws))" using v0(2) assms(2) by simp
  from insert_strings_ok [OF this assms(1)] obtain v "is" where v: "insert_strings v0 ws = Some (Inr (v, is))"
    "vocab_ok v ?words (2 ^ 61 - length ws)" "list_all2 (has_number ?words) ws is" by auto
  have strings: "mv_strings v = lit ''<unk>'' # ?words" using v(2) by (simp add: vocab_ok_def)
  have find: "MutableVocab_Find v w = Some i" if n: "has_number ?words w i" and w: "w \<in> set ws" for w i
  proof -
    have "str_hash w \<in> str_hash ` set ?words" unfolding hashes using w by (rule imageI)
    then obtain i' where "MutableVocab_Find v w = Some i'" "has_number ?words w i'"
      using MutableVocab_Find_ok [OF v(2), of w] w assms(1) by auto
    then show ?thesis using has_number_same [OF n _ distinct] by blast
  qed
  have unknown: "MutableVocab_Find v w = Some kUNK" if "str_hash w \<noteq> 0" "str_hash w \<notin> str_hash ` set ws" for w
    using MutableVocab_Find_ok [OF v(2) that(1)] that(2) unfolding hashes [symmetric] by auto
  have "list_all2 (\<lambda>w i. i \<noteq> kUNK \<and> unat i < MutableVocab_Size v \<and> str_hash (MutableVocab_String v i) = str_hash w \<and>
      MutableVocab_Find v w = Some i) ws is"
  proof (rule list.rel_mono_strong [OF v(3)])
    show "i \<noteq> kUNK \<and> unat i < MutableVocab_Size v \<and> str_hash (MutableVocab_String v i) = str_hash w \<and> MutableVocab_Find v w = Some i"
      if "w \<in> set ws" "i \<in> set is" "has_number ?words w i" for w i
      using has_number_valid [OF that(3) short] find [OF that(3,1)] strings
      by (auto simp: MutableVocab_Size_def MutableVocab_String_def kUNK_def unsigned_eq_0_iff nth_Cons')
  qed
  then show ?thesis using v0(1) v(1) strings unknown by blast
qed

subsection \<open>\<^verbatim>\<open>truecase\<close> applies its table word by word\<close>

definition starts_next :: "TableEntry option \<Rightarrow> bool \<Rightarrow> bool" where
  "starts_next entry at_start =
     (case entry of None \<Rightarrow> False | Some e \<Rightarrow> te_sentence_end e \<or> (te_delayed_sentence_start e \<and> at_start))"

definition form_of :: "(bytes \<rightharpoonup> TableEntry) \<Rightarrow> bytes \<Rightarrow> bytes" where
  "form_of known w = (case known w of None \<Rightarrow> w | Some e \<Rightarrow> te_best e)"

text \<open>
  The forms of the words; \<open>at_start\<close> says that a sentence starts. A word that cannot be put into
  lower case is never passed.
\<close>

primrec truecase_words :: "(bytes \<rightharpoonup> TableEntry) \<Rightarrow> (bytes \<Rightarrow> bytes result) \<Rightarrow> bool \<Rightarrow> bytes list \<Rightarrow> bytes list result option" where
  "truecase_words known ToLower at_start [] = Some (Inr [])"
| "truecase_words known ToLower at_start (w # ws) =
     (case (if (case known w of Some e \<Rightarrow> te_known e \<and> \<not> at_start | None \<Rightarrow> False) then Inr w
            else map_sum id (\<lambda>low. case known low of Some e \<Rightarrow> te_best e | None \<Rightarrow> w) (ToLower w)) of
        Inl e \<Rightarrow> (if e = NotUTF8Exception then None else Some (Inl e))
      | Inr form \<Rightarrow> map_option (map_sum id ((#) form)) (truecase_words known ToLower (starts_next (known w) at_start) ws))"

primrec spaced :: "bytes list \<Rightarrow> item list" where
  "spaced [] = []"
| "spaced (f # fs) = Str f # (if fs \<noteq> [] then [Chr 32] else []) @ spaced fs"

definition words_from :: "TokenIter \<Rightarrow> bytes list" where
  "words_from it = (case ti_current it of None \<Rightarrow> [] | Some t \<Rightarrow> t # bools.keep True (bools.rest_tokens kSpaces (ti_after it)))"

lemma words_from_begin: "\<exists>it. token_begin True (BoolCharacter kSpaces) line = Some it \<and> words_from it = bools.keep True (bools.tokens kSpaces line)"
  using bools.token_next_Some [of True kSpaces None line] by (auto simp: token_begin_def words_from_def split: option.splits)

lemma words_from_next:
  assumes "ti_current it = Some w"
  shows "\<exists>it'. token_next True (BoolCharacter kSpaces) it = Some it' \<and> words_from it = w # words_from it'"
proof (cases "ti_after it")
  case None
  then show ?thesis using assms bools.token_next_None [OF None, of True kSpaces] by (simp add: words_from_def bools.keep_def)
next
  case (Some a)
  have it: "\<lparr>ti_current = Some w, ti_after = Some a\<rparr> = it" using assms Some by simp
  show ?thesis using bools.token_next_Some [of True kSpaces "Some w" a, unfolded it] assms Some
    by (auto simp: words_from_def split: option.splits)
qed

lemma words_from_None: "words_from it = [] \<longleftrightarrow> ti_current it = None"
  by (simp add: words_from_def split: option.splits)

definition lookup :: "Truecase \<Rightarrow> bytes \<rightharpoonup> TableEntry" where
  "lookup table w = auto_map te_ops table (str_hash w)"

lemma find_entry_ok:
  assumes "auto_ok te_ops table" "pt_invalid (ap_backend table) = 0" "str_hash w \<noteq> 0"
  shows "find_entry table w = Some (lookup table w)"
proof -
  have t: "table_ok te_ops (ap_backend table)" "str_hash w \<noteq> pt_invalid (ap_backend table)" using assms by (simp_all add: auto_ok_def)
  then show ?thesis using table_Find_spec [OF t]
    by (cases "lookup table w") (auto simp: find_entry_def auto_Find_def lookup_def get_entry_def)
qed

text \<open>The loop that does not go on.\<close>

lemma Apply_loop_stuck:
  assumes "ti_current it = Some w" and "find_entry table w = Some entry" and "ToLower w = Inl NotUTF8Exception"
    and "\<not> (case entry of Some e \<Rightarrow> te_known e \<and> \<not> at_start | None \<Rightarrow> False)"
  shows "Apply_loop ToLower table it at_start out = None"
proof (cases "Apply_loop ToLower table it at_start out")
  case (Some r)
  have "\<not> (l = ToLower \<and> t = table \<and> i = it \<and> a = at_start)" if "Apply_loop l t i a q = Some r" for l t i a q
    using that
    apply (rule Apply_loop.raw_induct
      [where P = "\<lambda>l t i a q r. \<not> (l = ToLower \<and> t = table \<and> i = it \<and> a = at_start)", rotated])
    subgoal premises step for loop l t i a q y
    proof
      assume here: "l = ToLower \<and> t = table \<and> i = it \<and> a = at_start"
      then have same: "l = ToLower" "t = table" "i = it" "a = at_start" by simp_all
      have "loop ToLower table it at_start q = Some y"
        using step(2) assms(4) unfolding same by (cases entry) (simp_all add: assms(1,2,3) split: if_splits)
      then show False using step(1) by blast
    qed
    done
  then show ?thesis using Some by blast
qed simp

lemma Apply_loop_words:
  assumes table: "auto_ok te_ops table" "pt_invalid (ap_backend table) = 0"
    and hashes: "\<forall>w\<in>set (words_from it). str_hash w \<noteq> 0 \<and> (\<forall>low. ToLower w = Inr low \<longrightarrow> str_hash low \<noteq> 0)"
  shows "Apply_loop ToLower table it at_start out =
    map_option (map_sum id (\<lambda>forms. out @ spaced forms @ [Chr newline])) (truecase_words (lookup table) ToLower at_start (words_from it))"
  using hashes
proof (induction "words_from it" arbitrary: it at_start out)
  case Nil
  then have "ti_current it = None" using words_from_None by metis
  then show ?case unfolding Nil.hyps [symmetric] by (subst Apply_loop.simps) simp
next
  case (Cons w ws)
  have cur: "ti_current it = Some w" using Cons.hyps(2) by (simp add: words_from_def split: option.splits)
  obtain it' where it': "token_next True (BoolCharacter kSpaces) it = Some it'" "words_from it = w # words_from it'"
    using words_from_next [OF cur] by blast
  have ws: "ws = words_from it'" using Cons.hyps(2) it'(2) by simp
  have more: "ti_current it' \<noteq> None \<longleftrightarrow> ws \<noteq> []" unfolding ws words_from_None by simp
  have w: "str_hash w \<noteq> 0" "\<And>low. ToLower w = Inr low \<Longrightarrow> str_hash low \<noteq> 0" using Cons.prems it'(2) by simp_all
  have entry: "find_entry table w = Some (lookup table w)" by (rule find_entry_ok [OF table w(1)])
  have IH: "Apply_loop ToLower table it' b out' =
    map_option (map_sum id (\<lambda>forms. out' @ spaced forms @ [Chr newline])) (truecase_words (lookup table) ToLower b ws)" for b out'
    using Cons.hyps(1) [OF ws, of b out'] Cons.prems it'(2) ws by simp
  have forms: "forms \<noteq> [] \<longleftrightarrow> ws \<noteq> []" if "truecase_words (lookup table) ToLower b ws = Some (Inr forms)" for b forms
    using that by (cases ws) (auto split: if_splits option.splits sum.splits)
  have step: "Apply_loop ToLower table it' b (out @ Str form # (if ti_current it' \<noteq> None then [Chr 32] else [])) =
    map_option (map_sum id (\<lambda>forms. out @ spaced forms @ [Chr newline])) (map_option (map_sum id ((#) form)) (truecase_words (lookup table) ToLower b ws))" for b form
  proof (cases "truecase_words (lookup table) ToLower b ws")
    case (Some r)
    show ?thesis
    proof (cases r)
      case (Inr fs)
      have fs: "(fs \<noteq> []) = (ws \<noteq> [])" using forms [of b fs] Some Inr by blast
      show ?thesis unfolding IH Some Inr more by (simp add: fs)
    qed (simp add: IH Some)
  qed (simp add: IH)
  note loop = Apply_loop.simps [of ToLower table it at_start out]
  show ?case
  proof (cases "case lookup table w of Some e \<Rightarrow> te_known e \<and> \<not> at_start | None \<Rightarrow> False")
    case True
    then show ?thesis unfolding it'(2) ws [symmetric]
      by (subst loop) (simp add: cur entry it'(1) step starts_next_def del: not_None_eq split del: if_split)
  next
    case False
    show ?thesis
    proof (cases "ToLower w")
      case (Inl e)
      then show ?thesis unfolding it'(2)
        using Apply_loop_stuck [OF cur entry _ False, of ToLower out] False
        by (cases "e = NotUTF8Exception", simp, subst loop, simp add: cur entry)
    next
      case (Inr low)
      then show ?thesis unfolding it'(2) ws [symmetric]
        by (subst loop) (simp add: cur entry find_entry_ok [OF table w(2) [OF Inr]] False it'(1) step starts_next_def del: not_None_eq split del: if_split)
    qed
  qed
qed

subsection \<open>The table of \<^verbatim>\<open>truecase\<close> keeps its invariant\<close>

definition table_good :: "Truecase \<Rightarrow> nat \<Rightarrow> bool" where
  "table_good table n \<longleftrightarrow> auto_ok te_ops table \<and> pt_invalid (ap_backend table) = 0 \<and> pt_entries (ap_backend table) + n \<le> 2 ^ 61"

lemma zero_ok_te: "zero_ok te_ops True (Blank te_ops) 0"
  by (simp add: zero_ok_def te_ops_def lawful_def)

text \<open>An entry that is found or inserted, and then changed in place without its key.\<close>

lemma find_and_change:
  assumes t: "table_good table (Suc n)" and e: "te_key e \<noteq> 0"
    and f: "\<And>b x. te_key (f b x) = te_key x"
  shows "\<exists>m found i. auto_FindOrInsert te_ops True (Blank te_ops) table e = Some (m, Inr (found, i)) \<and>
    i < pt_size (ap_backend m) \<and> table_good (set_entry m i (f found (get_entry m i))) n \<and>
    auto_map te_ops (set_entry m i (f found (get_entry m i))) =
      (auto_map te_ops table)(te_key e \<mapsto> (case auto_map te_ops table (te_key e) of None \<Rightarrow> f False e | Some x \<Rightarrow> f True x))"
proof -
  have key: "GetKey te_ops = te_key" by (simp add: te_ops_def)
  have a: "auto_ok te_ops table" "zero_ok te_ops True (Blank te_ops) (pt_invalid (ap_backend table))" "pt_entries (ap_backend table) < 2 ^ 61"
    "GetKey te_ops e \<noteq> pt_invalid (ap_backend table)" using t e zero_ok_te by (simp_all add: table_good_def key)
  obtain m found i where m: "auto_FindOrInsert te_ops True (Blank te_ops) table e = Some (m, Inr (found, i))" "auto_ok te_ops m"
    "found \<longleftrightarrow> te_key e \<in> dom (auto_map te_ops table)"
    "auto_map te_ops m = (if found then auto_map te_ops table else (auto_map te_ops table)(te_key e \<mapsto> e))"
    "i < pt_size (ap_backend m)" "auto_map te_ops m (te_key e) = Some (get_entry m i)"
    "pt_invalid (ap_backend m) = 0" "pt_entries (ap_backend m) + n \<le> 2 ^ 61"
    using auto_FindOrInsert_spec [OF a] t unfolding key get_entry_def table_good_def by fastforce
  let ?x = "f found (get_entry m i)"
  have x: "te_key (get_entry m i) = te_key e"
    using m(6) by (auto simp: table_map_def find_Some_iff key split: if_splits)
  have k: "GetKey te_ops ?x = key_at te_ops (ap_backend m) i" "GetKey te_ops ?x \<noteq> pt_invalid (ap_backend m)"
    using x f e m(7) by (simp_all add: key get_entry_def)
  note s = set_entry_ok [OF m(2,5) k]
  have "table_good (set_entry m i ?x) n" using s m(7,8) by (simp add: table_good_def)
  moreover have "?x = (case auto_map te_ops table (te_key e) of None \<Rightarrow> f False e | Some x \<Rightarrow> f True x)"
    using m(3,4,6) by (cases "auto_map te_ops table (te_key e)") (auto simp: domIff)
  moreover have "auto_map te_ops (set_entry m i ?x) = (auto_map te_ops table)(te_key e \<mapsto> ?x)"
    using s(2) m(4) x f by (simp add: key)
  ultimately show ?thesis using m(1,5) by metis
qed

lemma truecase_Insert_ok:
  assumes "table_good table (Suc n)" and "str_hash word \<noteq> 0"
  shows "\<exists>table' i. truecase_Insert table word = Some (Inr (table', i)) \<and> table_good table' n \<and> i < pt_size (ap_backend table') \<and>
    auto_map te_ops table' = (auto_map te_ops table)(str_hash word \<mapsto>
      (case auto_map te_ops table (str_hash word) of
         None \<Rightarrow> \<lparr>te_key = str_hash word, te_best = c_string word, te_known = True, te_sentence_end = False, te_delayed_sentence_start = False\<rparr>
       | Some x \<Rightarrow> x\<lparr>te_known := True\<rparr>))"
proof -
  let ?e = "\<lparr>te_key = str_hash word, te_best = [], te_known = True, te_sentence_end = False, te_delayed_sentence_start = False\<rparr>"
  let ?f = "\<lambda>found x. if \<not> found then x\<lparr>te_best := c_string word\<rparr> else x\<lparr>te_known := True\<rparr>"
  have e: "te_key ?e \<noteq> 0" and f: "\<And>b x. te_key (?f b x) = te_key x" using assms(2) by simp_all
  obtain m found i where m: "auto_FindOrInsert te_ops True (Blank te_ops) table ?e = Some (m, Inr (found, i))" "i < pt_size (ap_backend m)"
    "table_good (set_entry m i (?f found (get_entry m i))) n"
    "auto_map te_ops (set_entry m i (?f found (get_entry m i))) =
      (auto_map te_ops table)(te_key ?e \<mapsto> (case auto_map te_ops table (te_key ?e) of None \<Rightarrow> ?f False ?e | Some x \<Rightarrow> ?f True x))"
    using find_and_change [OF assms(1) e, of ?f, OF f] by blast
  have "i < pt_size (ap_backend (set_entry m i (?f found (get_entry m i))))" using m(2) by (simp add: set_entry_def)
  then show ?thesis using m by (cases "auto_map te_ops table (str_hash word)") (auto simp: truecase_Insert_def)
qed

lemma truecase_InsertFollow_ok:
  assumes "table_good table (Suc n)" and "str_hash word \<noteq> 0"
  shows "\<exists>table'. truecase_InsertFollow table word best known = Some (Inr table') \<and> table_good table' n \<and>
    auto_map te_ops table' = (auto_map te_ops table)(str_hash word \<mapsto>
      (case auto_map te_ops table (str_hash word) of
         None \<Rightarrow> \<lparr>te_key = str_hash word, te_best = best, te_known = known, te_sentence_end = False, te_delayed_sentence_start = False\<rparr>
       | Some x \<Rightarrow> x\<lparr>te_known := te_known x \<or> known\<rparr>))"
proof -
  let ?e = "\<lparr>te_key = str_hash word, te_best = best, te_known = known, te_sentence_end = False, te_delayed_sentence_start = False\<rparr>"
  let ?f = "\<lambda>_ x. x\<lparr>te_known := te_known x \<or> known\<rparr>"
  have e: "te_key ?e \<noteq> 0" and f: "\<And>b x. te_key (?f b x) = te_key x" using assms(2) by simp_all
  obtain m found i where m: "auto_FindOrInsert te_ops True (Blank te_ops) table ?e = Some (m, Inr (found, i))"
    "table_good (set_entry m i (?f found (get_entry m i))) n"
    "auto_map te_ops (set_entry m i (?f found (get_entry m i))) =
      (auto_map te_ops table)(te_key ?e \<mapsto> (case auto_map te_ops table (te_key ?e) of None \<Rightarrow> ?f False ?e | Some x \<Rightarrow> ?f True x))"
    using find_and_change [OF assms(1) e, of ?f, OF f] by blast
  then show ?thesis by (cases "auto_map te_ops table (str_hash word)") (auto simp: truecase_InsertFollow_def)
qed

subsection \<open>The words of a text\<close>

definition words_of :: "(byte \<Rightarrow> bool) \<Rightarrow> bytes \<Rightarrow> bytes list" where
  "words_of p s = filter (\<lambda>t. t \<noteq> []) (split_if p s)"

lemma words_of_Nil [simp]: "words_of p [] = []"
  by (simp add: words_of_def)

lemma words_of_skip: "p c \<Longrightarrow> words_of p (c # s) = words_of p s"
  by (simp add: words_of_def split_if.simps [of p "c # s"])

lemma words_of_dropWhile: "words_of p (dropWhile p s) = words_of p s"
  by (induction s) (auto simp: words_of_skip)

lemma words_of_word:
  assumes "s \<noteq> []" "\<not> p (hd s)"
  shows "words_of p s = takeWhile (\<lambda>c. \<not> p c) s # words_of p (dropWhile (\<lambda>c. \<not> p c) s)"
proof -
  have w: "takeWhile (\<lambda>c. \<not> p c) s \<noteq> []" using assms by (cases s) auto
  show ?thesis
  proof (cases "\<exists>c\<in>set s. p c")
    case True
    then obtain d rest where d: "dropWhile (\<lambda>c. \<not> p c) s = d # rest" "p d"
      by (metis dropWhile_eq_Nil_conv hd_dropWhile list.exhaust list.sel(1))
    then show ?thesis using True w words_of_skip [of p d rest, OF d(2)] by (simp add: words_of_def split_if.simps [of p s])
  next
    case False
    then have all: "dropWhile (\<lambda>c. \<not> p c) s = []" "takeWhile (\<lambda>c. \<not> p c) s = s" by (simp_all add: takeWhile_eq_all_conv)
    show ?thesis unfolding all using False assms(1) by (simp add: words_of_def split_if.simps [of p s])
  qed
qed

lemma words_of_empty: "dropWhile p s = [] \<Longrightarrow> words_of p s = []"
  using words_of_dropWhile [of p s] by (simp del: dropWhile_eq_Nil_conv)

lemma words_of_next:
  assumes "dropWhile p s \<noteq> []"
  shows "words_of p s = takeWhile (\<lambda>c. \<not> p c) (dropWhile p s) # words_of p (dropWhile (\<lambda>c. \<not> p c) (dropWhile p s))"
  using words_of_word [of "dropWhile p s" p, OF assms hd_dropWhile [OF assms]] words_of_dropWhile [of p s] by simp

text \<open>
  C22. \<^verbatim>\<open>Truecase::Apply\<close> prints a form for every word of the line, with one space between them: the word
  itself when its casing is known and it does not start a sentence, otherwise the best form of
  the word in lower case, or the word when there is none; the entry of the word decides whether the next
  one starts a sentence. When \<^verbatim>\<open>ToLower\<close> refuses a word as not being UTF-8, which the handler means to skip, the
  iterator is not advanced and \<^verbatim>\<open>Apply\<close> does not return (\<open>truecase_words\<close> is \<^term>\<open>None\<close> there).
\<close>

theorem truecase_Apply_correct:
  assumes "auto_ok te_ops table" "pt_invalid (ap_backend table) = 0"
    and "\<forall>w\<in>set (words_of (\<lambda>c. kSpaces ! unat c) line). str_hash w \<noteq> 0 \<and> (\<forall>low. ToLower w = Inr low \<longrightarrow> str_hash low \<noteq> 0)"
  shows "truecase_Apply ToLower table line = map_option (map_sum id (\<lambda>forms. spaced forms @ [Chr newline]))
    (truecase_words (lookup table) ToLower True (words_of (\<lambda>c. kSpaces ! unat c) line))"
proof -
  have "bools.tokens kSpaces line = split_if (\<lambda>c. kSpaces ! unat c) line"
    by (rule bools.tokens_split) (auto simp: BoolCharacter_def Let_def)
  then have words: "bools.keep True (bools.tokens kSpaces line) = words_of (\<lambda>c. kSpaces ! unat c) line"
    by (simp add: words_of_def bools.keep_def)
  obtain it where it: "token_begin True (BoolCharacter kSpaces) line = Some it" "words_from it = words_of (\<lambda>c. kSpaces ! unat c) line"
    using words_from_begin [of line] unfolding words by blast
  show ?thesis using Apply_loop_words [OF assms(1,2), of it ToLower True "[]"] assms(3) it by (simp add: truecase_Apply_def)
qed

subsection \<open>\<^verbatim>\<open>vocab\<close> prints every word once\<close>

abbreviation word_end :: "byte \<Rightarrow> bool" where
  "word_end c \<equiv> vocab_delimiters ! unat c"

lemma word_end_iff: "word_end c \<longleftrightarrow> c \<in> {0, 9, 13, 10, 32}"
  using unat_byte_less [of c] by (auto simp: vocab_delimiters_def word_unat_eq_iff)

lemma vocab_loop_ok:
  assumes "delivers env decodes fp content" and "table_state seen hashes (length (words_of word_end content))" and "stream_ok out"
  shows "\<exists>out'. vocab_loop env fp seen out = Some (Inr out') \<and> stream_ok out' \<and>
    stream_text out' = stream_text out @ concat (map (\<lambda>w. w @ [0]) (first_new str_hash hashes (words_of word_end content)))"
  using assms
proof (induction "words_of word_end content" arbitrary: content fp seen hashes out)
  case Nil
  then have d: "dropWhile word_end content = []" using words_of_next [of word_end content] by (metis list.distinct(1))
  obtain fp' where "ReadDelimited env vocab_delimiters fp = Some (fp', Inl EndOfFileException)"
    using ReadDelimited_good [OF Nil.prems(1), of vocab_delimiters] d by auto
  then show ?case using Nil.prems(3) unfolding Nil.hyps [symmetric] by (subst vocab_loop.simps) simp
next
  case (Cons w ws)
  then have d: "dropWhile word_end content \<noteq> []" using words_of_empty [of word_end content] by (metis list.distinct(1))
  let ?rest = "dropWhile (\<lambda>c. \<not> word_end c) (dropWhile word_end content)"
  have w: "w = takeWhile (\<lambda>c. \<not> word_end c) (dropWhile word_end content)" "ws = words_of word_end ?rest"
    using Cons.hyps(2) words_of_next [OF d] by simp_all
  obtain fp' where fp': "ReadDelimited env vocab_delimiters fp = Some (fp', Inr w)" "delivers env decodes fp' ?rest"
    using ReadDelimited_good [OF Cons.prems(1), of vocab_delimiters] d unfolding w(1) by (auto simp del: dropWhile_eq_Nil_conv)
  have "table_state seen hashes (Suc (length ws))" using Cons.prems(2) Cons.hyps(2) [symmetric] by simp
  then obtain seen' where seen': "Dedupe_key seen (str_hash w) = Some (Inr (seen', str_hash w \<notin> hashes))" "table_state seen' (insert (str_hash w) hashes) (length ws)"
    using Dedupe_key_ok by blast
  let ?xs = "if str_hash w \<notin> hashes then [Str w, Chr 0] else []"
  obtain out1 where out1: "insert_items FileStream_ops out ?xs = (out1, Inr ())" "stream_ok out1" "stream_text out1 = stream_text out @ items_text ?xs"
    using insert_items_good [OF Cons.prems(3)] by blast
  obtain out' where out': "vocab_loop env fp' seen' out1 = Some (Inr out')" "stream_ok out'"
    "stream_text out' = stream_text out1 @ concat (map (\<lambda>w. w @ [0]) (first_new str_hash (insert (str_hash w) hashes) ws))"
    using Cons.hyps(1) [OF w(2) fp'(2) _ out1(2)] seen'(2) unfolding w(2) [symmetric] by blast
  have "vocab_loop env fp seen out = Some (Inr out')"
    using fp'(1) seen'(1) out1(1) out'(1) by (subst vocab_loop.simps) (auto split: if_splits)
  then show ?case using out'(2,3) out1(3) unfolding Cons.hyps(2) [symmetric] by (auto simp: insert_absorb)
qed

text \<open>
  C21. \<^verbatim>\<open>vocab\<close> prints every word of its input once, where it occurs first, with a zero behind it. The words
  are what stands between zeros, tabs, carriage returns, newlines and spaces, and are told apart by their
  64-bit hash; a word whose hash is 0 is not printed.
\<close>

theorem vocab_main_correct:
  assumes "opens env decodes stdin content" and "dependable stdout"
    and "length (words_of (\<lambda>c. c \<in> {0, 9, 13, 10, 32}) content) \<le> 2 ^ 61"
  shows "\<exists>stdout'. vocab_main env stdin stdout = Some (Inr stdout') \<and>
    (let ws = words_of (\<lambda>c. c \<in> {0, 9, 13, 10, 32}) content; kept = first_new str_hash {0} ws
     in d_out stdout' = d_out stdout @ concat (map (\<lambda>w. w @ [0]) kept) \<and> subseq kept ws \<and>
        distinct (map str_hash kept) \<and> set (map str_hash kept) = str_hash ` set ws - {0})"
proof -
  have p: "(\<lambda>c. c \<in> {0, 9, 13, 10, 32}) = word_end" by (rule ext) (simp only: word_end_iff)
  obtain t where t: "Dedupe_new = Inr t" "table_state t {0} (2 ^ 61)" using Dedupe_new_ok by blast
  then have ts: "table_state t {0} (length (words_of word_end content))" using assms(3) unfolding p by (simp add: table_state_def)
  obtain fp where fp: "Initialize env 1048576 stdin = Some (fp, Inr ())" "delivers env decodes fp content"
    using Initialize_good [OF assms(1)] by blast
  have ok: "stream_ok (BufferedStream_new stdout)" using assms(2) by (simp add: BufferedStream_new_def)
  obtain out where out: "vocab_loop env fp t (BufferedStream_new stdout) = Some (Inr out)" "stream_ok out"
    "stream_text out = stream_text (BufferedStream_new stdout) @ concat (map (\<lambda>w. w @ [0]) (first_new str_hash {0} (words_of word_end content)))"
    using vocab_loop_ok [OF fp(2) ts ok] by blast
  obtain out2 where out2: "fo_flush FileStream_ops out = (out2, Inr ())" "d_out (bs_writer out2) = stream_text out"
    using flush_good [OF out(2)] by blast
  have "vocab_main env stdin stdout = Some (Inr (bs_writer out2))" by (simp add: vocab_main_def t(1) fp(1) out(1) out2(1))
  moreover have "d_out (bs_writer out2) = d_out stdout @ concat (map (\<lambda>w. w @ [0]) (first_new str_hash {0} (words_of word_end content)))"
    using out2(2) out(3) by (simp add: BufferedStream_new_def)
  ultimately show ?thesis unfolding Let_def p
    using first_new_subseq first_new_distinct [of str_hash "{0}" "words_of word_end content"] by blast
qed

subsection \<open>At concrete inputs\<close>

theorem MutableVocab_correct_witness:
  "\<exists>v0 v is. MutableVocab_new = Inr v0 \<and> insert_strings v0 [lit ''a'', lit ''b'', lit ''a''] = Some (Inr (v, is)) \<and>
    mv_strings v = [lit ''<unk>'', lit ''a'', lit ''b'']"
proof -
  let ?ws = "[lit ''a'', lit ''b'', lit ''a'']"
  have kept: "first_new str_hash {} ?ws = [lit ''a'', lit ''b'']" by code_simp
  have "\<forall>w\<in>set ?ws. str_hash w \<noteq> 0" by code_simp
  moreover have "length ?ws < 2 ^ 32 - 1" by simp
  ultimately show ?thesis using MutableVocab_correct [of ?ws] unfolding kept by blast
qed

theorem vocab_main_correct_witness:
  "\<exists>stdout'. vocab_main (small_env (lit ''a b'' @ [10] @ lit ''a'')) (small_fd (lit ''a b'' @ [10] @ lit ''a'')) small_out = Some (Inr stdout') \<and>
    d_out stdout' = lit ''a'' @ [0] @ lit ''b'' @ [0]"
proof -
  let ?f = "lit ''a b'' @ [10] @ lit ''a''"
  have o: "opens (small_env ?f) (\<lambda>_. stored_decodes) (small_fd ?f) ?f" by (rule small_opens, code_simp, simp add: lit_def)
  have ws: "words_of (\<lambda>c. c \<in> {0, 9, 13, 10, 32}) ?f = [lit ''a'', lit ''b'', lit ''a'']" by code_simp
  have kept: "first_new str_hash {0} [lit ''a'', lit ''b'', lit ''a''] = [lit ''a'', lit ''b'']" by code_simp
  from vocab_main_correct [OF o small_out_ok(1), unfolded ws kept Let_def] small_out_ok(2) show ?thesis by auto
qed

theorem truecase_Apply_correct_witness:
  "\<exists>table. AutoProbing_new te_ops True (Blank te_ops) 5 7 0 = Inr table \<and>
    truecase_Apply Inr table (lit ''a  b'') = Some (Inr [Str (lit ''a''), Chr 32, Str (lit ''b''), Chr newline]) \<and>
    truecase_Apply (\<lambda>w. if w = lit ''b'' then Inl NotUTF8Exception else Inr w) table (lit ''a  b'') = None"
proof -
  obtain table where t: "AutoProbing_new te_ops True (Blank te_ops) 5 7 0 = Inr table" "auto_ok te_ops table"
    "auto_map te_ops table = Map.empty" "pt_invalid (ap_backend table) = 0"
    using AutoProbing_new_ok [of 5 7 te_ops True "Blank te_ops" 0] zero_ok_te by auto
  have ws: "words_of (\<lambda>c. kSpaces ! unat c) (lit ''a  b'') = [lit ''a'', lit ''b'']" by code_simp
  have h: "str_hash (lit ''a'') \<noteq> 0" "str_hash (lit ''b'') \<noteq> 0" "lit ''a'' \<noteq> lit ''b''" by code_simp+
  have none: "lookup table = Map.empty" using t(3) by (simp add: lookup_def fun_eq_iff)
  from truecase_Apply_correct [OF t(2,4), of "lit ''a  b''", unfolded ws none] t(1) h show ?thesis by auto
qed

end
