(* ===== verification/Tables.thy ===== *)
theory Tables
  imports Vocab
begin

text \<open>
  More programs over the lines of their input: \<^verbatim>\<open>substitute\<close> (\<^verbatim>\<open>src/preprocess/substitute_main.cc\<close>), which gives every line the
  value of the first line with the same sentences, and \<^verbatim>\<open>base64_number\<close>
  (\<^verbatim>\<open>src/preprocess/base64_number_main.cc\<close>), which numbers the lines of documents.
\<close>

subsection \<open>\<^verbatim>\<open>substitute\<close>\<close>

record SubstituteEntry =
  se_key :: u64
  se_value :: bytes

definition se_ops :: "(SubstituteEntry, u64) EntryOps" where
  "se_ops = \<lparr>GetKey = se_key, SetKey = (\<lambda>k e. e\<lparr>se_key := k\<rparr>), Hash = IdentityHash, Blank = \<lparr>se_key = 0, se_value = []\<rparr>\<rparr>"

definition substitute_fields :: "FieldRange list" where
  "substitute_fields =
     [\<lparr>fr_begin = 0, fr_end = 2\<rparr>, \<lparr>fr_begin = 2, fr_end = 4\<rparr>, \<lparr>fr_begin = 4, fr_end = 5\<rparr>, \<lparr>fr_begin = 5, fr_end = kInfiniteEnd\<rparr>]"

text \<open>The strings that \<^verbatim>\<open>RecordCallback\<close> has stored; there is room for as many as there are ranges.\<close>

definition segments_of :: "bytes \<Rightarrow> bytes list option" where
  "segments_of line = RangeFields line substitute_fields tab (\<lambda>segments str. segments @ [str]) []"

text \<open>\<^verbatim>\<open>sentences\<close> begins behind the first segment and a tab.\<close>

definition upto_sentences :: "bytes list \<Rightarrow> bytes \<Rightarrow> bytes" where
  "upto_sentences segments line = take (length (segments ! 0) + 1 + length (segments ! 1)) line"

definition substitute_step :: "(SubstituteEntry, u64) AutoProbing step" where
  "substitute_step table line =
     (case segments_of line of
        None \<Rightarrow> None
      | Some segments \<Rightarrow>
         let sentences = segments ! 1; val = segments ! 2; after = segments ! 3
         in if length segments \<noteq> 4 then Some (Inl Exception)
         else case auto_FindOrInsert se_ops True (Blank se_ops) table \<lparr>se_key = str_hash sentences, se_value = []\<rparr> of
                None \<Rightarrow> None
              | Some (_, Inl e) \<Rightarrow> Some (Inl e)
              | Some (table, Inr (found, i)) \<Rightarrow>
                  Some (Inr (if found
                             then (table, [Str (upto_sentences segments line), Chr tab, Str (se_value (get_entry table i)), Chr tab, Str after, Chr newline])
                             else (set_entry table i ((get_entry table i)\<lparr>se_value := val\<rparr>), [Str line, Chr newline]))))"

definition substitute_main :: "'z Environment \<Rightarrow> Desc \<Rightarrow> Desc \<Rightarrow> Desc result option" where
  "substitute_main env stdin stdout =
     (case AutoProbing_new se_ops True (Blank se_ops) 5 7 0 of
        Inl e \<Rightarrow> Some (Inl e)
      | Inr table \<Rightarrow> map_option (map_sum id snd) (run_program env substitute_step table stdin stdout))"

subsection \<open>\<^verbatim>\<open>base64_number\<close>\<close>

definition base64_number_step :: "u64 step" where
  "base64_number_step line_number l =
     (case base64_decode l of
        Inl e \<Rightarrow> Some (Inl e)
      | Inr doc \<Rightarrow>
          map_option (\<lambda>ts. Inr (line_number + 1, concat (map (\<lambda>t. [Str t, Chr tab, U64 line_number, Chr newline]) ts)))
            (token_list True (SingleCharacter newline) (map (\<lambda>c. if c = tab then 32 else c) doc)))"

definition base64_number_main :: "'z Environment \<Rightarrow> Desc \<Rightarrow> Desc \<Rightarrow> Desc result option" where
  "base64_number_main env stdin stdout = map_option (map_sum id snd) (run_program env base64_number_step 0 stdin stdout)"

subsection \<open>The values of the first lines\<close>

text \<open>A line with more than five fields: its sentences, the value and what follows.\<close>

definition whole_line :: "bytes \<Rightarrow> bool" where
  "whole_line line \<longleftrightarrow> 5 < length (line_fields tab line)"

definition sentences_of :: "bytes \<Rightarrow> bytes" where
  "sentences_of line = join_fields tab (take 2 (drop 2 (line_fields tab line)))"

definition value_of :: "bytes \<Rightarrow> bytes" where
  "value_of line = line_fields tab line ! 4"

definition before_value :: "bytes \<Rightarrow> bytes" where
  "before_value line = join_fields tab (take 4 (line_fields tab line))"

definition after_value :: "bytes \<Rightarrow> bytes" where
  "after_value line = rest_fields tab 5 line"

definition with_value :: "bytes \<Rightarrow> bytes \<Rightarrow> bytes" where
  "with_value line val = before_value line @ [tab] @ val @ [tab] @ after_value line"

lemma fr_words: "unat (0 :: u64) = 0" "unat (2 :: u64) = 2" "unat (4 :: u64) = 4" "unat (5 :: u64) = 5"
  by simp_all

lemma segments_whole:
  assumes "whole_line line"
  shows "segments_of line = Some [join_fields tab (take 2 (line_fields tab line)), sentences_of line, value_of line, after_value line]"
proof -
  have r: "ordered_ranges substitute_fields" "nonempty_ranges substitute_fields"
    by (simp_all add: substitute_fields_def ordered_ranges_def kInfiniteEnd_def)
  have all: "filter (\<lambda>r. unat (fr_begin r) < length (line_fields tab line)) substitute_fields = substitute_fields"
    using assms by (simp add: substitute_fields_def whole_line_def)
  have "range_text tab line \<lparr>fr_begin = 4, fr_end = 5\<rparr> = value_of line"
    using assms by (simp add: range_text_def value_of_def whole_line_def kInfiniteEnd_def take_Suc_conv_app_nth Cons_nth_drop_Suc [symmetric])
  then show ?thesis using assms unfolding segments_of_def RangeFields_eq [OF r] range_texts_def all
    by (simp add: substitute_fields_def range_text_def whole_line_def kInfiniteEnd_def sentences_of_def after_value_def)
qed

lemma fields_before_value:
  assumes "whole_line line"
  shows "line = with_value line (value_of line)" and "upto_sentences (the (segments_of line)) line = before_value line"
proof -
  define fs where "fs = line_fields tab line"
  obtain a b c e f rest where fs: "fs = a # b # c # e # f # rest"
    using assms unfolding whole_line_def fs_def [symmetric] by (auto simp: less_eq_Suc_le Suc_le_length_iff numeral_eq_Suc)
  have "line = lead_fields tab (take 5 fs) @ rest_fields tab 5 line"
    using rest_fields_correct [of 5 tab line] assms by (simp add: whole_line_def fs_def)
  then have l: "line = a @ tab # b @ tab # c @ tab # e @ tab # f @ tab # after_value line"
    by (simp add: fs lead_fields_def after_value_def)
  have b: "before_value line = a @ tab # b @ tab # c @ tab # e" by (simp add: before_value_def fs_def [symmetric] fs)
  then show "line = with_value line (value_of line)" unfolding with_value_def using l by (simp add: value_of_def fs_def [symmetric] fs)
  have seg: "segments_of line = Some [a @ tab # b, c @ tab # e, f, after_value line]"
    using segments_whole [OF assms] by (simp add: sentences_of_def value_of_def fs_def [symmetric] fs)
  have "upto_sentences (the (segments_of line)) line = take (length (a @ tab # b @ tab # c @ tab # e)) line" by (simp add: upto_sentences_def seg add.assoc)
  also have "\<dots> = a @ tab # b @ tab # c @ tab # e"
  proof -
    have "line = (a @ tab # b @ tab # c @ tab # e) @ tab # f @ tab # after_value line" using l by simp
    then show ?thesis by (metis append_eq_conv_conj)
  qed
  finally show "upto_sentences (the (segments_of line)) line = before_value line" using b by simp
qed

definition sub_state :: "(SubstituteEntry, u64) AutoProbing \<Rightarrow> (u64 \<rightharpoonup> bytes) \<Rightarrow> nat \<Rightarrow> bool" where
  "sub_state p m n \<longleftrightarrow> auto_ok se_ops p \<and> pt_invalid (ap_backend p) = 0 \<and> pt_entries (ap_backend p) + n \<le> 2 ^ 61 \<and>
     (\<forall>k. map_option se_value (auto_map se_ops p k) = m k)"

definition emit_sub :: "(u64 \<rightharpoonup> bytes) \<Rightarrow> bytes \<Rightarrow> (u64 \<rightharpoonup> bytes) \<times> bytes" where
  "emit_sub m l =
     (case m (str_hash (sentences_of l)) of
        Some v \<Rightarrow> (m, with_value l v @ [newline])
      | None \<Rightarrow> (m(str_hash (sentences_of l) \<mapsto> value_of l), l @ [newline]))"

abbreviation sub_accepts :: "bytes \<Rightarrow> bool" where
  "sub_accepts l \<equiv> whole_line l \<and> str_hash (sentences_of l) \<noteq> 0"

lemma zero_ok_se: "zero_ok se_ops True (Blank se_ops) 0"
  by (simp add: zero_ok_def se_ops_def lawful_def)

interpretation substitute: line_program substitute_step sub_state emit_sub sub_accepts
proof
  fix p m n and l :: bytes
  assume p: "sub_state p m (Suc n)" and l: "sub_accepts l"
  let ?k = "str_hash (sentences_of l)" and ?e = "\<lparr>se_key = str_hash (sentences_of l), se_value = []\<rparr>"
  have key: "GetKey se_ops = se_key" by (simp add: se_ops_def)
  have a: "auto_ok se_ops p" "zero_ok se_ops True (Blank se_ops) (pt_invalid (ap_backend p))" "pt_entries (ap_backend p) < 2 ^ 61"
    "GetKey se_ops ?e \<noteq> pt_invalid (ap_backend p)" and m: "\<And>k. m k = map_option se_value (auto_map se_ops p k)"
    using p l zero_ok_se by (simp_all add: sub_state_def key)
  obtain t found i where t: "auto_FindOrInsert se_ops True (Blank se_ops) p ?e = Some (t, Inr (found, i))" "auto_ok se_ops t"
    "found \<longleftrightarrow> ?k \<in> dom (auto_map se_ops p)" "auto_map se_ops t = (if found then auto_map se_ops p else (auto_map se_ops p)(?k \<mapsto> ?e))"
    "i < pt_size (ap_backend t)" "auto_map se_ops t ?k = Some (get_entry t i)"
    "pt_invalid (ap_backend t) = 0" "pt_entries (ap_backend t) + n \<le> 2 ^ 61"
    using auto_FindOrInsert_spec [OF a] p unfolding key get_entry_def sub_state_def by fastforce
  obtain segs where seg: "segments_of l = Some segs" "length segs = 4" "segs ! 1 = sentences_of l" "segs ! 2 = value_of l" "segs ! 3 = after_value l"
    using segments_whole l by simp
  show "\<exists>p' xs. substitute_step p l = Some (Inr (p', xs)) \<and> items_text xs = snd (emit_sub m l) \<and> sub_state p' (fst (emit_sub m l)) n"
  proof (cases found)
    case True
    then obtain e where e: "auto_map se_ops p ?k = Some e" using t(3) by blast
    then have "get_entry t i = e" "m ?k = Some (se_value e)" using t(4,6) True m by simp_all
    moreover have "sub_state t m n" using t True p by (simp add: sub_state_def)
    ultimately show ?thesis using t(1) True seg fields_before_value(2) [of l] l
      by (simp add: substitute_step_def Let_def emit_sub_def with_value_def)
  next
    case False
    let ?x = "(get_entry t i)\<lparr>se_value := value_of l\<rparr>"
    have entry: "get_entry t i = ?e" using t(4,6) False by simp
    have k: "GetKey se_ops ?x = key_at se_ops (ap_backend t) i" "GetKey se_ops ?x \<noteq> pt_invalid (ap_backend t)"
      using entry l t(7) by (simp_all add: key get_entry_def)
    note s = set_entry_ok [OF t(2,5) k]
    have none: "m ?k = None" using False t(3) m by (simp add: domIff)
    have "auto_map se_ops (set_entry t i ?x) = (auto_map se_ops p)(?k \<mapsto> ?x)" using s(2) t(4) False entry by (simp add: key)
    then have "sub_state (set_entry t i ?x) (m(?k \<mapsto> value_of l)) n" using s(1,3,4) t(7,8) m by (simp add: sub_state_def)
    then show ?thesis using t(1) False seg none by (simp add: substitute_step_def Let_def emit_sub_def)
  qed
qed

lemma printed_sub:
  assumes "\<forall>l\<in>set ls. whole_line l" and "\<forall>k. m k = (if k \<in> key ` set seen then Some (value_of (representative key seen k)) else None)"
    and key: "key = str_hash \<circ> sentences_of"
  shows "snd (printed emit_sub m ls) = unlines (map (\<lambda>l. with_value l (value_of (representative key (seen @ ls) (key l)))) ls)"
  using assms(1,2)
proof (induction ls arbitrary: m seen)
  case (Cons l ls)
  let ?m = "fst (emit_sub m l)"
  have kl: "key l = str_hash (sentences_of l)" by (simp add: key)
  have e: "emit_sub m l = (case m (key l) of
      Some v \<Rightarrow> (m, with_value l v @ [newline]) | None \<Rightarrow> (m(key l \<mapsto> value_of l), l @ [newline]))" by (simp only: emit_sub_def kl)
  have one: "representative key (l # xs) (key l) = l" for xs by (simp add: representative_def)
  have m: "\<forall>k. ?m k = (if k \<in> key ` set (seen @ [l]) then Some (value_of (representative key (seen @ [l]) k)) else None)"
    using Cons.prems(2) by (cases "key l \<in> key ` set seen") (auto simp: e representative_append one)
  have "snd (emit_sub m l) = with_value l (value_of (representative key (seen @ l # ls) (key l))) @ [newline]"
    using Cons.prems fields_before_value(1) [of l] by (cases "key l \<in> key ` set seen") (simp_all add: e representative_append one)
  then show ?case using Cons.IH [OF _ m] Cons.prems(1) by (simp add: case_prod_beta Let_def)
qed simp

text \<open>
  C23. \<^verbatim>\<open>substitute\<close> prints every line with its fifth field replaced by the fifth field of the first line that has
  the same third and fourth fields (as their 64-bit hash tells): the first of them unchanged, and nothing else of any line is
  touched. Every line must have more than five fields.
\<close>

theorem substitute_main_correct:
  assumes "opens env decodes stdin content" and "dependable stdout"
    and "\<forall>l\<in>set (text_lines newline True content). sub_accepts l" and "length (text_lines newline True content) \<le> 2 ^ 61"
  shows "\<exists>stdout'. substitute_main env stdin stdout = Some (Inr stdout') \<and>
    (let ls = text_lines newline True content; first_with = representative (str_hash \<circ> sentences_of) ls
     in d_out stdout' = d_out stdout @ unlines (map (\<lambda>l. with_value l (value_of (first_with (str_hash (sentences_of l))))) ls) \<and>
        (\<forall>l\<in>set ls. with_value l (value_of l) = l))"
proof -
  let ?ls = "text_lines newline True content"
  obtain t where t: "AutoProbing_new se_ops True (Blank se_ops) 5 7 0 = Inr t" "sub_state t Map.empty (2 ^ 61)"
    using AutoProbing_new_ok [of 5 7 se_ops True "Blank se_ops" 0] zero_ok_se by (auto simp: sub_state_def)
  have ts: "sub_state t Map.empty (length ?ls)" using t(2) assms(4) by (simp add: sub_state_def)
  obtain p' stdout' where r: "run_program env substitute_step t stdin stdout = Some (Inr (p', stdout'))"
    "d_out stdout' = d_out stdout @ snd (printed emit_sub Map.empty ?ls)"
    using substitute.run_program_prints [OF assms(1,2) ts assms(3)] by blast
  have "snd (printed emit_sub Map.empty ?ls) =
      unlines (map (\<lambda>l. with_value l (value_of (representative (str_hash \<circ> sentences_of) ?ls (str_hash (sentences_of l))))) ?ls)"
    using printed_sub [of ?ls Map.empty "str_hash \<circ> sentences_of" "[]"] assms(3) by simp
  moreover have "with_value l (value_of l) = l" if "l \<in> set ?ls" for l using fields_before_value(1) [of l] that assms(3) by simp
  moreover have "substitute_main env stdin stdout = Some (Inr stdout')" using t(1) r(1) by (simp add: substitute_main_def)
  ultimately show ?thesis using r(2) by (simp add: Let_def)
qed

subsection \<open>Numbered lines\<close>

text \<open>The lines of a document without the empty ones, with the number of the document behind each.\<close>

definition doc_text :: "bytes \<Rightarrow> bytes list" where
  "doc_text l = filter (\<lambda>t. t \<noteq> []) (split_on newline (map (\<lambda>c. if c = tab then 32 else c) (projr (base64_decode l))))"

definition numbered :: "nat \<Rightarrow> bytes \<Rightarrow> bytes" where
  "numbered n l = unlines (map (\<lambda>t. t @ [tab] @ dec n) (doc_text l))"

abbreviation emit_number :: "u64 \<Rightarrow> bytes \<Rightarrow> u64 \<times> bytes" where
  "emit_number n l \<equiv> (n + 1, numbered (unat n) l)"

interpretation base64_number: line_program base64_number_step "\<lambda>p n _. p = n" emit_number "\<lambda>l. \<exists>d. base64_decode l = Inr d"
proof
  fix p n k and l :: bytes
  assume p: "p = (n :: u64)" and "\<exists>d. base64_decode l = Inr d"
  then obtain d where d: "base64_decode l = Inr d" by blast
  let ?text = "map (\<lambda>c. if c = tab then 32 else c) d"
  have "single.tokens newline ?text = split_on newline ?text"
    by (rule single.tokens_split) (simp_all add: SingleCharacter_def std_find_def)
  then have "token_list True (SingleCharacter newline) ?text = Some (doc_text l)"
    by (simp add: single.token_list_eq single.keep_def doc_text_def d)
  moreover have "items_text (concat (map (\<lambda>t. [Str t, Chr tab, U64 n, Chr newline]) ts)) = unlines (map (\<lambda>t. t @ [tab] @ dec (unat n)) ts)" for ts
    by (induction ts) simp_all
  ultimately show "\<exists>p' xs. base64_number_step p l = Some (Inr (p', xs)) \<and> items_text xs = snd (emit_number n l) \<and> p' = fst (emit_number n l)"
    using p d by (simp add: base64_number_step_def numbered_def)
qed

lemma printed_number:
  "i + length ls \<le> 2 ^ 64 \<Longrightarrow> snd (printed emit_number (of_nat i) ls) = concat (map (\<lambda>(n, l). numbered n l) (enumerate i ls))"
proof (induction ls arbitrary: i)
  case (Cons l ls)
  have "unat (of_nat i :: u64) = i" using Cons.prems by (simp add: unat_of_nat take_bit_eq_mod)
  moreover have "(of_nat i :: u64) + 1 = of_nat (Suc i)" by simp
  ultimately show ?case using Cons.IH [of "Suc i"] Cons.prems by (simp add: case_prod_beta Let_def add.commute)
qed simp

text \<open>
  \<^verbatim>\<open>base64_number\<close> prints every line of every document that is not empty, with tabs made spaces, followed by the
  number of the document, which counts the lines of the input from 0.
\<close>

lemma base64_number_main_correct:
  assumes "opens env decodes stdin content" and "dependable stdout"
    and "\<forall>l\<in>set (text_lines newline True content). \<exists>d. base64_decode l = Inr d" and "length (text_lines newline True content) \<le> 2 ^ 64"
  shows "\<exists>stdout'. base64_number_main env stdin stdout = Some (Inr stdout') \<and>
    d_out stdout' = d_out stdout @ concat (map (\<lambda>(n, l). numbered n l) (enumerate 0 (text_lines newline True content)))"
proof -
  let ?ls = "text_lines newline True content"
  obtain p' stdout' where r: "run_program env base64_number_step 0 stdin stdout = Some (Inr (p', stdout'))"
    "d_out stdout' = d_out stdout @ snd (printed emit_number 0 ?ls)"
    using base64_number.run_program_prints [OF assms(1,2) refl assms(3)] by blast
  then show ?thesis using printed_number [of 0 ?ls] assms(4) by (simp add: base64_number_main_def)
qed

subsection \<open>At concrete inputs\<close>

definition sub_file :: bytes where
  "sub_file = lit ''u'' @ [9] @ lit ''v'' @ [9] @ lit ''x'' @ [9] @ lit ''y'' @ [9] @ lit ''1'' @ [9] @ lit ''r'' @ [10] @
     lit ''s'' @ [9] @ lit ''t'' @ [9] @ lit ''x'' @ [9] @ lit ''y'' @ [9] @ lit ''2'' @ [9] @ lit ''q''"

theorem substitute_main_correct_witness:
  "\<exists>stdout'. substitute_main (small_env sub_file) (small_fd sub_file) small_out = Some (Inr stdout') \<and>
    d_out stdout' = lit ''u'' @ [9] @ lit ''v'' @ [9] @ lit ''x'' @ [9] @ lit ''y'' @ [9] @ lit ''1'' @ [9] @ lit ''r'' @ [10] @
     lit ''s'' @ [9] @ lit ''t'' @ [9] @ lit ''x'' @ [9] @ lit ''y'' @ [9] @ lit ''1'' @ [9] @ lit ''q'' @ [10]"
proof -
  have o: "opens (small_env sub_file) (\<lambda>_. stored_decodes) (small_fd sub_file) sub_file"
    by (rule small_opens, code_simp, simp add: sub_file_def lit_def)
  let ?a = "lit ''u'' @ [9] @ lit ''v'' @ [9] @ lit ''x'' @ [9] @ lit ''y'' @ [9] @ lit ''1'' @ [9] @ lit ''r''"
  let ?b = "lit ''s'' @ [9] @ lit ''t'' @ [9] @ lit ''x'' @ [9] @ lit ''y'' @ [9] @ lit ''2'' @ [9] @ lit ''q''"
  let ?c = "lit ''s'' @ [9] @ lit ''t'' @ [9] @ lit ''x'' @ [9] @ lit ''y'' @ [9] @ lit ''1'' @ [9] @ lit ''q''"
  have ls: "text_lines newline True sub_file = [?a, ?b]" by code_simp
  have ok: "\<forall>l\<in>set [?a, ?b]. sub_accepts l" by code_simp
  have s: "sentences_of ?a = sentences_of ?b" by code_simp
  have v: "with_value ?a (value_of ?a) = ?a" "with_value ?b (value_of ?a) = ?c" by code_simp+
  have r: "representative (str_hash \<circ> sentences_of) [?a, ?b] (str_hash (sentences_of ?a)) = ?a"
    unfolding representative_def list.simps filter.simps comp_def by simp
  have m: "map (\<lambda>l. with_value l (value_of (representative (str_hash \<circ> sentences_of) [?a, ?b] (str_hash (sentences_of l))))) [?a, ?b] = [?a, ?c]"
    unfolding list.simps s [symmetric] r v by (intro conjI refl)
  have "length [?a, ?b] \<le> 2 ^ 61" by simp
  from substitute_main_correct [OF o small_out_ok(1), unfolded ls Let_def m, OF ok this] small_out_ok(2) show ?thesis by auto
qed


end
