(* ===== verification/Shard.thy ===== *)
theory Shard
  imports Tables ThreadedStream CompressWrite
begin

text \<open>
  \<^verbatim>\<open>src/preprocess/shard_main.cc\<close>, which spreads the lines of its input over files by the hash of their key. Its outputs
  are \<^verbatim>\<open>ThreadedBufferedStream<WriteCompressed>\<close>: every one has a thread of its own, which gives the blocks of
  the stream to a \<^verbatim>\<open>WriteCompressed\<close>. The calls that \<^verbatim>\<open>main\<close> makes on the streams are a list; they and the
  steps of all the threads interleave. The options are arguments.
\<close>

subsection \<open>The outputs\<close>

text \<open>The names of the outputs when only their number is given; \<^verbatim>\<open>number\<close> is an unsigned int.\<close>

fun count_digits :: "nat \<Rightarrow> nat" where
  "count_digits compare = (if compare \<noteq> 0 then Suc (count_digits (compare div 10)) else 0)"

declare count_digits.simps [simp del]

definition shard_names :: "bytes \<Rightarrow> u32 \<Rightarrow> bytes list" where
  "shard_names prefix_name number =
     (let digits = count_digits (unat (number - 1))
      in map (\<lambda>i. prefix_name @ replicate (digits - length (dec i)) 48 @ dec i) [0..<unat number])"

subsection \<open>The calls\<close>

text \<open>
  What \<^verbatim>\<open>main\<close> does with a stream: \<^verbatim>\<open><< line\<close>, \<^verbatim>\<open><< '\n'\<close>, and its destruction. Without outputs the remainder by
  their number is undefined: \<^term>\<open>None\<close>, as it is when \<^verbatim>\<open>RangeFields\<close> has no result.
\<close>

datatype stream_op = Op_write bytes | Op_put byte | Op_destroy

definition shard_body ::
  "u64 \<Rightarrow> FieldRange list \<Rightarrow> byte \<Rightarrow> (nat \<times> stream_op) list \<Rightarrow> bytes \<Rightarrow> (nat \<times> stream_op) list result option"
where
  "shard_body shard_count ranges delim_char calls line =
     (case RangeFields line ranges delim_char HashCallback_call HashCallback_default of
        None \<Rightarrow> None
      | Some cb \<Rightarrow>
          if shard_count = 0 then None
          else let i = unat (hc_hash cb mod shard_count)
               in Some (Inr (calls @ [(i, Op_write line), (i, Op_put newline)])))"

text \<open>At the end of \<^verbatim>\<open>main\<close>, \<^verbatim>\<open>FixedArray\<close> destroys the streams from the last to the first.\<close>

definition shard_calls ::
  "'z Environment \<Rightarrow> FieldRange list \<Rightarrow> byte \<Rightarrow> nat \<Rightarrow> Desc \<Rightarrow> (nat \<times> stream_op) list result option"
where
  "shard_calls env ranges delim_char n stdin =
     map_option (map_sum id (\<lambda>calls. calls @ map (\<lambda>i. (i, Op_destroy)) (rev [0..<n])))
       (load_lines env (shard_body (of_nat n) ranges delim_char) [] stdin)"

subsection \<open>The threads\<close>

text \<open>
  The calls that \<^verbatim>\<open>main\<close> has still to make, and the streams. A call begins when the one before has
  returned; the threads of all streams may go on at any time.
\<close>

record Shard =
  sh_calls :: "(nat \<times> stream_op) list"
  sh_out :: "ThreadedBufferedStream list"

fun begin_call :: "stream_op \<Rightarrow> ThreadedBufferedStream \<Rightarrow> ThreadedBufferedStream" where
  "begin_call (Op_write data) t = t\<lparr>filler := Writing data\<rparr>"
| "begin_call (Op_put c) t = t\<lparr>filler := Formatting 1 [c]\<rparr>"
| "begin_call Op_destroy t = t\<lparr>filler := Closing\<rparr>"

abbreviation idle :: "ThreadedBufferedStream \<Rightarrow> bool" where
  "idle t \<equiv> filler t = Ready \<or> filler t = Closed"

inductive shard_step :: "Shard \<Rightarrow> Shard \<Rightarrow> bool" where
  shard_move: "i < length (sh_out s) \<Longrightarrow> stream_step (sh_out s ! i) t \<Longrightarrow> shard_step s (s\<lparr>sh_out := (sh_out s)[i := t]\<rparr>)"
| shard_call: "sh_calls s = (i, op) # ops \<Longrightarrow> \<forall>t\<in>set (sh_out s). idle t \<Longrightarrow> filler (sh_out s ! i) = Ready \<Longrightarrow>
    shard_step s \<lparr>sh_calls = ops, sh_out = (sh_out s)[i := begin_call op (sh_out s ! i)]\<rparr>"

definition shard_start :: "bytes list \<Rightarrow> (nat \<times> stream_op) list \<Rightarrow> Shard" where
  "shard_start memories calls = \<lparr>sh_calls = calls, sh_out = map ThreadedBufferedStream_new memories\<rparr>"

text \<open>
  What becomes of an output: the thread of its stream writes the blocks and flushes, and the destructor
  of \<^verbatim>\<open>WriteCompressed\<close> flushes again.
\<close>

definition shard_writer :: "'c WriteLibrary \<Rightarrow> Desc \<Rightarrow> Compression \<Rightarrow> ThreadedBufferedStream \<Rightarrow> 'c WriteBase result option" where
  "shard_writer lib fd compression t =
     (case WriteCompressed_new lib fd compression of
        Inl e \<Rightarrow> Some (Inl e)
      | Inr w \<Rightarrow> do_calls lib w (map Write (written t) @ [Flush]))"

text \<open>
  \<open>shard_main\<close> relates the outputs of the program to a run that has come to its end; \<open>memories\<close> are the blocks
  the streams allocate.
\<close>

definition shard_ends :: "bytes list \<Rightarrow> (nat \<times> stream_op) list \<Rightarrow> Shard \<Rightarrow> bool" where
  "shard_ends memories calls s \<longleftrightarrow> shard_step\<^sup>*\<^sup>* (shard_start memories calls) s \<and> (\<nexists>s'. shard_step s s')"

definition shard_main ::
  "'z Environment \<Rightarrow> 'c WriteLibrary \<Rightarrow> FieldRange list \<Rightarrow> byte \<Rightarrow> Compression \<Rightarrow> Desc list \<Rightarrow> bytes list \<Rightarrow> Desc \<Rightarrow>
     'c WriteBase result option list \<Rightarrow> bool"
where
  "shard_main env lib ranges delim_char compression out memories stdin ws \<longleftrightarrow>
     (\<exists>calls s. shard_calls env ranges delim_char (length out) stdin = Some (Inr calls) \<and> shard_ends memories calls s \<and>
        ws = map2 (\<lambda>fd. shard_writer lib fd compression) out (sh_out s))"

subsection \<open>What a stream still has to accept\<close>

fun op_text :: "stream_op \<Rightarrow> bytes" where
  "op_text (Op_write data) = data" | "op_text (Op_put c) = [c]" | "op_text Op_destroy = []"

definition text_for :: "nat \<Rightarrow> (nat \<times> stream_op) list \<Rightarrow> bytes" where
  "text_for i calls = concat (map (op_text \<circ> snd) (filter (\<lambda>c. fst c = i) calls))"

lemma text_for_simps [simp]:
  "text_for i [] = []" "text_for i (xs @ ys) = text_for i xs @ text_for i ys"
  "text_for i (c # cs) = (if fst c = i then op_text (snd c) else []) @ text_for i cs"
  by (simp_all add: text_for_def)

fun todo_after :: "continuation \<Rightarrow> bytes" where
  "todo_after (Then_write data) = data" | "todo_after (Then_format _ data) = data" | "todo_after _ = []"

fun todo :: "filler \<Rightarrow> bytes" where
  "todo (Writing data) = data" | "todo (Formatting _ data) = data" | "todo (Next c) = todo_after c"
| "todo (Next_wait c) = todo_after c" | "todo _ = []"

fun closes_after :: "continuation \<Rightarrow> bool" where
  "closes_after Then_poison = True" | "closes_after Then_join = True" | "closes_after _ = False"

fun closing :: "filler \<Rightarrow> bool" where
  "closing Closing = True" | "closing Joining = True" | "closing Closed = True" | "closing (Next c) = closes_after c"
| "closing (Next_wait c) = closes_after c" | "closing _ = False"

lemma step_accepts:
  assumes "stream_step t t'"
  shows "accepted t' @ todo (filler t') = accepted t @ todo (filler t)" and "closing (filler t') = closing (filler t)"
  using assms
proof -
  have "accepted t' @ todo (filler t') = accepted t @ todo (filler t) \<and> closing (filler t') = closing (filler t)"
    using assms
  proof cases
    case (success_wait c)
    then show ?thesis by (cases c) (simp_all add: set_size_def)
  qed (simp_all add: copy_in_def set_size_def Let_def)
  then show "accepted t' @ todo (filler t') = accepted t @ todo (filler t)" and "closing (filler t') = closing (filler t)" by simp_all
qed

lemma begin_call_accepts:
  assumes "filler t = Ready"
  shows "accepted (begin_call op t) @ todo (filler (begin_call op t)) = accepted t @ todo (filler t) @ op_text op"
    and "closing (filler (begin_call op t)) \<longleftrightarrow> op = Op_destroy" and "stream_call t (begin_call op t)"
proof -
  show "accepted (begin_call op t) @ todo (filler (begin_call op t)) = accepted t @ todo (filler t) @ op_text op"
    and "closing (filler (begin_call op t)) \<longleftrightarrow> op = Op_destroy"
    using assms by (cases op; simp)+
  show "stream_call t (begin_call op t)"
    using call_write [OF assms] call_format [OF assms, of _ 1] call_destroy [OF assms]
    by (cases op) (simp_all add: kToStringMaxBytes_def)
qed

subsection \<open>The calls reach their streams\<close>

text \<open>
  After the calls \<open>D\<close>: every stream is one of \<open>ThreadedStream\<close>, what it has accepted and still has to accept is the
  text of its calls, and it is being closed exactly if one of them was its destruction.
\<close>

definition shard_inv :: "bytes list \<Rightarrow> (nat \<times> stream_op) list \<Rightarrow> Shard \<Rightarrow> bool" where
  "shard_inv memories calls s \<longleftrightarrow> length (sh_out s) = length memories \<and>
     (\<exists>D. calls = D @ sh_calls s \<and>
        (\<forall>i<length memories. stream_reachable (memories ! i) (sh_out s ! i) \<and>
           accepted (sh_out s ! i) @ todo (filler (sh_out s ! i)) = text_for i D \<and>
           (closing (filler (sh_out s ! i)) \<longleftrightarrow> (i, Op_destroy) \<in> set D)))"

lemma shard_inv_start: "shard_inv memories calls (shard_start memories calls)"
proof -
  have "accepted (ThreadedBufferedStream_new m) = []" "filler (ThreadedBufferedStream_new m) = Constructing" for m
    by (simp_all add: ThreadedBufferedStream_new_def)
  then show ?thesis
    unfolding shard_inv_def shard_start_def by (auto intro: stream_start intro!: exI [of _ "[]"])
qed

lemma shard_inv_step:
  assumes "shard_step s s'" and "shard_inv memories calls s"
  shows "shard_inv memories calls s'"
  using assms(1)
proof cases
  case (shard_move i t)
  obtain D where D: "calls = D @ sh_calls s" "\<forall>i<length memories. stream_reachable (memories ! i) (sh_out s ! i) \<and>
      accepted (sh_out s ! i) @ todo (filler (sh_out s ! i)) = text_for i D \<and>
      (closing (filler (sh_out s ! i)) \<longleftrightarrow> (i, Op_destroy) \<in> set D)" and l: "length (sh_out s) = length memories"
    using assms(2) unfolding shard_inv_def by blast
  have "stream_reachable (memories ! i) t" using stream_moved [OF _ shard_move(3)] D(2) l shard_move(2) by simp
  then show ?thesis
    unfolding shard_inv_def using D l shard_move(2) step_accepts [OF shard_move(3)]
    by (intro conjI exI [of _ D]) (simp_all add: shard_move(1) nth_list_update)
next
  case (shard_call i op ops)
  obtain D where D: "calls = D @ sh_calls s" "\<forall>i<length memories. stream_reachable (memories ! i) (sh_out s ! i) \<and>
      accepted (sh_out s ! i) @ todo (filler (sh_out s ! i)) = text_for i D \<and>
      (closing (filler (sh_out s ! i)) \<longleftrightarrow> (i, Op_destroy) \<in> set D)" and l: "length (sh_out s) = length memories"
    using assms(2) unfolding shard_inv_def by blast
  note b = begin_call_accepts [OF shard_call(4), of op]
  have "stream_reachable (memories ! i) (begin_call op (sh_out s ! i))" if "i < length memories"
    using stream_called [OF _ b(3)] D(2) that by simp
  moreover have "accepted (begin_call op (sh_out s ! i)) @ todo (filler (begin_call op (sh_out s ! i))) = text_for i (D @ [(i, op)])"
    if "i < length memories" using b(1) D(2) that by simp
  moreover have "closing (filler (begin_call op (sh_out s ! i))) \<longleftrightarrow> (i, Op_destroy) \<in> set (D @ [(i, op)])" if "i < length memories"
  proof -
    have "\<not> closing (filler (sh_out s ! i))" by (simp add: shard_call(4))
    then show ?thesis using b(2) D(2) that by auto
  qed
  ultimately show ?thesis
    unfolding shard_inv_def using D l
    by (intro conjI exI [of _ "D @ [(i, op)]"]) (auto simp: shard_call(1,2) nth_list_update)
qed

lemma shard_inv_run: "shard_step\<^sup>*\<^sup>* s s' \<Longrightarrow> shard_inv memories calls s \<Longrightarrow> shard_inv memories calls s'"
  by (induction rule: rtranclp_induct) (auto intro: shard_inv_step)

subsection \<open>Every run ends\<close>

abbreviation blocks_allocated :: "bytes list \<Rightarrow> bool" where
  "blocks_allocated memories \<equiv> \<forall>m\<in>set memories. length m = kBlockSize * kBlocks"

fun op_cost :: "stream_op \<Rightarrow> nat" where
  "op_cost (Op_write data) = 7 * length data + 9" | "op_cost (Op_put _) = 9" | "op_cost Op_destroy = 15"

definition shard_bound :: "Shard \<Rightarrow> nat" where
  "shard_bound s = sum_list (map steps_bound (sh_out s)) + sum_list (map (op_cost \<circ> snd) (sh_calls s))"

lemma sum_list_update_less:
  fixes g :: "'a \<Rightarrow> nat"
  assumes "i < length xs" and "g x < g (xs ! i) + c"
  shows "sum_list (map g (xs[i := x])) < sum_list (map g xs) + c"
proof -
  have "g (xs ! i) \<le> sum_list (map g xs)" using elem_le_sum_list [of i "map g xs"] assms(1) by simp
  then show ?thesis using assms by (simp add: map_update sum_list_update)
qed

lemma steps_bound_begin:
  assumes "filler t = Ready"
  shows "steps_bound (begin_call op t) < steps_bound t + op_cost op"
  using assms by (cases op) (simp_all add: steps_bound_def)

lemma shard_stream_ok:
  assumes "shard_inv memories calls s" and "blocks_allocated memories" and "i < length memories"
  shows "ThreadedStream.stream_ok (sh_out s ! i)"
  using assms stream_reachable_ok [of "memories ! i"] unfolding shard_inv_def by (metis nth_mem)

lemma shard_bound_step:
  assumes "shard_step s s'" and "shard_inv memories calls s" and "blocks_allocated memories" and "\<forall>c\<in>set calls. fst c < length memories"
  shows "shard_bound s' < shard_bound s"
  using assms(1)
proof cases
  case (shard_move i t)
  have "steps_bound t < steps_bound (sh_out s ! i)"
    using steps_bound_step [OF shard_move(3)] shard_stream_ok [OF assms(2,3)] shard_move(2) assms(2) by (simp add: shard_inv_def)
  then show ?thesis
    using sum_list_update_less [OF shard_move(2), of steps_bound t 0] by (simp add: shard_move(1) shard_bound_def)
next
  case (shard_call i op ops)
  have "i < length (sh_out s)" using assms(2,4) shard_call(2) unfolding shard_inv_def by fastforce
  then show ?thesis
    using sum_list_update_less [of i "sh_out s" steps_bound "begin_call op (sh_out s ! i)" "op_cost op"] steps_bound_begin [OF shard_call(4), of op]
    by (simp add: shard_call(1,2) shard_bound_def)
qed

lemma shard_bound_run:
  assumes "blocks_allocated memories" and "\<forall>c\<in>set calls. fst c < length memories"
  shows "(shard_step ^^ k) s s' \<Longrightarrow> shard_inv memories calls s \<Longrightarrow> shard_inv memories calls s' \<and> k + shard_bound s' \<le> shard_bound s"
proof (induction k arbitrary: s')
  case (Suc k)
  then obtain t where t: "(shard_step ^^ k) s t" "shard_step t s'" by auto
  then have "shard_inv memories calls t" "k + shard_bound t \<le> shard_bound s" using Suc by auto
  then show ?case using shard_inv_step [OF t(2)] shard_bound_step [OF t(2) _ assms] by simp
qed simp

lemma shard_ends_exists:
  assumes "blocks_allocated memories" and "\<forall>c\<in>set calls. fst c < length memories"
  shows "shard_inv memories calls s \<Longrightarrow> \<exists>s'. shard_step\<^sup>*\<^sup>* s s' \<and> (\<nexists>s''. shard_step s' s'')"
proof (induction "shard_bound s" arbitrary: s rule: less_induct)
  case less
  show ?case
  proof (cases "\<exists>t. shard_step s t")
    case True
    then obtain t where t: "shard_step s t" by blast
    show ?thesis
      using less.hyps [OF shard_bound_step [OF t less.prems assms] shard_inv_step [OF t less.prems]] t
      by (meson converse_rtranclp_into_rtranclp)
  qed auto
qed

subsection \<open>What the streams have at the end\<close>

text \<open>No call comes after the destruction of its stream.\<close>

definition destroyed_last :: "(nat \<times> stream_op) list \<Rightarrow> bool" where
  "destroyed_last = sorted_wrt (\<lambda>a b. a \<noteq> (fst b, Op_destroy))"

lemma shard_ends_closed:
  assumes "shard_inv memories calls s" and "\<nexists>s'. shard_step s s'" and "blocks_allocated memories"
    and "\<forall>c\<in>set calls. fst c < length memories" and "destroyed_last calls" and "\<forall>i<length memories. (i, Op_destroy) \<in> set calls"
  shows "sh_calls s = []" and "length (sh_out s) = length memories"
    and "\<forall>i<length memories. filler (sh_out s ! i) = Closed \<and> concat (written (sh_out s ! i)) = text_for i calls \<and>
      flushed (sh_out s ! i) \<and> [] \<notin> set (written (sh_out s ! i))"
proof -
  obtain D where D: "calls = D @ sh_calls s" "\<forall>i<length memories. accepted (sh_out s ! i) @ todo (filler (sh_out s ! i)) = text_for i D \<and>
      (closing (filler (sh_out s ! i)) \<longleftrightarrow> (i, Op_destroy) \<in> set D)" and l: "length (sh_out s) = length memories"
    using assms(1) unfolding shard_inv_def by blast
  then show "length (sh_out s) = length memories" by simp
  note ok = shard_stream_ok [OF assms(1,3)]
  have idle: "idle (sh_out s ! i)" if "i < length memories" for i
    using stuck_filler [OF ok [OF that]] assms(2) shard_move [of i s] that l by auto
  show nil: "sh_calls s = []"
  proof (cases "sh_calls s")
    case (Cons c ops)
    obtain i op where c: "c = (i, op)" by (cases c)
    have i: "i < length memories" using assms(4) by (auto simp: D(1) Cons c)
    have "(i, Op_destroy) \<notin> set D" using assms(5) unfolding destroyed_last_def D(1) Cons c by (auto simp: sorted_wrt_append)
    then have "filler (sh_out s ! i) = Ready" using idle [OF i] D(2) i by auto
    moreover have "\<forall>t\<in>set (sh_out s). idle t" using idle l by (metis in_set_conv_nth)
    ultimately show ?thesis using shard_call [OF Cons [unfolded c]] assms(2) by blast
  qed simp
  show "\<forall>i<length memories. filler (sh_out s ! i) = Closed \<and> concat (written (sh_out s ! i)) = text_for i calls \<and>
      flushed (sh_out s ! i) \<and> [] \<notin> set (written (sh_out s ! i))"
  proof (intro allI impI)
    fix i assume i: "i < length memories"
    have "(i, Op_destroy) \<in> set D" using assms(6) i by (simp add: D(1) nil)
    then have cl: "filler (sh_out s ! i) = Closed" using idle [OF i] D(2) i by auto
    then show "filler (sh_out s ! i) = Closed \<and> concat (written (sh_out s ! i)) = text_for i calls \<and>
        flushed (sh_out s ! i) \<and> [] \<notin> set (written (sh_out s ! i))"
      using closed_stream [OF ok [OF i] cl] D(2) i by (auto simp: D(1) nil)
  qed
qed

subsection \<open>The calls of \<^verbatim>\<open>main\<close>\<close>

text \<open>The output that a line belongs to: the hash of the texts of its key, modulo the number of outputs.\<close>

definition shard_of :: "FieldRange list \<Rightarrow> byte \<Rightarrow> nat \<Rightarrow> bytes \<Rightarrow> nat" where
  "shard_of ranges delim_char n l = unat (hash_texts 47849374332489 (range_texts delim_char l ranges)) mod n"

definition calls_for :: "FieldRange list \<Rightarrow> byte \<Rightarrow> nat \<Rightarrow> bytes list \<Rightarrow> (nat \<times> stream_op) list" where
  "calls_for ranges delim_char n ls =
     concat (map (\<lambda>l. [(shard_of ranges delim_char n l, Op_write l), (shard_of ranges delim_char n l, Op_put newline)]) ls) @
     map (\<lambda>i. (i, Op_destroy)) (rev [0..<n])"

lemma shard_body_eq:
  assumes "proper_ranges ranges" and "0 < n" and "n < 2 ^ 64"
  shows "shard_body (of_nat n) ranges d calls l =
    Some (Inr (calls @ [(shard_of ranges d n l, Op_write l), (shard_of ranges d n l, Op_put newline)]))"
proof -
  have n: "unat (of_nat n :: u64) = n" using assms(3) by (simp add: unat_of_nat take_bit_eq_mod)
  then have nz: "(of_nat n :: u64) \<noteq> 0" using assms(2) by (metis less_irrefl unat_0)
  obtain cb where "RangeFields l ranges d HashCallback_call HashCallback_default = Some cb"
    "hc_hash cb = hash_texts 47849374332489 (range_texts d l ranges)"
    using RangeFields_hash [OF assms(1), of l d 47849374332489] by (auto simp: HashCallback_default_def)
  then show ?thesis using nz by (simp add: shard_body_def Let_def unat_mod_distrib n shard_of_def)
qed

lemma shard_calls_eq:
  assumes "opens env decodes stdin content" and "proper_ranges ranges" and "0 < n" and "n < 2 ^ 64"
  shows "shard_calls env ranges d n stdin = Some (Inr (calls_for ranges d n (text_lines newline True content)))"
proof -
  have "fold_result (shard_body (of_nat n) ranges d) calls ls =
      Some (Inr (calls @ concat (map (\<lambda>l. [(shard_of ranges d n l, Op_write l), (shard_of ranges d n l, Op_put newline)]) ls)))" for calls ls
    by (induction ls arbitrary: calls) (simp_all add: shard_body_eq [OF assms(2-4)])
  then show ?thesis by (simp add: shard_calls_def load_lines_fold [OF assms(1)] calls_for_def)
qed

lemma calls_for_good:
  assumes "0 < n"
  shows "\<forall>c\<in>set (calls_for ranges d n ls). fst c < n" and "destroyed_last (calls_for ranges d n ls)"
    and "\<forall>i<n. (i, Op_destroy) \<in> set (calls_for ranges d n ls)"
    and "text_for i (calls_for ranges d n ls) = unlines (filter (\<lambda>l. shard_of ranges d n l = i) ls)"
proof -
  let ?w = "concat (map (\<lambda>l. [(shard_of ranges d n l, Op_write l), (shard_of ranges d n l, Op_put newline)]) ls)"
  show "\<forall>c\<in>set (calls_for ranges d n ls). fst c < n" using assms by (auto simp: calls_for_def shard_of_def)
  show "\<forall>i<n. (i, Op_destroy) \<in> set (calls_for ranges d n ls)" by (auto simp: calls_for_def)
  have w: "\<forall>c\<in>set ?w. snd c \<noteq> Op_destroy" by auto
  have d: "sorted_wrt (\<lambda>a b. a \<noteq> (fst b, Op_destroy)) (map (\<lambda>i. (i, Op_destroy)) is)" if "distinct is" for "is"
    using that by (induction "is") auto
  have "sorted_wrt (\<lambda>a b. a \<noteq> (fst b, Op_destroy)) xs" if "\<forall>c\<in>set xs. snd c \<noteq> Op_destroy" for xs :: "(nat \<times> stream_op) list"
    using that by (induction xs) auto
  from this [OF w] show "destroyed_last (calls_for ranges d n ls)"
    unfolding destroyed_last_def calls_for_def sorted_wrt_append using d [of "rev [0..<n]"] w by fastforce
  have "text_for i ?w = unlines (filter (\<lambda>l. shard_of ranges d n l = i) ls)" by (induction ls) simp_all
  moreover have "text_for i (map (\<lambda>i. (i, Op_destroy)) is) = []" for "is" by (induction "is") simp_all
  ultimately show "text_for i (calls_for ranges d n ls) = unlines (filter (\<lambda>l. shard_of ranges d n l = i) ls)"
    by (simp add: calls_for_def)
qed

lemma mset_parts:
  assumes "distinct is" and "\<And>x. x \<in> set xs \<Longrightarrow> g x \<in> set is"
  shows "mset (concat (map (\<lambda>i. filter (\<lambda>x. g x = i) xs) is)) = mset xs"
proof -
  have "mset (concat (map (\<lambda>i. filter (\<lambda>x. g x = i) xs) is)) = filter_mset (\<lambda>x. g x \<in> set is) (mset xs)"
    using assms(1) by (induction "is") (auto intro!: multiset_eqI simp: mset_filter)
  also have "\<dots> = mset xs" using assms(2) by (simp add: filter_mset_eq_conv)
  finally show ?thesis .
qed

subsection \<open>What is in the files\<close>

lemma data_of_blocks: "data_of (map Write bs @ [Flush]) = concat bs"
  by (induction bs) simp_all

text \<open>A file with the lines of an output, compressed as the option says.\<close>

definition shard_file :: "'z Library \<Rightarrow> Desc \<Rightarrow> Compression \<Rightarrow> bytes \<Rightarrow> 'c WriteBase \<Rightarrow> bool" where
  "shard_file rlib fd compression content w \<longleftrightarrow>
     (\<exists>f. d_out (descriptor w) = d_out fd @ f \<and> (if compression = NONE then f = content else read_gives rlib f content))"

lemma shard_writer_good:
  assumes "write_library_ok lib encoding complete work" and "library_ok rlib rdecodes" and "reads_back complete rlib rdecodes"
    and fd: "steady fd" and "compression \<noteq> XZIP" and "[] \<notin> set (written t)" and "concat (written t) = content"
  shows "if compression = GZIP \<and> content = [] then shard_writer lib fd compression t = None
    else \<exists>w. shard_writer lib fd compression t = Some (Inr w) \<and> shard_file rlib fd compression content w"
proof -
  let ?xs = "map Write (written t) @ [Flush]"
  have x: "data_of ?xs = content" using data_of_blocks assms(7) by simp
  have first: "(\<exists>d ys. ?xs = Write d # ys) \<longleftrightarrow> content \<noteq> []"
    using assms(6,7) by (cases "written t") auto
  consider "compression = NONE" | "compression = GZIP" "content = []" | "stream_format compression" "compression = GZIP \<longrightarrow> content \<noteq> []"
    using assms(5) by (cases compression) auto
  then show ?thesis
  proof cases
    case 1
    then show ?thesis using do_calls_plain [OF fd, of lib ?xs] x by (auto simp: shard_writer_def shard_file_def)
  next
    case 2
    obtain ws where "WriteCompressed_new lib fd GZIP = Inr (Stream ws)"
      using WriteCompressed_new_good [OF assms(1) _ fd, of GZIP] by blast
    then show ?thesis using WriteCompressed_gzip_no_write [of lib fd "Stream ws" ?xs] first 2 by (simp add: shard_writer_def)
  next
    case 3
    then obtain w w' f where "WriteCompressed_new lib fd compression = Inr w" "do_calls lib w ?xs = Some (Inr w')"
      "d_out (descriptor w') = d_out fd @ f" "read_gives rlib f content"
      using WriteCompressed_reads_back [OF assms(1-3) fd 3(1), of ?xs] first x by auto
    then show ?thesis using 3 by (auto simp: shard_writer_def shard_file_def)
  qed
qed

text \<open>
  C24. However the threads of its outputs interleave, \<^verbatim>\<open>shard\<close> ends after a bounded number of steps, and in no
  other state than with every output closed. Every line is then in exactly one output, the one whose
  number is the hash of the line's key modulo the number of outputs, so that lines with the same key come
  together, in the order of the input: uncompressed the file has these lines, and compressed it reads back
  as these lines. Only with gzip an output without lines has no defined result, since its \<^verbatim>\<open>WriteStream\<close> is
  flushed before anything was written.
\<close>

theorem shard_main_correct:
  fixes d :: byte
  assumes "opens env decodes stdin content" and "ordered_ranges ranges" and "nonempty_ranges ranges"
    and "out \<noteq> []" and "length out < 2 ^ 64" and "\<forall>fd\<in>set out. no_failure (d_answers fd) \<and> SyncFailed \<notin> set (d_syncs fd)"
    and "length memories = length out" and "\<forall>m\<in>set memories. length m = kBlockSize * kBlocks" and "compression \<noteq> XZIP"
    and "write_library_ok lib encoding complete work" and "library_ok rlib rdecodes" and "reads_back complete rlib rdecodes"
  defines "ls \<equiv> text_lines newline True content"
  defines "part \<equiv> \<lambda>i. filter (\<lambda>l. shard_of ranges d (length out) l = i) ls"
  shows "(\<exists>calls bound. shard_calls env ranges d (length out) stdin = Some (Inr calls) \<and>
      (\<forall>k s. (shard_step ^^ k) (shard_start memories calls) s \<longrightarrow> k \<le> bound) \<and>
      (\<forall>s. shard_ends memories calls s \<longrightarrow> sh_calls s = [] \<and> (\<forall>t\<in>set (sh_out s). filler t = Closed \<and> flushed t))) \<and>
    (\<exists>ws. shard_main env lib ranges d compression out memories stdin ws) \<and>
    (\<forall>ws. shard_main env lib ranges d compression out memories stdin ws \<longrightarrow> length ws = length out \<and>
      (\<forall>i<length out. if compression = GZIP \<and> part i = [] then ws ! i = None
        else \<exists>w. ws ! i = Some (Inr w) \<and> shard_file rlib (out ! i) compression (unlines (part i)) w)) \<and>
    mset (concat (map part [0..<length out])) = mset ls"
proof -
  have n: "0 < length out" using assms(4) by simp
  define calls where "calls = calls_for ranges d (length out) ls"
  have calls: "shard_calls env ranges d (length out) stdin = Some (Inr calls)"
    using shard_calls_eq [OF assms(1) _ n assms(5)] assms(2,3) by (simp add: calls_def ls_def)
  note good = calls_for_good [OF n, where ranges = ranges and d = d and ls = ls, folded calls_def, folded assms(7)]
  note inv = shard_inv_start [of memories calls]
  have ends: "sh_calls s = []" "length (sh_out s) = length memories"
      "\<forall>i<length memories. filler (sh_out s ! i) = Closed \<and> concat (written (sh_out s ! i)) = text_for i calls \<and>
        flushed (sh_out s ! i) \<and> [] \<notin> set (written (sh_out s ! i))" if s: "shard_ends memories calls s" for s
    using shard_ends_closed [OF shard_inv_run [OF _ inv] _ assms(8) good(1-3)] s unfolding shard_ends_def by blast+
  have "k \<le> shard_bound (shard_start memories calls)" if "(shard_step ^^ k) (shard_start memories calls) s" for k s
    using shard_bound_run [OF assms(8) good(1) that inv] by simp
  moreover have "filler t = Closed \<and> flushed t" if "shard_ends memories calls s" "t \<in> set (sh_out s)" for s t
    using ends(2,3) [OF that(1)] that(2) by (metis in_set_conv_nth)
  moreover obtain s where "shard_ends memories calls s"
    using shard_ends_exists [OF assms(8) good(1) inv] unfolding shard_ends_def by blast
  moreover have "length ws = length out \<and> (\<forall>i<length out. if compression = GZIP \<and> part i = [] then ws ! i = None
        else \<exists>w. ws ! i = Some (Inr w) \<and> shard_file rlib (out ! i) compression (unlines (part i)) w)"
    if ws: "shard_main env lib ranges d compression out memories stdin ws" for ws
  proof -
    obtain s where s: "shard_ends memories calls s" "ws = map2 (\<lambda>fd. shard_writer lib fd compression) out (sh_out s)"
      using ws calls by (auto simp: shard_main_def)
    note e = ends [OF s(1), unfolded assms(7)]
    have "if compression = GZIP \<and> part i = [] then ws ! i = None
        else \<exists>w. ws ! i = Some (Inr w) \<and> shard_file rlib (out ! i) compression (unlines (part i)) w" if i: "i < length out" for i
    proof -
      have tx: "text_for i calls = unlines (part i)" using calls_for_good(4) [OF n] by (simp add: calls_def part_def)
      have at: "ws ! i = shard_writer lib (out ! i) compression (sh_out s ! i)" using i e(2) by (simp add: s(2))
      have "if compression = GZIP \<and> unlines (part i) = [] then shard_writer lib (out ! i) compression (sh_out s ! i) = None
        else \<exists>w. shard_writer lib (out ! i) compression (sh_out s ! i) = Some (Inr w) \<and>
          shard_file rlib (out ! i) compression (unlines (part i)) w"
        by (rule shard_writer_good [OF assms(10-12) _ assms(9)]) (use e(3) i assms(6) tx in auto)
      then show ?thesis unfolding at unlines_empty .
    qed
    moreover have "length ws = length out" using e(2) by (simp add: s(2))
    ultimately show ?thesis by blast
  qed
  moreover have "mset (concat (map part [0..<length out])) = mset ls"
    unfolding part_def by (rule mset_parts) (use n in \<open>simp_all add: shard_of_def\<close>)
  ultimately show ?thesis using calls ends(1) unfolding shard_main_def by blast
qed

subsection \<open>The names of the shards\<close>

lemma count_digits_bound: "0 < n \<Longrightarrow> n < 10 ^ count_digits n"
proof (induction n rule: less_induct)
  case (less n)
  show ?case
  proof (cases "n div 10 = 0")
    case True
    then show ?thesis using less.prems by (simp add: count_digits.simps [of n] count_digits.simps [of 0])
  next
    case False
    then have "n div 10 < 10 ^ count_digits (n div 10)" using less by simp
    then show ?thesis using less.prems by (simp add: count_digits.simps [of n])
  qed
qed

lemma dec_value_zeros: "dec_value (replicate k 48 @ ds) = dec_value ds"
  by (induction k) (simp_all add: dec_value_def digit_value_def)

text \<open>The names differ, and when there are two or more outputs they have the same length, so that they sort by number.\<close>

lemma shard_names_distinct: "distinct (shard_names p n)"
proof -
  have "inj_on (\<lambda>i. p @ replicate (d - length (dec i)) 48 @ dec i) A" for d A
  proof (rule inj_onI)
    fix i j assume "p @ replicate (d - length (dec i)) 48 @ dec i = p @ replicate (d - length (dec j)) 48 @ dec j"
    then have "dec_value (replicate (d - length (dec i)) 48 @ dec i) = dec_value (replicate (d - length (dec j)) 48 @ dec j)" by simp
    then show "i = j" by (simp add: dec_value_zeros)
  qed
  then show ?thesis by (simp add: shard_names_def Let_def distinct_map)
qed

lemma shard_names_length:
  assumes "1 < n" and "w \<in> set (shard_names p n)"
  shows "length w = length p + count_digits (unat (n - 1))"
proof -
  let ?d = "count_digits (unat (n - 1))"
  have n: "unat (n - 1) = unat n - 1" "0 < unat n - 1" using assms(1) unat_sub [of 1 n] by (simp_all add: word_less_nat_alt word_le_nat_alt)
  obtain i where i: "i < unat n" "w = p @ replicate (?d - length (dec i)) 48 @ dec i" using assms(2) by (auto simp: shard_names_def Let_def)
  have big: "unat n - 1 < 10 ^ ?d" using count_digits_bound [of "unat n - 1"] n by simp
  then have "0 < ?d" using n(2) by (cases ?d) auto
  then have "length (dec i) \<le> ?d" using length_dec [of i ?d] i(1) big by simp
  then show ?thesis unfolding i(2) by simp
qed

subsection \<open>Two outputs\<close>

lemma small_shards:
  "shard_of [\<lparr>fr_begin = 0, fr_end = 1\<rparr>] tab 2 (lit ''a'') = 1" "shard_of [\<lparr>fr_begin = 0, fr_end = 1\<rparr>] tab 2 (lit ''b'') = 0"
proof -
  have "hash_texts 47849374332489 (range_texts tab (lit ''a'') [\<lparr>fr_begin = 0, fr_end = 1\<rparr>]) = 0x77459d7465125607"
    "hash_texts 47849374332489 (range_texts tab (lit ''b'') [\<lparr>fr_begin = 0, fr_end = 1\<rparr>]) = 0x499e2a8d292c67cc"
    by code_simp+
  then show "shard_of [\<lparr>fr_begin = 0, fr_end = 1\<rparr>] tab 2 (lit ''a'') = 1" "shard_of [\<lparr>fr_begin = 0, fr_end = 1\<rparr>] tab 2 (lit ''b'') = 0"
    by (simp_all only: shard_of_def, simp_all)
qed

theorem shard_main_correct_witness:
  "\<exists>w0 w1. shard_main (small_env small_file) stored_write_library [\<lparr>fr_begin = 0, fr_end = 1\<rparr>] tab GZIP [small_out, small_out]
      [stream_memory, stream_memory] (small_fd small_file) [Some (Inr w0), Some (Inr w1)] \<and>
    shard_file stored_library small_out GZIP (lit ''b'' @ [10]) w0 \<and>
    shard_file stored_library small_out GZIP (lit ''a'' @ [10] @ lit ''a'' @ [10]) w1"
proof -
  let ?r = "[\<lparr>fr_begin = 0, fr_end = 1\<rparr>] :: FieldRange list" and ?o = "[small_out, small_out]" and ?m = "[stream_memory, stream_memory]"
  have r: "ordered_ranges ?r" "nonempty_ranges ?r" by (simp_all add: ordered_ranges_def)
  have o: "?o \<noteq> []" "length ?o < 2 ^ 64" "\<forall>fd\<in>set ?o. no_failure (d_answers fd) \<and> SyncFailed \<notin> set (d_syncs fd)"
    using small_out_ok(1) by simp_all
  have m: "length ?m = length ?o" "\<forall>m\<in>set ?m. length m = kBlockSize * kBlocks" by (simp_all add: stream_memory_def)
  have part: "filter (\<lambda>l. shard_of ?r tab (length ?o) l = 0) [lit ''a'', lit ''b'', lit ''a''] = [lit ''b'']"
    "filter (\<lambda>l. shard_of ?r tab (length ?o) l = 1) [lit ''a'', lit ''b'', lit ''a''] = [lit ''a'', lit ''a'']"
    using small_shards by (simp_all add: numeral_2_eq_2)
  have gz: "GZIP \<noteq> XZIP" by simp
  note c = shard_main_correct [OF small_file_opens r o m gz stored_write_library_ok stored_library_ok stored_reads_back,
      where d = tab, unfolded small_lines]
  obtain ws where ws: "shard_main (small_env small_file) stored_write_library ?r tab GZIP ?o ?m (small_fd small_file) ws"
    using c by blast
  have w: "length ws = length ?o \<and> (\<forall>i<length ?o. if GZIP = GZIP \<and> filter (\<lambda>l. shard_of ?r tab (length ?o) l = i) [lit ''a'', lit ''b'', lit ''a''] = []
      then ws ! i = None
      else \<exists>w. ws ! i = Some (Inr w) \<and> shard_file stored_library (?o ! i) GZIP
        (unlines (filter (\<lambda>l. shard_of ?r tab (length ?o) l = i) [lit ''a'', lit ''b'', lit ''a''])) w)"
    using c ws by blast
  then have l: "length ws = 2" by simp
  have two: "0 < length ?o" "1 < length ?o" by simp_all
  obtain w0 where w0: "ws ! 0 = Some (Inr w0)" "shard_file stored_library small_out GZIP (unlines [lit ''b'']) w0"
    using w [THEN conjunct2, rule_format, OF two(1)] unfolding part by auto
  obtain w1 where w1: "ws ! 1 = Some (Inr w1)" "shard_file stored_library small_out GZIP (unlines [lit ''a'', lit ''a'']) w1"
    using w [THEN conjunct2, rule_format, OF two(2)] unfolding part by auto
  have "ws = [Some (Inr w0), Some (Inr w1)]" using l w0(1) w1(1) by (auto intro!: nth_equalityI simp: less_2_cases_iff)
  then show ?thesis using ws w0(2) w1(2) by auto
qed

end
