(* ===== verification/Pools.thy ===== *)
theory Pools
  imports Prelude
begin

text \<open>
  The memory pools: \<^verbatim>\<open>Pool\<close> and \<^verbatim>\<open>FreePool\<close> (\<^verbatim>\<open>src/util/pool.hh\<close>, \<^verbatim>\<open>src/util/pool.cc\<close>), and \<^verbatim>\<open>ObjectPool\<close> with its
  \<^verbatim>\<open>FixedArray\<close> (\<^verbatim>\<open>src/util/object_pool.hh\<close>, \<^verbatim>\<open>src/util/fixed_array.hh\<close>). A pointer is the number of a block,
  from 1, and an offset; the null pointer stands at the start of block 0, which has no bytes. What
  \<^verbatim>\<open>malloc\<close> returns, or that it fails, is a parameter that depends on how many blocks there are
  already. Addresses are taken not to overflow.
\<close>

subsection \<open>\<open>Pool\<close>\<close>

type_synonym ptr = "nat \<times> nat"
type_synonym mallocs = "nat \<Rightarrow> nat \<Rightarrow> bytes option"

record Pool =
  pl_free_list :: "bytes list"
  pl_current :: ptr
  pl_current_end :: ptr

definition Pool_new :: Pool where
  "Pool_new = \<lparr>pl_free_list = [], pl_current = (0, 0), pl_current_end = (0, 0)\<rparr>"

definition Pool_FreeAll :: "Pool \<Rightarrow> Pool" where
  "Pool_FreeAll p = p\<lparr>pl_free_list := [], pl_current := (0, 0), pl_current_end := (0, 0)\<rparr>"

definition block :: "Pool \<Rightarrow> nat \<Rightarrow> bytes" where
  "block p b = (if b = 0 then [] else pl_free_list p ! (b - 1))"

definition peek :: "Pool \<Rightarrow> ptr \<Rightarrow> nat \<Rightarrow> bytes" where
  "peek p q n = take n (drop (snd q) (block p (fst q)))"

definition poke :: "Pool \<Rightarrow> ptr \<Rightarrow> bytes \<Rightarrow> Pool" where
  "poke p q d =
     (let m = block p (fst q)
      in if fst q = 0 then p
         else p\<lparr>pl_free_list := (pl_free_list p)[fst q - 1 := take (snd q) m @ d @ drop (snd q + length d) m]\<rparr>)"

definition More :: "mallocs \<Rightarrow> Pool \<Rightarrow> nat \<Rightarrow> Pool \<times> ptr result" where
  "More malloc p sz =
     (let amount = max (unat (push_bit (length (pl_free_list p)) (32 :: u64))) sz;
          b = Suc (length (pl_free_list p))
      in case malloc (length (pl_free_list p)) amount of
           None \<Rightarrow> (p, Inl ErrnoException)
         | Some m \<Rightarrow> (p\<lparr>pl_free_list := pl_free_list p @ [m], pl_current := (b, sz), pl_current_end := (b, amount)\<rparr>, Inr (b, 0)))"

definition Pool_Allocate :: "mallocs \<Rightarrow> Pool \<Rightarrow> nat \<Rightarrow> Pool \<times> ptr result" where
  "Pool_Allocate malloc p sz =
     (let ret = pl_current p; p = p\<lparr>pl_current := (fst ret, snd ret + sz)\<rparr>
      in if snd (pl_current p) > snd (pl_current_end p) then More malloc p sz else (p, Inr ret))"

definition Pool_Continue :: "mallocs \<Rightarrow> Pool \<Rightarrow> ptr \<Rightarrow> int \<Rightarrow> Pool \<times> (bool \<times> ptr) result" where
  "Pool_Continue malloc p base additional =
     (let current = nat (int (snd (pl_current p)) + additional); p = p\<lparr>pl_current := (fst (pl_current p), current)\<rparr>
      in if current > snd (pl_current_end p) then
           (let new_total = current - snd base
            in case More malloc p new_total of
                 (p, Inl e) \<Rightarrow> (p, Inl e)
               | (p, Inr new_base) \<Rightarrow> (poke p new_base (peek p base (nat (int new_total - additional))), Inr (True, new_base)))
         else (p, Inr (False, base)))"

subsection \<open>A client of the pool\<close>

text \<open>
  A client keeps what it believes to be in the memory it was given, the newest allocation first, and
  whether the last call that gives memory succeeded: only then may it call \<^verbatim>\<open>Continue\<close>. Calls that are not allowed do nothing.
\<close>

record Client =
  cl_pool :: Pool
  cl_live :: "(ptr \<times> bytes) list"
  cl_recent :: bool

datatype pool_op = OpAllocate nat | OpContinue int | OpWrite nat bytes | OpFreeAll

fun client_step :: "mallocs \<Rightarrow> Client \<Rightarrow> pool_op \<Rightarrow> Client" where
  "client_step malloc s (OpAllocate sz) =
     (case Pool_Allocate malloc (cl_pool s) sz of
        (p, Inl e) \<Rightarrow> s\<lparr>cl_pool := p, cl_recent := False\<rparr>
      | (p, Inr q) \<Rightarrow> \<lparr>cl_pool = p, cl_live = (q, peek p q sz) # cl_live s, cl_recent = True\<rparr>)"
| "client_step malloc s (OpContinue additional) =
     (case cl_live s of
        [] \<Rightarrow> s
      | (base, bs) # live \<Rightarrow>
          if \<not> cl_recent s \<or> int (length bs) + additional < 0 then s
          else let n = nat (int (length bs) + additional)
               in case Pool_Continue malloc (cl_pool s) base additional of
                    (p, Inl e) \<Rightarrow> s\<lparr>cl_pool := p, cl_recent := False\<rparr>
                  | (p, Inr (_, q)) \<Rightarrow>
                      \<lparr>cl_pool = p, cl_live = (q, take n bs @ drop (length bs) (peek p q n)) # live, cl_recent = True\<rparr>)"
| "client_step malloc s (OpWrite i d) =
     (if i < length (cl_live s) \<and> length d = length (snd (cl_live s ! i))
      then s\<lparr>cl_pool := poke (cl_pool s) (fst (cl_live s ! i)) d, cl_live := (cl_live s)[i := (fst (cl_live s ! i), d)]\<rparr> else s)"
| "client_step malloc s OpFreeAll = \<lparr>cl_pool = Pool_FreeAll (cl_pool s), cl_live = [], cl_recent = False\<rparr>"

definition client_new :: Client where
  "client_new = \<lparr>cl_pool = Pool_new, cl_live = [], cl_recent = False\<rparr>"

definition malloc_ok :: "mallocs \<Rightarrow> bool" where
  "malloc_ok malloc \<longleftrightarrow> (\<forall>i n m. malloc i n = Some m \<longrightarrow> length m = n)"

definition inside :: "Pool \<Rightarrow> ptr \<Rightarrow> nat \<Rightarrow> bool" where
  "inside p q n \<longleftrightarrow> fst q \<le> length (pl_free_list p) \<and> snd q + n \<le> length (block p (fst q))"

text \<open>An older allocation is in another block or ends before the newer one begins.\<close>

definition before :: "ptr \<times> bytes \<Rightarrow> ptr \<times> bytes \<Rightarrow> bool" where
  "before old new \<longleftrightarrow> fst (fst old) \<noteq> fst (fst new) \<or> snd (fst old) + length (snd old) \<le> snd (fst new)"

definition pool_ok :: "Pool \<Rightarrow> bool" where
  "pool_ok p \<longleftrightarrow> fst (pl_current p) = length (pl_free_list p) \<and> snd (pl_current_end p) = length (block p (length (pl_free_list p)))"

definition live_ok :: "Pool \<Rightarrow> ptr \<times> bytes \<Rightarrow> bool" where
  "live_ok p a \<longleftrightarrow> inside p (fst a) (length (snd a)) \<and> peek p (fst a) (length (snd a)) = snd a \<and> before a (pl_current p, [])"

definition client_ok :: "Client \<Rightarrow> bool" where
  "client_ok s \<longleftrightarrow>
     pool_ok (cl_pool s) \<and> (\<forall>a\<in>set (cl_live s). live_ok (cl_pool s) a) \<and> sorted_wrt (\<lambda>new old. before old new) (cl_live s) \<and>
     (cl_recent s \<longrightarrow> snd (pl_current (cl_pool s)) \<le> snd (pl_current_end (cl_pool s)) \<and>
        (\<exists>q bs live. cl_live s = (q, bs) # live \<and> fst q = fst (pl_current (cl_pool s)) \<and> snd q + length bs = snd (pl_current (cl_pool s))))"

lemma client_new_ok: "client_ok client_new"
  by (simp add: client_ok_def client_new_def Pool_new_def pool_ok_def block_def)

lemma block_current [simp]: "block (p\<lparr>pl_current := c\<rparr>) b = block p b"
  by (simp add: block_def)

lemma peek_current [simp]: "peek (p\<lparr>pl_current := c\<rparr>) q n = peek p q n"
  by (simp add: peek_def)

lemma length_peek: "inside p q n \<Longrightarrow> length (peek p q n) = n"
  unfolding peek_def inside_def by (simp add: min_def) linarith

text \<open>What a new block leaves alone.\<close>

lemma block_more: "b \<le> length (pl_free_list p) \<Longrightarrow> block (p\<lparr>pl_free_list := pl_free_list p @ [m], pl_current := c, pl_current_end := e\<rparr>) b = block p b"
  by (cases b) (simp_all add: block_def nth_append)

lemma More_cases:
  assumes "malloc_ok malloc" and "pool_ok p"
  obtains "More malloc p sz = (p, Inl ErrnoException)"
  | p' where "More malloc p sz = (p', Inr (Suc (length (pl_free_list p)), 0))" "pool_ok p'"
    "length (pl_free_list p') = Suc (length (pl_free_list p))" "pl_current p' = (Suc (length (pl_free_list p)), sz)"
    "inside p' (Suc (length (pl_free_list p)), 0) sz" "sz \<le> snd (pl_current_end p')"
    "\<And>b. b \<le> length (pl_free_list p) \<Longrightarrow> block p' b = block p b"
proof -
  let ?n = "length (pl_free_list p)" and ?amount = "max (unat (push_bit (length (pl_free_list p)) (32 :: u64))) sz"
  show thesis
  proof (cases "malloc ?n ?amount")
    case None
    then show ?thesis using that(1) by (simp add: More_def Let_def)
  next
    case (Some m)
    let ?p = "p\<lparr>pl_free_list := pl_free_list p @ [m], pl_current := (Suc ?n, sz), pl_current_end := (Suc ?n, ?amount)\<rparr>"
    have m: "length m = ?amount" using Some assms(1) by (simp add: malloc_ok_def)
    have b: "block ?p (Suc ?n) = m" by (simp add: block_def)
    show ?thesis
    proof (rule that(2))
      show "More malloc p sz = (?p, Inr (Suc ?n, 0))" using Some by (simp add: More_def Let_def)
      show "pool_ok ?p" using m b by (simp add: pool_ok_def)
      show "inside ?p (Suc ?n, 0) sz" using m b by (simp add: inside_def)
    qed (simp_all add: block_more)
  qed
qed

text \<open>Blocks that stay as they are keep what is known of the allocations in them.\<close>

lemma live_ok_mono:
  assumes "live_ok p a" and "length (pl_free_list p) \<le> length (pl_free_list p')"
    and "block p' (fst (fst a)) = block p (fst (fst a))"
    and "fst (pl_current p') = fst (pl_current p) \<longrightarrow> snd (pl_current p) \<le> snd (pl_current p')"
    and "fst (pl_current p') \<noteq> fst (pl_current p) \<longrightarrow> length (pl_free_list p) < fst (pl_current p')"
  shows "live_ok p' a"
  using assms by (auto simp: live_ok_def inside_def peek_def before_def)

lemma Pool_Allocate_ok:
  assumes "malloc_ok malloc" and "client_ok s"
  shows "client_ok (client_step malloc s (OpAllocate n))"
proof -
  let ?p = "cl_pool s"
  obtain b off where cur: "pl_current ?p = (b, off)" by fastforce
  let ?q = "?p\<lparr>pl_current := (b, off + n)\<rparr>"
  have ok: "pool_ok ?p" and live: "\<And>a. a \<in> set (cl_live s) \<Longrightarrow> live_ok ?p a" and sorted: "sorted_wrt (\<lambda>new old. before old new) (cl_live s)"
    using assms(2) by (simp_all add: client_ok_def)
  have b: "b = length (pl_free_list ?p)" using ok cur by (simp add: pool_ok_def)
  have q: "pool_ok ?q" using ok cur by (simp add: pool_ok_def)
  have live': "live_ok ?q a" if "a \<in> set (cl_live s)" for a
    by (rule live_ok_mono [OF live [OF that]]) (simp_all add: cur)
  show ?thesis
  proof (cases "off + n > snd (pl_current_end ?p)")
    case False
    have step: "client_step malloc s (OpAllocate n) = \<lparr>cl_pool = ?q, cl_live = ((b, off), peek ?q (b, off) n) # cl_live s, cl_recent = True\<rparr>"
      using False by (simp add: Pool_Allocate_def cur Let_def)
    have i: "inside ?q (b, off) n" using False q b by (simp add: inside_def pool_ok_def)
    have "live_ok ?q ((b, off), peek ?q (b, off) n)" using i length_peek [OF i] by (simp add: live_ok_def before_def)
    moreover have "before a ((b, off), x)" if "a \<in> set (cl_live s)" for a x
      using live [OF that] by (simp add: live_ok_def before_def cur)
    ultimately show ?thesis unfolding step using q live' sorted length_peek [OF i] False by (simp add: client_ok_def)
  next
    case True
    show ?thesis
    proof (rule More_cases [OF assms(1) q, of n])
      assume "More malloc ?q n = (?q, Inl ErrnoException)"
      then have "client_step malloc s (OpAllocate n) = s\<lparr>cl_pool := ?q, cl_recent := False\<rparr>"
        using True by (simp add: Pool_Allocate_def cur Let_def)
      then show ?thesis using q live' sorted by (simp add: client_ok_def)
    next
      let ?b = "Suc (length (pl_free_list ?p))"
      fix p' assume "More malloc ?q n = (p', Inr (Suc (length (pl_free_list ?q)), 0))"
        and p': "pool_ok p'" "length (pl_free_list p') = Suc (length (pl_free_list ?q))" "pl_current p' = (Suc (length (pl_free_list ?q)), n)"
        "inside p' (Suc (length (pl_free_list ?q)), 0) n" "n \<le> snd (pl_current_end p')"
        "\<And>c. c \<le> length (pl_free_list ?q) \<Longrightarrow> block p' c = block ?q c"
      then have step: "client_step malloc s (OpAllocate n) = \<lparr>cl_pool = p', cl_live = ((?b, 0), peek p' (?b, 0) n) # cl_live s, cl_recent = True\<rparr>"
        using True by (simp add: Pool_Allocate_def cur Let_def)
      have i: "inside p' (?b, 0) n" using p'(4) by simp
      have old: "fst (fst a) \<le> length (pl_free_list ?p)" if "a \<in> set (cl_live s)" for a using live [OF that] by (simp add: live_ok_def inside_def)
      have "live_ok p' a" if "a \<in> set (cl_live s)" for a
        by (rule live_ok_mono [OF live' [OF that]]) (use p'(2,3,6) old [OF that] b in simp_all)
      moreover have "before a ((?b, 0), x)" if "a \<in> set (cl_live s)" for a x using old [OF that] by (simp add: before_def)
      moreover have "live_ok p' ((?b, 0), peek p' (?b, 0) n)" using i length_peek [OF i] p'(3) by (simp add: live_ok_def before_def)
      ultimately show ?thesis unfolding step using p' sorted length_peek [OF i] by (simp add: client_ok_def)
    qed
  qed
qed

lemma poke_simps [simp]:
  "length (pl_free_list (poke p q d)) = length (pl_free_list p)" "pl_current (poke p q d) = pl_current p" "pl_current_end (poke p q d) = pl_current_end p"
  by (simp_all add: poke_def Let_def)

lemma block_poke:
  assumes "inside p q (length d)"
  shows "block (poke p q d) b = (if b = fst q then take (snd q) (block p b) @ d @ drop (snd q + length d) (block p b) else block p b)"
proof (cases "fst q = 0")
  case True
  then show ?thesis using assms by (simp add: poke_def Let_def inside_def block_def)
next
  case False
  have "fst q - 1 < length (pl_free_list p)" using False assms unfolding inside_def by linarith
  then show ?thesis using False by (auto simp: poke_def Let_def block_def nth_list_update)
qed

lemma length_block_poke: "inside p q (length d) \<Longrightarrow> length (block (poke p q d) b) = length (block p b)"
  by (auto simp: block_poke inside_def)

lemma pool_ok_poke: "inside p q (length d) \<Longrightarrow> pool_ok (poke p q d) = pool_ok p"
  by (simp add: pool_ok_def length_block_poke)

lemma inside_poke: "inside p q (length d) \<Longrightarrow> inside (poke p q d) r n = inside p r n"
  by (simp add: inside_def length_block_poke)

lemma peek_poke_same: "inside p q (length d) \<Longrightarrow> peek (poke p q d) q (length d) = d"
  by (simp add: peek_def block_poke inside_def)

text \<open>What is written to one allocation is not read from another.\<close>

lemma peek_poke_other:
  assumes q: "inside p q (length d)" and r: "inside p r n"
    and apart: "fst r \<noteq> fst q \<or> snd r + n \<le> snd q \<or> snd q + length d \<le> snd r"
  shows "peek (poke p q d) r n = peek p r n"
proof (cases "fst r = fst q")
  case True
  have "take n (drop (snd r) (take (snd q) m @ d @ drop (snd q + length d) m)) = take n (drop (snd r) m)"
    if "snd q + length d \<le> length m" "snd r + n \<le> snd q \<or> snd q + length d \<le> snd r" for m
  proof (rule nth_equalityI)
    have len: "length (take (snd q) m @ d @ drop (snd q + length d) m) = length m" using that(1) by simp
    show "length (take n (drop (snd r) (take (snd q) m @ d @ drop (snd q + length d) m))) = length (take n (drop (snd r) m))"
      unfolding length_take length_drop len ..
    fix i assume "i < length (take n (drop (snd r) (take (snd q) m @ d @ drop (snd q + length d) m)))"
    then have "i < n" "snd r + i < length m" unfolding length_take length_drop len by linarith+
    then show "take n (drop (snd r) (take (snd q) m @ d @ drop (snd q + length d) m)) ! i = take n (drop (snd r) m) ! i"
      using that by (auto simp: nth_append)
  qed
  then show ?thesis using assms True by (simp add: peek_def block_poke inside_def)
qed (simp add: peek_def block_poke [OF q])

lemma regrow:
  assumes "take (length bs) xs = bs"
  shows "take n bs @ drop (length bs) (take n xs) = take n xs"
proof -
  obtain ys where "xs = bs @ ys" using assms by (metis append_take_drop_id)
  then show ?thesis by (cases "n \<le> length bs") simp_all
qed

lemma peek_more: "m \<le> n \<Longrightarrow> take m (peek p q n) = peek p q m"
  by (simp add: peek_def min_def)

lemma Pool_Continue_ok:
  assumes "malloc_ok malloc" and "client_ok s"
  shows "client_ok (client_step malloc s (OpContinue d))"
proof (cases "cl_live s = [] \<or> \<not> cl_recent s \<or> int (length (snd (hd (cl_live s)))) + d < 0")
  case True
  then have "client_step malloc s (OpContinue d) = s" by (cases "cl_live s") auto
  then show ?thesis using assms(2) by simp
next
  case False
  let ?p = "cl_pool s"
  obtain b k bs live where l: "cl_live s = ((b, k), bs) # live" and cur: "pl_current ?p = (b, k + length bs)" and "end": "k + length bs \<le> snd (pl_current_end ?p)"
    using assms(2) False by (cases "pl_current ?p") (auto simp: client_ok_def)
  have nonneg: "0 \<le> int (length bs) + d" and recent: "cl_recent s" using False l by simp_all
  define n where "n = nat (int (length bs) + d)"
  have at: "nat (int k + int (length bs) + d) = k + n" using nonneg by (simp add: n_def)
  let ?q = "?p\<lparr>pl_current := (b, k + n)\<rparr>"
  have ok: "pool_ok ?p" and head: "live_ok ?p ((b, k), bs)" and rest: "\<And>a. a \<in> set live \<Longrightarrow> live_ok ?p a"
    and old: "\<And>a. a \<in> set live \<Longrightarrow> before a ((b, k), bs)" and sorted: "sorted_wrt (\<lambda>new old. before old new) live"
    using assms(2) l by (simp_all add: client_ok_def)
  have b: "b = length (pl_free_list ?p)" using ok cur by (simp add: pool_ok_def)
  have q: "pool_ok ?q" using ok cur by (simp add: pool_ok_def)
  have rest': "live_ok ?q a" if "a \<in> set live" for a
    using rest [OF that] old [OF that] by (auto simp: live_ok_def before_def inside_def)
  show ?thesis
  proof (cases "k + n > snd (pl_current_end ?p)")
    case in_place: False
    let ?bs = "take n bs @ drop (length bs) (peek ?q (b, k) n)"
    have step: "client_step malloc s (OpContinue d) = \<lparr>cl_pool = ?q, cl_live = ((b, k), ?bs) # live, cl_recent = True\<rparr>"
      using in_place recent nonneg by (simp add: l cur Pool_Continue_def at Let_def n_def [symmetric])
    have i: "inside ?q (b, k) n" using in_place ok b by (simp add: inside_def pool_ok_def)
    have "?bs = peek ?q (b, k) n" using head unfolding peek_current by (simp add: peek_def regrow live_ok_def)
    then show ?thesis unfolding step using q rest' old sorted i length_peek [OF i] in_place
      by (simp add: client_ok_def live_ok_def before_def)
  next
    case moved: True
    have bigger: "length bs \<le> n" using moved "end" by simp
    show ?thesis
    proof (rule More_cases [OF assms(1) q, of n])
      assume "More malloc ?q n = (?q, Inl ErrnoException)"
      then have "client_step malloc s (OpContinue d) = s\<lparr>cl_pool := ?q, cl_recent := False\<rparr>"
        using moved recent nonneg by (simp add: l cur Pool_Continue_def at Let_def)
      moreover have "live_ok ?q ((b, k), bs)" using head bigger by (simp add: live_ok_def before_def inside_def)
      ultimately show ?thesis using q rest' old sorted by (simp add: client_ok_def l)
    next
      let ?b = "Suc (length (pl_free_list ?p))"
      fix p' assume more: "More malloc ?q n = (p', Inr (Suc (length (pl_free_list ?q)), 0))"
        and p': "pool_ok p'" "length (pl_free_list p') = Suc (length (pl_free_list ?q))" "pl_current p' = (Suc (length (pl_free_list ?q)), n)"
        "inside p' (Suc (length (pl_free_list ?q)), 0) n" "n \<le> snd (pl_current_end p')"
        "\<And>c. c \<le> length (pl_free_list ?q) \<Longrightarrow> block p' c = block ?q c"
      have "peek p' (b, k) (length bs) = bs" using head p'(6) b by (simp add: peek_def live_ok_def)
      moreover have "nat (int n - d) = length bs" using nonneg by (simp add: n_def)
      ultimately have cont: "Pool_Continue malloc ?p (b, k) d = (poke p' (?b, 0) bs, Inr (True, (?b, 0)))"
        using moved more by (simp add: Pool_Continue_def cur at Let_def)
      let ?r = "poke p' (?b, 0) bs"
      let ?bs = "take n bs @ drop (length bs) (peek ?r (?b, 0) n)"
      have step: "client_step malloc s (OpContinue d) = \<lparr>cl_pool = ?r, cl_live = ((?b, 0), ?bs) # live, cl_recent = True\<rparr>"
        using recent nonneg by (simp add: l cont n_def [symmetric])
      have ib: "inside p' (?b, 0) (length bs)" using p'(4) bigger by (simp add: inside_def)
      have i: "inside ?r (?b, 0) n" using p'(4) by (simp add: inside_poke [OF ib])
      have r: "pool_ok ?r" using p'(1) by (simp add: pool_ok_poke [OF ib])
      have "?bs = peek ?r (?b, 0) n"
        using peek_poke_same [OF ib] unfolding peek_def by (rule regrow)
      then have head': "live_ok ?r ((?b, 0), ?bs)" using i length_peek [OF i] p'(3) by (simp add: live_ok_def before_def)
      have old': "fst (fst a) \<le> length (pl_free_list ?p)" if "a \<in> set live" for a using rest [OF that] by (simp add: live_ok_def inside_def)
      have "live_ok ?r a" if "a \<in> set live" for a
        by (rule live_ok_mono [OF rest' [OF that]]) (use p'(2,3,6) old' [OF that] b in \<open>simp_all add: block_poke [OF ib]\<close>)
      moreover have "before a ((?b, 0), x)" if "a \<in> set live" for a x using old' [OF that] by (simp add: before_def)
      ultimately show ?thesis unfolding step using r head' sorted p'(3,5) length_peek [OF i] \<open>?bs = peek ?r (?b, 0) n\<close> by (simp add: client_ok_def)
    qed
  qed
qed

lemma Pool_Write_ok:
  assumes "client_ok s"
  shows "client_ok (client_step malloc s (OpWrite i d))"
proof (cases "i < length (cl_live s) \<and> length d = length (snd (cl_live s ! i))")
  case True
  let ?p = "cl_pool s" and ?live = "cl_live s"
  obtain q bs where a: "?live ! i = (q, bs)" by fastforce
  have i: "i < length ?live" and d: "length d = length bs" using True a by simp_all
  let ?r = "poke ?p q d"
  have step: "client_step malloc s (OpWrite i d) = s\<lparr>cl_pool := ?r, cl_live := ?live[i := (q, d)]\<rparr>" using True a by simp
  have ok: "pool_ok ?p" and sorted: "sorted_wrt (\<lambda>new old. before old new) ?live" and live: "live_ok ?p (?live ! j)" if "j < length ?live" for j
    using assms that by (simp_all add: client_ok_def)
  have iq: "inside ?p q (length d)" using live [OF i] a d by (simp add: live_ok_def)
  have apart: "before (?live ! j) (q, bs) \<or> before (q, bs) (?live ! j)" if "j < length ?live" "j \<noteq> i" for j
    using sorted_wrt_nth_less [OF sorted [OF i], of i j] sorted_wrt_nth_less [OF sorted [OF i], of j i] that i a by (cases "i < j") auto
  have same: "live_ok ?r (?live[i := (q, d)] ! j)" if j: "j < length ?live" for j
  proof (cases "j = i")
    case True
    then show ?thesis using live [OF i] a d i peek_poke_same [OF iq] by (simp add: live_ok_def inside_poke [OF iq] before_def)
  next
    case False
    obtain r cs where r: "?live ! j = (r, cs)" by fastforce
    have "peek ?r r (length cs) = peek ?p r (length cs)"
      using peek_poke_other [OF iq, of r "length cs"] apart [OF j False] live [OF j] r d by (auto simp: live_ok_def before_def)
    then show ?thesis using live [OF j] False r by (simp add: live_ok_def inside_poke [OF iq])
  qed
  have len: "map (\<lambda>a. (fst a, length (snd a))) (?live[i := (q, d)]) = map (\<lambda>a. (fst a, length (snd a))) ?live"
    using i a d by (simp add: map_update list_update_same_conv)
  have "sorted_wrt (\<lambda>new old. before old new) live \<longleftrightarrow>
      sorted_wrt (\<lambda>new old. fst (fst old) \<noteq> fst (fst new) \<or> snd (fst old) + snd old \<le> snd (fst new)) (map (\<lambda>a. (fst a, length (snd a))) live)" for live
    by (simp add: sorted_wrt_map before_def)
  then have "sorted_wrt (\<lambda>new old. before old new) (?live[i := (q, d)])" using sorted [OF i] len by simp
  moreover have "live_ok ?r x" if "x \<in> set (?live[i := (q, d)])" for x using that same by (auto simp: in_set_conv_nth)
  moreover have "\<exists>q' bs' rest. ?live[i := (q, d)] = (q', bs') # rest \<and> fst q' = fst (pl_current ?p) \<and> snd q' + length bs' = snd (pl_current ?p)" if recent: "cl_recent s"
  proof -
    obtain q' bs' rest where "?live = (q', bs') # rest" "fst q' = fst (pl_current ?p)" "snd q' + length bs' = snd (pl_current ?p)"
      using assms recent by (auto simp: client_ok_def)
    then show ?thesis using a d by (cases i) auto
  qed
  ultimately show ?thesis unfolding step using assms by (simp add: client_ok_def pool_ok_poke [OF iq])
qed (auto simp: assms)

lemma Pool_FreeAll_ok: "client_ok (client_step malloc s OpFreeAll)"
  by (simp add: client_ok_def Pool_FreeAll_def pool_ok_def block_def)

lemma client_step_ok: "malloc_ok malloc \<Longrightarrow> client_ok s \<Longrightarrow> client_ok (client_step malloc s op)"
  by (cases op) (simp_all only: Pool_Allocate_ok Pool_Continue_ok Pool_Write_ok Pool_FreeAll_ok)

lemma client_run_ok: "malloc_ok malloc \<Longrightarrow> client_ok s \<Longrightarrow> client_ok (foldl (client_step malloc) s ops)"
  by (induction ops arbitrary: s) (simp_all add: client_step_ok)

text \<open>
  C17. A \<^verbatim>\<open>Pool\<close> keeps the memory it gives apart: after any sequence of \<^verbatim>\<open>Allocate\<close>, \<^verbatim>\<open>Continue\<close>, \<^verbatim>\<open>FreeAll\<close> and writes to
  the memory given, with \<^verbatim>\<open>malloc\<close> failing or not, every allocation lies inside one block, holds what
  its owner wrote last (\<^verbatim>\<open>Continue\<close> keeps it, also when it moves it), and no two of them overlap.
\<close>

theorem Pool_correct:
  assumes "malloc_ok malloc"
  shows "let s = foldl (client_step malloc) client_new ops
    in list_all (\<lambda>(q, bs). inside (cl_pool s) q (length bs) \<and> peek (cl_pool s) q (length bs) = bs) (cl_live s) \<and>
       sorted_wrt (\<lambda>(q, bs) (r, cs). fst r \<noteq> fst q \<or> snd r + length cs \<le> snd q) (cl_live s)"
proof -
  let ?s = "foldl (client_step malloc) client_new ops"
  have ok: "client_ok ?s" by (rule client_run_ok [OF assms client_new_ok])
  have "(\<lambda>new old. before old new) = (\<lambda>(q, bs) (r, cs). fst r \<noteq> fst q \<or> snd r + length cs \<le> snd q)"
    by (auto simp: before_def fun_eq_iff)
  then have "sorted_wrt (\<lambda>(q, bs) (r, cs). fst r \<noteq> fst q \<or> snd r + length cs \<le> snd q) (cl_live ?s)"
    using ok by (simp add: client_ok_def)
  then show ?thesis using ok by (auto simp: client_ok_def live_ok_def list_all_iff Let_def)
qed

definition zero_malloc :: mallocs where
  "zero_malloc i n = (if i < 2 then Some (replicate n 0) else None)"

theorem Pool_correct_witness:
  "let s = foldl (client_step zero_malloc) client_new [OpAllocate 30, OpWrite 0 (replicate 30 7), OpContinue 3, OpAllocate 40, OpAllocate 100]
   in map (\<lambda>(q, bs). (q, length bs)) (cl_live s) = [((2, 0), 33)] \<and> \<not> cl_recent s \<and>
     list_all (\<lambda>(q, bs). inside (cl_pool s) q (length bs) \<and> peek (cl_pool s) q (length bs) = bs) (cl_live s)"
proof -
  let ?ops = "[OpAllocate 30, OpWrite 0 (replicate 30 7), OpContinue 3, OpAllocate 40, OpAllocate 100]"
  have "malloc_ok zero_malloc" by (simp add: malloc_ok_def zero_malloc_def)
  from Pool_correct [OF this, of ?ops]
  have "list_all (\<lambda>(q, bs). inside (cl_pool s) q (length bs) \<and> peek (cl_pool s) q (length bs) = bs) (cl_live s)"
    if "s = foldl (client_step zero_malloc) client_new ?ops" for s
    using that by (simp only: Let_def)
  moreover have "let s = foldl (client_step zero_malloc) client_new ?ops
    in map (\<lambda>(q, bs). (q, length bs)) (cl_live s) = [((2, 0), 33)] \<and> \<not> cl_recent s" by code_simp
  ultimately show ?thesis unfolding Let_def by blast
qed

subsection \<open>\<open>FreePool\<close>\<close>

text \<open>
  The list of free elements is linked through the elements themselves; \<open>fl_links\<close> is the pointer that stands
  at the start of one.
\<close>

record FreePool =
  fl_free_list :: "ptr option"
  fl_links :: "ptr \<Rightarrow> ptr option"
  fl_backing :: Pool
  fl_element_size :: nat

definition FreePool_new :: "nat \<Rightarrow> FreePool" where
  "FreePool_new n = \<lparr>fl_free_list = None, fl_links = (\<lambda>_. None), fl_backing = Pool_new, fl_element_size = n\<rparr>"

definition FreePool_Allocate :: "mallocs \<Rightarrow> FreePool \<Rightarrow> FreePool \<times> ptr result" where
  "FreePool_Allocate malloc p =
     (case fl_free_list p of
        Some ret \<Rightarrow> (p\<lparr>fl_free_list := fl_links p ret\<rparr>, Inr ret)
      | None \<Rightarrow> (case Pool_Allocate malloc (fl_backing p) (fl_element_size p) of (b, r) \<Rightarrow> (p\<lparr>fl_backing := b\<rparr>, r)))"

definition FreePool_Free :: "FreePool \<Rightarrow> ptr \<Rightarrow> FreePool" where
  "FreePool_Free p q = p\<lparr>fl_links := (fl_links p)(q := fl_free_list p), fl_free_list := Some q\<rparr>"

text \<open>A client that frees only elements it has, by their position in its list.\<close>

datatype free_op = ElementAllocate | ElementFree nat

fun free_step :: "mallocs \<Rightarrow> FreePool \<times> ptr list \<Rightarrow> free_op \<Rightarrow> FreePool \<times> ptr list" where
  "free_step malloc (p, used) ElementAllocate =
     (case FreePool_Allocate malloc p of (p, Inl e) \<Rightarrow> (p, used) | (p, Inr q) \<Rightarrow> (p, q # used))"
| "free_step malloc (p, used) (ElementFree i) =
     (if i < length used then (FreePool_Free p (used ! i), take i used @ drop (Suc i) used) else (p, used))"

primrec chain :: "(ptr \<Rightarrow> ptr option) \<Rightarrow> ptr option \<Rightarrow> ptr list \<Rightarrow> bool" where
  "chain links h [] \<longleftrightarrow> h = None"
| "chain links h (q # qs) \<longleftrightarrow> h = Some q \<and> chain links (links q) qs"

lemma chain_other: "q \<notin> set qs \<Longrightarrow> chain (links(q := x)) h qs = chain links h qs"
  by (induction qs arbitrary: h) auto

definition apart :: "nat \<Rightarrow> ptr \<Rightarrow> ptr \<Rightarrow> bool" where
  "apart n q r \<longleftrightarrow> fst q \<noteq> fst r \<or> snd q + n \<le> snd r \<or> snd r + n \<le> snd q"

definition elements_ok :: "nat \<Rightarrow> Pool \<Rightarrow> ptr set \<Rightarrow> bool" where
  "elements_ok n p qs \<longleftrightarrow> pool_ok p \<and>
     (\<forall>q\<in>qs. inside p q n \<and> (fst q = fst (pl_current p) \<longrightarrow> snd q + n \<le> snd (pl_current p)) \<and> (\<forall>r\<in>qs. q \<noteq> r \<longrightarrow> apart n q r))"

lemma elements_new:
  assumes "malloc_ok malloc" and "elements_ok n p qs" and "0 < n" and "Pool_Allocate malloc p n = (p', r)"
  shows "(case r of Inl e \<Rightarrow> elements_ok n p' qs | Inr q \<Rightarrow> elements_ok n p' (insert q qs) \<and> q \<notin> qs)"
proof -
  obtain b off where cur: "pl_current p = (b, off)" by fastforce
  let ?q = "p\<lparr>pl_current := (b, off + n)\<rparr>"
  have ok: "pool_ok p" using assms(2) by (simp add: elements_ok_def)
  have b: "b = length (pl_free_list p)" using ok cur by (simp add: pool_ok_def)
  have q: "pool_ok ?q" using ok cur by (simp add: pool_ok_def)
  have grown: "elements_ok n ?q qs" using assms(2) q cur by (force simp: elements_ok_def inside_def)
  show ?thesis
  proof (cases "off + n > snd (pl_current_end p)")
    case False
    then have r: "p' = ?q" "r = Inr (b, off)" using assms(4) by (simp_all add: Pool_Allocate_def cur Let_def)
    have i: "inside ?q (b, off) n" using False ok b by (simp add: inside_def pool_ok_def)
    have "apart n (b, off) c \<and> apart n c (b, off) \<and> c \<noteq> (b, off)" if "c \<in> qs" for c
      using assms(2,3) that cur by (force simp: elements_ok_def apart_def)
    then show ?thesis using grown i r by (auto simp: elements_ok_def)
  next
    case True
    then have more: "More malloc ?q n = (p', r)" using assms(4) by (simp add: Pool_Allocate_def cur Let_def)
    show ?thesis
    proof (rule More_cases [OF assms(1) q, of n])
      assume "More malloc ?q n = (?q, Inl ErrnoException)"
      then show ?thesis using more grown by simp
    next
      let ?b = "Suc (length (pl_free_list p))"
      fix p'' assume "More malloc ?q n = (p'', Inr (Suc (length (pl_free_list ?q)), 0))"
        and p': "pool_ok p''" "length (pl_free_list p'') = Suc (length (pl_free_list ?q))" "pl_current p'' = (Suc (length (pl_free_list ?q)), n)"
        "inside p'' (Suc (length (pl_free_list ?q)), 0) n" "n \<le> snd (pl_current_end p'')"
        "\<And>c. c \<le> length (pl_free_list ?q) \<Longrightarrow> block p'' c = block ?q c"
      then have r: "p'' = p'" "r = Inr (?b, 0)" using more by simp_all
      have "inside p' c n \<and> fst c < ?b" if "c \<in> qs" for c
        using grown that p'(2,6) r(1) by (auto simp: elements_ok_def inside_def)
      then show ?thesis using grown p' r by (fastforce simp: elements_ok_def apart_def)
    qed
  qed
qed

definition free_ok :: "nat \<Rightarrow> FreePool \<times> ptr list \<Rightarrow> bool" where
  "free_ok n = (\<lambda>(p, used). fl_element_size p = n \<and>
     (\<exists>free. chain (fl_links p) (fl_free_list p) free \<and> distinct (free @ used) \<and> elements_ok n (fl_backing p) (set (free @ used))))"

lemma free_step_ok:
  assumes "malloc_ok malloc" and "0 < n" and "free_ok n (p, used)"
  shows "free_ok n (free_step malloc (p, used) op)"
proof -
  obtain free where es: "fl_element_size p = n" and free: "chain (fl_links p) (fl_free_list p) free" "distinct (free @ used)"
    "elements_ok n (fl_backing p) (set (free @ used))" using assms(3) by (auto simp: free_ok_def)
  show ?thesis
  proof (cases op)
    case ElementAllocate
    show ?thesis
    proof (cases free)
      case Nil
      obtain b r where r: "Pool_Allocate malloc (fl_backing p) n = (b, r)" by fastforce
      have "case r of Inl e \<Rightarrow> elements_ok n b (set used) | Inr q \<Rightarrow> elements_ok n b (insert q (set used)) \<and> q \<notin> set used"
        using elements_new [OF assms(1) _ assms(2) r, of "set used"] free(3) Nil by simp
      then show ?thesis using ElementAllocate Nil free es r
        by (cases r) (simp_all add: FreePool_Allocate_def free_ok_def exI [of _ "[]"])
    next
      case (Cons q qs)
      then have "free_step malloc (p, used) op = (p\<lparr>fl_free_list := fl_links p q\<rparr>, q # used)"
        using ElementAllocate free(1) by (simp add: FreePool_Allocate_def)
      moreover have "set (qs @ q # used) = set (free @ used)" using Cons by auto
      ultimately show ?thesis using free es Cons by (auto simp: free_ok_def intro!: exI [of _ qs])
    qed
  next
    case (ElementFree i)
    show ?thesis
    proof (cases "i < length used")
      case True
      then obtain xs q ys where used: "used = xs @ q # ys" "i = length xs" using id_take_nth_drop [OF True] by (metis length_take min.absorb4)
      have step: "free_step malloc (p, used) op = (FreePool_Free p q, xs @ ys)" using ElementFree used by simp
      have "chain ((fl_links p)(q := fl_free_list p)) (Some q) (q # free)" using free(1,2) used by (simp add: chain_other)
      moreover have "insert q (set free \<union> (set xs \<union> set ys)) = set (free @ used)" using used by auto
      ultimately show ?thesis unfolding step using free es used by (auto simp: free_ok_def FreePool_Free_def intro!: exI [of _ "q # free"])
    qed (use assms(3) ElementFree in simp)
  qed
qed

text \<open>
  C18. A \<^verbatim>\<open>FreePool\<close> never gives out an element that is in use: after any sequence of \<^verbatim>\<open>Allocate\<close> and \<^verbatim>\<open>Free\<close> of
  elements in use, with \<^verbatim>\<open>malloc\<close> failing or not, the elements in use are different, lie inside the
  blocks and do not overlap. An element must have room for the pointer that links it when it is free.
\<close>

theorem FreePool_correct:
  assumes "malloc_ok malloc" and "8 \<le> n"
  shows "let (p, used) = foldl (free_step malloc) (FreePool_new n, []) ops
    in distinct used \<and> list_all (\<lambda>q. inside (fl_backing p) q n \<and> list_all (\<lambda>r. q = r \<or> apart n q r) used) used"
proof -
  have start: "free_ok n (FreePool_new n, [])"
    by (simp add: free_ok_def FreePool_new_def exI [of _ "[]"] elements_ok_def pool_ok_def Pool_new_def block_def)
  have "free_ok n (foldl (free_step malloc) st ops)" if "free_ok n st" for st
    using that
  proof (induction ops arbitrary: st)
    case (Cons op ops)
    obtain p used where st: "st = (p, used)" by fastforce
    then show ?case using Cons free_step_ok [OF assms(1), of n p used op] assms(2) by simp
  qed simp
  from this [OF start] show ?thesis by (auto simp: free_ok_def elements_ok_def list_all_iff)
qed

theorem FreePool_correct_witness:
  "let (p, used) = foldl (free_step zero_malloc) (FreePool_new 16, []) [ElementAllocate, ElementAllocate, ElementFree 1, ElementAllocate, ElementAllocate]
   in used = [(2, 0), (1, 0), (1, 16)] \<and> distinct used"
proof -
  let ?r = "foldl (free_step zero_malloc) (FreePool_new 16, []) [ElementAllocate, ElementAllocate, ElementFree 1, ElementAllocate, ElementAllocate]"
  have "malloc_ok zero_malloc" by (simp add: malloc_ok_def zero_malloc_def)
  from FreePool_correct [OF this, of 16 "[ElementAllocate, ElementAllocate, ElementFree 1, ElementAllocate, ElementAllocate]"]
  have "distinct (snd ?r)" by (simp only: case_prod_beta Let_def)
  moreover have "snd ?r = [(2, 0), (1, 0), (1, 16)]" by code_simp
  ultimately show ?thesis by (simp only: case_prod_beta Let_def)
qed

subsection \<open>\<open>ObjectPool\<close>\<close>

text \<open>Constructing an object beyond the end of a \<^verbatim>\<open>FixedArray\<close> writes outside its memory.\<close>

record 'a FixedArray =
  fa_limit :: nat
  fa_items :: "'a list"

definition FixedArray_new :: "nat \<Rightarrow> 'a FixedArray" where
  "FixedArray_new limit = \<lparr>fa_limit = limit, fa_items = []\<rparr>"

definition FixedArray_push_back :: "'a FixedArray \<Rightarrow> 'a \<Rightarrow> 'a FixedArray result" where
  "FixedArray_push_back a x = (if length (fa_items a) < fa_limit a then Inr (a\<lparr>fa_items := fa_items a @ [x]\<rparr>) else Inl OutOfBounds)"

definition FixedArray_pop_back :: "'a FixedArray \<Rightarrow> 'a FixedArray" where
  "FixedArray_pop_back a = a\<lparr>fa_items := butlast (fa_items a)\<rparr>"

function FixedArray_clear :: "'a FixedArray \<Rightarrow> 'a FixedArray" where
  "FixedArray_clear a = (if fa_items a \<noteq> [] then FixedArray_clear (FixedArray_pop_back a) else a)"
  by pat_completeness auto
termination
  by (relation "measure (length \<circ> fa_items)") (auto simp: FixedArray_pop_back_def)

declare FixedArray_clear.simps [simp del]

primrec push_all :: "'a FixedArray \<Rightarrow> 'a list \<Rightarrow> 'a FixedArray result" where
  "push_all a [] = Inr a"
| "push_all a (x # xs) = (case FixedArray_push_back a x of Inl e \<Rightarrow> Inl e | Inr a \<Rightarrow> push_all a xs)"

definition FixedArray_copy :: "'a FixedArray \<Rightarrow> 'a FixedArray result" where
  "FixedArray_copy from_array = push_all (FixedArray_new (length (fa_items from_array))) (fa_items from_array)"

lemma FixedArray_clear_eq: "FixedArray_clear a = a\<lparr>fa_items := []\<rparr>"
  by (induction a rule: FixedArray_clear.induct) (subst FixedArray_clear.simps, auto simp: FixedArray_pop_back_def)

lemma FixedArray_copy_eq: "FixedArray_copy a = Inr \<lparr>fa_limit = length (fa_items a), fa_items = fa_items a\<rparr>"
proof -
  have "push_all b xs = Inr (b\<lparr>fa_items := fa_items b @ xs\<rparr>)" if "length (fa_items b) + length xs \<le> fa_limit b" for b :: "'a FixedArray" and xs
    using that by (induction xs arbitrary: b) (auto simp: FixedArray_push_back_def)
  then show ?thesis by (simp add: FixedArray_copy_def FixedArray_new_def)
qed

definition Capacity :: "nat \<Rightarrow> nat" where
  "Capacity index = unat (push_bit index (1 :: u64))"

definition ObjectPool_Allocate :: "'a FixedArray list \<Rightarrow> 'a \<Rightarrow> ('a FixedArray list \<times> nat \<times> nat) result" where
  "ObjectPool_Allocate free_list x =
     (let free_list = (if free_list = [] \<or> length (fa_items (List.last free_list)) = Capacity (length free_list)
                       then free_list @ [FixedArray_new (Capacity (length free_list + 1))] else free_list)
      in case FixedArray_push_back (List.last free_list) x of
           Inl e \<Rightarrow> Inl e
         | Inr a \<Rightarrow> Inr (butlast free_list @ [a], (length free_list - 1, length (fa_items a) - 1)))"

definition ObjectPool_FreeAll :: "'a FixedArray list \<Rightarrow> 'a FixedArray list" where
  "ObjectPool_FreeAll free_list = []"

primrec allocate_all :: "'a FixedArray list \<Rightarrow> 'a list \<Rightarrow> ('a FixedArray list \<times> (nat \<times> nat) list) result" where
  "allocate_all fl [] = Inr (fl, [])"
| "allocate_all fl (x # xs) =
     (case ObjectPool_Allocate fl x of
        Inl e \<Rightarrow> Inl e
      | Inr (fl, a) \<Rightarrow> map_sum id (\<lambda>(fl, as). (fl, a # as)) (allocate_all fl xs))"

definition stored_at :: "'a FixedArray list \<Rightarrow> nat \<times> nat \<Rightarrow> 'a \<Rightarrow> bool" where
  "stored_at fl a x \<longleftrightarrow> fst a < length fl \<and> snd a < length (fa_items (fl ! fst a)) \<and> fa_items (fl ! fst a) ! snd a = x"

text \<open>All arrays but the last are full, which gives the number of objects.\<close>

definition objects_ok :: "'a FixedArray list \<Rightarrow> nat \<Rightarrow> bool" where
  "objects_ok fl n \<longleftrightarrow> (if fl = [] then n = 0
     else fa_limit (List.last fl) = 2 ^ length fl \<and> length (fa_items (List.last fl)) \<le> 2 ^ length fl \<and>
       n + 2 = 2 ^ length fl + length (fa_items (List.last fl)))"

lemma Capacity_power: "k < 64 \<Longrightarrow> Capacity k = 2 ^ k"
  using power_strict_increasing [of k 64 "2 :: nat"] unfolding Capacity_def unsigned_push_bit_eq by (simp add: take_bit_eq_mod)

lemma objects_few: "objects_ok fl n \<Longrightarrow> n < 2 ^ 62 \<Longrightarrow> length fl < 63"
proof (rule ccontr)
  assume ok: "objects_ok fl n" and n: "n < 2 ^ 62" and long: "\<not> length fl < 63"
  have "(2 :: nat) ^ 63 \<le> 2 ^ length fl" using long by (intro power_increasing) simp_all
  moreover have "2 ^ length fl \<le> n + 2"
  proof (cases "fl = []")
    case False
    then show ?thesis using ok by (simp add: objects_ok_def)
  qed (use long in simp)
  ultimately show False using n by simp
qed

lemma ObjectPool_Allocate_ok:
  assumes ok: "objects_ok fl n" and n: "n < 2 ^ 62"
  shows "\<exists>fl' a. ObjectPool_Allocate fl x = Inr (fl', a) \<and> objects_ok fl' (Suc n) \<and> stored_at fl' a x \<and>
    (\<forall>b y. stored_at fl b y \<longrightarrow> stored_at fl' b y \<and> b \<noteq> a)"
proof -
  have few: "length fl < 63" by (rule objects_few [OF assms])
  show ?thesis
  proof (cases "fl = [] \<or> length (fa_items (List.last fl)) = Capacity (length fl)")
    case True
    let ?a = "\<lparr>fa_limit = 2 ^ Suc (length fl), fa_items = [x]\<rparr>"
    have "ObjectPool_Allocate fl x = Inr (fl @ [?a], (length fl, 0))"
      using True few by (simp add: ObjectPool_Allocate_def FixedArray_push_back_def FixedArray_new_def Capacity_power)
    moreover have "objects_ok (fl @ [?a]) (Suc n)"
    proof (cases "fl = []")
      case False
      then have "length (fa_items (List.last fl)) = 2 ^ length fl" using True few by (simp add: Capacity_power)
      then show ?thesis using ok False by (simp add: objects_ok_def)
    qed (use ok in \<open>simp add: objects_ok_def\<close>)
    moreover have "stored_at (fl @ [?a]) (length fl, 0) x" by (simp add: stored_at_def)
    moreover have "stored_at (fl @ [?a]) b y \<and> b \<noteq> (length fl, 0)" if "stored_at fl b y" for b y
      using that by (auto simp: stored_at_def nth_append)
    ultimately show ?thesis by blast
  next
    case False
    then obtain init l where fl: "fl = init @ [l]" by (metis rev_exhaust)
    let ?l = "l\<lparr>fa_items := fa_items l @ [x]\<rparr>"
    have limit: "length (fa_items l) < fa_limit l" using ok False few by (simp add: objects_ok_def fl Capacity_power)
    have "ObjectPool_Allocate fl x = Inr (init @ [?l], (length init, length (fa_items l)))"
      using False limit by (simp add: ObjectPool_Allocate_def FixedArray_push_back_def fl)
    moreover have "objects_ok (init @ [?l]) (Suc n)" using ok limit by (simp add: objects_ok_def fl)
    moreover have "stored_at (init @ [?l]) (length init, length (fa_items l)) x" by (simp add: stored_at_def)
    moreover have "stored_at (init @ [?l]) b y \<and> b \<noteq> (length init, length (fa_items l))" if "stored_at fl b y" for b y
      using that unfolding fl by (auto simp: stored_at_def nth_append)
    ultimately show ?thesis by blast
  qed
qed

text \<open>
  An \<^verbatim>\<open>ObjectPool\<close> never constructs an object outside the array it allocated for it, and the
  object at every address it gave out is the one that was constructed there, however many follow: no
  address is given out twice and nothing moves.
\<close>

lemma ObjectPool_correct:
  assumes "length xs \<le> 2 ^ 62"
  shows "\<exists>fl as. allocate_all [] xs = Inr (fl, as) \<and> list_all2 (stored_at fl) as xs \<and> distinct as"
proof -
  have "\<exists>fl' as. allocate_all fl xs = Inr (fl', as) \<and> list_all2 (stored_at fl') as xs \<and> distinct as \<and>
      (\<forall>b y. stored_at fl b y \<longrightarrow> stored_at fl' b y \<and> b \<notin> set as)"
    if "objects_ok fl n" "n + length xs \<le> 2 ^ 62" for fl n and xs :: "'a list"
    using that
  proof (induction xs arbitrary: fl n)
    case (Cons x xs)
    then have "n < 2 ^ 62" by simp
    from ObjectPool_Allocate_ok [OF Cons.prems(1) this] obtain fl1 a where a: "ObjectPool_Allocate fl x = Inr (fl1, a)"
      "objects_ok fl1 (Suc n)" "stored_at fl1 a x" "\<forall>b y. stored_at fl b y \<longrightarrow> stored_at fl1 b y \<and> b \<noteq> a" by blast
    obtain fl' "as" where IH: "allocate_all fl1 xs = Inr (fl', as)" "list_all2 (stored_at fl') as xs" "distinct as"
      "\<forall>b y. stored_at fl1 b y \<longrightarrow> stored_at fl' b y \<and> b \<notin> set as" using Cons.IH [OF a(2)] Cons.prems(2) by auto
    have "allocate_all fl (x # xs) = Inr (fl', a # as)" using a(1) IH(1) by simp
    moreover have "stored_at fl' a x" "a \<notin> set as" using IH(4) a(3) by blast+
    moreover have "\<forall>b y. stored_at fl b y \<longrightarrow> stored_at fl' b y \<and> b \<notin> set (a # as)"
      unfolding list.set insert_iff using IH(4) a(4) by blast
    ultimately show ?case using IH(2,3) by (intro exI [of _ fl'] exI [of _ "a # as"] conjI) (simp_all only: list.rel_inject distinct.simps simp_thms)
  qed simp
  from this [of "[]" 0 xs] assms show ?thesis by (auto simp: objects_ok_def)
qed

end
