(* ===== verification/Spec2Isabelle.thy ===== *)
theory Spec2Isabelle
  imports Base64 Utf8 MurmurHash FieldSelection ProbingHash TokenizePiece LinePrograms ProducerConsumer UnboundedQueue CompressWrite ThreadedStream FoldFilter CaptivePrograms DocEnc Warc Vocab Tables Shard Pools
begin

text \<open>
  A verification of \<^verbatim>\<open>preprocess\<close>, tools for corpora of text. \<^verbatim>\<open>src/util\<close> is a library (files, streams, compression, hash
  tables, queues, memory pools, UTF-8); \<^verbatim>\<open>src/preprocess\<close> has the programs, most of them a loop that reads lines
  through \<^verbatim>\<open>FilePiece\<close>, decides about each with a hash or a table, and prints through a stream.

  \<^bold>\<open>How the parts work together.\<close> A program opens a \<^verbatim>\<open>FilePiece\<close> on a descriptor. \<^verbatim>\<open>FilePiece\<close> maps the file or, when it
  is compressed or cannot be mapped, reads it through \<^verbatim>\<open>ReadCompressed\<close> into a window that it moves and enlarges; it
  gives lines, words and numbers. The fields of a line are chosen by \<^verbatim>\<open>fields.cc\<close> and hashed by \<^verbatim>\<open>murmur_hash.cc\<close>; the
  hashes are the keys of \<^verbatim>\<open>AutoProbing\<close> tables. What is printed goes through \<^verbatim>\<open>FakeOStream\<close>, which formats integers
  in the memory of its stream, to a \<^verbatim>\<open>BufferedStream\<close> and from there to \<^verbatim>\<open>WriteOrThrow\<close>, or through
  \<^verbatim>\<open>WriteCompressed\<close>, or by \<^verbatim>\<open>ThreadedBufferedStream\<close> to a thread of its own. Programs around a child process feed it in one
  thread and read it in another, with a queue between them.

  \<^bold>\<open>Theories, in the order of their imports, and what they model.\<close>
  \<^item> \<open>Prelude\<close>: bytes and words, the type \<open>error\<close> of the exceptions, results as \<open>error + 'a\<close>, the searches of the C++
    library, decimal numerals, the splitting of strings.
  \<^item> \<open>Base64\<close>, \<open>Utf8\<close>, \<open>MurmurHash\<close>: \<^verbatim>\<open>preprocess/base64.cc\<close>, \<^verbatim>\<open>util/utf8.hh\<close>, \<^verbatim>\<open>util/murmur_hash.cc\<close>.
  \<^item> \<open>FieldSelection\<close>: \<^verbatim>\<open>preprocess/fields.cc\<close> and \<^verbatim>\<open>fields.hh\<close>, parsing and merging of ranges, \<^verbatim>\<open>RangeFields\<close> and
    \<^verbatim>\<open>IndividualFields\<close>.
  \<^item> \<open>ProbingHash\<close>: \<^verbatim>\<open>util/probing_hash_table.hh\<close>. \<open>table_map\<close> is the finite map a table stands for, \<open>table_ok\<close> and
    \<open>auto_ok\<close> its invariants; \<open>set_entry\<close> of \<open>Vocab\<close> is a write through an iterator.
  \<^item> \<open>StringPiece\<close>, \<open>TokenizePiece\<close>: \<^verbatim>\<open>util/string_piece.hh\<close>, \<^verbatim>\<open>util/tokenize_piece.hh\<close>.
  \<^item> \<open>FileIO\<close>: reading and writing of \<^verbatim>\<open>util/file.cc\<close>. A descriptor \<open>Desc\<close> holds what is left to read, what was
    written and the answers that the system will give: short transfers, interruptions, failures.
  \<^item> \<open>IntegerToString\<close>, \<open>Streams\<close>: \<^verbatim>\<open>util/integer_to_string.cc\<close>, \<^verbatim>\<open>fake_ostream.hh\<close>, \<^verbatim>\<open>buffered_stream.hh\<close>, \<^verbatim>\<open>string_stream.hh\<close>
    and \<^verbatim>\<open>file_stream.hh\<close>.
  \<^item> \<open>Compress\<close>, \<open>CompressWrite\<close>: \<^verbatim>\<open>util/compress.cc\<close>; zlib, bzip2 and liblzma are parameters (\<open>Library\<close>,
    \<open>WriteLibrary\<close>) with their documented behaviour as hypotheses.
  \<^item> \<open>FilePiece\<close>: \<^verbatim>\<open>util/file_piece.cc\<close> and \<^verbatim>\<open>file_piece.hh\<close>. \<open>delivers env decodes fp content\<close> says that
    \<open>content\<close> is still to come from \<open>fp\<close>, wherever its window stands; \<open>opens\<close> says it of a descriptor.
  \<^item> \<open>ProducerConsumer\<close>, \<open>UnboundedQueue\<close>: \<^verbatim>\<open>util/pcqueue.hh\<close>, threads as steps of a relation over the shared memory
    and the semaphores. \<open>ThreadedStream\<close>: \<^verbatim>\<open>util/threaded_buffered_stream.hh\<close> in the same way.
  \<^item> \<open>LinePrograms\<close>: \<^verbatim>\<open>dedupe\<close> and \<^verbatim>\<open>preprocess/parallel.hh\<close>, \<^verbatim>\<open>commoncrawl_dedupe\<close>, \<^verbatim>\<open>subtract_lines\<close>,
    \<^verbatim>\<open>remove_long_lines\<close>, \<^verbatim>\<open>remove_invalid_utf8\<close>, \<^verbatim>\<open>remove_invalid_utf8_base64\<close>, \<^verbatim>\<open>order_independent_hash\<close>. A
    program is a step from a state and a line to a state and the items printed; \<open>run_program\<close> is the loop of \<^verbatim>\<open>main\<close>.
  \<^item> \<open>FoldFilter\<close>, \<open>CaptivePrograms\<close>, \<open>DocEnc\<close>, \<open>Warc\<close>: \<^verbatim>\<open>foldfilter\<close>; \<^verbatim>\<open>cache\<close> and \<^verbatim>\<open>b64filter\<close>; \<^verbatim>\<open>docenc\<close>; \<^verbatim>\<open>warc.cc\<close> and
    \<^verbatim>\<open>warc_parallel\<close>. A child process is a parameter, a function from what it is sent to what it answers.
  \<^item> \<open>Vocab\<close>, \<open>Tables\<close>: \<^verbatim>\<open>util/mutable_vocab.cc\<close>, \<^verbatim>\<open>vocab\<close>, \<^verbatim>\<open>truecase\<close>; \<^verbatim>\<open>substitute\<close>, \<^verbatim>\<open>base64_number\<close>.
  \<^item> \<open>Shard\<close>: \<^verbatim>\<open>shard\<close> with the outputs it has, \<^verbatim>\<open>ThreadedBufferedStream<WriteCompressed>\<close>: \<open>shard_step\<close> interleaves the calls
    of \<^verbatim>\<open>main\<close> with the threads of all streams (\<open>ThreadedStream\<close>), \<open>shard_writer\<close> gives their blocks to \<open>CompressWrite\<close>.
  \<^item> \<open>Pools\<close>: \<^verbatim>\<open>util/pool.hh\<close>, \<^verbatim>\<open>object_pool.hh\<close>, \<^verbatim>\<open>fixed_array.hh\<close>.
\<close>

text \<open>
  \<^bold>\<open>Conventions.\<close> An exception is the left side of a result. The result of a computation that may run for ever is an
  option, and \<^term>\<open>None\<close> says that it does, or that what the code does is undefined: \<^verbatim>\<open>RangeFields\<close> over a range whose
  length wraps around, \<^verbatim>\<open>deflate\<close> on a stream whose input was never set, a remainder by 0 outputs; the loops are
  \<open>partial_function (option)\<close>, and every theorem about a program shows that it returns, by giving its result as
  \<^term>\<open>Some\<close>. No fuel is used. Integers have the width of the code; \<open>size_t\<close> counts that the memory bounds are natural
  numbers, with the bound as a hypothesis where it matters (\<open>2 ^ 61\<close> entries of a table, \<open>2 ^ 62\<close> objects of a pool).
  Throwing into a destructor, the order in which threads take turns, and \<^verbatim>\<open>malloc\<close> failing are modelled where the
  texts say so.

  \<^bold>\<open>Interfaces.\<close> \<open>block_mixer\<close> (\<open>MurmurHash\<close>) is the mixing of a block, for both widths; \<open>finder\<close>
  (\<open>TokenizePiece\<close>) the policy of a \<^verbatim>\<open>TokenIter\<close>; \<open>growing_set\<close> (\<open>ProbingHash\<close>) what the programs use of a table of
  hashes, interpreted on the table in \<open>LinePrograms\<close>; \<open>writer\<close> and \<open>ostream\<close> (\<open>Streams\<close>) the writers under a buffer and
  the streams over it; \<open>line_source\<close> and \<open>line_sources\<close> what gives lines, interpreted on \<open>FilePiece\<close>; \<open>number_parser\<close>
  the parsing of numbers in a window; \<open>line_program\<close> (\<open>LinePrograms\<close>) a program whose step implements an abstract
  one, interpreted on every program over lines. What a program prints is proved once in it.

  \<^bold>\<open>What the theorems show.\<close> The library: round trips (\<^verbatim>\<open>base64\<close>, ranges of fields, compressed files, documents, wrapped lines),
  equivalence with a reference (decoding of UTF-8 with the definition of Unicode, integers with decimal
  numerals), refinement (the hash tables of a finite map, also while they double; \<^verbatim>\<open>FilePiece\<close> of a list of lines
  wherever the windows end; streams of a text), safety and progress of the queues and of the threaded stream
  under every interleaving, behaviour on errors, and that the pools keep the memory they give apart. The
  programs: what each prints, as a function of the contents of its input alone. Some theorems are about
  defects: \<^verbatim>\<open>ReadStream\<close> does not return on a truncated bzip2 file, \<^verbatim>\<open>ReadLine\<close> looks behind its
  buffer when the kernel refuses a mapping after it granted others, a gzip \<^verbatim>\<open>WriteCompressed\<close> is not defined when it
  is flushed before a write, nor \<^verbatim>\<open>RangeFields\<close> over the ranges of \<^verbatim>\<open>5-,0\<close>,
  \<^verbatim>\<open>truecase\<close> does not return on a word that is not UTF-8.

  \<^bold>\<open>Not modelled.\<close> \<^verbatim>\<open>double-conversion\<close> is third-party code, and \<^verbatim>\<open>float_to_string\<close>, \<^verbatim>\<open>ReadFloat\<close> and \<^verbatim>\<open>idf\<close> rest on it
  or on floating point. \<^verbatim>\<open>utf8_icu\<close>, \<^verbatim>\<open>process_unicode\<close> and \<^verbatim>\<open>simple_cleaning\<close> are calls of ICU. \<^verbatim>\<open>mmap\<close>, \<^verbatim>\<open>captive_child\<close>,
  opening, renaming and temporary files of \<^verbatim>\<open>file.cc\<close> are calls of the system. \<^verbatim>\<open>train_case\<close> and \<^verbatim>\<open>apply_case\<close> rest
  on \<^verbatim>\<open>boost\<close> and on the order of hash maps; \<^verbatim>\<open>gigaword_unwrap\<close> and \<^verbatim>\<open>mmhsum\<close> on iostreams. \<^verbatim>\<open>exception\<close>, \<^verbatim>\<open>scoped\<close> and
  \<^verbatim>\<open>ersatz_progress\<close> only make messages, release memory or draw a bar. The parsing of command lines
  is left to \<^verbatim>\<open>boost\<close>: options are arguments.
\<close>

end
